(* ===== verification/Prelude.thy ===== *)
theory Prelude
  imports Main "HOL-Library.Word" "HOL-Library.Sublist"
begin

text \<open>
  What every component shares: the error values of the program, results of
  operations that may throw, JavaScript strings as lists of UTF-16 code units,
  and the generic list lemmas the component theories use.
\<close>

named_theorems result_simps \<open>evaluation of sequenced results\<close>
named_theorems js_consts \<open>the code units the program names literally\<close>

section \<open>Errors and results\<close>

text \<open>
  The codes of \<open>VFS_ERROR_CODES\<close> in \<open>src/core/errors.ts\<close>, in the order
  of the source.
\<close>

datatype vfs_error_code =
    EACCES | EBADF | EMFILE | EAGAIN | E2BIG | EEXIST | EFBIG | EINVAL | EIO | EISDIR
  | ENAMETOOLONG | ENOTDIR | ELOOP | ENOTEMPTY | ENOENT | ENOEXEC | ENOSPC | ENOSYS
  | ENOTSUP | EPIPE | EPERM | ETIMEDOUT | ECANCELED | EREVISION

type_synonym jchar = "16 word"
type_synonym jstring = "jchar list"

text \<open>
  What a call can throw: a \<open>VfsError\<close> with its code and its optional path
  (the message text is not modelled), or the errors of the engine and of SQLite.
\<close>

datatype js_error =
    VfsError vfs_error_code "jstring option"
  | RangeError
  | TypeError
  | SqlError

type_synonym 'a result = "js_error + 'a"

abbreviation Throw :: "vfs_error_code \<Rightarrow> 'a result" where
  "Throw code \<equiv> Inl (VfsError code None)"

abbreviation Throw_at :: "vfs_error_code \<Rightarrow> jstring \<Rightarrow> 'a result" where
  "Throw_at code path \<equiv> Inl (VfsError code (Some path))"

definition bindr :: "'a result \<Rightarrow> ('a \<Rightarrow> 'b result) \<Rightarrow> 'b result" where
  "bindr m f = (case m of Inl e \<Rightarrow> Inl e | Inr x \<Rightarrow> f x)"

lemma bindr_simps [simp, result_simps]:
  "bindr (Inl e) f = Inl e"
  "bindr (Inr x) f = f x"
  by (simp_all add: bindr_def)

lemma bindr_cong [fundef_cong]:
  "m = m' \<Longrightarrow> (\<And>x. m' = Inr x \<Longrightarrow> f x = g x) \<Longrightarrow> bindr m f = bindr m' g"
  by (cases m') auto

lemma bindr_Inr_iff: "bindr m f = Inr y \<longleftrightarrow> (\<exists>x. m = Inr x \<and> f x = Inr y)"
  by (cases m) auto

lemma bindr_InrE [elim!]:
  assumes "bindr m f = Inr y"
  obtains x where "m = Inr x" and "f x = Inr y"
  using assms by (auto simp: bindr_Inr_iff)

lemma bindr_assoc: "bindr (bindr m f) g = bindr m (\<lambda>x. bindr (f x) g)"
  by (cases m) auto

definition guardr :: "bool \<Rightarrow> js_error \<Rightarrow> unit result" where
  "guardr ok e = (if ok then Inr () else Inl e)"

lemma guardr_simps [simp, result_simps]:
  "guardr True e = Inr ()"
  "guardr False e = Inl e"
  by (simp_all add: guardr_def)

lemma guardr_Inr [simp]: "guardr ok e = Inr u \<longleftrightarrow> ok"
  by (simp add: guardr_def)

text \<open>A loop that runs a throwing body over a list and collects the results.\<close>

fun map_result :: "('a \<Rightarrow> 'b result) \<Rightarrow> 'a list \<Rightarrow> 'b list result" where
  "map_result f [] = Inr []"
| "map_result f (x # xs) = bindr (f x) (\<lambda>y. bindr (map_result f xs) (\<lambda>ys. Inr (y # ys)))"

lemma map_result_length: "map_result f xs = Inr ys \<Longrightarrow> length ys = length xs"
  by (induction xs arbitrary: ys) auto

lemma map_result_Inr:
  "(\<And>x. x \<in> set xs \<Longrightarrow> f x = Inr (g x)) \<Longrightarrow> map_result f xs = Inr (map g xs)"
  by (induction xs) auto

section \<open>JavaScript strings\<close>

text \<open>
  A JavaScript string is a sequence of UTF-16 code units. \<open>js\<close> embeds an ASCII
  literal; equality of strings (\<open>===\<close>) is equality of lists.
\<close>

definition js :: "string \<Rightarrow> jstring" where
  "js s = map of_char s"

lemma js_Nil [simp]: "js [] = []"
  by (simp add: js_def)

lemma js_Cons [simp]: "js (c # s) = of_char c # js s"
  by (simp add: js_def)

lemma js_append: "js (s @ t) = js s @ js t"
  by (simp add: js_def)

lemma length_js [simp]: "length (js s) = length s"
  by (simp add: js_def)

definition SLASH :: jchar where "SLASH = 0x2f"
definition DOT :: jchar where "DOT = 0x2e"
definition NL :: jchar where "NL = 0x0a"
definition NUL :: jchar where "NUL = 0"

lemmas char_defs [js_consts] = SLASH_def DOT_def NL_def NUL_def

lemma char_distinct [simp]:
  "SLASH \<noteq> DOT" "DOT \<noteq> SLASH" "SLASH \<noteq> NL" "NL \<noteq> SLASH" "DOT \<noteq> NL" "NL \<noteq> DOT"
  "NUL \<noteq> SLASH" "SLASH \<noteq> NUL" "NUL \<noteq> DOT" "DOT \<noteq> NUL"
  by (simp_all add: js_consts)

text \<open>\<open>String.prototype.slice\<close> with non-negative positions.\<close>

definition substring :: "nat \<Rightarrow> nat \<Rightarrow> 'a list \<Rightarrow> 'a list" where
  "substring from to xs = drop from (take to xs)"

lemma substring_all [simp]: "substring 0 (length xs) xs = xs"
  by (simp add: substring_def)

lemma length_substring: "length (substring i j xs) = min j (length xs) - i"
  by (simp add: substring_def)

lemma nth_substring: "k < length (substring i j xs) \<Longrightarrow> substring i j xs ! k = xs ! (i + k)"
proof -
  assume "k < length (substring i j xs)"
  then have "i + k < length (take j xs)"
    unfolding substring_def length_drop by linarith
  then show ?thesis unfolding substring_def by (subst nth_drop) auto
qed

lemma substring_drop: "i \<le> j \<Longrightarrow> substring i j xs @ drop j xs = drop i xs"
proof -
  assume "i \<le> j"
  have "drop i xs = drop i (take j xs @ drop j xs)" by simp
  also have "\<dots> = substring i j xs @ drop j xs"
    unfolding drop_append substring_def using \<open>i \<le> j\<close> by (cases "j \<le> length xs") auto
  finally show ?thesis by simp
qed

lemma substring_append:
  assumes "i \<le> j" "j \<le> k"
  shows "substring i j xs @ substring j k xs = substring i k xs"
proof -
  have "take j xs = take j (take k xs)" using assms(2) by (simp add: min_def)
  then have "substring i j xs = substring i j (take k xs)" by (simp add: substring_def)
  then show ?thesis using substring_drop [OF assms(1), of "take k xs"] by (simp add: substring_def)
qed

lemma substring_to_end: "drop j xs = [] \<Longrightarrow> substring i j xs = drop i xs"
  by (simp add: substring_def)

definition starts_with :: "'a list \<Rightarrow> 'a list \<Rightarrow> bool" where
  "starts_with p s = (take (length p) s = p)"

definition ends_with_char :: "'a \<Rightarrow> 'a list \<Rightarrow> bool" where
  "ends_with_char c s = (s \<noteq> [] \<and> last s = c)"

lemma starts_with_prefix: "starts_with p s \<longleftrightarrow> prefix p s"
  by (auto simp: starts_with_def prefix_def) (metis append_take_drop_id)

lemma starts_with_iff: "starts_with p s \<longleftrightarrow> (\<exists>r. s = p @ r)"
  by (simp add: starts_with_prefix prefix_def)

lemma starts_with_append [simp]: "starts_with p (p @ s)"
  by (simp add: starts_with_def)

lemma starts_with_one [simp]: "starts_with [c] s \<longleftrightarrow> (\<exists>r. s = c # r)"
  by (simp add: starts_with_iff)

lemma ends_with_char_snoc [simp]: "ends_with_char c (s @ [d]) \<longleftrightarrow> d = c"
  by (simp add: ends_with_char_def)

lemma ends_with_char_Nil [simp]: "\<not> ends_with_char c []"
  by (simp add: ends_with_char_def)

lemma ends_with_char_Cons:
  "ends_with_char c (x # s) \<longleftrightarrow> (if s = [] then x = c else ends_with_char c s)"
  by (simp add: ends_with_char_def)

lemma ends_with_charD: "ends_with_char c s \<Longrightarrow> \<exists>r. s = r @ [c]"
  by (auto simp: ends_with_char_def) (metis append_butlast_last_id)

text \<open>\<open>String.prototype.split\<close> on a one-unit separator, and \<open>Array.join\<close> with it.\<close>

fun split_on :: "'a \<Rightarrow> 'a list \<Rightarrow> 'a list list" where
  "split_on c [] = [[]]"
| "split_on c (x # xs) =
     (if x = c then [] # split_on c xs
      else (case split_on c xs of [] \<Rightarrow> [[x]] | seg # segs \<Rightarrow> (x # seg) # segs))"

fun join_with :: "'a list \<Rightarrow> 'a list list \<Rightarrow> 'a list" where
  "join_with sep [] = []"
| "join_with sep [s] = s"
| "join_with sep (s # t # ts) = s @ sep @ join_with sep (t # ts)"

lemma split_on_ne [simp]: "split_on c s \<noteq> []"
  by (induction s) (auto split: list.splits)

lemma split_on_no_sep: "c \<notin> set s \<Longrightarrow> split_on c s = [s]"
  by (induction s) auto

lemma split_on_append_sep:
  "c \<notin> set s \<Longrightarrow> split_on c (s @ c # t) = s # split_on c t"
  by (induction s) auto

lemma split_on_segments: "seg \<in> set (split_on c s) \<Longrightarrow> c \<notin> set seg"
proof (induction s arbitrary: seg)
  case (Cons x xs)
  then show ?case
    by (cases "split_on c xs") (auto split: if_splits)
qed simp

lemma join_with_Cons: "ss \<noteq> [] \<Longrightarrow> join_with sep (s # ss) = s @ sep @ join_with sep ss"
  by (cases ss) auto

lemma join_split [simp]: "join_with [c] (split_on c s) = s"
proof (induction s)
  case (Cons x xs)
  obtain seg segs where seg: "split_on c xs = seg # segs"
    by (cases "split_on c xs") auto
  with Cons show ?case
    by (cases segs) (auto simp: join_with_Cons)
qed simp

lemma split_join:
  "ss \<noteq> [] \<Longrightarrow> (\<forall>s \<in> set ss. c \<notin> set s) \<Longrightarrow> split_on c (join_with [c] ss) = ss"
proof (induction ss)
  case (Cons s ss)
  then show ?case
    by (cases "ss = []") (auto simp: join_with_Cons split_on_no_sep split_on_append_sep)
qed simp

lemma split_on_append:
  "split_on c (s @ t) = butlast (split_on c s) @ (last (split_on c s) @ hd (split_on c t)) # tl (split_on c t)"
proof (induction s)
  case Nil
  then show ?case by (cases "split_on c t") auto
next
  case (Cons x s)
  obtain seg segs where seg: "split_on c s = seg # segs" by (cases "split_on c s") auto
  with Cons show ?case by (cases segs) auto
qed

lemma set_join_with: "set (join_with sep ss) \<subseteq> set sep \<union> (\<Union>s \<in> set ss. set s)"
  by (induction sep ss rule: join_with.induct) auto

section \<open>Decimal numerals\<close>

text \<open>\<open>String(n)\<close> of a non-negative integer, and the value of a string of digits.\<close>

definition digit_char :: "nat \<Rightarrow> jchar" where
  "digit_char d = of_nat (48 + d)"

definition is_digit :: "jchar \<Rightarrow> bool" where
  "is_digit c \<longleftrightarrow> 48 \<le> c \<and> c \<le> 57"

fun js_nat :: "nat \<Rightarrow> jstring" where
  "js_nat n = (if n < 10 then [digit_char n] else js_nat (n div 10) @ [digit_char (n mod 10)])"

declare js_nat.simps [simp del]

definition digits_value :: "jstring \<Rightarrow> nat" where
  "digits_value ds = foldl (\<lambda>acc c. 10 * acc + (unat c - 48)) 0 ds"

lemma unat_digit_char [simp]: "d < 10 \<Longrightarrow> unat (digit_char d) = 48 + d"
  by (simp add: digit_char_def unsigned_of_nat take_bit_nat_eq_self del: of_nat_add)

lemma is_digit_digit_char [simp]: "d < 10 \<Longrightarrow> is_digit (digit_char d)"
  by (simp add: is_digit_def word_le_nat_alt)

lemma js_nat_digits [simp]: "\<forall>c \<in> set (js_nat n). is_digit c"
proof (induction n rule: js_nat.induct)
  case (1 n)
  then show ?case by (subst js_nat.simps) auto
qed

lemma js_nat_nonempty [simp]: "js_nat n \<noteq> []"
  by (subst js_nat.simps) simp

lemma digits_value_snoc: "digits_value (ds @ [c]) = 10 * digits_value ds + (unat c - 48)"
  by (simp add: digits_value_def)

lemma digits_value_js_nat [simp]: "digits_value (js_nat n) = n"
proof (induction n rule: js_nat.induct)
  case (1 n)
  show ?case
  proof (cases "n < 10")
    case True
    then show ?thesis by (subst js_nat.simps) (simp add: digits_value_def)
  next
    case False
    with 1 show ?thesis by (subst js_nat.simps) (simp add: digits_value_snoc)
  qed
qed

text \<open>\<open>Number.MAX_SAFE_INTEGER\<close>.\<close>

definition MAX_SAFE_INTEGER :: nat where
  "MAX_SAFE_INTEGER = 2 ^ 53 - 1"

section \<open>Generic lemmas\<close>

lemma drop_eq_nth_Cons: "i < length xs \<Longrightarrow> drop i xs = xs ! i # drop (Suc i) xs"
  by (simp add: Cons_nth_drop_Suc)

lemma concat_map_append: "concat (map (\<lambda>x. f x) xs) @ ys = foldr (\<lambda>x acc. f x @ acc) xs ys"
  by (induction xs) auto

end
