(* ===== verification/Line_Diff.thy ===== *)
theory Line_Diff
  imports Prelude
begin

text \<open>
  The line diff of \<open>src/core/lines.ts\<close> and \<open>src/core/line-diff.ts\<close>: splitting a
  text into lines that keep their newline, the table of longest common
  subsequence lengths, the operations read off it, and the diff of two texts
  after their common leading and trailing lines have been set aside.

  \<open>lcs_len\<close> is the reference definition the table is checked against. The
  theorems say that the operations spell out both texts, that they are
  numbered consecutively, that the table size is the only reason to fail, and
  that no common subsequence of the lines is longer than the number of lines
  the diff keeps.
\<close>

section \<open>Lines\<close>

function splitLinesPreservingEndings :: "jstring \<Rightarrow> jstring list" where
  "splitLinesPreservingEndings t =
     (case dropWhile (\<lambda>c. c \<noteq> NL) t of
        [] \<Rightarrow> (if t = [] then [] else [t])
      | nl # rest \<Rightarrow> (takeWhile (\<lambda>c. c \<noteq> NL) t @ [nl]) # splitLinesPreservingEndings rest)"
  by pat_completeness auto
termination
proof (relation "measure length", goal_cases)
  case (2 t nl rest)
  have "length (dropWhile (\<lambda>c. c \<noteq> NL) t) \<le> length t"
    by (rule length_dropWhile_le)
  with 2 show ?case by simp
qed simp

declare splitLinesPreservingEndings.simps [simp del]

lemma split_lines_Nil [simp]: "splitLinesPreservingEndings [] = []"
  by (subst splitLinesPreservingEndings.simps) simp

lemma takeWhile_dropWhile_newline:
  assumes "NL \<notin> set s"
  shows "takeWhile (\<lambda>c. c \<noteq> NL) (s @ NL # t) = s" "dropWhile (\<lambda>c. c \<noteq> NL) (s @ NL # t) = NL # t"
    "dropWhile (\<lambda>c. c \<noteq> NL) s = []"
  using assms by (induction s) auto

lemma split_lines_newline:
  "NL \<notin> set s \<Longrightarrow> splitLinesPreservingEndings (s @ NL # t) = (s @ [NL]) # splitLinesPreservingEndings t"
  by (subst splitLinesPreservingEndings.simps) (simp add: takeWhile_dropWhile_newline)

lemma split_lines_last:
  "NL \<notin> set s \<Longrightarrow> s \<noteq> [] \<Longrightarrow> splitLinesPreservingEndings s = [s]"
  by (subst splitLinesPreservingEndings.simps) (simp add: takeWhile_dropWhile_newline)

text \<open>Every text is empty, one unterminated line, or a terminated line and a rest.\<close>

lemma line_cases [case_names Nil Last Newline]:
  obtains "w = []"
  | "w \<noteq> []" "NL \<notin> set w"
  | s t where "w = s @ NL # t" "NL \<notin> set s"
  by (metis split_list_first)

lemma line_induct [case_names Nil Last Newline]:
  assumes "P []" and "\<And>w. w \<noteq> [] \<Longrightarrow> NL \<notin> set w \<Longrightarrow> P w"
    and "\<And>s t. NL \<notin> set s \<Longrightarrow> P t \<Longrightarrow> P (s @ NL # t)"
  shows "P w"
proof (induction w rule: length_induct)
  case (1 w)
  show ?case
    by (cases w rule: line_cases) (use 1 assms in auto)
qed

lemma concat_split_lines [simp]: "concat (splitLinesPreservingEndings w) = w"
  by (induction w rule: line_induct) (simp_all add: split_lines_newline split_lines_last)

text \<open>A list of lines is what splitting produces: all but the last end with the only newline they hold.\<close>

definition terminated_line :: "jstring \<Rightarrow> bool" where
  "terminated_line l = (\<exists>s. l = s @ [NL] \<and> NL \<notin> set s)"

definition unterminated_line :: "jstring \<Rightarrow> bool" where
  "unterminated_line l = (l \<noteq> [] \<and> NL \<notin> set l)"

fun line_list :: "jstring list \<Rightarrow> bool" where
  "line_list [] = True"
| "line_list [l] = (terminated_line l \<or> unterminated_line l)"
| "line_list (l # m # ls) = (terminated_line l \<and> line_list (m # ls))"

lemma line_list_Cons:
  "line_list (l # ls) \<longleftrightarrow>
     (if ls = [] then terminated_line l \<or> unterminated_line l else terminated_line l \<and> line_list ls)"
  by (cases ls) auto

lemma line_list_split [simp]: "line_list (splitLinesPreservingEndings w)"
  by (induction w rule: line_induct)
     (auto simp: split_lines_newline split_lines_last line_list_Cons
                 terminated_line_def unterminated_line_def)

lemma split_lines_concat: "line_list ls \<Longrightarrow> splitLinesPreservingEndings (concat ls) = ls"
proof (induction ls)
  case (Cons l ls)
  then show ?case
    by (cases "ls = []")
       (auto simp: line_list_Cons terminated_line_def unterminated_line_def
                   split_lines_newline split_lines_last)
qed simp

lemma line_list_append:
  "line_list (xs @ ys) \<longleftrightarrow> (if ys = [] then line_list xs
     else (\<forall>l \<in> set xs. terminated_line l) \<and> line_list ys)"
  by (induction xs) (auto simp: line_list_Cons)

lemma line_list_nonempty: "line_list ls \<Longrightarrow> l \<in> set ls \<Longrightarrow> l \<noteq> []"
  by (induction ls) (auto simp: line_list_Cons terminated_line_def unterminated_line_def split: if_splits)

section \<open>Diff operations\<close>

datatype diff_kind = Equal | Delete | Insert

record LineDiffOperation =
  op_kind :: diff_kind
  op_text :: jstring
  oldLine :: nat
  newLine :: nat

record LineDiff =
  changes :: nat
  operations :: "LineDiffOperation list"

definition MAX_LCS_CELLS :: nat where
  "MAX_LCS_CELLS = 1000000"

definition lineAt :: "jstring list \<Rightarrow> nat \<Rightarrow> jstring result" where
  "lineAt lines index = (if index < length lines then Inr (lines ! index) else Inl RangeError)"

definition equalOperation :: "jstring \<Rightarrow> nat \<Rightarrow> nat \<Rightarrow> LineDiffOperation" where
  "equalOperation txt old new = \<lparr>op_kind = Equal, op_text = txt, oldLine = old, newLine = new\<rparr>"

definition cellAt :: "nat list \<Rightarrow> nat \<Rightarrow> nat result" where
  "cellAt cells index = (if index < length cells then Inr (cells ! index) else Inl RangeError)"

lemma lineAt_simps [simp, result_simps]:
  "i < length ls \<Longrightarrow> lineAt ls i = Inr (ls ! i)"
  "\<not> i < length ls \<Longrightarrow> lineAt ls i = Inl RangeError"
  by (simp_all add: lineAt_def)

lemma lineAt_Inr: "lineAt ls i = Inr l \<longleftrightarrow> i < length ls \<and> l = ls ! i"
  by (auto simp: lineAt_def)

lemma cellAt_simps [simp, result_simps]:
  "i < length cs \<Longrightarrow> cellAt cs i = Inr (cs ! i)"
  by (simp_all add: cellAt_def)

text \<open>
  The two nested loops of \<open>lcsLengths\<close> count down, so each is a recursion on the
  number of indices left; \<open>lengths[index] = v\<close> is a list update. The cells are
  unsigned 32-bit; no value exceeds the number of lines (\<open>lcs_len_le\<close>), so nothing wraps.
\<close>

fun lcs_row :: "jstring list \<Rightarrow> jstring list \<Rightarrow> nat \<Rightarrow> nat \<Rightarrow> nat \<Rightarrow> nat list \<Rightarrow> nat list result" where
  "lcs_row before after columns left 0 lengths = Inr lengths"
| "lcs_row before after columns left (Suc right) lengths =
     (let index = left * columns + right in
      bindr (lineAt before left) (\<lambda>l. bindr (lineAt after right) (\<lambda>r.
      bindr (if l = r
             then bindr (cellAt lengths ((left + 1) * columns + right + 1)) (\<lambda>c. Inr (c + 1))
             else bindr (cellAt lengths ((left + 1) * columns + right)) (\<lambda>c.
                  bindr (cellAt lengths (index + 1)) (\<lambda>d. Inr (max c d)))) (\<lambda>v.
      lcs_row before after columns left right (lengths[index := v])))))"

fun lcs_rows :: "jstring list \<Rightarrow> jstring list \<Rightarrow> nat \<Rightarrow> nat \<Rightarrow> nat list \<Rightarrow> nat list result" where
  "lcs_rows before after columns 0 lengths = Inr lengths"
| "lcs_rows before after columns (Suc left) lengths =
     bindr (lcs_row before after columns left (length after) lengths)
       (\<lambda>filled. lcs_rows before after columns left filled)"

definition lcsLengths :: "jstring list \<Rightarrow> jstring list \<Rightarrow> nat list result" where
  "lcsLengths before after =
     (let columns = length after + 1; cells = (length before + 1) * columns in
      if cells > MAX_LCS_CELLS then Throw E2BIG
      else lcs_rows before after columns (length before) (replicate cells 0))"

definition shouldDelete :: "nat list \<Rightarrow> nat \<Rightarrow> nat \<Rightarrow> nat \<Rightarrow> nat \<Rightarrow> bool result" where
  "shouldDelete lengths columns left right afterLength =
     (if right \<ge> afterLength then Inr True
      else bindr (cellAt lengths ((left + 1) * columns + right)) (\<lambda>c.
           bindr (cellAt lengths (left * columns + right + 1)) (\<lambda>d. Inr (c \<ge> d))))"

text \<open>The \<open>while\<close> loop of \<open>lineOperations\<close>; \<open>left\<close> or \<open>right\<close> grows in every round.\<close>

function line_operations_from ::
  "jstring list \<Rightarrow> jstring list \<Rightarrow> nat list \<Rightarrow> nat \<Rightarrow> nat \<Rightarrow> nat \<Rightarrow> nat \<Rightarrow> LineDiffOperation list result" where
  "line_operations_from before after lengths oldOffset newOffset left right =
     (if left < length before \<or> right < length after then
        if left < length before \<and> right < length after \<and> before ! left = after ! right then
          bindr (lineAt before left) (\<lambda>txt.
          bindr (line_operations_from before after lengths oldOffset newOffset (left + 1) (right + 1)) (\<lambda>ops.
          Inr (equalOperation txt (oldOffset + left + 1) (newOffset + right + 1) # ops)))
        else
          bindr (if left < length before
                 then shouldDelete lengths (length after + 1) left right (length after)
                 else Inr False) (\<lambda>del.
          if del then
            bindr (lineAt before left) (\<lambda>txt.
            bindr (line_operations_from before after lengths oldOffset newOffset (left + 1) right) (\<lambda>ops.
            Inr (\<lparr>op_kind = Delete, op_text = txt, oldLine = oldOffset + left + 1,
                   newLine = newOffset + right + 1\<rparr> # ops)))
          else
            bindr (lineAt after right) (\<lambda>txt.
            bindr (line_operations_from before after lengths oldOffset newOffset left (right + 1)) (\<lambda>ops.
            Inr (\<lparr>op_kind = Insert, op_text = txt, oldLine = oldOffset + left + 1,
                   newLine = newOffset + right + 1\<rparr> # ops))))
      else Inr [])"
  by pat_completeness auto
termination
  by (relation "measure (\<lambda>(before, after, _, _, _, left, right).
        (length before - left) + (length after - right))")
     (auto simp: lineAt_Inr)

declare line_operations_from.simps [simp del]

definition lineOperations ::
  "jstring list \<Rightarrow> jstring list \<Rightarrow> nat \<Rightarrow> nat \<Rightarrow> LineDiffOperation list result" where
  "lineOperations before after oldOffset newOffset =
     bindr (lcsLengths before after) (\<lambda>lengths.
     line_operations_from before after lengths oldOffset newOffset 0 0)"

text \<open>The two \<open>while\<close> loops of \<open>createLineDiff\<close> that measure the shared ends.\<close>

function common_prefix_from :: "jstring list \<Rightarrow> jstring list \<Rightarrow> nat \<Rightarrow> nat \<Rightarrow> nat" where
  "common_prefix_from before after shared pre =
     (if pre < shared \<and> before ! pre = after ! pre
      then common_prefix_from before after shared (pre + 1) else pre)"
  by pat_completeness auto
termination
  by (relation "measure (\<lambda>(_, _, shared, pre). shared - pre)") auto

function common_suffix_from :: "jstring list \<Rightarrow> jstring list \<Rightarrow> nat \<Rightarrow> nat \<Rightarrow> nat" where
  "common_suffix_from before after limit suf =
     (if suf < limit \<and>
         before ! (length before - suf - 1) = after ! (length after - suf - 1)
      then common_suffix_from before after limit (suf + 1) else suf)"
  by pat_completeness auto
termination
  by (relation "measure (\<lambda>(_, _, limit, suf). limit - suf)") auto

declare common_prefix_from.simps [simp del] common_suffix_from.simps [simp del]

definition createLineDiff :: "jstring \<Rightarrow> jstring \<Rightarrow> LineDiff result" where
  "createLineDiff before after =
     (if before = after then Inr \<lparr>changes = 0, operations = []\<rparr> else
      let beforeLines = splitLinesPreservingEndings before;
          afterLines = splitLinesPreservingEndings after;
          shared = min (length beforeLines) (length afterLines);
          pre = common_prefix_from beforeLines afterLines shared 0;
          suf = common_suffix_from beforeLines afterLines (shared - pre) 0
      in
      bindr (map_result (\<lambda>index. bindr (lineAt beforeLines index) (\<lambda>txt.
               Inr (equalOperation txt (index + 1) (index + 1)))) [0..<pre]) (\<lambda>leading.
      bindr (lineOperations
               (substring pre (length beforeLines - suf) beforeLines)
               (substring pre (length afterLines - suf) afterLines) pre pre) (\<lambda>middle.
      bindr (map_result (\<lambda>index. bindr (lineAt beforeLines (length beforeLines - suf + index)) (\<lambda>txt.
               Inr (equalOperation txt (length beforeLines - suf + index + 1)
                      (length afterLines - suf + index + 1)))) [0..<suf]) (\<lambda>trailing.
      let ops = leading @ middle @ trailing in
      Inr \<lparr>changes = length (filter (\<lambda>operation. op_kind operation \<noteq> Equal) ops),
           operations = ops\<rparr>))))"

section \<open>The table of common subsequence lengths\<close>

fun lcs_len :: "'a list \<Rightarrow> 'a list \<Rightarrow> nat" where
  "lcs_len [] ys = 0"
| "lcs_len xs [] = 0"
| "lcs_len (x # xs) (y # ys) =
     (if x = y then lcs_len xs ys + 1 else max (lcs_len xs (y # ys)) (lcs_len (x # xs) ys))"

lemma lcs_len_Nil2 [simp]: "lcs_len xs [] = 0"
  by (cases xs) auto

lemma lcs_len_le: "lcs_len xs ys \<le> length xs \<and> lcs_len xs ys \<le> length ys"
  by (induction xs ys rule: lcs_len.induct) auto

lemma subseq_lcs_len: "subseq zs xs \<Longrightarrow> subseq zs ys \<Longrightarrow> length zs \<le> lcs_len xs ys"
proof (induction xs ys arbitrary: zs rule: lcs_len.induct)
  case (3 x xs y ys)
  show ?case
  proof (cases zs)
    case (Cons z zs')
    show ?thesis
    proof (cases "x = y")
      case True
      with 3(1)[OF True, of zs'] 3(1)[OF True, of zs] "3.prems" Cons show ?thesis
        by (cases "z = x") auto
    next
      case False
      show ?thesis
      proof (cases "z = x")
        case True
        with "3.prems" Cons False have "length zs \<le> lcs_len (x # xs) ys"
          by (intro "3.IH"(3)) auto
        with False show ?thesis by simp
      next
        case neq: False
        with "3.prems" Cons False have "length zs \<le> lcs_len xs (y # ys)"
          by (intro "3.IH"(2)) auto
        with False show ?thesis by simp
      qed
    qed
  qed simp
qed auto

lemma cell_less: "i < n \<Longrightarrow> j < c \<Longrightarrow> i * c + j < n * (c::nat)"
proof -
  assume "i < n" "j < c"
  then have "i * c + j < (i + 1) * c" by simp
  also have "\<dots> \<le> n * c" using \<open>i < n\<close> by (intro mult_le_mono) auto
  finally show ?thesis .
qed

lemma cell_inject:
  assumes "j < c" "j' < (c::nat)"
  shows "i * c + j = i' * c + j' \<longleftrightarrow> i = i' \<and> j = j'"
proof
  assume eq: "i * c + j = i' * c + j'"
  have "(i * c + j) div c = i" "(i' * c + j') div c = i'"
    using assms by auto
  with eq show "i = i' \<and> j = j'" by simp
qed simp

text \<open>Rows below \<open>left\<close> are done, as are the cells of row \<open>left\<close> from \<open>right\<close> on, and the last column.\<close>

definition lcs_filled :: "jstring list \<Rightarrow> jstring list \<Rightarrow> nat \<Rightarrow> nat \<Rightarrow> nat \<Rightarrow> nat list \<Rightarrow> bool" where
  "lcs_filled before after columns left right lengths \<longleftrightarrow>
     length lengths = (length before + 1) * columns \<and>
     (\<forall>i < length before + 1. \<forall>j < columns.
        left < i \<or> i = left \<and> right \<le> j \<or> j = length after \<longrightarrow>
        lengths ! (i * columns + j) = lcs_len (drop i before) (drop j after))"

lemma lcs_filledD:
  "lcs_filled before after columns left right lengths \<Longrightarrow> i < length before + 1 \<Longrightarrow> j < columns \<Longrightarrow>
   left < i \<or> i = left \<and> right \<le> j \<or> j = length after \<Longrightarrow>
   cellAt lengths (i * columns + j) = Inr (lcs_len (drop i before) (drop j after))"
  using cell_less [of i "length before + 1" j columns]
  unfolding lcs_filled_def cellAt_def by metis

lemma lcs_len_step:
  assumes "i < length xs" "j < length ys"
  shows "lcs_len (drop i xs) (drop j ys) =
    (if xs ! i = ys ! j then lcs_len (drop (i + 1) xs) (drop (j + 1) ys) + 1
     else max (lcs_len (drop (i + 1) xs) (drop j ys)) (lcs_len (drop i xs) (drop (j + 1) ys)))"
  using drop_eq_nth_Cons [OF assms(1)] drop_eq_nth_Cons [OF assms(2)] by simp

lemma lcs_filled_update:
  assumes "lcs_filled before after columns left (Suc right) lengths" "right < columns"
    "left < length before + 1"
  shows "lcs_filled before after columns left right
    (lengths[left * columns + right := lcs_len (drop left before) (drop right after)])"
  unfolding lcs_filled_def
proof (intro conjI allI impI)
  show "length (lengths[left * columns + right := lcs_len (drop left before) (drop right after)]) =
      (length before + 1) * columns"
    using assms(1) by (simp add: lcs_filled_def)
next
  fix i j
  assume ij: "i < length before + 1" "j < columns"
    and pos: "left < i \<or> i = left \<and> right \<le> j \<or> j = length after"
  have len: "left * columns + right < length lengths"
    using assms cell_less [of left "length before + 1" right columns] by (simp add: lcs_filled_def)
  show "lengths[left * columns + right := lcs_len (drop left before) (drop right after)] !
      (i * columns + j) = lcs_len (drop i before) (drop j after)"
  proof (cases "i = left \<and> j = right")
    case True
    with len show ?thesis by simp
  next
    case False
    with cell_inject [OF ij(2) assms(2), of i left] pos ij assms(1)
    show ?thesis by (auto simp: lcs_filled_def not_less_eq_eq le_Suc_eq)
  qed
qed

lemma lcs_row_filled:
  assumes "left < length before" "columns = length after + 1"
  shows "right \<le> length after \<Longrightarrow> lcs_filled before after columns left right lengths \<Longrightarrow>
    \<exists>filled. lcs_row before after columns left right lengths = Inr filled \<and>
             lcs_filled before after columns left 0 filled"
proof (induction right arbitrary: lengths)
  case (Suc right)
  let ?v = "lcs_len (drop left before) (drop right after)"
  let ?L = "lengths[left * columns + right := ?v]"
  have r: "right < length after" using Suc.prems(1) by simp
  have cell1: "cellAt lengths ((left + 1) * columns + (right + 1)) = Inr (lcs_len (drop (left + 1) before) (drop (right + 1) after))"
    by (rule lcs_filledD [OF Suc.prems(2)]) (use assms r in auto)
  have cell2: "cellAt lengths ((left + 1) * columns + right) = Inr (lcs_len (drop (left + 1) before) (drop right after))"
    by (rule lcs_filledD [OF Suc.prems(2)]) (use assms r in auto)
  have cell3: "cellAt lengths (left * columns + (right + 1)) = Inr (lcs_len (drop left before) (drop (right + 1) after))"
    by (rule lcs_filledD [OF Suc.prems(2)]) (use assms r in auto)
  note cells = cell1 cell2 cell3
  have filled: "lcs_filled before after columns left right ?L"
    using lcs_filled_update [OF Suc.prems(2)] assms r by simp
  obtain final where final: "lcs_row before after columns left right ?L = Inr final"
      "lcs_filled before after columns left 0 final"
    using Suc.IH [OF _ filled] r by auto
  have "lcs_row before after columns left (Suc right) lengths = lcs_row before after columns left right ?L"
    using cells assms(1) r lcs_len_step [OF assms(1) r]
    by (simp add: add.assoc del: add_mult_distrib)
  with final show ?case by auto
qed auto

lemma lcs_filled_next:
  assumes "lcs_filled before after columns (Suc left) 0 lengths" "columns = length after + 1"
  shows "lcs_filled before after columns left (length after) lengths"
proof -
  have "Suc left < i \<or> i = Suc left \<and> 0 \<le> j \<or> j = length after"
    if "j < columns" "left < i \<or> i = left \<and> length after \<le> j \<or> j = length after" for i j
    using that assms(2) by auto
  with assms(1) show ?thesis unfolding lcs_filled_def by blast
qed

lemma lcs_rows_filled:
  assumes "columns = length after + 1"
  shows "left \<le> length before \<Longrightarrow> lcs_filled before after columns left 0 lengths \<Longrightarrow>
    \<exists>filled. lcs_rows before after columns left lengths = Inr filled \<and>
             lcs_filled before after columns 0 0 filled"
proof (induction left arbitrary: lengths)
  case (Suc left)
  have "lcs_filled before after columns left (length after) lengths"
    by (rule lcs_filled_next [OF Suc.prems(2) assms])
  then obtain row where row: "lcs_row before after columns left (length after) lengths = Inr row"
      "lcs_filled before after columns left 0 row"
    using lcs_row_filled [OF _ assms order_refl, of left before lengths] Suc.prems(1) by auto
  with Suc show ?case by simp
qed auto

lemma lcs_filled_initial:
  assumes "columns = length after + 1"
  shows "lcs_filled before after columns (length before) 0 (replicate ((length before + 1) * columns) 0)"
  unfolding lcs_filled_def
proof (intro conjI allI impI)
  fix i j
  assume ij: "i < length before + 1" "j < columns"
    and "length before < i \<or> i = length before \<and> 0 \<le> j \<or> j = length after"
  then have "lcs_len (drop i before) (drop j after) = 0" by auto
  then show "replicate ((length before + 1) * columns) 0 ! (i * columns + j) = lcs_len (drop i before) (drop j after)"
    by (simp only: nth_replicate [OF cell_less [OF ij]])
qed simp

text \<open>The table is right wherever it fits, and its size is the only reason to refuse.\<close>

lemma lcsLengths_cases:
  "if (length before + 1) * (length after + 1) > MAX_LCS_CELLS
   then lcsLengths before after = Throw E2BIG
   else \<exists>lengths. lcsLengths before after = Inr lengths \<and>
          lcs_filled before after (length after + 1) 0 0 lengths"
  using lcs_rows_filled [OF refl order_refl lcs_filled_initial [OF refl], of before after]
  by (simp add: lcsLengths_def Let_def del: add_mult_distrib mult_Suc mult_Suc_right)

section \<open>The operations spell out both texts\<close>

definition old_lines :: "LineDiffOperation list \<Rightarrow> jstring list" where
  "old_lines ops = map op_text (filter (\<lambda>p. op_kind p \<noteq> Insert) ops)"

definition new_lines :: "LineDiffOperation list \<Rightarrow> jstring list" where
  "new_lines ops = map op_text (filter (\<lambda>p. op_kind p \<noteq> Delete) ops)"

definition kept :: "LineDiffOperation list \<Rightarrow> nat" where
  "kept ops = length (filter (\<lambda>p. op_kind p = Equal) ops)"

fun numbered :: "nat \<Rightarrow> nat \<Rightarrow> LineDiffOperation list \<Rightarrow> bool" where
  "numbered old new [] = True"
| "numbered old new (p # ops) =
     (oldLine p = old + 1 \<and> newLine p = new + 1 \<and>
      numbered (if op_kind p = Insert then old else old + 1)
               (if op_kind p = Delete then new else new + 1) ops)"

lemma sides_simps [simp]:
  "old_lines [] = []" "new_lines [] = []" "kept [] = 0"
  "old_lines (p # ops) = (if op_kind p = Insert then old_lines ops else op_text p # old_lines ops)"
  "new_lines (p # ops) = (if op_kind p = Delete then new_lines ops else op_text p # new_lines ops)"
  "kept (p # ops) = (if op_kind p = Equal then kept ops + 1 else kept ops)"
  by (simp_all add: old_lines_def new_lines_def kept_def)

lemma sides_append [simp]:
  "old_lines (xs @ ys) = old_lines xs @ old_lines ys"
  "new_lines (xs @ ys) = new_lines xs @ new_lines ys"
  "kept (xs @ ys) = kept xs + kept ys"
  by (simp_all add: old_lines_def new_lines_def kept_def)

lemma equalOperation_simps [simp]:
  "op_kind (equalOperation t i j) = Equal" "op_text (equalOperation t i j) = t"
  "oldLine (equalOperation t i j) = i" "newLine (equalOperation t i j) = j"
  by (simp_all add: equalOperation_def)

lemma numbered_append:
  "numbered old new (xs @ ys) \<longleftrightarrow>
     numbered old new xs \<and> numbered (old + length (old_lines xs)) (new + length (new_lines xs)) ys"
  by (induction xs arbitrary: old new) (auto split: if_splits)

lemma shouldDelete_filled:
  assumes "lcs_filled before after (length after + 1) 0 0 lengths"
    "left < length before" "right \<le> length after"
  shows "shouldDelete lengths (length after + 1) left right (length after) =
    Inr (right = length after \<or>
         lcs_len (drop left before) (drop (right + 1) after) \<le> lcs_len (drop (left + 1) before) (drop right after))"
proof (cases "right = length after")
  case False
  have cell2: "cellAt lengths ((left + 1) * (length after + 1) + right) = Inr (lcs_len (drop (left + 1) before) (drop right after))"
    by (rule lcs_filledD [OF assms(1)]) (use assms in auto)
  have cell3: "cellAt lengths (left * (length after + 1) + (right + 1)) = Inr (lcs_len (drop left before) (drop (right + 1) after))"
    by (rule lcs_filledD [OF assms(1)]) (use assms False in auto)
  show ?thesis
    using False assms(3) cell2 cell3 unfolding shouldDelete_def by (simp add: add.assoc)
qed (simp add: shouldDelete_def)

definition diff_of :: "jstring list \<Rightarrow> jstring list \<Rightarrow> nat \<Rightarrow> nat \<Rightarrow> LineDiffOperation list \<Rightarrow> bool" where
  "diff_of before after old new ops \<longleftrightarrow>
     old_lines ops = before \<and> new_lines ops = after \<and> numbered old new ops \<and>
     kept ops = lcs_len before after"

lemma line_operations_from_ok:
  assumes "lcs_filled before after (length after + 1) 0 0 lengths"
  shows "left \<le> length before \<Longrightarrow> right \<le> length after \<Longrightarrow>
    \<exists>ops. line_operations_from before after lengths oldOffset newOffset left right = Inr ops \<and>
      diff_of (drop left before) (drop right after) (oldOffset + left) (newOffset + right) ops"
  using assms
proof (induction before after lengths oldOffset newOffset left right rule: line_operations_from.induct)
  case (1 before after lengths oldOffset newOffset left right)
  note unfold = line_operations_from.simps [of before after lengths oldOffset newOffset left right]
  consider (finish) "left = length before" "right = length after"
    | (equal) "left < length before" "right < length after" "before ! left = after ! right"
    | (delete) "left < length before" "\<not> (right < length after \<and> before ! left = after ! right)"
        "right = length after \<or>
         lcs_len (drop left before) (drop (right + 1) after) \<le> lcs_len (drop (left + 1) before) (drop right after)"
    | (insert) "right < length after" "\<not> (left < length before \<and> before ! left = after ! right)"
        "left < length before \<longrightarrow>
         \<not> lcs_len (drop left before) (drop (right + 1) after) \<le> lcs_len (drop (left + 1) before) (drop right after)"
    using "1.prems" by linarith
  then show ?case
  proof cases
    case finish
    then show ?thesis by (simp add: line_operations_from.simps diff_of_def)
  next
    case equal
    then obtain ops where "line_operations_from before after lengths oldOffset newOffset (left + 1) (right + 1) = Inr ops"
      "diff_of (drop (left + 1) before) (drop (right + 1) after) (oldOffset + left + 1) (newOffset + right + 1) ops"
      using "1.IH"(1) "1.prems" by fastforce
    with equal drop_eq_nth_Cons [of left before] drop_eq_nth_Cons [of right after]
    show ?thesis by (simp add: unfold diff_of_def)
  next
    case delete
    have del: "(if left < length before then shouldDelete lengths (length after + 1) left right (length after)
        else Inr False) = Inr True"
      using delete shouldDelete_filled [OF "1.prems"(3) delete(1) "1.prems"(2)] by simp
    have "\<exists>ops. line_operations_from before after lengths oldOffset newOffset (left + 1) right = Inr ops \<and>
      diff_of (drop (left + 1) before) (drop right after) (oldOffset + (left + 1)) (newOffset + right) ops"
      by (rule "1.IH"(2) [OF _ _ del TrueI lineAt_simps(1) [OF delete(1)] _ "1.prems"(2,3)])
         (use delete in auto)
    then obtain ops where ops: "line_operations_from before after lengths oldOffset newOffset (left + 1) right = Inr ops"
      "diff_of (drop (left + 1) before) (drop right after) (oldOffset + (left + 1)) (newOffset + right) ops"
      by blast
    have lcs: "lcs_len (drop left before) (drop right after) = lcs_len (drop (left + 1) before) (drop right after)"
    proof (cases "right = length after")
      case False
      with delete "1.prems"(2) lcs_len_step [OF delete(1), of right after] show ?thesis by auto
    qed simp
    have "line_operations_from before after lengths oldOffset newOffset left right =
      Inr (\<lparr>op_kind = Delete, op_text = before ! left, oldLine = oldOffset + left + 1,
            newLine = newOffset + right + 1\<rparr> # ops)"
      by (subst unfold) (use delete ops(1) del in auto)
    with ops(2) lcs show ?thesis
      unfolding diff_of_def drop_eq_nth_Cons [OF delete(1)] by auto
  next
    case insert
    have del: "(if left < length before then shouldDelete lengths (length after + 1) left right (length after)
        else Inr False) = Inr False"
      using insert shouldDelete_filled [OF "1.prems"(3) _ "1.prems"(2)] by auto
    have "\<exists>ops. line_operations_from before after lengths oldOffset newOffset left (right + 1) = Inr ops \<and>
      diff_of (drop left before) (drop (right + 1) after) (oldOffset + left) (newOffset + (right + 1)) ops"
      by (rule "1.IH"(3) [OF _ _ del not_False_eq_True [THEN iffD2, OF TrueI] lineAt_simps(1) [OF insert(1)] "1.prems"(1) _ "1.prems"(3)])
         (use insert in auto)
    then obtain ops where ops: "line_operations_from before after lengths oldOffset newOffset left (right + 1) = Inr ops"
      "diff_of (drop left before) (drop (right + 1) after) (oldOffset + left) (newOffset + (right + 1)) ops"
      by blast
    have lcs: "lcs_len (drop left before) (drop right after) = lcs_len (drop left before) (drop (right + 1) after)"
    proof (cases "left < length before")
      case True
      with insert lcs_len_step [OF True insert(1)] show ?thesis by auto
    qed simp
    have "line_operations_from before after lengths oldOffset newOffset left right =
      Inr (\<lparr>op_kind = Insert, op_text = after ! right, oldLine = oldOffset + left + 1,
            newLine = newOffset + right + 1\<rparr> # ops)"
      by (subst unfold) (use insert ops(1) del in auto)
    with ops(2) lcs show ?thesis
      unfolding diff_of_def drop_eq_nth_Cons [OF insert(1)] by auto
  qed
qed

lemma lineOperations_cases:
  "if (length before + 1) * (length after + 1) > MAX_LCS_CELLS
   then lineOperations before after old new = Throw E2BIG
   else \<exists>ops. lineOperations before after old new = Inr ops \<and> diff_of before after old new ops"
proof (cases "(length before + 1) * (length after + 1) > MAX_LCS_CELLS")
  case True
  with lcsLengths_cases [of before after] show ?thesis
    unfolding lineOperations_def by (simp only: if_True bindr_simps)
next
  case False
  with lcsLengths_cases [of before after] obtain lengths where
    "lcsLengths before after = Inr lengths" "lcs_filled before after (length after + 1) 0 0 lengths"
    by (auto simp only: if_False)
  with line_operations_from_ok [of before after lengths 0 0 old new] False show ?thesis
    unfolding lineOperations_def by (simp only: if_False) auto
qed

section \<open>The shared ends\<close>

lemma common_prefix_from_ok:
  "pre \<le> shared \<Longrightarrow> \<forall>i < pre. before ! i = after ! i \<Longrightarrow>
   common_prefix_from before after shared pre \<le> shared \<and>
   (\<forall>i < common_prefix_from before after shared pre. before ! i = after ! i)"
proof (induction before after shared pre rule: common_prefix_from.induct)
  case (1 before after shared pre)
  then show ?case
    by (subst (1 2) common_prefix_from.simps) (auto simp: less_Suc_eq)
qed

lemma common_suffix_from_ok:
  "suf \<le> limit \<Longrightarrow> \<forall>i < suf. before ! (length before - i - 1) = after ! (length after - i - 1) \<Longrightarrow>
   common_suffix_from before after limit suf \<le> limit \<and>
   (\<forall>i < common_suffix_from before after limit suf.
      before ! (length before - i - 1) = after ! (length after - i - 1))"
proof (induction before after limit suf rule: common_suffix_from.induct)
  case (1 before after limit suf)
  then show ?case
    by (subst (1 2) common_suffix_from.simps) (auto simp: less_Suc_eq)
qed

lemma take_eq_common:
  "n \<le> length xs \<Longrightarrow> n \<le> length ys \<Longrightarrow> (\<forall>i < n. xs ! i = ys ! i) \<Longrightarrow> take n xs = take n ys"
  by (intro nth_equalityI) auto

lemma drop_eq_common:
  assumes "n \<le> length xs" "n \<le> length ys"
    "\<forall>i < n. xs ! (length xs - i - 1) = ys ! (length ys - i - 1)"
  shows "drop (length xs - n) xs = drop (length ys - n) ys"
proof (rule nth_equalityI)
  show "length (drop (length xs - n) xs) = length (drop (length ys - n) ys)"
    using assms by simp
  fix i
  assume "i < length (drop (length xs - n) xs)"
  then have i: "i < n" using assms by simp
  have idx: "length xs - n + i = length xs - (n - 1 - i) - 1" "length ys - n + i = length ys - (n - 1 - i) - 1"
    using i assms(1,2) by auto
  have "n - 1 - i < n" using i by simp
  then have "xs ! (length xs - n + i) = ys ! (length ys - n + i)"
    unfolding idx using assms(3) by blast
  then show "drop (length xs - n) xs ! i = drop (length ys - n) ys ! i"
    by simp
qed

text \<open>A common subsequence of two lists that share both ends is no longer than the ends and the
  longest common subsequence of the middles.\<close>

lemma subseq_append_cases:
  assumes "subseq zs (xs @ ys)"
  obtains a b where "zs = a @ b" "subseq a xs" "subseq b ys"
  using assms by (auto simp: subseq_append_iff)

lemma append_eq_cases:
  assumes "a @ b = c @ d"
  obtains (left) r where "c = a @ r" "b = r @ d" | (right) r where "a = c @ r" "d = r @ b"
  using assms by (auto simp: append_eq_append_conv2)

lemma subseq_common_suffix:
  assumes "subseq ws (xs @ s)" "subseq ws (ys @ s)"
  shows "length ws \<le> lcs_len xs ys + length s"
proof -
  obtain a b where ab: "ws = a @ b" "subseq a xs" "subseq b s"
    using assms(1) by (rule subseq_append_cases)
  obtain c d where cd: "ws = c @ d" "subseq c ys" "subseq d s"
    using assms(2) by (rule subseq_append_cases)
  have len: "length b \<le> length s" "length d \<le> length s"
    using ab cd list_emb_length by blast+
  from ab(1) cd(1) have "a @ b = c @ d" by simp
  then show ?thesis
  proof (cases rule: append_eq_cases)
    case (left r)
    with cd(2) have "subseq a ys" by (auto dest: list_emb_appendD)
    with ab len subseq_lcs_len [of a xs ys] show ?thesis by simp
  next
    case (right r)
    with ab(2) have "subseq c xs" by (auto dest: list_emb_appendD)
    with cd len subseq_lcs_len [of c xs ys] show ?thesis by simp
  qed
qed

lemma subseq_common_ends:
  assumes "subseq zs (p @ xs @ s)" "subseq zs (p @ ys @ s)"
  shows "length zs \<le> length p + lcs_len xs ys + length s"
proof -
  obtain a b where ab: "zs = a @ b" "subseq a p" "subseq b (xs @ s)"
    using assms(1) by (rule subseq_append_cases)
  obtain c d where cd: "zs = c @ d" "subseq c p" "subseq d (ys @ s)"
    using assms(2) by (rule subseq_append_cases)
  have len: "length a \<le> length p" "length c \<le> length p"
    using ab cd list_emb_length by blast+
  from ab(1) cd(1) have "a @ b = c @ d" by simp
  then show ?thesis
  proof (cases rule: append_eq_cases)
    case (left r)
    with ab(3) have "subseq d (xs @ s)"
      by (metis list_emb_append2 subseq_order.order_refl subseq_order.trans)
    with subseq_common_suffix [OF _ cd(3)] cd(1) len show ?thesis by fastforce
  next
    case (right r)
    with cd(3) have "subseq b (ys @ s)"
      by (metis list_emb_append2 subseq_order.order_refl subseq_order.trans)
    with subseq_common_suffix [OF ab(3)] ab(1) len show ?thesis by fastforce
  qed
qed

section \<open>The whole diff\<close>

definition equal_ops :: "(nat \<Rightarrow> jstring) \<Rightarrow> nat \<Rightarrow> nat \<Rightarrow> nat \<Rightarrow> LineDiffOperation list" where
  "equal_ops t old new n = map (\<lambda>i. equalOperation (t i) (old + i + 1) (new + i + 1)) [0..<n]"

lemma equal_ops_sides:
  "old_lines (equal_ops t old new n) = map t [0..<n] \<and> new_lines (equal_ops t old new n) = map t [0..<n] \<and>
   kept (equal_ops t old new n) = n \<and> numbered old new (equal_ops t old new n)"
  by (induction n) (auto simp: equal_ops_def numbered_append)

lemma map_nth_take: "n \<le> length xs \<Longrightarrow> map (\<lambda>i. xs ! i) [0..<n] = take n xs"
  by (intro nth_equalityI) auto

lemma map_nth_drop: "n \<le> length xs \<Longrightarrow> map (\<lambda>i. xs ! (length xs - n + i)) [0..<n] = drop (length xs - n) xs"
  by (intro nth_equalityI) auto

text \<open>
  The shape of a diff of two different texts: shared lines, the operations of
  the middle, shared lines; or the refusal of a middle that is too large.
\<close>

lemma createLineDiff_shape:
  assumes "before \<noteq> after"
  obtains p xs ys s where
    "splitLinesPreservingEndings before = p @ xs @ s" "splitLinesPreservingEndings after = p @ ys @ s"
    "(length xs + 1) * (length ys + 1) > MAX_LCS_CELLS" "createLineDiff before after = Throw E2BIG"
  | p xs ys s ops middle where
    "splitLinesPreservingEndings before = p @ xs @ s" "splitLinesPreservingEndings after = p @ ys @ s"
    "(length xs + 1) * (length ys + 1) \<le> MAX_LCS_CELLS"
    "ops = equal_ops (\<lambda>i. p ! i) 0 0 (length p) @ middle @
           equal_ops (\<lambda>i. s ! i) (length p + length xs) (length p + length ys) (length s)"
    "diff_of xs ys (length p) (length p) middle"
    "createLineDiff before after =
       Inr \<lparr>changes = length (filter (\<lambda>operation. op_kind operation \<noteq> Equal) ops), operations = ops\<rparr>"
proof -
  let ?b = "splitLinesPreservingEndings before" and ?a = "splitLinesPreservingEndings after"
  define shared where "shared = min (length ?b) (length ?a)"
  define pre where "pre = common_prefix_from ?b ?a shared 0"
  define suf where "suf = common_suffix_from ?b ?a (shared - pre) 0"
  define xs where "xs = substring pre (length ?b - suf) ?b"
  define ys where "ys = substring pre (length ?a - suf) ?a"
  define p where "p = take pre ?b"
  define s where "s = drop (length ?b - suf) ?b"
  have pre: "pre \<le> shared" "\<forall>i < pre. ?b ! i = ?a ! i"
    using common_prefix_from_ok [of 0 shared ?b ?a] by (simp_all add: pre_def)
  have suf: "suf \<le> shared - pre" "\<forall>i < suf. ?b ! (length ?b - i - 1) = ?a ! (length ?a - i - 1)"
    using common_suffix_from_ok [of 0 "shared - pre" ?b ?a] by (simp_all add: suf_def)
  have bounds: "pre + suf \<le> length ?b" "pre + suf \<le> length ?a"
    using pre(1) suf(1) by (auto simp: shared_def)
  have pa: "p = take pre ?a" unfolding p_def using pre bounds by (intro take_eq_common) auto
  have sa: "s = drop (length ?a - suf) ?a" unfolding s_def using suf bounds by (intro drop_eq_common) auto
  have split: "n + m \<le> length l \<Longrightarrow> l = take n l @ substring n (length l - m) l @ drop (length l - m) l"
    for n m and l :: "jstring list"
    by (simp add: substring_def)
       (metis add_le_imp_le_diff append_assoc append_take_drop_id min.absorb1 take_take)
  have eqs: "?b = p @ xs @ s" "?a = p @ ys @ s"
    using split [OF bounds(1)] split [OF bounds(2)] unfolding p_def [symmetric] pa [symmetric]
      s_def [symmetric] sa [symmetric] xs_def ys_def by simp_all
  have ends: "length p = pre" "length s = suf"
    using bounds by (simp_all add: p_def s_def)
  have lens: "length p = pre" "length s = suf" "length ?b - suf = pre + length xs"
      "length ?a - suf = pre + length ys"
    using arg_cong [OF eqs(1), of length] arg_cong [OF eqs(2), of length] ends by simp_all
  have leading: "map_result (\<lambda>i. bindr (lineAt ?b i) (\<lambda>t. Inr (equalOperation t (i + 1) (i + 1)))) [0..<pre] =
      Inr (equal_ops (\<lambda>i. p ! i) 0 0 (length p))"
    unfolding equal_ops_def lens using bounds by (subst map_result_Inr) (auto simp: p_def)
  have trailing: "map_result (\<lambda>i. bindr (lineAt ?b (length ?b - suf + i)) (\<lambda>t.
        Inr (equalOperation t (length ?b - suf + i + 1) (length ?a - suf + i + 1)))) [0..<suf] =
      Inr (equal_ops (\<lambda>i. s ! i) (length p + length xs) (length p + length ys) (length s))"
    unfolding equal_ops_def lens using bounds
    by (subst map_result_Inr [where g = "\<lambda>i. equalOperation (s ! i) (pre + length xs + i + 1) (pre + length ys + i + 1)"])
       (auto simp: s_def lens(3) [symmetric])
  have unfold: "createLineDiff before after = bindr (lineOperations xs ys pre pre) (\<lambda>middle.
      let ops = equal_ops (\<lambda>i. p ! i) 0 0 (length p) @ middle @
           equal_ops (\<lambda>i. s ! i) (length p + length xs) (length p + length ys) (length s) in
      Inr \<lparr>changes = length (filter (\<lambda>operation. op_kind operation \<noteq> Equal) ops), operations = ops\<rparr>)"
    unfolding createLineDiff_def Let_def shared_def [symmetric] pre_def [symmetric] suf_def [symmetric]
      xs_def [symmetric] ys_def [symmetric] leading trailing bindr_simps
    using assms by simp
  show ?thesis
  proof (cases "(length xs + 1) * (length ys + 1) > MAX_LCS_CELLS")
    case True
    with lineOperations_cases [of xs ys pre pre] have "lineOperations xs ys pre pre = Throw E2BIG"
      by (simp only: if_True)
    with that(1) [OF eqs True] unfold show ?thesis by simp
  next
    case False
    with lineOperations_cases [of xs ys pre pre] obtain middle where
      "lineOperations xs ys pre pre = Inr middle" "diff_of xs ys (length p) (length p) middle"
      unfolding lens by (auto simp only: if_False)
    with that(2) [OF eqs _ refl, of middle] False unfold show ?thesis by (simp add: Let_def)
  qed
qed

lemma diff_result:
  assumes "before \<noteq> after" "createLineDiff before after = Inr d"
  shows "old_lines (operations d) = splitLinesPreservingEndings before"
    and "new_lines (operations d) = splitLinesPreservingEndings after"
    and "numbered 0 0 (operations d)"
    and "changes d = length (filter (\<lambda>operation. op_kind operation \<noteq> Equal) (operations d))"
    and "\<And>zs. subseq zs (splitLinesPreservingEndings before) \<Longrightarrow>
           subseq zs (splitLinesPreservingEndings after) \<Longrightarrow> length zs \<le> kept (operations d)"
proof -
  obtain p xs ys s middle where eqs:
    "splitLinesPreservingEndings before = p @ xs @ s" "splitLinesPreservingEndings after = p @ ys @ s"
    "operations d = equal_ops (\<lambda>i. p ! i) 0 0 (length p) @ middle @
           equal_ops (\<lambda>i. s ! i) (length p + length xs) (length p + length ys) (length s)"
    "diff_of xs ys (length p) (length p) middle"
    and changes: "changes d = length (filter (\<lambda>operation. op_kind operation \<noteq> Equal) (operations d))"
    using assms(2) by (cases rule: createLineDiff_shape [OF assms(1)]) auto
  show "changes d = length (filter (\<lambda>operation. op_kind operation \<noteq> Equal) (operations d))"
    by (rule changes)
  show "old_lines (operations d) = splitLinesPreservingEndings before"
    "new_lines (operations d) = splitLinesPreservingEndings after" "numbered 0 0 (operations d)"
    using eqs(4) by (auto simp: eqs diff_of_def equal_ops_sides numbered_append map_nth)
  fix zs
  assume "subseq zs (splitLinesPreservingEndings before)" "subseq zs (splitLinesPreservingEndings after)"
  from subseq_common_ends [OF this [unfolded eqs]] eqs(4)
  show "length zs \<le> kept (operations d)"
    by (simp add: eqs diff_of_def equal_ops_sides)
qed

lemma diff_failure:
  assumes "createLineDiff before after = Inl e"
  shows "e = VfsError E2BIG None"
proof -
  from assms have "before \<noteq> after" by (auto simp: createLineDiff_def)
  from createLineDiff_shape [OF this] assms show ?thesis by (metis Inl_Inr_False sum.inject(1))
qed

lemma diff_same [simp]: "createLineDiff t t = Inr \<lparr>changes = 0, operations = []\<rparr>"
  by (simp add: createLineDiff_def)

lemma diff_total:
  assumes "(length (splitLinesPreservingEndings before) + 1) * (length (splitLinesPreservingEndings after) + 1)
    \<le> MAX_LCS_CELLS"
  shows "\<exists>d. createLineDiff before after = Inr d"
proof (cases "before = after")
  case False
  then show ?thesis
  proof (cases rule: createLineDiff_shape)
    case (1 p xs ys s)
    have "(length xs + 1) * (length ys + 1) \<le>
        (length (splitLinesPreservingEndings before) + 1) * (length (splitLinesPreservingEndings after) + 1)"
      unfolding 1 by (intro mult_le_mono) simp_all
    with 1(3) assms show ?thesis by linarith
  qed auto
qed simp

section \<open>Properties\<close>

text \<open>One line changed between two files of two lines.\<close>

definition example_before :: jstring where "example_before = [97, 10, 98, 10]"
definition example_after :: jstring where "example_after = [97, 10, 99, 10]"

lemma example_lines:
  "splitLinesPreservingEndings example_before = [[97, 10], [98, 10]]"
  "splitLinesPreservingEndings example_after = [[97, 10], [99, 10]]"
  by (simp_all add: splitLinesPreservingEndings.simps NL_def example_before_def example_after_def)

lemma example_operations:
  "lineOperations [[98, 10]] [[99, 10]] 1 1 =
     Inr [\<lparr>op_kind = Delete, op_text = [98, 10], oldLine = 2, newLine = 2\<rparr>,
          \<lparr>op_kind = Insert, op_text = [99, 10], oldLine = 3, newLine = 2\<rparr>]" (is "_ = ?ops")
proof -
  have "lcs_rows [[98, 10]] [[99, 10]] 2 1 (replicate 4 0) = Inr [0, 0, 0, 0]" by code_simp
  moreover have "line_operations_from [[98, 10]] [[99, 10]] [0, 0, 0, 0] 1 1 0 0 = ?ops" by code_simp
  ultimately show ?thesis by (simp add: lineOperations_def lcsLengths_def MAX_LCS_CELLS_def)
qed

lemma example_shared:
  "common_prefix_from [[97, 10], [98, 10]] [[97, 10], [99, 10]] (Suc (Suc 0)) 0 = 1"
  "common_suffix_from [[97, 10], [98, 10]] [[97, 10], [99, 10]] (Suc 0) 0 = 0"
  by code_simp+

lemma example_distinct: "example_before \<noteq> example_after"
  by (simp add: example_before_def example_after_def)

lemma example_diff:
  "createLineDiff example_before example_after = Inr \<lparr>changes = 2, operations =
     [\<lparr>op_kind = Equal, op_text = [97, 10], oldLine = 1, newLine = 1\<rparr>,
      \<lparr>op_kind = Delete, op_text = [98, 10], oldLine = 2, newLine = 2\<rparr>,
      \<lparr>op_kind = Insert, op_text = [99, 10], oldLine = 3, newLine = 2\<rparr>]\<rparr>"
  by (simp add: createLineDiff_def example_distinct example_lines example_shared example_operations [simplified]
      Let_def equalOperation_def substring_def)

text \<open>
  C28. A line diff lists the lines of both texts in order and numbers every
  operation by the lines before it; its change count is the number of operations
  that are not equal lines, and no common subsequence of the two line lists is
  longer than the lines it keeps: the edit script is a shortest one.
\<close>

theorem diff_is_shortest_script:
  assumes "before \<noteq> after" "createLineDiff before after = Inr d"
  shows "old_lines (operations d) = splitLinesPreservingEndings before \<and>
    new_lines (operations d) = splitLinesPreservingEndings after \<and>
    numbered 0 0 (operations d) \<and>
    changes d = length (filter (\<lambda>operation. op_kind operation \<noteq> Equal) (operations d)) \<and>
    (\<forall>zs. subseq zs (splitLinesPreservingEndings before) \<and> subseq zs (splitLinesPreservingEndings after) \<longrightarrow>
       length zs \<le> kept (operations d))"
  using diff_result [OF assms] by blast

theorem diff_is_shortest_script_witness:
  "\<exists>d. createLineDiff example_before example_after = Inr d \<and> numbered 0 0 (operations d) \<and>
     length [[97, 10 :: jchar]] \<le> kept (operations d)"
  using diff_is_shortest_script [OF example_distinct example_diff] example_diff by (simp add: example_lines)

text \<open>
  The only failure of a line diff is \<open>E2BIG\<close>, and it is only given when the
  table of the two line lists would be larger than the bound.
\<close>

theorem diff_fails_only_on_size:
  "(\<exists>d. createLineDiff before after = Inr d) \<or>
   (createLineDiff before after = Throw E2BIG \<and>
    MAX_LCS_CELLS < (length (splitLinesPreservingEndings before) + 1) * (length (splitLinesPreservingEndings after) + 1))"
  using diff_failure [of before after] diff_total [of before after]
  by (cases "createLineDiff before after") (auto simp only: not_le [symmetric])

end
