(* ===== verification/Patch_Roundtrip.thy ===== *)
theory Patch_Roundtrip
  imports Unified_Patch
begin

text \<open>
  The round trip of \<open>renderLineDiff\<close> and \<open>applyUnifiedPatch\<close>: the shown spans
  cover every change in order, the rendered patch parses back to the hunks it was
  rendered from, and applying these hunks rebuilds the second text.
\<close>

section \<open>The spans cover the changes\<close>

abbreviation is_equal :: "LineDiffOperation \<Rightarrow> bool" where
  "is_equal p \<equiv> op_kind p = Equal"

definition covers :: "LineDiffOperation list \<Rightarrow> nat \<Rightarrow> (nat \<times> nat) list \<Rightarrow> bool" where
  "covers ops i spans \<longleftrightarrow>
     sorted_wrt (\<lambda>a b. snd a < fst b) spans \<and>
     (\<forall>(s, e) \<in> set spans. s < e \<and> e \<le> min (length ops) (i + CONTEXT_LINES) \<and> s \<le> i) \<and>
     (\<forall>j < i. \<not> is_equal (ops ! j) \<longrightarrow> (\<exists>(s, e) \<in> set spans. s \<le> j \<and> j < e))"

lemma covers_skip: "covers ops i spans \<Longrightarrow> is_equal (ops ! i) \<Longrightarrow> covers ops (i + 1) spans"
  unfolding covers_def by (auto simp: less_Suc_eq)

lemma covers_push:
  assumes "covers ops i spans" "i < length ops" "spans = [] \<or> snd (last spans) < i - CONTEXT_LINES"
  shows "covers ops (i + 1) (spans @ [(i - CONTEXT_LINES, min (length ops) (i + CONTEXT_LINES + 1))])"
proof -
  have before: "snd a < i - CONTEXT_LINES" if "a \<in> set spans" for a
    using that assms(1,3) unfolding covers_def
    by (cases spans rule: rev_cases) (fastforce simp: sorted_wrt_append)+
  show ?thesis
    using assms(1,2) before unfolding covers_def
    by (auto simp: sorted_wrt_append less_Suc_eq CONTEXT_LINES_def)
qed

lemma covers_merge:
  assumes "covers ops i (spans @ [(s, e)])" "i < length ops" "i - CONTEXT_LINES \<le> e"
  shows "covers ops (i + 1) (spans @ [(s, min (length ops) (i + CONTEXT_LINES + 1))])"
  using assms unfolding covers_def
  by (auto simp: sorted_wrt_append less_Suc_eq CONTEXT_LINES_def)

lemma hunk_spans_from_covers:
  "covers ops (length done_ops) spans \<Longrightarrow> ops = done_ops @ rest \<Longrightarrow>
   covers ops (length ops) (hunk_spans_from (length ops) (length done_ops) rest spans)"
proof (induction rest arbitrary: done_ops spans)
  case (Cons p rest)
  have i: "length done_ops < length ops" "ops ! length done_ops = p"
    using Cons.prems(2) by auto
  have step: "covers ops (length done_ops + 1)
     (if is_equal p then spans
      else let first = length done_ops - CONTEXT_LINES;
               stop = min (length ops) (length done_ops + CONTEXT_LINES + 1) in
          (if spans \<noteq> [] \<and> first \<le> snd (last spans)
           then butlast spans @ [(fst (last spans), stop)]
           else spans @ [(first, stop)]))" (is "covers _ _ ?spans")
  proof (cases "is_equal p")
    case True
    with covers_skip [OF Cons.prems(1)] i(2) show ?thesis by simp
  next
    case False
    show ?thesis
    proof (cases "spans \<noteq> [] \<and> length done_ops - CONTEXT_LINES \<le> snd (last spans)")
      case True
      then have "spans = butlast spans @ [(fst (last spans), snd (last spans))]" by simp
      with covers_merge [of ops "length done_ops" "butlast spans" "fst (last spans)" "snd (last spans)"]
        Cons.prems(1) i(1) True False show ?thesis
        by (auto simp: Let_def)
    next
      case push: False
      with covers_push [OF Cons.prems(1) i(1)] False show ?thesis
        by (auto simp: Let_def not_le)
    qed
  qed
  have "hunk_spans_from (length ops) (length done_ops) (p # rest) spans =
      hunk_spans_from (length ops) (length (done_ops @ [p])) rest ?spans"
    by (simp only: hunk_spans_from.simps length_append list.size add_0 One_nat_def)
  moreover have "ops = (done_ops @ [p]) @ rest" using Cons.prems(2) by simp
  ultimately show ?case
    using Cons.IH [of "done_ops @ [p]" ?spans] step by (metis length_append_singleton Suc_eq_plus1)
qed simp

lemma hunkSpans_covers: "covers ops (length ops) (hunkSpans ops)"
  using hunk_spans_from_covers [of ops "[]" "[]" ops] by (simp add: hunkSpans_def covers_def)

text \<open>What rendering and applying rely on: the spans are consecutive and what lies outside is shared.\<close>

fun spans_ok :: "LineDiffOperation list \<Rightarrow> nat \<Rightarrow> (nat \<times> nat) list \<Rightarrow> bool" where
  "spans_ok ops c [] = (\<forall>p \<in> set (drop c ops). is_equal p)"
| "spans_ok ops c ((s, e) # spans) =
     (c \<le> s \<and> s < e \<and> e \<le> length ops \<and> (\<forall>p \<in> set (substring c s ops). is_equal p) \<and> spans_ok ops e spans)"

lemma covers_spans_ok:
  "sorted_wrt (\<lambda>a b. snd a < fst b) spans \<Longrightarrow>
   \<forall>(s, e) \<in> set spans. c \<le> s \<and> s < e \<and> e \<le> length ops \<Longrightarrow>
   \<forall>j < length ops. c \<le> j \<longrightarrow> \<not> is_equal (ops ! j) \<longrightarrow> (\<exists>(s, e) \<in> set spans. s \<le> j \<and> j < e) \<Longrightarrow>
   spans_ok ops c spans"
proof (induction spans arbitrary: c)
  case Nil
  then show ?case by (auto simp: in_set_conv_nth)
next
  case (Cons span spans)
  obtain s e where span: "span = (s, e)" by force
  have later: "\<forall>(s', e') \<in> set spans. e < s'" using Cons.prems(1) span by fastforce
  have gap: "is_equal p" if "p \<in> set (substring c s ops)" for p
  proof -
    from that obtain k where k: "k < length (substring c s ops)" "p = substring c s ops ! k"
      by (auto simp: in_set_conv_nth)
    then have "c + k < s" "c + k < length ops" "p = ops ! (c + k)"
      by (auto simp: length_substring nth_substring)
    moreover have "\<not> (\<exists>(s', e') \<in> set (span # spans). s' \<le> c + k \<and> c + k < e')"
      using \<open>c + k < s\<close> later Cons.prems(2) span by fastforce
    ultimately show ?thesis using Cons.prems(3) by (metis le_add1)
  qed
  have "spans_ok ops e spans"
  proof (rule Cons.IH)
    show "sorted_wrt (\<lambda>a b. snd a < fst b) spans" using Cons.prems(1) by simp
    show "\<forall>(s, e') \<in> set spans. e \<le> s \<and> s < e' \<and> e' \<le> length ops"
      using Cons.prems(2) later by fastforce
    show "\<forall>j < length ops. e \<le> j \<longrightarrow> \<not> is_equal (ops ! j) \<longrightarrow> (\<exists>(s, e) \<in> set spans. s \<le> j \<and> j < e)"
      using Cons.prems(2,3) span by fastforce
  qed
  with gap span Cons.prems(2) show ?case by simp
qed

lemma hunkSpans_ok: "spans_ok ops 0 (hunkSpans ops)"
  using hunkSpans_covers [of ops] unfolding covers_def
  by (intro covers_spans_ok) auto


section \<open>The rendered lines\<close>

definition op_lines :: "LineDiffOperation \<Rightarrow> jstring list" where
  "op_lines p =
     (if ends_with_char NL (op_text p) then [op_prefix (op_kind p) # op_text p]
      else [op_prefix (op_kind p) # op_text p @ [NL], NO_NEWLINE_MARKER])"

definition hunk_header :: "nat \<Rightarrow> nat \<Rightarrow> nat \<Rightarrow> nat \<Rightarrow> jstring" where
  "hunk_header old oldN new newN =
     js ''@@ -'' @ hunkRange old oldN @ js '' +'' @ hunkRange new newN @ js '' @@'' @ [NL]"

definition is_line :: "jstring \<Rightarrow> bool" where
  "is_line t \<longleftrightarrow> terminated_line t \<or> unterminated_line t"

lemma op_prefix_cases: "op_prefix k \<in> {MINUS, PLUS, SPACE}"
  by (cases k) (simp_all add: op_prefix_def)

lemma op_prefix_not [simp]:
  "op_prefix k \<noteq> AT" "op_prefix k \<noteq> BACKSLASH" "op_prefix k \<noteq> NL"
  by (cases k; simp add: op_prefix_def NL_def)+

lemma marker_terminated [simp]: "terminated_line NO_NEWLINE_MARKER"
  unfolding terminated_line_def NO_NEWLINE_MARKER_def
  by (rule exI [of _ "BACKSLASH # js '' No newline at end of file''"]) (simp add: NL_def)

lemma concat_op_lines: "concat (op_lines p) = prefixedLine (op_prefix (op_kind p)) (op_text p)"
  by (simp add: op_lines_def prefixedLine_def)

lemma terminated_line_iff: "terminated_line t \<longleftrightarrow> t \<noteq> [] \<and> last t = NL \<and> NL \<notin> set (butlast t)"
  unfolding terminated_line_def by (metis append_butlast_last_id butlast_snoc last_snoc snoc_eq_iff_butlast)

lemma terminated_Cons: "c \<noteq> NL \<Longrightarrow> terminated_line t \<Longrightarrow> terminated_line (c # t)"
  by (auto simp: terminated_line_iff)

lemma terminated_snoc [simp]: "terminated_line (s @ [NL]) \<longleftrightarrow> NL \<notin> set s"
  by (simp add: terminated_line_iff)

lemma op_lines_terminated:
  assumes "is_line (op_text p)" "l \<in> set (op_lines p)"
  shows "terminated_line l"
proof (cases "ends_with_char NL (op_text p)")
  case True
  with assms(1) have "terminated_line (op_text p)"
    by (auto simp: is_line_def unterminated_line_def ends_with_char_def dest: last_in_set)
  with assms(2) True show ?thesis by (auto simp: op_lines_def intro: terminated_Cons)
next
  case False
  with assms(1) have "NL \<notin> set (op_text p)"
    by (auto simp: is_line_def unterminated_line_def terminated_line_def)
  then have "terminated_line (op_prefix (op_kind p) # op_text p @ [NL])"
    by (intro terminated_Cons) simp_all
  with assms(2) False show ?thesis by (auto simp: op_lines_def)
qed

lemma js_nat_no_NL: "c \<in> set (js_nat n) \<Longrightarrow> is_digit c"
  using js_nat_digits by blast

lemma hunkRange_no_NL [simp]: "NL \<notin> set (hunkRange b n)"
  using js_nat_no_NL [of NL] by (auto simp: hunkRange_def is_digit_def NL_def split: if_splits)

lemma hunk_header_terminated: "terminated_line (hunk_header a b c d)"
  unfolding hunk_header_def append_assoc [symmetric] terminated_snoc
  using hunkRange_no_NL [of a b] hunkRange_no_NL [of c d] by (simp add: NL_def)


section \<open>Parsing the rendered lines\<close>

definition parsed_line :: "LineDiffOperation \<Rightarrow> PatchLine" where
  "parsed_line p =
     \<lparr>pl_kind = (case op_kind p of Equal \<Rightarrow> PContext | Delete \<Rightarrow> PDelete | Insert \<Rightarrow> PInsert),
      pl_text = op_text p\<rparr>"

lemma patchLineKind_op [simp]:
  "patchLineKind (Some (op_prefix k)) =
     Inr (case k of Equal \<Rightarrow> PContext | Delete \<Rightarrow> PDelete | Insert \<Rightarrow> PInsert)"
  by (cases k) (simp_all add: patchLineKind_def op_prefix_def)

lemma not_hunk_start [simp]:
  "\<not> starts_with (AT # p) (op_prefix k # l)"
  "\<not> starts_with (AT # p) NO_NEWLINE_MARKER"
  by (simp_all add: starts_with_def NO_NEWLINE_MARKER_def)

lemma not_marker [simp]: "op_prefix k # l \<noteq> NO_NEWLINE_MARKER"
  by (simp add: NO_NEWLINE_MARKER_def)

lemma consume_op:
  "consumeHunkLines (op_lines p @ rest) parsed = consumeHunkLines rest (parsed @ [parsed_line p])"
  by (simp add: op_lines_def parsed_line_def)

lemma consume_ops:
  "consumeHunkLines (concat (map op_lines ps) @ rest) parsed =
   consumeHunkLines rest (parsed @ map parsed_line ps)"
  by (induction ps arbitrary: parsed) (simp_all add: consume_op)

lemma consume_stop:
  "rest = [] \<or> starts_with (js ''@@ '') (hd rest) \<Longrightarrow> consumeHunkLines rest parsed = Inr (rest, parsed)"
  by (cases rest) auto

lemma match_digits_js_nat:
  "\<not> is_digit c \<Longrightarrow> match_digits (js_nat n @ c # rest) = Some (js_nat n, c # rest)"
  by (simp add: match_digits_def takeWhile_append2 dropWhile_append2 js_nat_no_NL)

lemma not_digits [simp]: "\<not> is_digit COMMA" "\<not> is_digit SPACE"
  by (simp_all add: is_digit_def)

lemma match_literal_append [simp]: "match_literal p (p @ s) = Some s"
  by (simp add: match_literal_def)

lemma match_literal_fail: "\<not> starts_with p s \<Longrightarrow> match_literal p s = None"
  by (simp add: match_literal_def)

lemma match_range_hunkRange:
  "match_range (hunkRange b n @ SPACE # rest) =
     Some ((js_nat (if n = 0 then b else b + 1), if n = 1 then None else Some (js_nat n)), SPACE # rest)"
  by (simp add: match_range_def hunkRange_def match_digits_js_nat match_literal_def starts_with_def)

lemma match_hunk_header_render:
  "match_hunk_header (hunk_header old oldN new newN) =
     Some ((js_nat (if oldN = 0 then old else old + 1), if oldN = 1 then None else Some (js_nat oldN)),
           (js_nat (if newN = 0 then new else new + 1), if newN = 1 then None else Some (js_nat newN)))"
proof -
  have sp: "js '' +'' @ s = SPACE # PLUS # s" "js '' @@'' @ s = SPACE # AT # AT # s" for s
    by simp_all
  have "match_literal (js ''@@ -'') (hunk_header old oldN new newN) =
      Some (hunkRange old oldN @ js '' +'' @ hunkRange new newN @ js '' @@'' @ [NL])"
    unfolding hunk_header_def by (rule match_literal_append)
  moreover have "match_range (hunkRange old oldN @ js '' +'' @ r) =
     Some ((js_nat (if oldN = 0 then old else old + 1), if oldN = 1 then None else Some (js_nat oldN)), js '' +'' @ r)" for r
    unfolding sp by (rule match_range_hunkRange)
  moreover have "match_range (hunkRange new newN @ js '' @@'' @ r) =
     Some ((js_nat (if newN = 0 then new else new + 1), if newN = 1 then None else Some (js_nat newN)), js '' @@'' @ r)" for r
    unfolding sp by (rule match_range_hunkRange)
  ultimately show ?thesis
    by (simp add: match_hunk_header_def del: js_Cons if_split)
qed

lemma decimalValue_simps:
  "n \<le> MAX_SAFE_INTEGER \<Longrightarrow> decimalValue (Some (js_nat n)) f = Inr n"
  "decimalValue None (Some m) = Inr m"
  by (simp_all add: decimalValue_def)

lemma decimalValue_count:
  "n \<le> MAX_SAFE_INTEGER \<Longrightarrow> decimalValue (if n = 1 then None else Some (js_nat n)) (Some 1) = Inr n"
  by (simp add: decimalValue_simps)


section \<open>The rendered patch as lines\<close>

abbreviation shown_ops :: "LineDiffOperation list \<Rightarrow> nat \<times> nat \<Rightarrow> LineDiffOperation list" where
  "shown_ops ops span \<equiv> substring (fst span) (snd span) ops"

definition old_count :: "LineDiffOperation list \<Rightarrow> nat" where
  "old_count ops = length (old_lines ops)"

definition new_count :: "LineDiffOperation list \<Rightarrow> nat" where
  "new_count ops = length (new_lines ops)"

definition span_lines :: "LineDiffOperation list \<Rightarrow> nat \<times> nat \<Rightarrow> jstring list" where
  "span_lines ops span =
     hunk_header (old_count (take (fst span) ops)) (old_count (shown_ops ops span))
       (new_count (take (fst span) ops)) (new_count (shown_ops ops span)) #
     concat (map op_lines (shown_ops ops span))"

lemma advance_cursor_ok:
  "c \<le> s \<Longrightarrow> s \<le> length ops \<Longrightarrow>
   advance_cursor ops s c (old_count (take c ops)) (new_count (take c ops)) =
     (s, old_count (take s ops), new_count (take s ops))"
proof (induction "s - c" arbitrary: c)
  case 0
  then show ?case by (subst advance_cursor.simps) simp
next
  case (Suc n)
  then have c: "c < s" "c < length ops" by auto
  then have "take (c + 1) ops = take c ops @ [ops ! c]" by (simp add: take_Suc_conv_app_nth)
  then have "old_count (take (c + 1) ops) =
        (if op_kind (ops ! c) = Insert then old_count (take c ops) else old_count (take c ops) + 1)"
    "new_count (take (c + 1) ops) =
        (if op_kind (ops ! c) = Delete then new_count (take c ops) else new_count (take c ops) + 1)"
    by (simp_all add: old_count_def new_count_def)
  with Suc.hyps(1) [of "c + 1"] Suc.hyps(2) Suc.prems c show ?case
    by (subst advance_cursor.simps) auto
qed

lemma concat_prefixed:
  "concat (map (\<lambda>p. prefixedLine (op_prefix (op_kind p)) (op_text p)) ps) = concat (concat (map op_lines ps))"
  by (induction ps) (simp_all add: concat_op_lines)

lemma renderHunk_eq:
  "concat (renderHunk shown b a) =
     hunk_header b (old_count shown) a (new_count shown) @ concat (concat (map op_lines shown))"
  by (simp add: renderHunk_def hunk_header_def old_count_def new_count_def old_lines_def new_lines_def
      concat_prefixed Let_def)

lemma render_spans_eq:
  "spans_ok ops c spans \<Longrightarrow> c' \<le> c \<Longrightarrow>
   concat (render_spans ops spans c' (old_count (take c' ops)) (new_count (take c' ops))) =
   concat (concat (map (span_lines ops) spans))"
proof (induction spans arbitrary: c c')
  case (Cons span spans)
  obtain s e where span: "span = (s, e)" by force
  from Cons.prems span have ok: "c' \<le> s" "s \<le> length ops" "s \<le> e" "spans_ok ops e spans" by auto
  show ?case
    using Cons.IH [OF ok(4) ok(3)]
    by (simp add: span advance_cursor_ok [OF ok(1,2)] renderHunk_eq span_lines_def)
qed simp

section \<open>Parsing the rendered patch\<close>

definition span_hunk :: "LineDiffOperation list \<Rightarrow> nat \<times> nat \<Rightarrow> PatchHunk" where
  "span_hunk ops span =
     (let ob = old_count (take (fst span) ops); oc = old_count (shown_ops ops span);
          nb = new_count (take (fst span) ops); nc = new_count (shown_ops ops span) in
      \<lparr>oldStart = (if oc = 0 then ob else ob + 1), oldCount = oc,
       newStart = (if nc = 0 then nb else nb + 1), newCount = nc,
       hunk_lines = map parsed_line (shown_ops ops span)\<rparr>)"

lemma count_parsed:
  "length (filter (\<lambda>l. pl_kind l \<noteq> PInsert) (map parsed_line ops)) = old_count ops"
  "length (filter (\<lambda>l. pl_kind l \<noteq> PDelete) (map parsed_line ops)) = new_count ops"
  by (induction ops) (auto simp: parsed_line_def old_count_def new_count_def split: diff_kind.splits)

lemma counts_append [simp]:
  "old_count (xs @ ys) = old_count xs + old_count ys" "new_count (xs @ ys) = new_count xs + new_count ys"
  by (simp_all add: old_count_def new_count_def)

lemma split_at_span: "s \<le> e \<Longrightarrow> ops = take s ops @ substring s e ops @ drop e ops"
  by (simp add: substring_def) (metis append_assoc append_take_drop_id min_def take_take)

lemma span_lines_start: "starts_with (js ''@@ '') (hd (span_lines ops span))"
  by (simp add: span_lines_def hunk_header_def starts_with_def)

lemma parse_span:
  assumes "s \<le> e" "old_count ops \<le> MAX_SAFE_INTEGER" "new_count ops \<le> MAX_SAFE_INTEGER"
    "rest = [] \<or> starts_with (js ''@@ '') (hd rest)"
  shows "parse_hunks_from (span_lines ops (s, e) @ rest) =
    bindr (parse_hunks_from rest) (\<lambda>hs. Inr (span_hunk ops (s, e) # hs))"
proof -
  define shown where "shown = shown_ops ops (s, e)"
  define oc nc ob nb where "oc = old_count shown" and "nc = new_count shown"
    and "ob = old_count (take s ops)" and "nb = new_count (take s ops)"
  have split: "ops = take s ops @ shown @ drop e ops"
    using split_at_span [OF assms(1), of ops] by (simp add: shown_def)
  have sums: "old_count ops = ob + oc + old_count (drop e ops)"
    "new_count ops = nb + nc + new_count (drop e ops)"
    unfolding ob_def nb_def oc_def nc_def
    by (subst split, simp)+
  have bounds: "(if oc = 0 then ob else ob + 1) \<le> MAX_SAFE_INTEGER" "oc \<le> MAX_SAFE_INTEGER"
    "(if nc = 0 then nb else nb + 1) \<le> MAX_SAFE_INTEGER" "nc \<le> MAX_SAFE_INTEGER"
    using sums assms(2,3) by auto
  have valid: "validateHunkCounts (span_hunk ops (s, e)) = Inr ()"
    by (simp add: validateHunkCounts_def span_hunk_def Let_def count_parsed [unfolded filter_map length_map])
  have hunk: "\<lparr>oldStart = if oc = 0 then ob else ob + 1, oldCount = oc,
      newStart = if nc = 0 then nb else nb + 1, newCount = nc,
      hunk_lines = map parsed_line shown\<rparr> = span_hunk ops (s, e)"
    by (simp add: span_hunk_def Let_def oc_def nc_def ob_def nb_def shown_def)
  have consume: "consumeHunkLines (concat (map op_lines shown) @ rest) [] = Inr (rest, map parsed_line shown)"
    by (simp only: consume_ops consume_stop [OF assms(4)] append_Nil)
  have "span_lines ops (s, e) @ rest = hunk_header ob oc nb nc # concat (map op_lines shown) @ rest"
    by (simp add: span_lines_def oc_def nc_def ob_def nb_def shown_def)
  then show ?thesis
    unfolding parse_hunks_from.simps match_hunk_header_render
    by (simp only: option.case prod.case decimalValue_simps(1) [OF bounds(1)] decimalValue_simps(1) [OF bounds(3)]
        decimalValue_count [OF bounds(2)] decimalValue_count [OF bounds(4)] bindr_simps consume Let_def
        fst_conv snd_conv hunk valid parse_hunks_from.simps match_hunk_header_render)
qed

lemma parse_spans:
  assumes "old_count ops \<le> MAX_SAFE_INTEGER" "new_count ops \<le> MAX_SAFE_INTEGER"
  shows "spans_ok ops c spans \<Longrightarrow>
    parse_hunks_from (concat (map (span_lines ops) spans)) = Inr (map (span_hunk ops) spans)"
proof (induction spans arbitrary: c)
  case (Cons span spans)
  obtain s e where span: "span = (s, e)" by force
  have rest: "concat (map (span_lines ops) spans) = [] \<or>
      starts_with (js ''@@ '') (hd (concat (map (span_lines ops) spans)))"
    by (cases spans) (simp_all add: span_lines_def hunk_header_def starts_with_def)
  from Cons.prems span have ok: "s \<le> e" "spans_ok ops e spans" by auto
  show ?case
    using parse_span [OF ok(1) assms rest] Cons.IH [OF ok(2)] by (simp add: span)
qed simp


section \<open>Applying the parsed hunks\<close>

definition count_kind :: "diff_kind \<Rightarrow> LineDiffOperation list \<Rightarrow> nat" where
  "count_kind k ops = length (filter (\<lambda>p. op_kind p = k) ops)"

lemma count_kind_simps [simp]:
  "count_kind k [] = 0"
  "count_kind k (p # ops) = (if op_kind p = k then count_kind k ops + 1 else count_kind k ops)"
  "count_kind k (xs @ ys) = count_kind k xs + count_kind k ys"
  by (simp_all add: count_kind_def)

lemma count_kind_equal: "\<forall>p \<in> set ops. is_equal p \<Longrightarrow> k \<noteq> Equal \<Longrightarrow> count_kind k ops = 0"
  by (auto simp: count_kind_def filter_empty_conv)

lemma equal_sides: "\<forall>p \<in> set ops. is_equal p \<Longrightarrow> old_lines ops = new_lines ops"
  by (induction ops) auto

lemma apply_shown:
  "drop n source = old_lines shown @ rest \<Longrightarrow>
   apply_hunk_lines source (map parsed_line shown) n out a d =
     Inr (n + old_count shown, out @ new_lines shown, a + count_kind Insert shown, d + count_kind Delete shown)"
proof (induction shown arbitrary: n out a d)
  case Nil
  then show ?case by (simp add: old_count_def)
next
  case (Cons p shown)
  show ?case
  proof (cases "op_kind p = Insert")
    case True
    with Cons show ?thesis by (simp add: parsed_line_def old_count_def)
  next
    case False
    with Cons.prems have d: "drop n source = op_text p # (old_lines shown @ rest)" by simp
    then have "n < length source \<and> source ! n = op_text p \<and> drop (n + 1) source = old_lines shown @ rest"
      by (metis Suc_eq_plus1 drop_eq_Nil hd_drop_conv_nth leI list.distinct(1) list.sel(1,3) tl_drop drop_Suc)
    with False Cons.IH [of "n + 1"] show ?thesis
      by (cases "op_kind p") (auto simp: parsed_line_def old_count_def)
  qed
qed

lemma hunkIndex_start:
  "hunkIndex (if n = 0 then b else b + 1) n = Inr b"
  by (simp add: hunkIndex_def)

lemma take_span: "c \<le> s \<Longrightarrow> take s ops = take c ops @ substring c s ops"
  by (simp add: substring_def) (metis append_take_drop_id min.absorb1 take_take)

text \<open>One hunk moves the source position and the output from the cursor to the end of its span.\<close>

lemma apply_span:
  assumes "c \<le> s" "s < e" "e \<le> length ops" "\<forall>p \<in> set (substring c s ops). is_equal p"
    and source: "source = old_lines ops"
  shows "applyHunk source (span_hunk ops (s, e)) (old_count (take c ops)) (new_lines (take c ops)) =
    Inr (old_count (take e ops), new_lines (take e ops),
         count_kind Insert (substring s e ops), count_kind Delete (substring s e ops))"
proof -
  define gap shown tail where "gap = substring c s ops" and "shown = substring s e ops" and "tail = drop e ops"
  have takes: "take s ops = take c ops @ gap" "take e ops = take s ops @ shown"
    using take_span [OF assms(1), of ops] take_span [of s e ops] assms(2) by (simp_all add: gap_def shown_def)
  have ops: "ops = take s ops @ shown @ tail"
    using split_at_span [of s e ops] assms(2) by (simp add: shown_def tail_def)
  have src: "source = old_lines (take s ops) @ old_lines shown @ old_lines tail"
    unfolding source by (subst ops) simp
  have len: "old_count (take s ops) = old_count (take c ops) + old_count gap"
    unfolding takes by simp
  have gap: "old_lines gap = new_lines gap" using assms(4) by (intro equal_sides) (simp add: gap_def)
  have copied: "new_lines (take c ops) @ substring (old_count (take c ops)) (old_count (take s ops)) source =
      new_lines (take s ops)"
    unfolding takes src substring_def by (simp add: old_count_def gap)
  have start: "\<not> (old_count (take s ops) < old_count (take c ops) \<or> old_count (take s ops) > length source)"
    using len unfolding src by (simp add: old_count_def)
  have rest: "drop (old_count (take s ops)) source = old_lines shown @ old_lines tail"
    unfolding src by (simp add: old_count_def)
  show ?thesis
    unfolding applyHunk_def span_hunk_def Let_def PatchHunk.simps fst_conv snd_conv hunkIndex_start bindr_simps
    using start copied apply_shown [OF rest]
    by (simp add: shown_def [symmetric] takes new_count_def)
qed

lemma apply_spans:
  assumes "source = old_lines ops"
  shows "spans_ok ops c spans \<Longrightarrow>
    \<exists>e. c \<le> e \<and> (\<forall>p \<in> set (drop e ops). is_equal p) \<and>
      apply_hunks source (map (span_hunk ops) spans) (old_count (take c ops)) (new_lines (take c ops)) a d =
      Inr (old_count (take e ops), new_lines (take e ops),
           a + count_kind Insert (drop c ops), d + count_kind Delete (drop c ops))"
proof (induction spans arbitrary: c a d)
  case Nil
  then show ?case by (intro exI [of _ c]) (simp add: count_kind_equal)
next
  case (Cons span spans)
  obtain s e where span: "span = (s, e)" by force
  from Cons.prems span have ok: "c \<le> s" "s < e" "e \<le> length ops"
    "\<forall>p \<in> set (substring c s ops). is_equal p" "spans_ok ops e spans" by auto
  have "drop c ops = substring c s ops @ substring s e ops @ drop e ops"
    using ok(1,2) by (simp add: substring_def)
      (metis append_take_drop_id drop_drop drop_take le_add_diff_inverse2 less_imp_le_nat)
  then have counts: "count_kind k (drop c ops) = count_kind k (substring s e ops) + count_kind k (drop e ops)"
    if "k \<noteq> Equal" for k
    using count_kind_equal [OF ok(4) that] by simp
  from Cons.IH [OF ok(5)] obtain e' where e': "e \<le> e'" "\<forall>p \<in> set (drop e' ops). is_equal p"
    "apply_hunks source (map (span_hunk ops) spans) (old_count (take e ops)) (new_lines (take e ops))
       (a + count_kind Insert (substring s e ops)) (d + count_kind Delete (substring s e ops)) =
      Inr (old_count (take e' ops), new_lines (take e' ops),
        (a + count_kind Insert (substring s e ops)) + count_kind Insert (drop e ops),
        (d + count_kind Delete (substring s e ops)) + count_kind Delete (drop e ops))"
    by blast
  with ok(1,2) show ?case
    by (intro exI [of _ e']) (simp add: span apply_span [OF ok(1-4) assms] counts add.assoc)
qed


section \<open>The round trip\<close>

lemma line_list_is_line: "line_list ls \<Longrightarrow> l \<in> set ls \<Longrightarrow> is_line l"
  by (induction ls) (auto simp: line_list_Cons is_line_def split: if_splits)

lemma terminated_line_list: "\<forall>l \<in> set ls. terminated_line l \<Longrightarrow> line_list ls"
  by (induction ls) (auto simp: line_list_Cons)

lemma line_list_length: "line_list ls \<Longrightarrow> length ls \<le> length (concat ls)"
proof (induction ls)
  case (Cons l ls)
  have "l \<noteq> []" using line_list_nonempty [OF Cons.prems] by simp
  moreover have "line_list ls" using Cons.prems by (auto simp: line_list_Cons split: if_splits)
  ultimately show ?case using Cons.IH by (cases l) auto
qed simp

lemma split_lines_length: "length (splitLinesPreservingEndings w) \<le> length w"
  using line_list_length [OF line_list_split, of w] by simp

lemma patchLines_terminated:
  assumes "\<forall>l \<in> set ls. terminated_line l" "ls \<noteq> []"
  shows "patchLines (concat ls) = Inr ls"
proof -
  obtain init l where l: "ls = init @ [l]" "terminated_line l"
    using assms by (cases ls rule: rev_cases) auto
  then have "ends_with_char NL (concat ls)" "concat ls \<noteq> []"
    by (auto simp: ends_with_char_def terminated_line_iff)
  then show ?thesis
    unfolding patchLines_def split_lines_concat [OF terminated_line_list [OF assms(1)]] Let_def
    by (simp del: concat_eq_Nil_conv)
qed

lemma span_lines_terminated:
  assumes "\<forall>p \<in> set ops. is_line (op_text p)" "l \<in> set (span_lines ops span)"
  shows "terminated_line l"
proof -
  have "set (shown_ops ops span) \<subseteq> set ops"
    by (auto simp: substring_def dest: in_set_dropD in_set_takeD)
  with assms show ?thesis
    by (auto simp: span_lines_def hunk_header_terminated intro: op_lines_terminated)
qed

lemma op_in_sides: "p \<in> set ops \<Longrightarrow> op_text p \<in> set (old_lines ops) \<union> set (new_lines ops)"
  by (cases "op_kind p") (auto simp: old_lines_def new_lines_def)

lemma spans_ok_empty: "spans_ok ops 0 [] \<Longrightarrow> old_lines ops = new_lines ops"
  using equal_sides by simp

lemma parse_rendered:
  assumes "\<forall>p \<in> set ops. is_line (op_text p)" "spans_ok ops 0 spans" "spans \<noteq> []"
    "old_count ops \<le> MAX_SAFE_INTEGER" "new_count ops \<le> MAX_SAFE_INTEGER" "NL \<notin> set from" "NL \<notin> set to"
  shows "parseHunks (concat ((js ''--- '' @ from @ [NL]) # (js ''+++ '' @ to @ [NL]) #
      render_spans ops spans 0 0 0)) = Inr (map (span_hunk ops) spans)"
proof -
  let ?ls = "(js ''--- '' @ from @ [NL]) # (js ''+++ '' @ to @ [NL]) # concat (map (span_lines ops) spans)"
  have heads: "terminated_line (js ''--- '' @ from @ [NL])" "terminated_line (js ''+++ '' @ to @ [NL])"
    unfolding append_assoc [symmetric] terminated_snoc using assms(6,7) by (simp_all add: NL_def)
  have "\<forall>l \<in> set ?ls. terminated_line l"
    using heads span_lines_terminated [OF assms(1)] by auto
  then have "patchLines (concat ?ls) = Inr ?ls"
    by (rule patchLines_terminated) simp
  moreover have "concat ((js ''--- '' @ from @ [NL]) # (js ''+++ '' @ to @ [NL]) # render_spans ops spans 0 0 0) =
      concat ?ls"
    using render_spans_eq [OF assms(2), of 0] by (simp add: old_count_def new_count_def)
  ultimately show ?thesis
    using parse_spans [OF assms(4,5,2)] assms(3)
    by (simp add: parseHunks_def starts_with_def)
qed

section \<open>Properties\<close>

text \<open>
  C27. Applying the rendered line diff of two different texts to the first one gives
  the second one, and reports as many hunks, added and deleted lines as the diff has.
\<close>

theorem apply_rendered:
  assumes "before \<noteq> after" "createLineDiff before after = Inr d"
    "length before \<le> MAX_SAFE_INTEGER" "length after \<le> MAX_SAFE_INTEGER" "NL \<notin> set from" "NL \<notin> set to"
  shows "applyUnifiedPatch before (renderLineDiff from to d) =
    Inr \<lparr>patched_text = after, hunks = length (hunkSpans (operations d)),
         additions = count_kind Insert (operations d), deletions = count_kind Delete (operations d)\<rparr>"
proof -
  let ?ops = "operations d" and ?b = "splitLinesPreservingEndings before"
  note sides = diff_result(1,2) [OF assms(1,2)]
  have ne: "old_lines ?ops \<noteq> new_lines ?ops"
    unfolding sides using assms(1) by (metis concat_split_lines)
  have changed: "changes d \<noteq> 0"
    using ne equal_sides [of ?ops] unfolding diff_result(4) [OF assms(1,2)]
    by (auto simp: filter_empty_conv)
  have ok: "spans_ok ?ops 0 (hunkSpans ?ops)" by (rule hunkSpans_ok)
  have spans: "hunkSpans ?ops \<noteq> []" using ne ok spans_ok_empty by metis
  have lines: "\<forall>p \<in> set ?ops. is_line (op_text p)"
    using op_in_sides [of _ ?ops] line_list_is_line [OF line_list_split] unfolding sides by blast
  have bounds: "old_count ?ops \<le> MAX_SAFE_INTEGER" "new_count ?ops \<le> MAX_SAFE_INTEGER"
    unfolding old_count_def new_count_def sides using assms(3,4) split_lines_length le_trans by blast+
  have parsed: "parseHunks (renderLineDiff from to d) = Inr (map (span_hunk ?ops) (hunkSpans ?ops))"
    unfolding renderLineDiff_def using changed parse_rendered [OF lines ok spans bounds assms(5,6)] by simp
  obtain e where e: "\<forall>p \<in> set (drop e ?ops). is_equal p"
    "apply_hunks ?b (map (span_hunk ?ops) (hunkSpans ?ops)) 0 [] 0 0 =
     Inr (old_count (take e ?ops), new_lines (take e ?ops), count_kind Insert ?ops, count_kind Delete ?ops)"
    using apply_spans [OF sides(1) [symmetric] ok, of 0 0] by (auto simp: old_count_def)
  have "?b = old_lines (take e ?ops) @ old_lines (drop e ?ops)"
    unfolding sides(1) [symmetric] by (metis append_take_drop_id sides_append(1))
  then have "drop (old_count (take e ?ops)) ?b = new_lines (drop e ?ops)"
    using equal_sides [OF e(1)] by (simp add: old_count_def)
  then have "concat (new_lines (take e ?ops) @ drop (old_count (take e ?ops)) ?b) = after"
    by (metis append_take_drop_id sides(2) sides_append(2) concat_split_lines)
  with parsed e(2) show ?thesis by (simp add: applyUnifiedPatch_def Let_def)
qed

theorem apply_rendered_witness:
  "\<exists>d. createLineDiff example_before example_after = Inr d \<and>
     applyUnifiedPatch example_before (renderLineDiff (js ''a'') (js ''b'') d) =
       Inr \<lparr>patched_text = example_after, hunks = length (hunkSpans (operations d)),
            additions = 1, deletions = 1\<rparr>"
proof -
  have "NL \<notin> set (js ''a'')" "NL \<notin> set (js ''b'')" by (simp_all add: NL_def)
  moreover have "length example_before \<le> MAX_SAFE_INTEGER" "length example_after \<le> MAX_SAFE_INTEGER"
    by (simp_all add: example_before_def example_after_def MAX_SAFE_INTEGER_def)
  ultimately show ?thesis
    using apply_rendered [OF example_distinct example_diff] example_diff by simp
qed

text \<open>
  A diff without changes renders to the empty patch, and the empty patch is not
  a patch: applying it is \<open>EINVAL\<close> for every text.
\<close>

theorem empty_patch_rejected:
  "createLineDiff source source = Inr \<lparr>changes = 0, operations = []\<rparr> \<and>
   renderLineDiff from to \<lparr>changes = 0, operations = ops\<rparr> = [] \<and>
   applyUnifiedPatch source [] = Throw EINVAL"
  by (simp add: renderLineDiff_def applyUnifiedPatch_def parseHunks_def patchLines_def)

end
