(* ===== verification/Text_Edits.thy ===== *)
theory Text_Edits
  imports Line_Diff "HOL-Library.Multiset"
begin

text \<open>
  Edits of a collaborative document (\<open>src/collab/edits.ts\<close>) and the three-way merge
  of two versions of a common base (\<open>src/collab/merge.ts\<close>). Positions are code-unit
  offsets of the base text. The locale \<open>edit_source\<close> is what merging needs from a
  derivation of edits: they rebuild the second text, they are separated, and the
  only refusal is the size of the diff.
\<close>

section \<open>Deriving and applying edits\<close>

record TextEdit =
  edit_offset :: nat
  edit_remove :: nat
  edit_insert :: jstring

definition flush_edit :: "TextEdit option \<Rightarrow> TextEdit list \<Rightarrow> TextEdit list" where
  "flush_edit pending edits =
     (case pending of None \<Rightarrow> edits
      | Some p \<Rightarrow> if edit_remove p > 0 \<or> length (edit_insert p) > 0 then edits @ [p] else edits)"

fun text_edits_from ::
  "LineDiffOperation list \<Rightarrow> nat \<Rightarrow> TextEdit option \<Rightarrow> TextEdit list \<Rightarrow> TextEdit list" where
  "text_edits_from [] offset pending edits = flush_edit pending edits"
| "text_edits_from (operation # rest) offset pending edits =
     (if op_kind operation = Equal then
        text_edits_from rest (offset + length (op_text operation)) None (flush_edit pending edits)
      else
        let p = (case pending of Some p \<Rightarrow> p
                 | None \<Rightarrow> \<lparr>edit_offset = offset, edit_remove = 0, edit_insert = []\<rparr>) in
        if op_kind operation = Delete then
          text_edits_from rest (offset + length (op_text operation))
            (Some (p\<lparr>edit_remove := edit_remove p + length (op_text operation)\<rparr>)) edits
        else
          text_edits_from rest offset
            (Some (p\<lparr>edit_insert := edit_insert p @ op_text operation\<rparr>)) edits)"

definition textEdits :: "jstring \<Rightarrow> jstring \<Rightarrow> TextEdit list result" where
  "textEdits before after =
     (if before = after then Inr []
      else bindr (createLineDiff before after) (\<lambda>diff. Inr (text_edits_from (operations diff) 0 None [])))"

fun apply_edits_from :: "jstring \<Rightarrow> TextEdit list \<Rightarrow> jstring \<Rightarrow> nat \<Rightarrow> jstring" where
  "apply_edits_from txt [] result read = result @ drop read txt"
| "apply_edits_from txt (edit # edits) result read =
     apply_edits_from txt edits
       (result @ substring read (edit_offset edit) txt @ edit_insert edit)
       (edit_offset edit + edit_remove edit)"

definition applyTextEdits :: "jstring \<Rightarrow> TextEdit list \<Rightarrow> jstring" where
  "applyTextEdits txt edits = apply_edits_from txt edits [] 0"

section \<open>Merging\<close>

definition same :: "TextEdit \<Rightarrow> TextEdit \<Rightarrow> bool" where
  "same left right \<longleftrightarrow>
     edit_offset left = edit_offset right \<and> edit_remove left = edit_remove right \<and>
     edit_insert left = edit_insert right"

function overlaps :: "TextEdit \<Rightarrow> TextEdit \<Rightarrow> bool" where
  "overlaps left right =
     (if edit_remove left = 0 \<and> edit_remove right = 0 then edit_offset left = edit_offset right
      else if edit_remove left = 0 then
        edit_offset left \<ge> edit_offset right \<and> edit_offset left < edit_offset right + edit_remove right
      else if edit_remove right = 0 then overlaps right left
      else max (edit_offset left) (edit_offset right) <
           min (edit_offset left + edit_remove left) (edit_offset right + edit_remove right))"
  by pat_completeness auto
termination
  by (relation "measure (\<lambda>(left, right). edit_remove left)") auto

declare overlaps.simps [simp del]

fun combine_edits :: "TextEdit list \<Rightarrow> TextEdit list \<Rightarrow> TextEdit list \<Rightarrow> TextEdit list result" where
  "combine_edits ours [] combined = Inr combined"
| "combine_edits ours (edit # edits) combined =
     (if \<exists>left \<in> set ours. same left edit then combine_edits ours edits combined
      else if \<exists>left \<in> set ours. overlaps left edit then Throw EREVISION
      else combine_edits ours edits (combined @ [edit]))"

definition merge_with :: "(jstring \<Rightarrow> jstring \<Rightarrow> TextEdit list result) \<Rightarrow> jstring \<Rightarrow> jstring \<Rightarrow> jstring \<Rightarrow> jstring result" where
  "merge_with edits base local incoming =
     (if local = base \<or> local = incoming then Inr incoming
      else if incoming = base then Inr local
      else bindr (edits base local) (\<lambda>ours.
           bindr (edits base incoming) (\<lambda>theirs.
           bindr (combine_edits ours theirs ours) (\<lambda>combined.
           Inr (applyTextEdits base (sort_key edit_offset combined))))))"

definition mergeText :: "jstring \<Rightarrow> jstring \<Rightarrow> jstring \<Rightarrow> jstring result" where
  "mergeText base local incoming = merge_with textEdits base local incoming"

section \<open>Derived edits\<close>

text \<open>Edits in order, each behind the end of the one before, inside the first \<open>n\<close> units.\<close>

fun edits_from :: "nat \<Rightarrow> nat \<Rightarrow> TextEdit list \<Rightarrow> bool" where
  "edits_from lo n [] = True"
| "edits_from lo n (e # es) =
     (lo \<le> edit_offset e \<and> edit_offset e + edit_remove e \<le> n \<and>
      edits_from (edit_offset e + edit_remove e + 1) n es)"

definition separated :: "nat \<Rightarrow> TextEdit list \<Rightarrow> bool" where
  "separated n es = edits_from 0 n es"

lemma edits_from_mono: "edits_from lo n es \<Longrightarrow> lo' \<le> lo \<Longrightarrow> edits_from lo' n es"
  by (cases es) auto

lemma text_edits_acc: "text_edits_from ops off p edits = edits @ text_edits_from ops off p []"
proof (induction ops arbitrary: off p edits)
  case Nil
  then show ?case by (simp add: flush_edit_def split: option.splits)
next
  case (Cons operation ops)
  show ?case
  proof (cases "op_kind operation = Equal")
    case True
    have "flush_edit p edits = edits @ flush_edit p []" by (simp add: flush_edit_def split: option.splits)
    with True Cons.IH [of _ None "flush_edit p edits"] Cons.IH [of _ None "flush_edit p []"] show ?thesis
      by simp
  next
    case False
    then show ?thesis
      by (cases "op_kind operation = Delete") (simp_all add: Let_def, (rule Cons.IH)+)
  qed
qed

lemma apply_flushed:
  assumes "edit_offset p + edit_remove p = off" "read \<le> edit_offset p"
  shows "apply_edits_from txt (flush_edit (Some p) [] @ es) result read =
    (if edit_remove p > 0 \<or> edit_insert p \<noteq> []
     then apply_edits_from txt es (result @ substring read (edit_offset p) txt @ edit_insert p) off
     else apply_edits_from txt es result read)"
  using assms by (simp add: flush_edit_def)

text \<open>
  What applying the edits of the operations that are left adds to the result:
  \<open>pending\<close> starts at its offset and has read up to \<open>off\<close>.
\<close>

definition pending_ok :: "TextEdit option \<Rightarrow> nat \<Rightarrow> bool" where
  "pending_ok pending off = (\<forall>p. pending = Some p \<longrightarrow> edit_offset p + edit_remove p = off)"

definition pending_start :: "TextEdit option \<Rightarrow> nat \<Rightarrow> nat" where
  "pending_start pending off = (case pending of None \<Rightarrow> off | Some p \<Rightarrow> edit_offset p)"

definition pending_text :: "TextEdit option \<Rightarrow> jstring" where
  "pending_text pending = (case pending of None \<Rightarrow> [] | Some p \<Rightarrow> edit_insert p)"

lemma apply_flush:
  assumes "pending_ok pending off" "read \<le> pending_start pending off"
    and rest: "\<And>result read. read \<le> off \<Longrightarrow>
      apply_edits_from txt es result read = result @ substring read off txt @ tail"
  shows "apply_edits_from txt (flush_edit pending [] @ es) result read =
    result @ substring read (pending_start pending off) txt @ pending_text pending @ tail"
proof (cases pending)
  case None
  with assms show ?thesis by (simp add: flush_edit_def pending_start_def pending_text_def)
next
  case (Some p)
  with assms show ?thesis
    by (auto simp: apply_flushed pending_ok_def pending_start_def pending_text_def substring_def)
qed

lemma apply_text_edits_from:
  "drop off txt = concat (old_lines ops) \<Longrightarrow> pending_ok pending off \<Longrightarrow>
   read \<le> pending_start pending off \<Longrightarrow>
   apply_edits_from txt (text_edits_from ops off pending []) result read =
     result @ substring read (pending_start pending off) txt @ pending_text pending @ concat (new_lines ops)"
proof (induction ops arbitrary: off pending result read)
  case Nil
  have "apply_edits_from txt (flush_edit pending [] @ []) result read =
      result @ substring read (pending_start pending off) txt @ pending_text pending @ []"
    by (rule apply_flush [OF Nil.prems(2,3)]) (use Nil.prems(1) in \<open>simp add: substring_to_end\<close>)
  then show ?case by simp
next
  case (Cons operation ops)
  let ?t = "op_text operation"
  have next_off: "drop (off + length ?t) txt = concat (old_lines ops)" if "op_kind operation \<noteq> Insert"
  proof -
    have "drop (off + length ?t) txt = drop (length ?t) (drop off txt)" by (simp add: add.commute)
    also have "\<dots> = concat (old_lines ops)" unfolding Cons.prems(1) using that by simp
    finally show ?thesis .
  qed
  show ?case
  proof (cases "op_kind operation")
    case Equal
    have rest: "apply_edits_from txt (text_edits_from ops (off + length ?t) None []) result read =
        result @ substring read off txt @ ?t @ concat (new_lines ops)" if "read \<le> off" for result read
    proof -
      have "apply_edits_from txt (text_edits_from ops (off + length ?t) None []) result read =
          result @ substring read (off + length ?t) txt @ concat (new_lines ops)"
        using Cons.IH [OF next_off, of None read result] Equal that
        by (simp add: pending_ok_def pending_start_def pending_text_def)
      moreover have "substring read (off + length ?t) txt = substring read off txt @ ?t"
        using Cons.prems(1) Equal that
        by (simp add: substring_append [symmetric, of read off "off + length ?t"])
           (simp add: substring_def drop_take)
      ultimately show ?thesis by simp
    qed
    show ?thesis
      using apply_flush [OF Cons.prems(2,3) rest] Equal
      by (simp add: text_edits_acc [of ops _ _ "flush_edit pending []"])
  next
    case Delete
    then show ?thesis
      using Cons.IH [OF next_off] Cons.prems(2,3)
      by (auto simp: Let_def pending_ok_def pending_start_def pending_text_def split: option.splits)
  next
    case Insert
    then show ?thesis
      using Cons.IH [of off] Cons.prems
      by (auto simp: Let_def pending_ok_def pending_start_def pending_text_def split: option.splits)
  qed
qed

text \<open>The edits are separated because between two of them lies at least one shared line.\<close>

lemma flush_separated:
  assumes "pending_ok pending off" "lo \<le> pending_start pending off" "off \<le> n"
    "edits_from (off + 1) n es"
  shows "edits_from lo n (flush_edit pending [] @ es)"
proof (cases pending)
  case None
  with assms edits_from_mono [OF assms(4), of lo] show ?thesis
    by (simp add: flush_edit_def pending_start_def)
next
  case (Some p)
  with assms edits_from_mono [OF assms(4), of lo] show ?thesis
    by (simp add: flush_edit_def pending_start_def pending_ok_def)
qed

lemma text_edits_from_separated:
  "\<forall>p \<in> set ops. op_text p \<noteq> [] \<Longrightarrow> off + length (concat (old_lines ops)) = n \<Longrightarrow> pending_ok pending off \<Longrightarrow>
   lo \<le> pending_start pending off \<Longrightarrow> edits_from lo n (text_edits_from ops off pending [])"
proof (induction ops arbitrary: off pending lo)
  case Nil
  then show ?case using flush_separated [of pending off lo n "[]"] by simp
next
  case (Cons operation ops)
  let ?t = "op_text operation"
  show ?case
  proof (cases "op_kind operation")
    case Equal
    have "edits_from (off + 1) n (text_edits_from ops (off + length ?t) None [])"
      using Cons.prems(1,2) Equal
      by (intro Cons.IH) (auto simp: pending_ok_def pending_start_def Suc_le_eq)
    with Cons.prems(2) Equal flush_separated [OF Cons.prems(3,4)] show ?thesis
      by (simp add: text_edits_acc [of ops _ _ "flush_edit pending []"])
  next
    case Delete
    then show ?thesis
      using Cons.IH [of "off + length ?t"] Cons.prems
      by (auto simp: Let_def pending_ok_def pending_start_def split: option.splits)
  next
    case Insert
    then show ?thesis
      using Cons.IH [of off] Cons.prems
      by (auto simp: Let_def pending_ok_def pending_start_def split: option.splits)
  qed
qed


lemma separated_NilI [simp]: "separated n []"
  by (simp add: separated_def)

lemma textEdits_ok:
  assumes "textEdits before after = Inr edits"
  shows "applyTextEdits before edits = after" and "separated (length before) edits"
proof -
  have "applyTextEdits before edits = after \<and> separated (length before) edits"
  proof (cases "before = after")
    case True
    with assms show ?thesis by (auto simp: textEdits_def applyTextEdits_def)
  next
    case False
    with assms obtain d where d: "createLineDiff before after = Inr d"
      "edits = text_edits_from (operations d) 0 None []"
      by (auto simp: textEdits_def)
    note sides = diff_result(1,2) [OF False d(1)]
    have "applyTextEdits before edits = after"
      unfolding applyTextEdits_def d(2)
      using apply_text_edits_from [of 0 before "operations d" None 0 "[]"]
      by (simp add: sides pending_ok_def pending_start_def pending_text_def substring_def)
    moreover have "op_text p \<noteq> []" if "p \<in> set (operations d)" for p
    proof -
      have "op_text p \<in> set (old_lines (operations d)) \<union> set (new_lines (operations d))"
        using that by (cases "op_kind p") (auto simp: old_lines_def new_lines_def)
      then show ?thesis unfolding sides using line_list_nonempty [OF line_list_split] by blast
    qed
    then have "separated (length before) edits"
      unfolding separated_def d(2)
      by (intro text_edits_from_separated) (auto simp: sides pending_ok_def pending_start_def)
    ultimately show ?thesis by blast
  qed
  then show "applyTextEdits before edits = after" "separated (length before) edits" by auto
qed

lemma textEdits_failure: "textEdits before after = Inl e \<Longrightarrow> e = VfsError E2BIG None"
  by (cases "createLineDiff before after") (auto simp: textEdits_def diff_failure split: if_splits)

lemma textEdits_same [simp]: "textEdits t t = Inr []"
  by (simp add: textEdits_def)

section \<open>Overlap\<close>

lemma same_eq [simp]: "same a b \<longleftrightarrow> a = b"
  by (auto simp: same_def)

lemma overlaps_iff:
  "overlaps a b \<longleftrightarrow>
     (if edit_remove a = 0 \<and> edit_remove b = 0 then edit_offset a = edit_offset b
      else if edit_remove a = 0 then edit_offset b \<le> edit_offset a \<and> edit_offset a < edit_offset b + edit_remove b
      else if edit_remove b = 0 then edit_offset a \<le> edit_offset b \<and> edit_offset b < edit_offset a + edit_remove a
      else max (edit_offset a) (edit_offset b) <
           min (edit_offset a + edit_remove a) (edit_offset b + edit_remove b))"
  by (simp add: overlaps.simps [of a b] overlaps.simps [of b a])

lemma overlaps_sym: "overlaps a b = overlaps b a"
  by (auto simp: overlaps_iff max.commute min.commute)

lemma separated_disjoint:
  assumes "e \<in> set es" "edits_from lo n es"
  shows "lo \<le> edit_offset e"
  using assms by (induction lo n es rule: edits_from.induct) fastforce+

lemma overlaps_later:
  "edit_offset a + edit_remove a + 1 \<le> edit_offset b \<Longrightarrow> \<not> overlaps a b"
  by (simp add: overlaps_iff max_def min_def)

lemma separated_no_overlap:
  "edits_from lo n es \<Longrightarrow> a \<in> set es \<Longrightarrow> b \<in> set es \<Longrightarrow> a \<noteq> b \<Longrightarrow> \<not> overlaps a b"
proof (induction lo n es rule: edits_from.induct)
  case (2 lo n e es)
  from "2.prems"(1) have tail: "edits_from (edit_offset e + edit_remove e + 1) n es" by simp
  have later: "\<not> overlaps e x" if "x \<in> set es" for x
    using separated_disjoint [OF that tail] by (rule overlaps_later)
  then have later': "\<not> overlaps x e" if "x \<in> set es" for x
    using that overlaps_sym [of x e] by simp
  from "2.prems" tail later later' "2.IH" show ?case by auto
qed simp

lemma same_offset_overlaps:
  "edit_offset a = edit_offset b \<Longrightarrow> overlaps a b"
  by (simp add: overlaps_iff)

lemma separated_distinct: "edits_from lo n es \<Longrightarrow> distinct es"
proof (induction lo n es rule: edits_from.induct)
  case (2 lo n e es)
  then show ?case using separated_disjoint [of e es _ n] by fastforce
qed simp

section \<open>Combining\<close>

lemma combine_edits_cases:
  "combine_edits ours theirs combined =
     (if \<exists>t \<in> set theirs. t \<notin> set ours \<and> (\<exists>o' \<in> set ours. overlaps o' t) then Throw EREVISION
      else Inr (combined @ filter (\<lambda>t. t \<notin> set ours) theirs))"
proof (induction theirs arbitrary: combined)
  case (Cons t theirs)
  consider "t \<in> set ours" | "t \<notin> set ours" "\<exists>x \<in> set ours. overlaps x t"
    | "t \<notin> set ours" "\<not> (\<exists>x \<in> set ours. overlaps x t)" by blast
  then show ?case
  proof cases
    case 1
    then show ?thesis unfolding combine_edits.simps Cons.IH by simp
  next
    case 2
    then show ?thesis unfolding combine_edits.simps by auto
  next
    case 3
    then show ?thesis unfolding combine_edits.simps Cons.IH by auto
  qed
qed simp

definition conflict :: "TextEdit list \<Rightarrow> TextEdit list \<Rightarrow> bool" where
  "conflict ours theirs \<longleftrightarrow> (\<exists>a \<in> set ours. \<exists>b \<in> set theirs. a \<noteq> b \<and> overlaps a b)"

lemma conflict_sym: "conflict ours theirs = conflict theirs ours"
  by (auto simp: conflict_def) (metis overlaps_sym)+

lemma combine_separated:
  assumes "separated n ours"
  shows "combine_edits ours theirs ours =
    (if conflict ours theirs then Throw EREVISION
     else Inr (ours @ filter (\<lambda>t. t \<notin> set ours) theirs))"
proof -
  have "a \<in> set ours \<Longrightarrow> b \<in> set ours \<Longrightarrow> overlaps a b \<Longrightarrow> a = b" for a b
    using separated_no_overlap [OF assms [unfolded separated_def], of a b] by auto
  then have "(\<exists>t \<in> set theirs. t \<notin> set ours \<and> (\<exists>o' \<in> set ours. overlaps o' t)) \<longleftrightarrow> conflict ours theirs"
    unfolding conflict_def by metis
  then show ?thesis unfolding combine_edits_cases by simp
qed


section \<open>Applying edits one at a time\<close>

text \<open>The reference: each edit replaces its own range, the last one first.\<close>

definition splice :: "TextEdit \<Rightarrow> jstring \<Rightarrow> jstring" where
  "splice e t = take (edit_offset e) t @ edit_insert e @ drop (edit_offset e + edit_remove e) t"

fun ordered :: "nat \<Rightarrow> nat \<Rightarrow> TextEdit list \<Rightarrow> bool" where
  "ordered lo n [] = True"
| "ordered lo n (e # es) =
     (lo \<le> edit_offset e \<and> edit_offset e + edit_remove e \<le> n \<and>
      ordered (edit_offset e + edit_remove e) n es)"

lemma ordered_mono: "ordered lo n es \<Longrightarrow> lo' \<le> lo \<Longrightarrow> ordered lo' n es"
  by (cases es) auto

lemma edits_from_ordered: "edits_from lo n es \<Longrightarrow> ordered lo n es"
  by (induction lo n es rule: edits_from.induct) (auto intro: ordered_mono)

lemma take_splices:
  "ordered lo (length t) es \<Longrightarrow> lo \<le> length t \<Longrightarrow> take lo (foldr splice es t) = take lo t"
proof (induction es arbitrary: lo)
  case (Cons e es)
  let ?t' = "foldr splice es t"
  from Cons.prems have o: "lo \<le> edit_offset e" "edit_offset e + edit_remove e \<le> length t"
    "ordered (edit_offset e + edit_remove e) (length t) es" by auto
  have kept: "take (edit_offset e + edit_remove e) ?t' = take (edit_offset e + edit_remove e) t"
    using Cons.IH [OF o(3,2)] .
  then have "take (edit_offset e) ?t' = take (edit_offset e) t"
    by (metis min.absorb1 le_add1 take_take)
  then have "take lo (splice e ?t') = take lo (take (edit_offset e) t)"
    using o(1,2) by (simp add: splice_def)
  with o(1) show ?case by simp
qed simp

lemma apply_is_splices:
  "ordered read (length t) es \<Longrightarrow> read \<le> length t \<Longrightarrow>
   apply_edits_from t es result read = result @ drop read (foldr splice es t)"
proof (induction es arbitrary: result read)
  case (Cons e es)
  let ?t' = "foldr splice es t" and ?stop = "edit_offset e + edit_remove e"
  from Cons.prems have o: "read \<le> edit_offset e" "?stop \<le> length t" "ordered ?stop (length t) es" by auto
  have "take (edit_offset e) ?t' = take (edit_offset e) t"
    using take_splices [OF o(3,2)] by (metis min.absorb1 le_add1 take_take)
  then have "drop read (splice e ?t') = substring read (edit_offset e) t @ edit_insert e @ drop ?stop ?t'"
    using o(1,2) by (simp add: splice_def substring_def)
  with Cons.IH [OF o(3,2)] show ?case by simp
qed simp

lemma applyTextEdits_splices: "ordered 0 (length t) es \<Longrightarrow> applyTextEdits t es = foldr splice es t"
  using apply_is_splices [of 0 t es "[]"] by (simp add: applyTextEdits_def)

section \<open>Merging two sets of edits\<close>

lemma separated_bound: "edits_from lo n es \<Longrightarrow> e \<in> set es \<Longrightarrow> edit_offset e + edit_remove e \<le> n"
  by (induction lo n es rule: edits_from.induct) auto

lemma disjoint_ordered:
  "sorted (map edit_offset es) \<Longrightarrow> distinct es \<Longrightarrow>
   \<forall>a \<in> set es. edit_offset a + edit_remove a \<le> n \<and> lo \<le> edit_offset a \<Longrightarrow>
   \<forall>a \<in> set es. \<forall>b \<in> set es. a \<noteq> b \<longrightarrow> \<not> overlaps a b \<Longrightarrow> ordered lo n es"
proof (induction es arbitrary: lo)
  case (Cons e es)
  have "edit_offset e + edit_remove e \<le> edit_offset b" if "b \<in> set es" for b
  proof -
    have "\<not> overlaps e b" "edit_offset e \<le> edit_offset b"
      using Cons.prems that by auto
    then show ?thesis by (auto simp: overlaps_iff max_def min_def split: if_splits)
  qed
  with Cons.prems Cons.IH [of "edit_offset e + edit_remove e"] show ?case by auto
qed simp

definition union_edits :: "TextEdit list \<Rightarrow> TextEdit list \<Rightarrow> TextEdit list" where
  "union_edits ours theirs = sort_key edit_offset (ours @ filter (\<lambda>t. t \<notin> set ours) theirs)"

lemma union_disjoint:
  assumes "separated n ours" "separated n theirs" "\<not> conflict ours theirs"
    "a \<in> set ours \<union> set theirs" "b \<in> set ours \<union> set theirs" "a \<noteq> b"
  shows "\<not> overlaps a b"
  using assms separated_no_overlap [OF assms(1) [unfolded separated_def], of a b]
    separated_no_overlap [OF assms(2) [unfolded separated_def], of a b] overlaps_sym [of a b]
  by (auto simp: conflict_def)

lemma set_union_edits [simp]: "set (union_edits ours theirs) = set ours \<union> set theirs"
  by (auto simp: union_edits_def)

lemma union_edits_ordered:
  assumes "separated n ours" "separated n theirs" "\<not> conflict ours theirs"
  shows "ordered 0 n (union_edits ours theirs)"
proof (rule disjoint_ordered)
  show "sorted (map edit_offset (union_edits ours theirs))" by (simp add: union_edits_def)
  show "distinct (union_edits ours theirs)"
    using assms(1,2) separated_distinct by (auto simp: union_edits_def separated_def)
  show "\<forall>a \<in> set (union_edits ours theirs). edit_offset a + edit_remove a \<le> n \<and> 0 \<le> edit_offset a"
    using assms(1,2) separated_bound by (auto simp: separated_def)
  show "\<forall>a \<in> set (union_edits ours theirs). \<forall>b \<in> set (union_edits ours theirs). a \<noteq> b \<longrightarrow> \<not> overlaps a b"
    using union_disjoint [OF assms] by simp
qed

lemma union_edits_sym:
  assumes "separated n ours" "separated n theirs" "\<not> conflict ours theirs"
  shows "union_edits ours theirs = union_edits theirs ours"
  unfolding union_edits_def [of ours]
proof (rule sort_key_inj_key_eq)
  have d: "distinct ours" "distinct theirs"
    using assms(1,2) separated_distinct by (auto simp: separated_def)
  show "mset (ours @ filter (\<lambda>t. t \<notin> set ours) theirs) = mset (union_edits theirs ours)"
    using d by (subst set_eq_iff_mset_eq_distinct [symmetric]) (auto simp: union_edits_def)
  show "inj_on edit_offset (set (ours @ filter (\<lambda>t. t \<notin> set ours) theirs))"
  proof (rule inj_onI)
    fix a b
    assume ab: "a \<in> set (ours @ filter (\<lambda>t. t \<notin> set ours) theirs)" "b \<in> set (ours @ filter (\<lambda>t. t \<notin> set ours) theirs)"
      "edit_offset a = edit_offset b"
    then have "a \<in> set ours \<union> set theirs" "b \<in> set ours \<union> set theirs" by auto
    from union_disjoint [OF assms this] same_offset_overlaps [OF ab(3)] show "a = b" by blast
  qed
  show "sorted (map edit_offset (union_edits theirs ours))" by (simp add: union_edits_def)
qed

text \<open>The contract merging relies on, and the lemmas of merging under it.\<close>

locale edit_source =
  fixes edits :: "jstring \<Rightarrow> jstring \<Rightarrow> TextEdit list result"
  assumes edits_apply: "edits before after = Inr es \<Longrightarrow> applyTextEdits before es = after"
    and edits_separated: "edits before after = Inr es \<Longrightarrow> separated (length before) es"
    and edits_failure: "edits before after = Inl e \<Longrightarrow> e = VfsError E2BIG None"
begin

lemma merge_cases:
  assumes "edits base local = Inr ours" "edits base incoming = Inr theirs"
    "local \<noteq> base" "incoming \<noteq> base" "local \<noteq> incoming"
  shows "merge_with edits base local incoming =
    (if conflict ours theirs then Throw EREVISION
     else Inr (foldr splice (union_edits ours theirs) base))"
proof -
  note sep = edits_separated [OF assms(1)] edits_separated [OF assms(2)]
  show ?thesis
    using applyTextEdits_splices [OF union_edits_ordered [OF sep]] assms
    by (simp add: merge_with_def combine_separated [OF sep(1)] union_edits_def)
qed

lemma merge_sym: "merge_with edits base local incoming = merge_with edits base incoming local"
proof (cases "local = base \<or> incoming = base \<or> local = incoming")
  case True
  then show ?thesis by (auto simp: merge_with_def)
next
  case False
  show ?thesis
  proof (cases "edits base local")
    case (Inl e)
    then show ?thesis
      using edits_failure [OF Inl] edits_failure [of base incoming] False
      by (cases "edits base incoming") (auto simp: merge_with_def)
  next
    case ours: (Inr ours)
    show ?thesis
    proof (cases "edits base incoming")
      case Inl
      with ours False show ?thesis by (auto simp: merge_with_def)
    next
      case theirs: (Inr theirs)
      note sep = edits_separated [OF ours] edits_separated [OF theirs]
      show ?thesis
        using False merge_cases [OF ours theirs] merge_cases [OF theirs ours]
          conflict_sym [of ours theirs] union_edits_sym [OF sep]
        by auto
    qed
  qed
qed

lemma merge_failure:
  "merge_with edits base local incoming = Inl e \<Longrightarrow> e \<in> {VfsError E2BIG None, VfsError EREVISION None}"
proof (cases "local = base \<or> incoming = base \<or> local = incoming")
  case True
  then show "merge_with edits base local incoming = Inl e \<Longrightarrow> ?thesis"
    by (auto simp: merge_with_def split: if_splits)
next
  case False
  assume "merge_with edits base local incoming = Inl e"
  with False show ?thesis
    using edits_failure merge_cases [of base local _ incoming]
    by (cases "edits base local"; cases "edits base incoming")
       (auto simp: merge_with_def split: if_splits)
qed

end

interpretation line_edits: edit_source textEdits
  by unfold_locales (auto dest: textEdits_ok textEdits_failure)

section \<open>Properties\<close>

text \<open>
  C30. Deriving the edits between two texts fails only with \<open>E2BIG\<close>; otherwise the
  edits, applied to the first text, give the second one, and they are separated: in
  order, none empty, inside the text, with unchanged text between any two.
\<close>

theorem edits_roundtrip:
  "(\<exists>edits. textEdits before after = Inr edits \<and> applyTextEdits before edits = after \<and>
      separated (length before) edits) \<or>
   textEdits before after = Throw E2BIG"
  using textEdits_ok [of before after] textEdits_failure [of before after]
  by (cases "textEdits before after") auto

text \<open>The base has two lines; one side changes the first, the other appends a third.\<close>

definition example_local :: jstring where "example_local = [99, 10, 98, 10]"
definition example_incoming :: jstring where "example_incoming = [97, 10, 98, 10, 100, 10]"

lemma example_sides:
  "splitLinesPreservingEndings example_local = [[99, 10], [98, 10]]"
  "splitLinesPreservingEndings example_incoming = [[97, 10], [98, 10], [100, 10]]"
  by (simp_all add: splitLinesPreservingEndings.simps NL_def example_local_def example_incoming_def)

lemma example_sides_distinct:
  "example_local \<noteq> example_before" "example_incoming \<noteq> example_before" "example_local \<noteq> example_incoming"
  "example_before \<noteq> example_local" "example_before \<noteq> example_incoming"
  by (simp_all add: example_before_def example_local_def example_incoming_def)

lemma example_local_operations:
  "lineOperations [[97, 10]] [[99, 10]] 0 0 =
     Inr [\<lparr>op_kind = Delete, op_text = [97, 10], oldLine = 1, newLine = 1\<rparr>,
          \<lparr>op_kind = Insert, op_text = [99, 10], oldLine = 2, newLine = 1\<rparr>]" (is "_ = ?ops")
proof -
  have "lcs_rows [[97, 10]] [[99, 10]] 2 1 (replicate 4 0) = Inr [0, 0, 0, 0]" by code_simp
  moreover have "line_operations_from [[97, 10]] [[99, 10]] [0, 0, 0, 0] 0 0 0 0 = ?ops" by code_simp
  ultimately show ?thesis by (simp add: lineOperations_def lcsLengths_def MAX_LCS_CELLS_def)
qed

lemma example_incoming_operations:
  "lineOperations [] [[100, 10]] 2 2 =
     Inr [\<lparr>op_kind = Insert, op_text = [100, 10], oldLine = 3, newLine = 3\<rparr>]" (is "_ = ?ops")
proof -
  have "lcs_rows [] [[100, 10]] 2 0 (replicate 2 0) = Inr [0, 0]" by code_simp
  moreover have "line_operations_from [] [[100, 10]] [0, 0] 2 2 0 0 = ?ops" by code_simp
  ultimately show ?thesis by (simp add: lineOperations_def lcsLengths_def MAX_LCS_CELLS_def)
qed

lemma example_shared_sides:
  "common_prefix_from [[97, 10], [98, 10]] [[99, 10], [98, 10]] (Suc (Suc 0)) 0 = 0"
  "common_suffix_from [[97, 10], [98, 10]] [[99, 10], [98, 10]] (Suc (Suc 0)) 0 = 1"
  "common_prefix_from [[97, 10], [98, 10]] [[97, 10], [98, 10], [100, 10]] (Suc (Suc 0)) 0 = 2"
  "common_suffix_from [[97, 10], [98, 10]] [[97, 10], [98, 10], [100, 10]] 0 0 = 0"
  by code_simp+

lemma example_diffs:
  "createLineDiff example_before example_local = Inr \<lparr>changes = 2, operations =
     [\<lparr>op_kind = Delete, op_text = [97, 10], oldLine = 1, newLine = 1\<rparr>,
      \<lparr>op_kind = Insert, op_text = [99, 10], oldLine = 2, newLine = 1\<rparr>,
      \<lparr>op_kind = Equal, op_text = [98, 10], oldLine = 2, newLine = 2\<rparr>]\<rparr>"
  "createLineDiff example_before example_incoming = Inr \<lparr>changes = 1, operations =
     [\<lparr>op_kind = Equal, op_text = [97, 10], oldLine = 1, newLine = 1\<rparr>,
      \<lparr>op_kind = Equal, op_text = [98, 10], oldLine = 2, newLine = 2\<rparr>,
      \<lparr>op_kind = Insert, op_text = [100, 10], oldLine = 3, newLine = 3\<rparr>]\<rparr>"
  by (simp_all add: createLineDiff_def example_sides_distinct example_lines example_sides
      example_shared_sides example_local_operations [simplified]
      example_incoming_operations upt_rec Let_def equalOperation_def substring_def)

lemma example_edits:
  "textEdits example_before example_local =
     Inr [\<lparr>edit_offset = 0, edit_remove = 2, edit_insert = [99, 10]\<rparr>]"
  "textEdits example_before example_incoming =
     Inr [\<lparr>edit_offset = 4, edit_remove = 0, edit_insert = [100, 10]\<rparr>]"
  by (simp_all add: textEdits_def example_sides_distinct example_diffs flush_edit_def)

text \<open>
  C29. A three-way merge of two different changes of one base: it is refused with
  \<open>EREVISION\<close> exactly when two edits conflict, and otherwise the result is the base with
  the edits of both sides spliced in.
\<close>

theorem merge_combines_both_sides:
  assumes "textEdits base local = Inr ours" "textEdits base incoming = Inr theirs"
    "local \<noteq> base" "incoming \<noteq> base" "local \<noteq> incoming"
  shows "mergeText base local incoming =
    (if conflict ours theirs then Throw EREVISION else Inr (foldr splice (union_edits ours theirs) base))"
  unfolding mergeText_def using assms by (rule line_edits.merge_cases)

theorem merge_combines_both_sides_witness:
  "mergeText example_before example_local example_incoming = Inr [99, 10, 98, 10, 100, 10]"
  using merge_combines_both_sides [OF example_edits example_sides_distinct(1-3)]
  by (simp add: conflict_def overlaps_iff union_edits_def splice_def example_before_def)

text \<open>Merging does not depend on which side is called local: result and refusal are the same.\<close>

theorem merge_symmetric: "mergeText base local incoming = mergeText base incoming local"
  unfolding mergeText_def by (rule line_edits.merge_sym)

end
