(* ===== verification/Unicode.thy ===== *)
theory Unicode
  imports Prelude
begin

text \<open>
  Code points and UTF-8 (\<open>src/core/unicode.ts\<close>) and the order of UTF-8 encodings
  (\<open>compareUtf8\<close> of \<open>src/core/path.ts\<close>). \<open>TextEncoder\<close> and string iteration are the
  standard library's: a surrogate pair is one code point, an unpaired surrogate
  encodes as U+FFFD. The lemmas show that the measured length is the encoded
  length and that every branch of \<open>compareUtf8\<close> gives the order of the encoded bytes.
\<close>

type_synonym byte = "8 word"

section \<open>Code points\<close>

definition is_high :: "jchar \<Rightarrow> bool" where
  "is_high c \<longleftrightarrow> 0xd800 \<le> c \<and> c \<le> 0xdbff"

definition is_low :: "jchar \<Rightarrow> bool" where
  "is_low c \<longleftrightarrow> 0xdc00 \<le> c \<and> c \<le> 0xdfff"

text \<open>\<open>codePointAt\<close> of the front of a non-empty string.\<close>

definition code_point_front :: "jstring \<Rightarrow> nat" where
  "code_point_front s =
     (case s of [] \<Rightarrow> 0
      | c # d # _ \<Rightarrow>
          (if is_high c \<and> is_low d then 0x10000 + (unat c - 0xd800) * 0x400 + (unat d - 0xdc00) else unat c)
      | [c] \<Rightarrow> unat c)"

definition width :: "nat \<Rightarrow> nat" where
  "width point = (if point > 0xffff then 2 else 1)"

text \<open>Iteration over a string: its characters, one or two units each.\<close>

function characters :: "jstring \<Rightarrow> jstring list" where
  "characters s =
     (if s = [] then [] else
      let n = width (code_point_front s) in take n s # characters (drop n s))"
  by pat_completeness auto
termination
  by (relation "measure length") (auto simp: width_def)

declare characters.simps [simp del]

definition code_points :: "jstring \<Rightarrow> nat list" where
  "code_points s = map code_point_front (characters s)"

definition firstCodePoint :: "jstring \<Rightarrow> nat" where
  "firstCodePoint s = code_point_front s"

fun code_point_count :: "jstring list \<Rightarrow> nat \<Rightarrow> nat" where
  "code_point_count [] n = n"
| "code_point_count (_ # cs) n = code_point_count cs (n + 1)"

definition codePointLength :: "jstring \<Rightarrow> nat" where
  "codePointLength s = code_point_count (characters s) 0"

text \<open>The loop of \<open>sliceCodePoints\<close>; \<open>None\<close> is the infinite default of \<open>end\<close>.\<close>

fun slice_scan :: "jstring list \<Rightarrow> nat \<Rightarrow> nat option \<Rightarrow> nat \<Rightarrow> nat \<Rightarrow> nat \<Rightarrow> nat \<times> nat" where
  "slice_scan [] first last' point offset from = (from, offset)"
| "slice_scan (c # cs) first last' point offset from =
     (let from' = (if point = first then offset else from) in
      if (case last' of None \<Rightarrow> False | Some l \<Rightarrow> point \<ge> l) then (from', offset)
      else slice_scan cs first last' (point + 1) (offset + length c) from')"

definition sliceCodePoints :: "jstring \<Rightarrow> nat \<Rightarrow> nat option \<Rightarrow> jstring" where
  "sliceCodePoints s first last' =
     (if (case last' of None \<Rightarrow> False | Some l \<Rightarrow> l \<le> first) then []
      else let (from, offset) = slice_scan (characters s) first last' 0 0 (length s) in
        substring from offset s)"

section \<open>UTF-8\<close>

definition utf8OrderPoint :: "nat \<Rightarrow> nat" where
  "utf8OrderPoint point = (if point \<ge> 0xd800 \<and> point \<le> 0xdfff then 0xfffd else point)"

definition utf8_units :: "nat \<Rightarrow> nat list" where
  "utf8_units p =
     (if p < 0x80 then [p]
      else if p < 0x800 then [0xc0 + p div 64, 0x80 + p mod 64]
      else if p < 0x10000 then [0xe0 + p div 4096, 0x80 + p div 64 mod 64, 0x80 + p mod 64]
      else [0xf0 + p div 262144, 0x80 + p div 4096 mod 64, 0x80 + p div 64 mod 64, 0x80 + p mod 64])"

definition encodeUtf8 :: "jstring \<Rightarrow> byte list" where
  "encodeUtf8 s = map of_nat (concat (map (utf8_units \<circ> utf8OrderPoint) (code_points s)))"

text \<open>\<open>NON_ASCII\<close> finds a code point from U+0080 on; a code point is that exactly when its units are.\<close>

definition utf8ByteLength :: "jstring \<Rightarrow> nat" where
  "utf8ByteLength s =
     (if \<exists>p \<in> set (code_points s). 0x80 \<le> p then length (encodeUtf8 s) else length s)"

section \<open>Comparison\<close>

fun units_less :: "jstring \<Rightarrow> jstring \<Rightarrow> bool" where
  "units_less [] [] = False"
| "units_less [] (d # ds) = True"
| "units_less (c # cs) [] = False"
| "units_less (c # cs) (d # ds) = (c < d \<or> (c = d \<and> units_less cs ds))"

text \<open>The offsets of \<open>compareShortUtf8\<close> are kept as what is left of each string.\<close>

function compareShortUtf8 :: "jstring \<Rightarrow> jstring \<Rightarrow> int" where
  "compareShortUtf8 left right =
     (if left \<noteq> [] \<and> right \<noteq> [] then
        let leftPoint = code_point_front left; rightPoint = code_point_front right;
            order = int (utf8OrderPoint leftPoint) - int (utf8OrderPoint rightPoint) in
        if order \<noteq> 0 then order
        else compareShortUtf8 (drop (width leftPoint) left) (drop (width rightPoint) right)
      else (if left \<noteq> [] then 1 else 0) - (if right \<noteq> [] then 1 else 0))"
  by pat_completeness auto
termination
  by (relation "measure (\<lambda>(left, right). length left)") (auto simp: width_def)

declare compareShortUtf8.simps [simp del]

fun compare_bytes :: "byte list \<Rightarrow> byte list \<Rightarrow> int option" where
  "compare_bytes (l # ls) (r # rs) = (if l \<noteq> r then Some (uint l - uint r) else compare_bytes ls rs)"
| "compare_bytes _ _ = None"

definition has_surrogate :: "jstring \<Rightarrow> bool" where
  "has_surrogate s = (\<exists>c \<in> set s. 0xd800 \<le> c \<and> c \<le> 0xdfff)"

definition compareUtf8 :: "jstring \<Rightarrow> jstring \<Rightarrow> int" where
  "compareUtf8 left right =
     (if left = right then 0
      else if \<not> has_surrogate left \<and> \<not> has_surrogate right then (if units_less left right then -1 else 1)
      else if length left \<le> 128 \<and> length right \<le> 128 then compareShortUtf8 left right
      else let leftBytes = encodeUtf8 left; rightBytes = encodeUtf8 right in
        (case compare_bytes leftBytes rightBytes of Some d \<Rightarrow> d
         | None \<Rightarrow> int (length leftBytes) - int (length rightBytes)))"

section \<open>Code points and characters\<close>

lemma characters_Nil [simp]: "characters [] = []"
  by (subst characters.simps) simp

lemma characters_step:
  "s \<noteq> [] \<Longrightarrow> characters s = take (width (code_point_front s)) s # characters (drop (width (code_point_front s)) s)"
  by (subst characters.simps) (simp add: Let_def)

lemma characters_induct [case_names Nil step]:
  assumes "P []" "\<And>s. s \<noteq> [] \<Longrightarrow> P (drop (width (code_point_front s)) s) \<Longrightarrow> P s"
  shows "P s"
proof (induction s rule: characters.induct)
  case (1 s)
  then show ?case using assms by (cases "s = []") auto
qed

lemma concat_characters [simp]: "concat (characters s) = s"
  by (induction s rule: characters_induct) (simp_all add: characters_step)

lemma unit_bound: "unat (c :: jchar) < 0x10000"
  using unsigned_less [of c, where ?'a = nat] by simp

lemma front_pair:
  "is_high c \<Longrightarrow> is_low d \<Longrightarrow> code_point_front (c # d # s) = 0x10000 + (unat c - 0xd800) * 0x400 + (unat d - 0xdc00)"
  by (simp add: code_point_front_def)

lemma front_single: "\<not> (\<exists>d s'. s = d # s' \<and> is_high c \<and> is_low d) \<Longrightarrow> code_point_front (c # s) = unat c"
  by (auto simp: code_point_front_def split: list.splits)

lemma front_cases:
  assumes "s \<noteq> []"
  obtains (pair) c d r where "s = c # d # r" "is_high c" "is_low d" "width (code_point_front s) = 2"
      "code_point_front s = 0x10000 + (unat c - 0xd800) * 0x400 + (unat d - 0xdc00)"
    | (single) c r where "s = c # r" "code_point_front s = unat c" "width (code_point_front s) = 1"
proof -
  obtain c r where s: "s = c # r" using assms by (cases s) auto
  show ?thesis
  proof (cases "\<exists>d r'. r = d # r' \<and> is_high c \<and> is_low d")
    case True
    with s that(1) show ?thesis by (auto simp: front_pair width_def)
  next
    case False
    have "code_point_front (c # r) = unat c" using front_single False by blast
    with s that(2) [of c r] unit_bound [of c] show ?thesis by (simp add: width_def)
  qed
qed

lemma front_take [simp]: "s \<noteq> [] \<Longrightarrow> code_point_front (take (width (code_point_front s)) s) = code_point_front s"
  by (cases s rule: front_cases) (auto simp: code_point_front_def)

lemma code_points_step:
  "s \<noteq> [] \<Longrightarrow> code_points s = code_point_front s # code_points (drop (width (code_point_front s)) s)"
  by (simp add: code_points_def characters_step)

lemma code_points_Nil [simp]: "code_points [] = []"
  by (simp add: code_points_def)

lemma code_point_bound: "code_point_front s < 0x110000"
proof (cases "s = []")
  case False
  then show ?thesis
  proof (cases rule: front_cases)
    case (pair c d r)
    have "unat c \<le> 0xdbff" "unat d \<le> 0xdfff"
      using pair(2,3) by (simp_all add: is_high_def is_low_def word_le_nat_alt)
    with pair(5) show ?thesis by simp
  next
    case (single c r)
    then show ?thesis using unit_bound [of c] by simp
  qed
qed (simp add: code_point_front_def)

lemma code_points_bound: "p \<in> set (code_points s) \<Longrightarrow> p < 0x110000"
  by (auto simp: code_points_def code_point_bound)

lemma code_point_count_length: "code_point_count cs n = n + length cs"
  by (induction cs arbitrary: n) auto

lemma codePointLength_eq: "codePointLength s = length (code_points s)"
  by (simp add: codePointLength_def code_point_count_length code_points_def)


section \<open>Slices\<close>

lemma slice_scan_ok:
  assumes "case last' of None \<Rightarrow> True | Some l \<Rightarrow> first < l"
  shows "slice_scan cs first last' point offset fr =
    (if first < point then fr
     else if first - point < length cs then offset + length (concat (take (first - point) cs)) else fr,
     offset + length (concat (case last' of None \<Rightarrow> cs | Some l \<Rightarrow> take (l - point) cs)))"
proof (induction cs arbitrary: point offset fr)
  case Nil
  then show ?case by (simp split: option.splits)
next
  case (Cons c cs)
  show ?case
  proof (cases "\<exists>l. last' = Some l \<and> l \<le> point")
    case True
    with assms show ?thesis by auto
  next
    case False
    consider "first < point" | "first = point" | "point < first" by linarith
    then show ?thesis
    proof cases
      case 3
      then have "take (first - point) (c # cs) = c # take (first - (point + 1)) cs"
        by (simp add: take_Cons')
      with 3 False show ?thesis unfolding slice_scan.simps Cons.IH
        by (auto simp: Let_def take_Cons' split: option.splits)
    next
      case 1
      with False show ?thesis unfolding slice_scan.simps Cons.IH
        by (auto simp: Let_def take_Cons' split: option.splits)
    next
      case 2
      with False show ?thesis unfolding slice_scan.simps Cons.IH
        by (auto simp: Let_def take_Cons' split: option.splits)
    qed
  qed
qed

lemma substring_concat:
  assumes "i \<le> j"
  shows "substring (length (concat (take i cs))) (length (concat (take j cs))) (concat cs) = concat (substring i j cs)"
proof -
  have "concat cs = concat (take j cs) @ concat (drop j cs)"
    by (metis append_take_drop_id concat_append)
  then have "take (length (concat (take j cs))) (concat cs) = concat (take j cs)" by simp
  moreover have "take j cs = take i cs @ substring i j cs"
    using assms by (simp add: substring_def) (metis append_take_drop_id min.absorb1 take_take)
  ultimately show ?thesis unfolding substring_def by (metis append_eq_conv_conj concat_append substring_def)
qed

lemma sliceCodePoints_eq:
  "sliceCodePoints s first last' =
     concat (case last' of None \<Rightarrow> drop first (characters s) | Some l \<Rightarrow> substring first l (characters s))"
proof (cases "case last' of None \<Rightarrow> False | Some l \<Rightarrow> l \<le> first")
  case True
  then show ?thesis by (auto simp: sliceCodePoints_def substring_def split: option.splits)
next
  case False
  let ?cs = "characters s"
  define stop where "stop = (case last' of None \<Rightarrow> length ?cs | Some l \<Rightarrow> l)"
  have stop: "(case last' of None \<Rightarrow> ?cs | Some l \<Rightarrow> take (l - 0) ?cs) = take stop ?cs"
    "(case last' of None \<Rightarrow> drop first ?cs | Some l \<Rightarrow> substring first l ?cs) = substring first stop ?cs"
    by (auto simp: stop_def substring_def split: option.splits)
  have scan: "slice_scan ?cs first last' 0 0 (length s) =
     (if first < length ?cs then length (concat (take first ?cs)) else length s, length (concat (take stop ?cs)))"
    using slice_scan_ok [of first last' ?cs 0 0 "length s"] False stop(1) by (auto split: option.splits)
  have "sliceCodePoints s first last' = substring
     (if first < length ?cs then length (concat (take first ?cs)) else length s) (length (concat (take stop ?cs))) s"
    using False scan by (simp add: sliceCodePoints_def)
  also have "\<dots> = concat (substring first stop ?cs)"
  proof (cases "first < length ?cs")
    case True
    then have "first \<le> stop" using False by (auto simp: stop_def split: option.splits)
    from substring_concat [OF this, of ?cs] True show ?thesis by simp
  next
    case outside: False
    then show ?thesis by (simp add: substring_def)
  qed
  finally show ?thesis unfolding stop(2) .
qed

section \<open>The measured length\<close>

lemma utf8_units_bytes: "p < 0x110000 \<Longrightarrow> b \<in> set (utf8_units p) \<Longrightarrow> b < 256"
  by (auto simp: utf8_units_def split: if_splits)

lemma order_point_bound: "p < 0x110000 \<Longrightarrow> utf8OrderPoint p < 0x110000"
  by (simp add: utf8OrderPoint_def)

lemma unat_encodeUtf8:
  "map unat (encodeUtf8 s) = concat (map (utf8_units \<circ> utf8OrderPoint) (code_points s))"
proof -
  have "unat (of_nat b :: byte) = b" if "b \<in> set (concat (map (utf8_units \<circ> utf8OrderPoint) (code_points s)))" for b
  proof -
    from that obtain p where "p \<in> set (code_points s)" "b \<in> set (utf8_units (utf8OrderPoint p))" by auto
    then have "b < 256"
      using utf8_units_bytes order_point_bound code_points_bound by blast
    then show ?thesis by (simp add: unsigned_of_nat take_bit_nat_eq_self)
  qed
  then show ?thesis unfolding encodeUtf8_def list.map_comp by (intro map_idI) (simp only: o_apply)
qed

lemma ascii_points:
  "\<forall>p \<in> set (code_points s). p < 0x80 \<Longrightarrow> length (concat (map (utf8_units \<circ> utf8OrderPoint) (code_points s))) = length s"
proof (induction s rule: characters_induct)
  case (step s)
  then have p: "code_point_front s < 0x80" by (simp add: code_points_step)
  then have w: "width (code_point_front s) = 1" by (simp add: width_def)
  from step p w show ?case
    by (cases s) (auto simp: code_points_step utf8_units_def utf8OrderPoint_def)
qed simp

lemma utf8ByteLength_eq: "utf8ByteLength s = length (encodeUtf8 s)"
  using ascii_points [of s] by (auto simp: utf8ByteLength_def encodeUtf8_def not_le)


section \<open>The order of encodings\<close>

text \<open>The reference: the first difference decides, and a proper beginning comes first.\<close>

fun lex_order :: "nat list \<Rightarrow> nat list \<Rightarrow> int" where
  "lex_order [] [] = 0"
| "lex_order [] (y # ys) = -1"
| "lex_order (x # xs) [] = 1"
| "lex_order (x # xs) (y # ys) = (if x < y then -1 else if y < x then 1 else lex_order xs ys)"

lemma lex_order_same [simp]: "lex_order (us @ xs) (us @ ys) = lex_order xs ys"
  by (induction us) auto

lemma lex_order_flip: "lex_order xs ys = - lex_order ys xs"
  by (induction xs ys rule: lex_order.induct) auto

lemma lex_order_refl [simp]: "lex_order xs xs = 0"
  using lex_order_same [of xs "[]" "[]"] by simp

definition strictly_below :: "nat list \<Rightarrow> nat list \<Rightarrow> bool" where
  "strictly_below xs ys = (\<exists>u x v y w. xs = u @ x # v \<and> ys = u @ y # w \<and> x < y)"

lemma strictly_below_order: "strictly_below xs ys \<Longrightarrow> lex_order (xs @ r) (ys @ s) = -1"
  by (auto simp: strictly_below_def)

lemma strictly_below_Cons: "strictly_below (x # xs) (y # ys) \<longleftrightarrow> x < y \<or> (x = y \<and> strictly_below xs ys)"
proof
  assume "strictly_below (x # xs) (y # ys)"
  then obtain u a v b w where e: "x # xs = u @ a # v" "y # ys = u @ b # w" "a < b"
    by (auto simp: strictly_below_def)
  then show "x < y \<or> (x = y \<and> strictly_below xs ys)"
    by (cases u) (auto simp: strictly_below_def)
next
  assume "x < y \<or> (x = y \<and> strictly_below xs ys)"
  then show "strictly_below (x # xs) (y # ys)"
    unfolding strictly_below_def
    by (metis append_Cons append_Nil)
qed

lemma strictly_below_Nil [simp]: "\<not> strictly_below [] ys" "\<not> strictly_below xs []"
  by (simp_all add: strictly_below_def)

lemma div_mod_order:
  fixes p q :: nat
  assumes "p < q"
  shows "p div n < q div n \<or> (p div n = q div n \<and> p mod n < q mod n)"
  using assms div_le_mono [of p q n]
  by (metis div_mult_mod_eq less_or_eq_imp_le nat_add_left_cancel_less nat_less_le order_le_imp_less_or_eq)

lemma three_digits_order:
  fixes p q :: nat
  assumes "p < q"
  shows "p div 4096 < q div 4096 \<or> (p div 4096 = q div 4096 \<and>
     (p div 64 mod 64 < q div 64 mod 64 \<or> (p div 64 mod 64 = q div 64 mod 64 \<and> p mod 64 < q mod 64)))"
proof -
  have e: "x div 4096 = x div 64 div 64" for x :: nat by (simp add: div_mult2_eq [symmetric])
  from div_mod_order [OF assms, of 64] show ?thesis
  proof
    assume "p div 64 < q div 64"
    from div_mod_order [OF this, of 64] show ?thesis unfolding e by auto
  next
    assume "p div 64 = q div 64 \<and> p mod 64 < q mod 64"
    then show ?thesis unfolding e by auto
  qed
qed

lemma four_digits_order:
  fixes p q :: nat
  assumes "p < q"
  shows "p div 262144 < q div 262144 \<or> (p div 262144 = q div 262144 \<and>
     (p div 4096 mod 64 < q div 4096 mod 64 \<or> (p div 4096 mod 64 = q div 4096 mod 64 \<and>
     (p div 64 mod 64 < q div 64 mod 64 \<or> (p div 64 mod 64 = q div 64 mod 64 \<and> p mod 64 < q mod 64)))))"
proof -
  have e: "x div 262144 = x div 4096 div 64" for x :: nat by (simp add: div_mult2_eq [symmetric])
  from three_digits_order [OF assms] show ?thesis
  proof
    assume "p div 4096 < q div 4096"
    from div_mod_order [OF this, of 64] show ?thesis unfolding e by auto
  next
    assume "p div 4096 = q div 4096 \<and> (p div 64 mod 64 < q div 64 mod 64 \<or>
      (p div 64 mod 64 = q div 64 mod 64 \<and> p mod 64 < q mod 64))"
    then show ?thesis unfolding e by auto
  qed
qed

text \<open>UTF-8 keeps the order of code points, whatever the lengths of the two encodings are.\<close>

lemma utf8_units_order:
  assumes "p < q" "q < 0x110000"
  shows "strictly_below (utf8_units p) (utf8_units q)"
proof -
  have lead: "p < 0x800 \<Longrightarrow> p div 64 < 32 + x" "p < 0x10000 \<Longrightarrow> p div 4096 < 16 + x" for x
    by auto
  consider "q < 0x80" | "0x80 \<le> q" "q < 0x800" | "0x800 \<le> q" "q < 0x10000" | "0x10000 \<le> q"
    by linarith
  then show ?thesis
  proof cases
    case 1
    with assms show ?thesis by (simp add: utf8_units_def strictly_below_Cons)
  next
    case 2
    with assms div_mod_order [OF assms(1), of 64] show ?thesis
      by (simp add: utf8_units_def strictly_below_Cons)
  next
    case 3
    with assms lead three_digits_order [OF assms(1)] show ?thesis
      by (auto simp: utf8_units_def strictly_below_Cons)
  next
    case 4
    with assms lead four_digits_order [OF assms(1)] show ?thesis
      by (auto simp: utf8_units_def strictly_below_Cons)
  qed
qed

lemma utf8_units_nonempty [simp]: "utf8_units p \<noteq> []"
  by (simp add: utf8_units_def)

lemma lex_order_utf8:
  "\<forall>p \<in> set ps. p < 0x110000 \<Longrightarrow> \<forall>q \<in> set qs. q < 0x110000 \<Longrightarrow>
   lex_order (concat (map utf8_units ps)) (concat (map utf8_units qs)) = lex_order ps qs"
proof (induction ps qs rule: lex_order.induct)
  case (2 q qs)
  then show ?case by (cases "utf8_units q") auto
next
  case (3 p ps)
  then show ?case by (cases "utf8_units p") auto
next
  case (4 p ps q qs)
  consider "p < q" | "q < p" | "p = q" by linarith
  then show ?case
  proof cases
    case 1
    with 4(3) strictly_below_order [OF utf8_units_order [OF 1]] show ?thesis by simp
  next
    case 2
    have "lex_order (utf8_units q @ s) (utf8_units p @ r) = -1" for r s
      using 2 4(2) by (intro strictly_below_order utf8_units_order) auto
    with 2 lex_order_flip show ?thesis by (metis concat.simps(2) equation_minus_iff lex_order.simps(4) list.simps(9) not_less_iff_gr_or_eq)
  next
    case 3
    with 4 show ?thesis by simp
  qed
qed simp

abbreviation order_points :: "jstring \<Rightarrow> nat list" where
  "order_points s \<equiv> map utf8OrderPoint (code_points s)"

lemma lex_order_encoded:
  "lex_order (map unat (encodeUtf8 l)) (map unat (encodeUtf8 r)) = lex_order (order_points l) (order_points r)"
proof -
  have "\<forall>p \<in> set (order_points s). p < 0x110000" for s
    using order_point_bound code_points_bound by auto
  from lex_order_utf8 [OF this this, of l r] show ?thesis
    by (simp add: unat_encodeUtf8 o_def)
qed

lemma compareShortUtf8_ok: "sgn (compareShortUtf8 l r) = lex_order (order_points l) (order_points r)"
proof (induction l r rule: compareShortUtf8.induct)
  case (1 l r)
  show ?case
  proof (cases "l \<noteq> [] \<and> r \<noteq> []")
    case True
    then have steps: "code_points l = code_point_front l # code_points (drop (width (code_point_front l)) l)"
      "code_points r = code_point_front r # code_points (drop (width (code_point_front r)) r)"
      by (simp_all add: code_points_step)
    show ?thesis
      unfolding steps by (subst compareShortUtf8.simps) (use 1 True in \<open>auto simp: Let_def\<close>)
  next
    case False
    then show ?thesis
      by (subst compareShortUtf8.simps) (cases "l = []"; cases "r = []"; auto simp: code_points_step)
  qed
qed

lemma bmp_points: "\<not> has_surrogate s \<Longrightarrow> order_points s = map unat s"
proof (induction s rule: characters_induct)
  case (step s)
  show ?case using step(1)
  proof (cases rule: front_cases)
    case (pair c d r)
    have "0xd800 \<le> c \<and> c \<le> 0xdfff"
      using pair(2) by (simp add: is_high_def word_le_nat_alt)
    with pair(1) step(3) show ?thesis by (auto simp: has_surrogate_def)
  next
    case (single c r)
    with step have "order_points r = map unat r" "\<not> (0xd800 \<le> c \<and> c \<le> 0xdfff)"
      by (auto simp: has_surrogate_def)
    moreover from this(2) have "utf8OrderPoint (unat c) = unat c"
      by (auto simp: utf8OrderPoint_def word_le_nat_alt)
    moreover have "code_points s = unat c # code_points r"
      using step(1) single by (simp add: code_points_step)
    ultimately show ?thesis using single by simp
  qed
qed simp

lemma units_less_ok: "units_less l r \<longleftrightarrow> lex_order (map unat l) (map unat r) = -1"
  by (induction l r rule: units_less.induct) (auto simp: word_less_nat_alt word_unat_eq_iff)

lemma lex_order_range: "lex_order xs ys \<in> {-1, 0, 1}"
  by (induction xs ys rule: lex_order.induct) auto

lemma lex_order_zero: "lex_order xs ys = 0 \<longleftrightarrow> xs = ys"
  by (induction xs ys rule: lex_order.induct) auto

lemma compare_bytes_ok:
  "sgn (case compare_bytes l r of Some d \<Rightarrow> d | None \<Rightarrow> int (length l) - int (length r)) =
   lex_order (map unat l) (map unat r)"
proof (induction l r rule: compare_bytes.induct)
  case (1 l ls r rs)
  consider "l < r" | "r < l" | "l = r" by fastforce
  then show ?case
  proof cases
    case 3
    then have "(case compare_bytes (l # ls) (r # rs) of Some d \<Rightarrow> d
        | None \<Rightarrow> int (length (l # ls)) - int (length (r # rs))) =
      (case compare_bytes ls rs of Some d \<Rightarrow> d | None \<Rightarrow> int (length ls) - int (length rs))"
      by (auto split: option.splits)
    with 1 3 show ?thesis by simp
  qed (auto simp: sgn_if word_less_nat_alt [symmetric] word_less_def [symmetric] word_uint_eq_iff [symmetric])
qed (auto simp: sgn_if neq_Nil_conv)

lemma unat_inj_map: "map unat (l :: jstring) = map unat r \<longleftrightarrow> l = r"
  by (auto intro: map_injective)

lemma compareUtf8_order:
  "sgn (compareUtf8 l r) = lex_order (map unat (encodeUtf8 l)) (map unat (encodeUtf8 r))"
proof -
  consider "l = r" | "l \<noteq> r" "\<not> has_surrogate l \<and> \<not> has_surrogate r"
    | "l \<noteq> r" "has_surrogate l \<or> has_surrogate r" by blast
  then show ?thesis
  proof cases
    case 1
    then show ?thesis by (simp add: compareUtf8_def)
  next
    case 2
    then have "lex_order (map unat l) (map unat r) \<noteq> 0" by (simp add: lex_order_zero unat_inj_map)
    with 2 lex_order_range [of "map unat l" "map unat r"] show ?thesis
      unfolding lex_order_encoded by (auto simp: compareUtf8_def bmp_points units_less_ok)
  next
    case 3
    show ?thesis
    proof (cases "length l \<le> 128 \<and> length r \<le> 128")
      case True
      with 3 show ?thesis
        unfolding lex_order_encoded compareShortUtf8_ok [symmetric] by (auto simp: compareUtf8_def)
    next
      case False
      with 3 show ?thesis
        unfolding compare_bytes_ok [symmetric] by (auto simp: compareUtf8_def Let_def)
    qed
  qed
qed


section \<open>Decoding\<close>

definition units_of :: "nat \<Rightarrow> jstring" where
  "units_of p =
     (if p > 0xffff then [of_nat (0xd800 + (p - 0x10000) div 0x400), of_nat (0xdc00 + (p - 0x10000) mod 0x400)]
      else [of_nat p])"

lemma units_of_front:
  assumes "s \<noteq> []"
  shows "take (width (code_point_front s)) s = units_of (code_point_front s)"
  using assms
proof (cases rule: front_cases)
  case (pair c d r)
  have b: "0xd800 \<le> unat c" "unat d \<le> 0xdfff" "0xdc00 \<le> unat d"
    using pair(2,3) by (simp_all add: is_high_def is_low_def word_le_nat_alt)
  define h l where "h = unat c - 0xd800" and "l = unat d - 0xdc00"
  have hl: "unat c = 0xd800 + h" "unat d = 0xdc00 + l" "l < 0x400"
    using b by (simp_all add: h_def l_def)
  have p: "code_point_front s = 0x10000 + (h * 0x400 + l)"
    unfolding pair(5) h_def l_def by simp
  have "(h * 0x400 + l) div 0x400 = h" "(h * 0x400 + l) mod 0x400 = l" using hl(3) by auto
  then have "units_of (code_point_front s) = [of_nat (unat c), of_nat (unat d)]"
    unfolding units_of_def p hl(1,2) by (simp del: of_nat_add)
  with pair(1,4) show ?thesis by simp
next
  case (single c r)
  with unit_bound [of c] show ?thesis by (simp add: units_of_def)
qed

lemma units_of_code_points [simp]: "concat (map units_of (code_points s)) = s"
  by (induction s rule: characters_induct) (simp_all add: code_points_step units_of_front [symmetric])

lemma code_points_inject: "code_points s = code_points t \<longleftrightarrow> s = t"
  by (metis units_of_code_points)

lemma code_points_append:
  "x = [] \<or> \<not> is_low (hd x) \<Longrightarrow> code_points (s @ x) = code_points s @ code_points x"
proof (induction s rule: characters_induct)
  case (step s)
  have "code_point_front (s @ x) = code_point_front s \<and> width (code_point_front s) \<le> length s"
    using step(1)
  proof (cases rule: front_cases)
    case (pair c d r)
    then show ?thesis by (simp add: front_pair)
  next
    case (single c r)
    have "\<not> (\<exists>d r'. r @ x = d # r' \<and> is_high c \<and> is_low d)"
    proof
      assume "\<exists>d r'. r @ x = d # r' \<and> is_high c \<and> is_low d"
      then obtain d r' where d: "r @ x = d # r'" "is_high c" "is_low d" by blast
      show False
      proof (cases r)
        case Nil
        with d step(3) show False by auto
      next
        case (Cons e r'')
        with d have "code_point_front s > 0xffff" by (simp add: single(1) front_pair)
        with single(2) unit_bound [of c] show False by simp
      qed
    qed
    with single show ?thesis by (simp add: front_single)
  qed
  with step show ?case by (simp add: code_points_step)
qed simp

lemma code_points_ascii: "c \<le> 0x7f \<Longrightarrow> code_points [c] = [unat c]"
  by (simp add: code_points_step code_point_front_def width_def unit_bound not_less less_imp_le_nat)

text \<open>No unpaired surrogate: the order of encodings is the order of the code points.\<close>

definition well_formed :: "jstring \<Rightarrow> bool" where
  "well_formed s = (\<forall>p \<in> set (code_points s). \<not> (0xd800 \<le> p \<and> p \<le> 0xdfff))"

lemma well_formed_points: "well_formed s \<Longrightarrow> order_points s = code_points s"
  by (auto simp: well_formed_def utf8OrderPoint_def intro!: map_idI)

text \<open>The order SQLite's binary collation gives text.\<close>

definition sql_less :: "jstring \<Rightarrow> jstring \<Rightarrow> bool" where
  "sql_less a b = (lex_order (map unat (encodeUtf8 a)) (map unat (encodeUtf8 b)) < 0)"

definition sql_le :: "jstring \<Rightarrow> jstring \<Rightarrow> bool" where
  "sql_le a b = (lex_order (map unat (encodeUtf8 a)) (map unat (encodeUtf8 b)) \<le> 0)"

lemma lex_range:
  "lex_order (rs @ [n]) ps \<le> 0 \<and> lex_order ps (rs @ [Suc n]) < 0 \<longleftrightarrow> (\<exists>t. ps = rs @ n # t)"
proof (induction rs arbitrary: ps)
  case Nil
  show ?case
  proof (cases ps)
    case (Cons p ps')
    have "lex_order [] ps' \<le> 0" "\<not> lex_order ps' [] < 0"
      by (cases ps'; simp)+
    with Cons show ?thesis by auto
  qed simp
next
  case (Cons r rs)
  show ?case
  proof (cases ps)
    case (Cons p ps')
    with Cons.IH [of ps'] show ?thesis by auto
  qed simp
qed

section \<open>Properties\<close>

text \<open>
  C39. The comparison of paths orders any two strings as their encoded bytes are
  ordered, whatever shortcut it takes, and only strings with the same bytes are equal in it.
\<close>

theorem compareUtf8_is_byte_order:
  "sgn (compareUtf8 l r) = lex_order (map unat (encodeUtf8 l)) (map unat (encodeUtf8 r)) \<and>
   (compareUtf8 l r = 0 \<longleftrightarrow> encodeUtf8 l = encodeUtf8 r)"
proof -
  have "map unat (encodeUtf8 l) = map unat (encodeUtf8 r) \<longleftrightarrow> encodeUtf8 l = encodeUtf8 r"
    by (rule inj_map_eq_map) (auto intro: injI)
  then show ?thesis
    using compareUtf8_order [of l r] lex_order_zero [of "map unat (encodeUtf8 l)" "map unat (encodeUtf8 r)"]
    by (metis sgn_0_0)
qed

text \<open>
  The counts and the slice that scan code units agree with the decoded string:
  the number of code points, the number of encoded bytes, and the characters from one
  position to another.
\<close>

theorem unicode_scans:
  "codePointLength s = length (code_points s) \<and> utf8ByteLength s = length (encodeUtf8 s) \<and>
   sliceCodePoints s first last' =
     concat (case last' of None \<Rightarrow> drop first (characters s) | Some l \<Rightarrow> substring first l (characters s))"
  by (simp add: codePointLength_eq utf8ByteLength_eq sliceCodePoints_eq)

end
