(* ===== verification/Paths.thy ===== *)
theory Paths
  imports Unicode
begin

text \<open>
  Paths: \<open>src/core/path.ts\<close> and the ancestor walks of \<open>src/vfs/traversal.ts\<close>. The
  regular expressions of the source are recursive matchers over the suffixes of
  the string. \<open>canonical\<close> is the reference for what a normalized path is; the
  lemmas show that \<open>normalizePath\<close> yields exactly such paths and leaves them
  alone, that its fast path agrees with the general one, and what the derived
  operations compute on them.
\<close>

section \<open>Normalization\<close>

definition MAX_PATH_BYTES :: nat where "MAX_PATH_BYTES = 4096"
definition MAX_NAME_BYTES :: nat where "MAX_NAME_BYTES = 255"

text \<open>\<open>\.\.?(?:\/|$)\<close> at the front.\<close>

definition dot_component_front :: "jstring \<Rightarrow> bool" where
  "dot_component_front s \<longleftrightarrow>
     starts_with [DOT, SLASH] s \<or> s = [DOT] \<or> starts_with [DOT, DOT, SLASH] s \<or> s = [DOT, DOT]"

fun slash_dot_component :: "jstring \<Rightarrow> bool" where
  "slash_dot_component [] = False"
| "slash_dot_component (c # s) = ((c = SLASH \<and> dot_component_front s) \<or> slash_dot_component s)"

text \<open>\<open>DOT_COMPONENT\<close>\<close>

definition dot_component :: "jstring \<Rightarrow> bool" where
  "dot_component s = (dot_component_front s \<or> slash_dot_component s)"

text \<open>\<open>NON_CANONICAL_ASCII\<close>\<close>

fun double_slash :: "jstring \<Rightarrow> bool" where
  "double_slash [] = False"
| "double_slash (c # s) = ((c = SLASH \<and> starts_with [SLASH] s) \<or> double_slash s)"

definition non_canonical_ascii :: "jstring \<Rightarrow> bool" where
  "non_canonical_ascii s \<longleftrightarrow>
     double_slash s \<or> slash_dot_component s \<or> (\<exists>c \<in> set s. \<not> (1 \<le> c \<and> c \<le> 0x7f))"

definition validatePath :: "jstring \<Rightarrow> unit result" where
  "validatePath path =
     (if NUL \<in> set path then Throw_at EINVAL path
      else if utf8ByteLength path > MAX_PATH_BYTES then Throw_at ENAMETOOLONG path
      else Inr ())"

fun normalize_segments :: "jstring \<Rightarrow> jstring list \<Rightarrow> jstring list \<Rightarrow> jstring list result" where
  "normalize_segments path [] segments = Inr segments"
| "normalize_segments path (segment # rest) segments =
     (if length segment = 0 \<or> segment = [DOT] then normalize_segments path rest segments
      else if segment = [DOT, DOT] then normalize_segments path rest (butlast segments)
      else if utf8ByteLength segment > MAX_NAME_BYTES then Throw_at ENAMETOOLONG path
      else normalize_segments path rest (segments @ [segment]))"

definition absolute_path :: "jstring \<Rightarrow> jstring \<Rightarrow> jstring" where
  "absolute_path path cwd = (if starts_with [SLASH] path then path else cwd @ [SLASH] @ path)"

definition fast_path :: "jstring \<Rightarrow> bool" where
  "fast_path path \<longleftrightarrow>
     length path \<le> MAX_NAME_BYTES \<and> starts_with [SLASH] path \<and> \<not> ends_with_char SLASH path \<and>
     \<not> non_canonical_ascii path"

definition normalizePath :: "jstring \<Rightarrow> jstring \<Rightarrow> jstring result" where
  "normalizePath path cwd =
     (if length path = 0 then Throw EINVAL
      else if path = [SLASH] then Inr path
      else if fast_path path then Inr path
      else
        bindr (normalize_segments path (split_on SLASH (absolute_path path cwd)) []) (\<lambda>segments.
        let normalized = SLASH # join_with [SLASH] segments in
        bindr (validatePath normalized) (\<lambda>_. Inr normalized)))"

text \<open>\<open>normalizePath(path)\<close> with the default working directory.\<close>

abbreviation normalizeRoot :: "jstring \<Rightarrow> jstring result" where
  "normalizeRoot path \<equiv> normalizePath path [SLASH]"

fun includes_text :: "jstring \<Rightarrow> jstring \<Rightarrow> bool" where
  "includes_text p [] = (p = [])"
| "includes_text p (c # s) = (starts_with p (c # s) \<or> includes_text p s)"

definition hasDotSegments :: "jstring \<Rightarrow> bool" where
  "hasDotSegments path \<longleftrightarrow> (includes_text [SLASH, DOT] path \<or> starts_with [DOT] path) \<and> dot_component path"

definition normalizeResolutionPath :: "jstring \<Rightarrow> jstring \<Rightarrow> jstring result" where
  "normalizeResolutionPath path cwd =
     bindr (normalizePath path cwd) (\<lambda>normalized.
     let absolute = absolute_path path cwd in
     if \<not> hasDotSegments absolute then Inr normalized
     else bindr (validatePath absolute) (\<lambda>_. Inr absolute))"

definition pathRequiresDirectory :: "jstring \<Rightarrow> bool" where
  "pathRequiresDirectory path \<longleftrightarrow> length path > 1 \<and> ends_with_char SLASH path"

definition normalizePathPreservingTrailingSlash :: "jstring \<Rightarrow> jstring \<Rightarrow> jstring result" where
  "normalizePathPreservingTrailingSlash path cwd =
     bindr (normalizePath path cwd) (\<lambda>normalized.
     Inr (if normalized \<noteq> [SLASH] \<and> pathRequiresDirectory path then normalized @ [SLASH] else normalized))"

definition normalizeFileSystemPath :: "jstring \<Rightarrow> jstring \<Rightarrow> jstring result" where
  "normalizeFileSystemPath path cwd =
     (if hasDotSegments path \<or> (\<not> starts_with [SLASH] path \<and> hasDotSegments cwd)
      then normalizeResolutionPath path cwd
      else normalizePathPreservingTrailingSlash path cwd)"

section \<open>Derived operations\<close>

definition last_slash :: "jstring \<Rightarrow> nat" where
  "last_slash s = length s - 1 - length (takeWhile (\<lambda>c. c \<noteq> SLASH) (rev s))"

definition dirname :: "jstring \<Rightarrow> jstring result" where
  "dirname path =
     bindr (normalizeRoot path) (\<lambda>normalized.
     if normalized = [SLASH] then Inr [SLASH]
     else let separator = last_slash normalized in
       Inr (if separator = 0 then [SLASH] else substring 0 separator normalized))"

definition basename :: "jstring \<Rightarrow> jstring result" where
  "basename path =
     bindr (normalizeRoot path) (\<lambda>normalized.
     if normalized = [SLASH] then Inr [SLASH] else Inr (drop (last_slash normalized + 1) normalized))"

definition depthFrom :: "jstring \<Rightarrow> jstring \<Rightarrow> nat result" where
  "depthFrom root path =
     bindr (normalizeRoot root) (\<lambda>normalizedRoot.
     bindr (normalizeRoot path) (\<lambda>normalizedPath.
     if normalizedRoot = normalizedPath then Inr 0
     else let pre = (if normalizedRoot = [SLASH] then [SLASH] else normalizedRoot @ [SLASH]) in
       if \<not> starts_with pre normalizedPath then Throw EINVAL
       else Inr (length (split_on SLASH (drop (length pre) normalizedPath)))))"

definition isDescendant :: "jstring \<Rightarrow> jstring \<Rightarrow> bool result" where
  "isDescendant root path =
     bindr (normalizeRoot root) (\<lambda>normalizedRoot.
     bindr (normalizeRoot path) (\<lambda>normalizedPath.
     if normalizedRoot = [SLASH] then Inr (normalizedPath \<noteq> [SLASH])
     else Inr (starts_with (normalizedRoot @ [SLASH]) normalizedPath)))"

text \<open>The pair of \<open>lower\<close> and \<open>upper\<close>; \<open>0\<close> is the unit after \<open>/\<close>.\<close>

abbreviation ZERO :: jchar where "ZERO \<equiv> 0x30"

definition descendantRange :: "jstring \<Rightarrow> (jstring \<times> jstring) result" where
  "descendantRange root =
     bindr (normalizeRoot root) (\<lambda>normalized.
     if normalized = [SLASH] then Inr ([SLASH], [ZERO])
     else Inr (normalized @ [SLASH], normalized @ [ZERO]))"

text \<open>The loop of \<open>canonicalAncestors\<close>: \<open>slash\<close> is the position of the separator found last.\<close>

function ancestors_from :: "jstring \<Rightarrow> nat \<Rightarrow> jstring list" where
  "ancestors_from path slash =
     (if slash > 0 then
        substring 0 slash path #
        (if SLASH \<in> set (take slash path) then ancestors_from path (last_slash (take slash path)) else [])
      else [])"
  by pat_completeness auto
termination
  by (relation "measure snd") (auto simp: last_slash_def)

declare ancestors_from.simps [simp del]

definition canonicalAncestors :: "jstring \<Rightarrow> jstring list" where
  "canonicalAncestors path =
     (if path = [SLASH] then [] else ancestors_from path (last_slash path) @ [[SLASH]])"


text \<open>\<open>traversalAncestors\<close>; the \<open>Set\<close> keeps the order of first insertion.\<close>

definition add_new :: "jstring \<Rightarrow> jstring list \<Rightarrow> jstring list" where
  "add_new p seen = (if p \<in> set seen then seen else seen @ [p])"

text \<open>The unbounded inner loop, with fuel: every step removes a component, so the length is enough.\<close>

fun add_parents :: "nat \<Rightarrow> jstring \<Rightarrow> jstring list \<Rightarrow> jstring list result" where
  "add_parents 0 parent seen = Inl RangeError"
| "add_parents (Suc fuel) parent seen =
     (if parent = [SLASH] then Inr (add_new parent seen)
      else bindr (dirname parent) (\<lambda>up. add_parents fuel up (add_new parent seen)))"

fun traversal_from :: "jstring list \<Rightarrow> jstring list \<Rightarrow> jstring list result" where
  "traversal_from [] seen = Inr seen"
| "traversal_from (candidate # rest) seen =
     bindr (if ends_with_char SLASH candidate then normalizeRoot candidate else dirname candidate) (\<lambda>first.
     bindr (add_parents (length first) first seen) (\<lambda>seen'. traversal_from rest seen'))"

definition traversalAncestors :: "jstring \<Rightarrow> jstring list \<Rightarrow> jstring list result" where
  "traversalAncestors path followed =
     (if length followed = 0 then Inr (canonicalAncestors path) else traversal_from (path # followed) [])"

section \<open>Canonical paths\<close>

definition valid_segment :: "jstring \<Rightarrow> bool" where
  "valid_segment seg \<longleftrightarrow>
     seg \<noteq> [] \<and> seg \<noteq> [DOT] \<and> seg \<noteq> [DOT, DOT] \<and> SLASH \<notin> set seg \<and> utf8ByteLength seg \<le> MAX_NAME_BYTES"

definition path_of :: "jstring list \<Rightarrow> jstring" where
  "path_of segs = SLASH # join_with [SLASH] segs"

definition canonical :: "jstring \<Rightarrow> bool" where
  "canonical path \<longleftrightarrow>
     (\<exists>segs. path = path_of segs \<and> (\<forall>seg \<in> set segs. valid_segment seg)) \<and>
     NUL \<notin> set path \<and> utf8ByteLength path \<le> MAX_PATH_BYTES"

definition segments_of :: "jstring \<Rightarrow> jstring list" where
  "segments_of path = filter (\<lambda>seg. seg \<noteq> []) (split_on SLASH path)"

lemma path_of_Nil [simp]: "path_of [] = [SLASH]"
  by (simp add: path_of_def)

lemma split_path_of:
  "\<forall>seg \<in> set segs. SLASH \<notin> set seg \<Longrightarrow> split_on SLASH (path_of segs) = [] # (if segs = [] then [[]] else segs)"
  by (simp add: path_of_def split_join)

lemma valid_no_slash: "valid_segment seg \<Longrightarrow> SLASH \<notin> set seg" "valid_segment seg \<Longrightarrow> seg \<noteq> []"
  by (simp_all add: valid_segment_def)

lemma segments_path_of: "\<forall>seg \<in> set segs. valid_segment seg \<Longrightarrow> segments_of (path_of segs) = segs"
  by (simp add: segments_of_def split_path_of valid_no_slash filter_id_conv)

lemma path_of_inject:
  "\<forall>seg \<in> set a. valid_segment seg \<Longrightarrow> \<forall>seg \<in> set b. valid_segment seg \<Longrightarrow> path_of a = path_of b \<longleftrightarrow> a = b"
  using segments_path_of by metis

lemma canonicalE:
  assumes "canonical path"
  obtains segs where "path = path_of segs" "\<forall>seg \<in> set segs. valid_segment seg"
  using assms by (auto simp: canonical_def)

lemma canonical_segments:
  "canonical path \<Longrightarrow> path = path_of (segments_of path) \<and> (\<forall>seg \<in> set (segments_of path). valid_segment seg)"
  by (metis canonicalE segments_path_of)

lemma validatePath_Inr: "validatePath p = Inr u \<longleftrightarrow> NUL \<notin> set p \<and> utf8ByteLength p \<le> MAX_PATH_BYTES"
  by (auto simp: validatePath_def)

lemma normalize_segments_valid:
  "normalize_segments path xs acc = Inr segs \<Longrightarrow> \<forall>x \<in> set xs. SLASH \<notin> set x \<Longrightarrow>
   \<forall>x \<in> set acc. valid_segment x \<Longrightarrow> \<forall>seg \<in> set segs. valid_segment seg"
proof (induction xs arbitrary: acc)
  case (Cons x xs)
  consider (skip) "length x = 0 \<or> x = [DOT]" | (up) "x = [DOT, DOT]"
    | (keep) "x \<noteq> []" "x \<noteq> [DOT]" "x \<noteq> [DOT, DOT]" by auto
  then show ?case
  proof cases
    case skip
    with Cons.prems Cons.IH [of acc] show ?thesis by simp
  next
    case up
    have "\<forall>x \<in> set (butlast acc). valid_segment x" using Cons.prems(3) by (auto dest: in_set_butlastD)
    with up Cons.prems Cons.IH [of "butlast acc"] show ?thesis by simp
  next
    case keep
    with Cons.prems have ok: "\<not> MAX_NAME_BYTES < utf8ByteLength x" by (auto split: if_splits)
    with keep Cons.prems have "\<forall>y \<in> set (acc @ [x]). valid_segment y"
      by (auto simp: valid_segment_def)
    with ok keep Cons.prems Cons.IH [of "acc @ [x]"] show ?thesis by simp
  qed
qed simp

lemma normalize_segments_keep:
  "\<forall>x \<in> set xs. valid_segment x \<Longrightarrow> normalize_segments path xs acc = Inr (acc @ xs)"
  by (induction xs arbitrary: acc) (auto simp: valid_segment_def not_less)

lemma normalize_split:
  "\<forall>x \<in> set segs. valid_segment x \<Longrightarrow>
   normalize_segments path (split_on SLASH (path_of segs)) [] = Inr segs"
  by (auto simp: split_path_of valid_no_slash normalize_segments_keep)

section \<open>The fast path\<close>

lemma double_slash_iff: "double_slash s \<longleftrightarrow> (\<exists>a b. s = a @ SLASH # SLASH # b)"
proof (induction s)
  case (Cons c s)
  have "(\<exists>a b. c # s = a @ SLASH # SLASH # b) \<longleftrightarrow>
      (c = SLASH \<and> (\<exists>b. s = SLASH # b)) \<or> (\<exists>a b. s = a @ SLASH # SLASH # b)"
    by (subst Cons_eq_append_conv) blast
  with Cons show ?case by simp
qed simp

lemma slash_dot_component_iff:
  "slash_dot_component s \<longleftrightarrow> (\<exists>a b. s = a @ SLASH # b \<and> dot_component_front b)"
proof (induction s)
  case (Cons c s)
  have "(\<exists>a b. c # s = a @ SLASH # b \<and> dot_component_front b) \<longleftrightarrow>
      (c = SLASH \<and> dot_component_front s) \<or> (\<exists>a b. s = a @ SLASH # b \<and> dot_component_front b)"
    by (subst Cons_eq_append_conv) blast
  with Cons show ?case by simp
qed simp

lemma join_context:
  "seg \<in> set ss \<Longrightarrow> \<exists>a b. c # join_with [c] ss = a @ c # seg @ b \<and> (b = [] \<or> (\<exists>b'. b = c # b'))"
proof (induction ss)
  case (Cons t ts)
  show ?case
  proof (cases "seg = t")
    case True
    then show ?thesis
      by (intro exI [of _ "[]"] exI [of _ "if ts = [] then [] else c # join_with [c] ts"])
         (simp add: join_with_Cons)
  next
    case False
    with Cons obtain a b where "c # join_with [c] ts = a @ c # seg @ b" "b = [] \<or> (\<exists>b'. b = c # b')"
      by auto
    moreover have "ts \<noteq> []" using False Cons.prems by auto
    ultimately show ?thesis
      by (intro exI [of _ "c # t @ a"] exI [of _ b]) (simp add: join_with_Cons)
  qed
qed simp

lemma split_on_context:
  "seg \<in> set (split_on c s) \<Longrightarrow> \<exists>a b. c # s = a @ c # seg @ b \<and> (b = [] \<or> (\<exists>b'. b = c # b'))"
  using join_context [of seg "split_on c s" c] by simp

lemma ascii_length:
  "\<forall>c \<in> set s. c \<le> 0x7f \<Longrightarrow> utf8ByteLength s = length s"
proof -
  assume "\<forall>c \<in> set s. c \<le> 0x7f"
  then have "\<forall>p \<in> set (code_points s). p < 0x80"
  proof (induction s rule: characters_induct)
    case (step s)
    show ?case using step(1)
    proof (cases rule: front_cases)
      case (pair c d r)
      with step(3) have "c \<le> 0x7f" "0xd800 \<le> c" by (auto simp: is_high_def)
      then have "(0xd800 :: jchar) \<le> 0x7f" by (rule order_trans [rotated])
      then show ?thesis by simp
    next
      case (single c r)
      with step(3) have "unat c < 0x80" by (simp add: word_le_nat_alt)
      with step single show ?thesis by (simp add: code_points_step)
    qed
  qed simp
  then show ?thesis unfolding utf8ByteLength_def by (metis not_le)
qed

lemma split_on_subset: "seg \<in> set (split_on c s) \<Longrightarrow> set seg \<subseteq> set s"
proof -
  assume "seg \<in> set (split_on c s)"
  from split_on_context [OF this] obtain a b where "c # s = a @ c # seg @ b" by blast
  then have "set (seg @ b) \<subseteq> set s" by (cases a) auto
  then show ?thesis by simp
qed

lemma length_split_on: "seg \<in> set (split_on c s) \<Longrightarrow> length seg \<le> length s"
proof -
  assume "seg \<in> set (split_on c s)"
  from split_on_context [OF this] obtain a b where "c # s = a @ c # seg @ b" by blast
  from arg_cong [OF this, of length] show ?thesis by simp
qed

lemma fast_path_segments:
  assumes "fast_path path" "path \<noteq> [SLASH]"
  obtains segs where "path = path_of segs" "\<forall>seg \<in> set segs. valid_segment seg"
proof -
  obtain r where r: "path = SLASH # r" using assms(1) by (auto simp: fast_path_def)
  have ok: "valid_segment seg" if seg: "seg \<in> set (split_on SLASH r)" for seg
  proof -
    obtain a b where ab: "path = a @ SLASH # seg @ b" "b = [] \<or> (\<exists>b'. b = SLASH # b')"
      using split_on_context [OF seg] r by metis
    have no: "\<not> double_slash path" "\<not> slash_dot_component path" "\<not> ends_with_char SLASH path"
      "\<forall>c \<in> set path. c \<le> 0x7f" "length path \<le> MAX_NAME_BYTES"
      using assms(1) by (auto simp: fast_path_def non_canonical_ascii_def)
    have "seg \<noteq> []"
    proof
      assume "seg = []"
      with ab no(1,3) assms(2) show False
        by (auto simp: double_slash_iff ends_with_char_def)
    qed
    moreover have "\<not> dot_component_front (seg @ b)"
      using no(2) ab(1) by (auto simp: slash_dot_component_iff)
    then have "seg \<noteq> [DOT]" "seg \<noteq> [DOT, DOT]"
      using ab(2) by (auto simp: dot_component_front_def starts_with_def)
    moreover have "SLASH \<notin> set seg" using split_on_segments [OF seg] .
    moreover have "utf8ByteLength seg \<le> MAX_NAME_BYTES"
      using split_on_subset [OF seg] length_split_on [OF seg] no(4,5) r
      by (subst ascii_length) auto
    ultimately show ?thesis by (simp add: valid_segment_def)
  qed
  have "path = path_of (split_on SLASH r)" by (simp add: path_of_def r)
  with ok that show ?thesis by blast
qed

lemma fast_path_valid: "fast_path path \<Longrightarrow> NUL \<notin> set path \<and> utf8ByteLength path \<le> MAX_PATH_BYTES"
  by (auto simp: fast_path_def non_canonical_ascii_def ascii_length MAX_NAME_BYTES_def MAX_PATH_BYTES_def NUL_def)

definition normalize_slow :: "jstring \<Rightarrow> jstring \<Rightarrow> jstring result" where
  "normalize_slow path cwd =
     bindr (normalize_segments path (split_on SLASH (absolute_path path cwd)) []) (\<lambda>segments.
     bindr (validatePath (path_of segments)) (\<lambda>_. Inr (path_of segments)))"

lemma normalize_slow_canonical: "canonical path \<Longrightarrow> normalize_slow path cwd = Inr path"
proof -
  assume c: "canonical path"
  then obtain segs where segs: "path = path_of segs" "\<forall>seg \<in> set segs. valid_segment seg"
    by (rule canonicalE)
  then have "absolute_path path cwd = path" by (simp add: absolute_path_def path_of_def)
  with segs c show ?thesis
    by (simp add: normalize_slow_def normalize_split validatePath_def canonical_def)
qed

lemma canonical_root [simp]: "canonical [SLASH]"
  unfolding canonical_def
  by (auto simp: MAX_PATH_BYTES_def ascii_length SLASH_def NUL_def path_of_def
      intro!: exI [of _ "[]"])

lemma fast_path_canonical: "fast_path path \<Longrightarrow> canonical path"
  using fast_path_valid [of path] fast_path_segments [of path] canonical_root
  by (cases "path = [SLASH]") (simp, metis canonical_def)

lemma normalize_is_slow:
  "normalizePath path cwd = (if path = [] then Throw EINVAL else normalize_slow path cwd)"
  using normalize_slow_canonical [OF fast_path_canonical, of path cwd] normalize_slow_canonical [OF canonical_root, of cwd]
  by (auto simp: normalizePath_def normalize_slow_def path_of_def Let_def)

lemma normalize_canonical: "normalizePath path cwd = Inr q \<Longrightarrow> canonical q"
proof -
  assume "normalizePath path cwd = Inr q"
  then obtain segs where segs: "normalize_segments path (split_on SLASH (absolute_path path cwd)) [] = Inr segs"
    "validatePath (path_of segs) = Inr ()" "q = path_of segs"
    by (auto simp: normalize_is_slow normalize_slow_def split: if_splits)
  have "\<forall>seg \<in> set segs. valid_segment seg"
    by (rule normalize_segments_valid [OF segs(1)]) (auto dest: split_on_segments)
  with segs(2,3) show ?thesis by (auto simp: canonical_def validatePath_Inr)
qed

lemma normalize_id [simp]: "canonical path \<Longrightarrow> normalizePath path cwd = Inr path"
  by (auto simp: normalize_is_slow normalize_slow_canonical canonical_def path_of_def)


section \<open>Operations on canonical paths\<close>

lemma join_with_append:
  "xs \<noteq> [] \<Longrightarrow> ys \<noteq> [] \<Longrightarrow> join_with sep (xs @ ys) = join_with sep xs @ sep @ join_with sep ys"
proof (induction xs)
  case (Cons x xs)
  then show ?case by (cases "xs = []") (auto simp: join_with_Cons)
qed simp

lemma path_of_snoc: "path_of (segs @ [x]) = (if segs = [] then [] else path_of segs) @ SLASH # x"
  by (simp add: path_of_def join_with_append)

lemma path_of_append:
  "rs \<noteq> [] \<Longrightarrow> extra \<noteq> [] \<Longrightarrow> path_of (rs @ extra) = path_of rs @ SLASH # join_with [SLASH] extra"
  by (simp add: path_of_def join_with_append)

lemma last_slash_snoc: "SLASH \<notin> set x \<Longrightarrow> last_slash (p @ SLASH # x) = length p"
  by (simp add: last_slash_def takeWhile_append takeWhile_append2)

lemma canonical_append1:
  assumes "canonical (path_of (segs @ [x]))" "\<forall>seg \<in> set (segs @ [x]). valid_segment seg"
  shows "canonical (path_of segs)"
proof (cases "segs = []")
  case False
  have enc: "encodeUtf8 (a @ SLASH # b) = encodeUtf8 a @ encodeUtf8 (SLASH # b)" for a b
    using code_points_append [of "SLASH # b" a] by (simp add: encodeUtf8_def is_low_def SLASH_def)
  from False assms(1) have "utf8ByteLength (path_of segs) \<le> MAX_PATH_BYTES \<and> NUL \<notin> set (path_of segs)"
    by (auto simp: canonical_def path_of_snoc utf8ByteLength_eq enc)
  with assms(2) show ?thesis by (auto simp: canonical_def)
qed simp

lemma dirname_path_of:
  assumes "canonical (path_of (segs @ [x]))" "\<forall>seg \<in> set (segs @ [x]). valid_segment seg"
  shows "dirname (path_of (segs @ [x])) = Inr (path_of segs)"
    and "basename (path_of (segs @ [x])) = Inr x"
proof -
  have x: "SLASH \<notin> set x" "x \<noteq> []" using assms(2) by (auto simp: valid_segment_def)
  have "path_of (segs @ [x]) \<noteq> [SLASH]" using x(2) by (simp add: path_of_snoc) (simp add: path_of_def)
  moreover have ls: "last_slash (path_of (segs @ [x])) = (if segs = [] then 0 else length (path_of segs))"
    unfolding path_of_snoc using last_slash_snoc [OF x(1)] by simp
  moreover have "length (path_of segs) > 0" by (simp add: path_of_def)
  ultimately show "dirname (path_of (segs @ [x])) = Inr (path_of segs)"
    "basename (path_of (segs @ [x])) = Inr x"
    using assms(1) by (auto simp: dirname_def basename_def Let_def path_of_snoc substring_def)
qed

lemma split_on_append_any: "split_on c (s @ c # t) = split_on c s @ split_on c t"
proof (induction s)
  case (Cons x s)
  then show ?case by (cases "split_on c s") auto
qed simp

lemma starts_with_below:
  assumes "\<forall>seg \<in> set rs. valid_segment seg" "\<forall>seg \<in> set ps. valid_segment seg" "rs \<noteq> []"
  shows "starts_with (path_of rs @ [SLASH]) (path_of ps) \<longleftrightarrow> (\<exists>extra. extra \<noteq> [] \<and> ps = rs @ extra)"
proof
  assume "starts_with (path_of rs @ [SLASH]) (path_of ps)"
  then obtain t where t: "path_of ps = path_of rs @ SLASH # t" by (auto simp: starts_with_iff)
  have "split_on SLASH (path_of ps) = split_on SLASH (path_of rs) @ split_on SLASH t"
    unfolding t by (rule split_on_append_any)
  then have "(if ps = [] then [[]] else ps) = rs @ split_on SLASH t"
    using assms by (simp add: split_path_of valid_no_slash)
  with assms(3) show "\<exists>extra. extra \<noteq> [] \<and> ps = rs @ extra"
    by (auto split: if_splits simp: Cons_eq_append_conv)
next
  assume "\<exists>extra. extra \<noteq> [] \<and> ps = rs @ extra"
  with assms(3) show "starts_with (path_of rs @ [SLASH]) (path_of ps)"
    by (auto simp: path_of_append starts_with_iff)
qed

definition below :: "jstring \<Rightarrow> jstring \<Rightarrow> bool" where
  "below root path \<longleftrightarrow> strict_prefix (segments_of root) (segments_of path)"

lemma isDescendant_below:
  assumes "canonical root" "canonical path"
  shows "isDescendant root path = Inr (below root path)"
proof -
  obtain rs ps where rs: "root = path_of rs" "\<forall>seg \<in> set rs. valid_segment seg"
    and ps: "path = path_of ps" "\<forall>seg \<in> set ps. valid_segment seg"
    using assms by (metis canonicalE)
  have segs: "segments_of root = rs" "segments_of path = ps"
    using rs ps by (simp_all add: segments_path_of)
  have root: "path_of xs = [SLASH] \<longleftrightarrow> xs = []" if "\<forall>seg \<in> set xs. valid_segment seg" for xs
    using path_of_inject [OF that, of "[]"] by simp
  have "below root path \<longleftrightarrow> (\<exists>extra. extra \<noteq> [] \<and> ps = rs @ extra)"
    by (auto simp: below_def segs strict_prefix_def prefix_def)
  with starts_with_below [OF rs(2) ps(2)] assms show ?thesis
    by (auto simp: isDescendant_def rs(1) ps(1) root [OF rs(2)] root [OF ps(2)])
qed

lemma below_trans: "below a b \<Longrightarrow> below b c \<Longrightarrow> below a c"
  by (auto simp: below_def)

lemma below_irrefl [simp]: "\<not> below a a"
  by (simp add: below_def)

lemma depthFrom_below:
  assumes "canonical root" "canonical path"
  shows "depthFrom root path =
    (if root = path \<or> below root path then Inr (length (segments_of path) - length (segments_of root))
     else Throw EINVAL)"
proof -
  obtain rs ps where rs: "root = path_of rs" "\<forall>seg \<in> set rs. valid_segment seg"
    and ps: "path = path_of ps" "\<forall>seg \<in> set ps. valid_segment seg"
    using assms by (metis canonicalE)
  have segs: "segments_of root = rs" "segments_of path = ps"
    using rs ps by (simp_all add: segments_path_of)
  have root: "path_of xs = [SLASH] \<longleftrightarrow> xs = []" if "\<forall>seg \<in> set xs. valid_segment seg" for xs
    using path_of_inject [OF that, of "[]"] by simp
  have bel: "below root path \<longleftrightarrow> (\<exists>extra. extra \<noteq> [] \<and> ps = rs @ extra)"
    by (auto simp: below_def segs strict_prefix_def prefix_def)
  show ?thesis
  proof (cases "root = path")
    case True
    with assms show ?thesis by (simp add: depthFrom_def)
  next
    case False
    define pre where "pre = (if rs = [] then [SLASH] else path_of rs @ [SLASH])"
    have start: "starts_with pre path \<longleftrightarrow> below root path"
    proof (cases "rs = []")
      case True
      then have "ps \<noteq> []" using False rs(1) ps(1) by auto
      with True bel have "below root path" by simp
      with True show ?thesis by (simp add: pre_def ps(1)) (simp add: path_of_def)
    next
      case rs_ne: False
      with starts_with_below [OF rs(2) ps(2) rs_ne] show ?thesis
        unfolding bel by (simp add: pre_def ps(1))
    qed
    have len: "split_on SLASH (drop (length pre) path) = drop (length rs) ps" if b: "below root path"
    proof -
      obtain extra where extra: "extra \<noteq> []" "ps = rs @ extra" using b bel by blast
      then have "drop (length pre) path = join_with [SLASH] extra"
        by (auto simp: ps(1) pre_def path_of_append) (simp add: path_of_def)
      with extra ps(2) show ?thesis by (simp add: split_join valid_no_slash)
    qed
    have "depthFrom root path =
       (if \<not> starts_with pre path then Throw EINVAL else Inr (length (split_on SLASH (drop (length pre) path))))"
      using False assms by (simp add: depthFrom_def pre_def rs(1) root [OF rs(2)])
    with start len False show ?thesis by (simp add: segs)
  qed
qed

text \<open>The range query of the database finds exactly the paths below a root.\<close>

lemma descendantRange_below:
  assumes "canonical root" "canonical path" "well_formed root" "well_formed path"
    "descendantRange root = Inr (lower, upper)"
  shows "path = root \<or> (sql_le lower path \<and> sql_less path upper) \<longleftrightarrow> path = root \<or> below root path"
proof -
  have slash: "code_points (a @ [SLASH]) = code_points a @ [0x2f]" "code_points (a @ [ZERO]) = code_points a @ [Suc 0x2f]" for a
    by (simp_all add: code_points_append is_low_def SLASH_def code_points_ascii)
  have wf: "order_points (a @ [SLASH]) = code_points a @ [0x2f]" "order_points (a @ [ZERO]) = code_points a @ [Suc 0x2f]"
    if "order_points a = code_points a" for a
    using that by (simp_all add: slash utf8OrderPoint_def)
  note pts = well_formed_points [OF assms(3)] well_formed_points [OF assms(4)]
  have range: "sql_le (a @ [SLASH]) path \<and> sql_less path (a @ [ZERO]) \<longleftrightarrow> starts_with (a @ [SLASH]) path"
    if a: "order_points a = code_points a" for a
  proof -
    have "sql_le (a @ [SLASH]) path \<and> sql_less path (a @ [ZERO]) \<longleftrightarrow>
        (\<exists>t. code_points path = code_points a @ 0x2f # t)"
      unfolding sql_le_def sql_less_def lex_order_encoded pts wf [OF a] by (rule lex_range)
    also have "\<dots> \<longleftrightarrow> starts_with (a @ [SLASH]) path"
    proof
      assume "\<exists>t. code_points path = code_points a @ 0x2f # t"
      then obtain t where "code_points path = code_points (a @ [SLASH]) @ t" by (auto simp: slash)
      then have "path = (a @ [SLASH]) @ concat (map units_of t)"
        by (metis concat_append map_append units_of_code_points)
      then show "starts_with (a @ [SLASH]) path" by (auto simp: starts_with_iff)
    next
      assume "starts_with (a @ [SLASH]) path"
      then obtain t where t: "path = a @ (SLASH # t)" by (auto simp: starts_with_iff)
      have "code_point_front (SLASH # t) = 0x2f" by (subst front_single) (auto simp: is_high_def SLASH_def)
      then have "code_points (SLASH # t) = 0x2f # code_points t"
        by (simp add: code_points_step width_def)
      moreover have "code_points path = code_points a @ code_points (SLASH # t)"
        unfolding t by (rule code_points_append) (simp add: is_low_def SLASH_def)
      ultimately show "\<exists>t. code_points path = code_points a @ 0x2f # t" by auto
    qed
    finally show ?thesis .
  qed
  obtain rs ps where rs: "root = path_of rs" "\<forall>seg \<in> set rs. valid_segment seg"
    and ps: "path = path_of ps" "\<forall>seg \<in> set ps. valid_segment seg"
    using assms(1,2) by (metis canonicalE)
  have segs: "segments_of root = rs" "segments_of path = ps"
    using rs ps by (simp_all add: segments_path_of)
  have root: "path_of rs = [SLASH] \<longleftrightarrow> rs = []"
    using path_of_inject [OF rs(2), of "[]"] by simp
  have bel: "below root path \<longleftrightarrow> (\<exists>extra. extra \<noteq> [] \<and> ps = rs @ extra)"
    by (auto simp: below_def segs strict_prefix_def prefix_def)
  show ?thesis
  proof (cases "rs = []")
    case True
    then have "lower = [SLASH]" "upper = [ZERO]"
      using assms(1,5) rs(1) by (auto simp: descendantRange_def)
    with range [of "[]"] True bel show ?thesis
      by (auto simp: rs(1) ps(1)) (simp_all add: path_of_def)
  next
    case False
    then have "lower = root @ [SLASH]" "upper = root @ [ZERO]"
      using assms(1,5) root by (auto simp: descendantRange_def rs(1))
    with range [OF pts(1)] starts_with_below [OF rs(2) ps(2) False] bel show ?thesis
      by (simp add: rs(1) ps(1))
  qed
qed


section \<open>Ancestors\<close>

lemma last_slash_bound: "last_slash s \<le> length s"
  by (simp add: last_slash_def)

lemma ancestors_from_append:
  "slash \<le> length p \<Longrightarrow> ancestors_from (p @ r) slash = ancestors_from p slash"
proof (induction slash rule: less_induct)
  case (less slash)
  have "ancestors_from (p @ r) (last_slash (take slash p)) = ancestors_from p (last_slash (take slash p))"
    if "0 < slash"
    using less.prems that by (intro less.IH) (auto simp: last_slash_def)
  with less.prems show ?case
    by (subst (1 2) ancestors_from.simps) (simp add: substring_def)
qed

lemma canonicalAncestors_snoc:
  assumes "\<forall>seg \<in> set (segs @ [x]). valid_segment seg"
  shows "canonicalAncestors (path_of (segs @ [x])) = path_of segs # canonicalAncestors (path_of segs)"
proof -
  have x: "SLASH \<notin> set x" "x \<noteq> []" using assms by (auto simp: valid_segment_def)
  have ne: "path_of (segs @ [x]) \<noteq> [SLASH]" using x(2) by (simp add: path_of_snoc) (simp add: path_of_def)
  show ?thesis
  proof (cases "segs = []")
    case True
    have "last_slash (path_of [x]) = 0"
      using last_slash_snoc [OF x(1), of "[]"] by (simp add: path_of_def)
    with True ne show ?thesis by (simp add: canonicalAncestors_def) (subst ancestors_from.simps, simp)
  next
    case False
    let ?p = "path_of segs"
    have path: "path_of (segs @ [x]) = ?p @ SLASH # x" using False by (simp add: path_of_snoc)
    have root: "?p \<noteq> [SLASH]" using path_of_inject [of segs "[]"] assms False by auto
    have p: "0 < length ?p" "SLASH \<in> set ?p" by (simp_all add: path_of_def)
    have "ancestors_from (?p @ SLASH # x) (length ?p) = ?p # ancestors_from ?p (last_slash ?p)"
      using p ancestors_from_append [OF last_slash_bound, of ?p "SLASH # x"]
      by (subst ancestors_from.simps) (simp add: substring_def)
    with ne root show ?thesis
      unfolding path by (simp add: canonicalAncestors_def last_slash_snoc [OF x(1)])
  qed
qed

lemma canonicalAncestors_ok:
  "\<forall>seg \<in> set segs. valid_segment seg \<Longrightarrow>
   canonicalAncestors (path_of segs) = map (\<lambda>n. path_of (take n segs)) (rev [0..<length segs])"
proof (induction segs rule: rev_induct)
  case Nil
  then show ?case by (simp add: canonicalAncestors_def)
next
  case (snoc x segs)
  then have "canonicalAncestors (path_of segs) = map (\<lambda>n. path_of (take n segs)) (rev [0..<length segs])" by simp
  with canonicalAncestors_snoc [OF snoc.prems] show ?case by simp
qed

section \<open>Ancestors of several paths\<close>

lemma length_path_of: "\<forall>seg \<in> set segs. valid_segment seg \<Longrightarrow> length segs < length (path_of segs)"
proof (induction segs rule: rev_induct)
  case (snoc x segs)
  then have "x \<noteq> []" by (simp add: valid_segment_def)
  with snoc show ?case by (cases x) (auto simp: path_of_snoc)
qed simp

lemma path_of_not_root: "\<forall>seg \<in> set segs. valid_segment seg \<Longrightarrow> path_of segs = [SLASH] \<longleftrightarrow> segs = []"
  using path_of_inject [of segs "[]"] by auto

lemma add_parents_ok:
  "\<forall>seg \<in> set segs. valid_segment seg \<Longrightarrow> canonical (path_of segs) \<Longrightarrow> length segs < fuel \<Longrightarrow>
   add_parents fuel (path_of segs) seen =
     Inr (fold add_new (map (\<lambda>n. path_of (take n segs)) (rev [0..<Suc (length segs)])) seen)"
proof (induction segs arbitrary: fuel seen rule: rev_induct)
  case Nil
  then show ?case by (cases fuel) (simp_all add: add_new_def)
next
  case (snoc x segs)
  obtain f where fuel: "fuel = Suc f" "length segs < f" using snoc.prems(3) by (cases fuel) auto
  have parent: "canonical (path_of segs)" using canonical_append1 snoc.prems(1,2) by auto
  have "path_of (segs @ [x]) \<noteq> [SLASH]" using path_of_not_root [OF snoc.prems(1)] by simp
  then have "add_parents fuel (path_of (segs @ [x])) seen =
      add_parents f (path_of segs) (add_new (path_of (segs @ [x])) seen)"
    using dirname_path_of(1) [OF snoc.prems(2,1)] by (simp add: fuel(1))
  also have "\<dots> = Inr (fold add_new (map (\<lambda>n. path_of (take n segs)) (rev [0..<Suc (length segs)]))
      (add_new (path_of (segs @ [x])) seen))"
    using snoc.IH [OF _ parent fuel(2)] snoc.prems(1) by simp
  also have "map (\<lambda>n. path_of (take n segs)) (rev [0..<Suc (length segs)]) =
      map (\<lambda>n. path_of (take n (segs @ [x]))) (rev [0..<Suc (length segs)])"
    by (rule map_cong) auto
  finally show ?case by simp
qed

lemma fold_add_new: "distinct seen \<Longrightarrow> distinct (fold add_new ps seen) \<and> set (fold add_new ps seen) = set seen \<union> set ps"
  by (induction ps arbitrary: seen) (auto simp: add_new_def)

text \<open>The directories passed on the way to a path: those above it, and the root.\<close>

definition passed :: "jstring \<Rightarrow> jstring set" where
  "passed path = insert [SLASH] {path_of (take n (segments_of path)) | n. n < length (segments_of path)}"

lemma add_candidate:
  assumes "canonical candidate" "distinct seen"
  shows "\<exists>first. (if ends_with_char SLASH candidate then normalizeRoot candidate else dirname candidate) = Inr first \<and>
    (\<exists>l. add_parents (length first) first seen = Inr l \<and> distinct l \<and> set l = set seen \<union> passed candidate)"
proof -
  obtain segs where segs: "candidate = path_of segs" "\<forall>seg \<in> set segs. valid_segment seg"
    using assms(1) by (rule canonicalE)
  show ?thesis
  proof (cases segs rule: rev_cases)
    case Nil
    then have "candidate = [SLASH]" "passed candidate = {[SLASH]}"
      using segments_path_of [OF segs(2)] by (auto simp: segs(1) passed_def)
    then show ?thesis using assms(2) by (auto simp: ends_with_char_Cons add_new_def)
  next
    case (snoc pre x)
    have parent: "canonical (path_of pre)" "\<forall>seg \<in> set pre. valid_segment seg"
      using canonical_append1 [of pre x] assms(1) segs by (auto simp: snoc)
    have "x \<noteq> []" "SLASH \<notin> set x" using segs(2) by (auto simp: snoc valid_segment_def)
    then obtain y z where x: "x = y @ [z]" "z \<noteq> SLASH" by (cases x rule: rev_cases) auto
    have "candidate = (if pre = [] then [] else path_of pre) @ SLASH # y @ [z]"
      by (simp add: segs(1) snoc path_of_snoc x(1))
    then have "candidate = ((if pre = [] then [] else path_of pre) @ SLASH # y) @ [z]" by simp
    then have "\<not> ends_with_char SLASH candidate" using x(2) by (simp only: ends_with_char_snoc) simp
    moreover have "dirname candidate = Inr (path_of pre)"
      using dirname_path_of(1) [of pre x] assms(1) segs by (simp add: snoc)
    moreover have "set (map (\<lambda>n. path_of (take n pre)) (rev [0..<Suc (length pre)])) = passed candidate"
    proof -
      have "passed candidate = insert (path_of (take 0 segs)) ((\<lambda>n. path_of (take n segs)) ` {..<Suc (length pre)})"
      proof -
        have "length segs = Suc (length pre)" by (simp add: snoc)
        then show ?thesis
          using segments_path_of [OF segs(2)] by (auto simp: passed_def segs(1))
      qed
      also have "\<dots> = (\<lambda>n. path_of (take n segs)) ` {..<Suc (length pre)}" by blast
      also have "\<dots> = (\<lambda>n. path_of (take n pre)) ` {..<Suc (length pre)}"
        by (rule image_cong) (auto simp: snoc)
      finally show ?thesis by (simp add: atLeast0LessThan del: upt_Suc)
    qed
    ultimately show ?thesis
      using add_parents_ok [OF parent(2,1) length_path_of [OF parent(2)], of seen]
        fold_add_new [OF assms(2), of "map (\<lambda>n. path_of (take n pre)) (rev [0..<Suc (length pre)])"]
      by (simp del: upt_Suc)
  qed
qed

lemma traversal_from_ok:
  "\<forall>c \<in> set cs. canonical c \<Longrightarrow> distinct seen \<Longrightarrow>
   \<exists>l. traversal_from cs seen = Inr l \<and> distinct l \<and> set l = set seen \<union> \<Union> (passed ` set cs)"
proof (induction cs arbitrary: seen)
  case (Cons c cs)
  then obtain first l where step: "(if ends_with_char SLASH c then normalizeRoot c else dirname c) = Inr first"
    "add_parents (length first) first seen = Inr l" "distinct l" "set l = set seen \<union> passed c"
    using add_candidate [of c seen] by auto
  with Cons.IH [of l] Cons.prems(1) show ?case by auto
qed simp

section \<open>Properties\<close>

text \<open>
  C38. Normalising a path gives a canonical path, which normalises to itself from any
  working directory, or fails with \<open>EINVAL\<close> or \<open>ENAMETOOLONG\<close>; and the shortcut for
  paths that look canonical never changes the outcome.
\<close>

theorem normalize_gives_canonical:
  "normalizePath path cwd = (if path = [] then Throw EINVAL else normalize_slow path cwd) \<and>
   (case normalizePath path cwd of
      Inr q \<Rightarrow> canonical q \<and> normalizePath q cwd' = Inr q
    | Inl e \<Rightarrow> \<exists>p. e = VfsError EINVAL p \<or> e = VfsError ENAMETOOLONG p)"
proof (cases "normalizePath path cwd")
  case (Inr q)
  then have "canonical q" by (rule normalize_canonical)
  then show ?thesis by (simp add: Inr normalize_is_slow [of path cwd, symmetric])
next
  case (Inl e)
  have "normalize_segments p rest segs = Inl err \<Longrightarrow> err = VfsError ENAMETOOLONG (Some p)" for p rest segs err
    by (induction p rest segs rule: normalize_segments.induct) (auto split: if_splits)
  moreover have "validatePath p = Inl err \<Longrightarrow> err = VfsError EINVAL (Some p) \<or> err = VfsError ENAMETOOLONG (Some p)" for p err
    by (auto simp: validatePath_def split: if_splits)
  ultimately have "\<exists>p. e = VfsError EINVAL p \<or> e = VfsError ENAMETOOLONG p"
    using Inl by (auto simp: normalize_is_slow normalize_slow_def bindr_def split: if_splits sum.splits) blast+
  then show ?thesis by (simp add: Inl normalize_is_slow [of path cwd, symmetric])
qed

text \<open>
  C37. For canonical paths three tests for \<open>lies below\<close> agree: the test on the text, the
  depth that is counted from the root of the subtree, and the range of keys the
  database searches in its byte order.
\<close>

theorem subtree_tests_agree:
  assumes "canonical root" "canonical path" "well_formed root" "well_formed path"
    "descendantRange root = Inr (lower, upper)"
  shows "isDescendant root path = Inr (below root path) \<and>
    depthFrom root path =
      (if root = path \<or> below root path then Inr (length (segments_of path) - length (segments_of root))
       else Throw EINVAL) \<and>
    (path = root \<or> (sql_le lower path \<and> sql_less path upper) \<longleftrightarrow> path = root \<or> below root path)"
  using isDescendant_below [OF assms(1,2)] depthFrom_below [OF assms(1,2)] descendantRange_below [OF assms]
  by blast

lemma canonical_path_of:
  "\<forall>seg \<in> set segs. valid_segment seg \<Longrightarrow> NUL \<notin> set (path_of segs) \<Longrightarrow>
   utf8ByteLength (path_of segs) \<le> MAX_PATH_BYTES \<Longrightarrow> canonical (path_of segs)"
  by (auto simp: canonical_def)

lemma example_paths:
  "canonical (path_of [js ''a''])" "canonical (path_of [js ''a'', js ''b''])"
  "well_formed (path_of [js ''a''])" "well_formed (path_of [js ''a'', js ''b''])"
  "\<forall>seg \<in> set [js ''a'', js ''b'']. valid_segment seg"
proof -
  have seg: "valid_segment (js ''a'')" "valid_segment (js ''b'')"
    by (auto simp: valid_segment_def js_consts ascii_length MAX_NAME_BYTES_def)
  then show "\<forall>seg \<in> set [js ''a'', js ''b'']. valid_segment seg" by simp
  with seg show "canonical (path_of [js ''a''])" "canonical (path_of [js ''a'', js ''b''])"
    by (auto intro!: canonical_path_of) (simp_all add: path_of_def js_consts ascii_length MAX_PATH_BYTES_def)
  show "well_formed (path_of [js ''a''])" "well_formed (path_of [js ''a'', js ''b''])"
    by (simp_all add: well_formed_def path_of_def js_consts code_points_step code_point_front_def width_def)
qed

theorem subtree_tests_agree_witness:
  "\<exists>lower upper. descendantRange (path_of [js ''a'']) = Inr (lower, upper) \<and>
     sql_le lower (path_of [js ''a'', js ''b'']) \<and>
     isDescendant (path_of [js ''a'']) (path_of [js ''a'', js ''b'']) = Inr True"
proof -
  obtain lower upper where r: "descendantRange (path_of [js ''a'']) = Inr (lower, upper)"
    using example_paths(1) by (cases "path_of [js ''a''] = [SLASH]") (auto simp: descendantRange_def)
  have "below (path_of [js ''a'']) (path_of [js ''a'', js ''b''])" "path_of [js ''a'', js ''b''] \<noteq> path_of [js ''a'']"
    using example_paths(5) by (simp_all add: below_def segments_path_of path_of_inject)
  with subtree_tests_agree [OF example_paths(1-4) r] r show ?thesis by auto
qed

text \<open>
  The ancestors that a resolution has passed are listed without repetition and are
  exactly the directories above its path or above a followed path; listing them ends, as every
  step removes a component.
\<close>

theorem traversal_lists_passed_directories:
  assumes "\<forall>c \<in> set (path # followed). canonical c" "followed \<noteq> []"
  shows "\<exists>l. traversalAncestors path followed = Inr l \<and> distinct l \<and>
    set l = passed path \<union> \<Union> (passed ` set followed)"
  using traversal_from_ok [OF assms(1), of "[]"] assms(2) by (simp add: traversalAncestors_def)

theorem traversal_lists_passed_directories_witness:
  "\<exists>l. traversalAncestors (path_of [js ''a'']) [path_of [js ''a'', js ''b'']] = Inr l \<and> distinct l"
  using traversal_lists_passed_directories [of "path_of [js ''a'']" "[path_of [js ''a'', js ''b'']]"] example_paths
  by auto

end
