(* ===== verification/Registry.thy ===== *)
theory Registry
  imports Paths Text_Edits
begin

text \<open>
  The registry of open documents (\<open>src/collab/registry.ts\<close>). Entries are shared,
  mutable objects: a snapshot remembers the entry it was taken from. So the state
  has a heap of entries, and the map of open paths holds their addresses. The
  document itself is the host's: \<open>txt d\<close> is what its \<open>text()\<close> returns.
\<close>

section \<open>State\<close>

record 'd Entry =
  document :: 'd
  token :: jstring
  dirty :: bool
  version :: nat
  publishedText :: jstring
  needsRefresh :: bool

type_synonym entry_id = nat

text \<open>\<open>open_paths\<close> is the JavaScript \<open>Map\<close>, in insertion order.\<close>

record 'd DocumentRegistry =
  reg_version :: nat
  open_paths :: "(jstring \<times> entry_id) list"
  heap :: "entry_id \<Rightarrow> 'd Entry"
  next_entry :: entry_id

text \<open>An \<open>OpenDocument\<close>, with the entry the \<open>#snapshots\<close> weak map associates with it.\<close>

record 'd OpenDocument =
  od_path :: jstring
  od_document :: 'd
  od_token :: jstring
  od_dirty :: bool
  od_version :: nat
  od_publishedText :: jstring
  od_needsRefresh :: bool
  od_entry :: entry_id

fun map_put :: "'k \<Rightarrow> 'v \<Rightarrow> ('k \<times> 'v) list \<Rightarrow> ('k \<times> 'v) list" where
  "map_put k v [] = [(k, v)]"
| "map_put k v ((k', v') # m) = (if k' = k then (k, v) # m else (k', v') # map_put k v m)"

definition map_delete :: "'k \<Rightarrow> ('k \<times> 'v) list \<Rightarrow> ('k \<times> 'v) list" where
  "map_delete k m = filter (\<lambda>(k', _). k' \<noteq> k) m"

definition set_entry :: "entry_id \<Rightarrow> 'd Entry \<Rightarrow> 'd DocumentRegistry \<Rightarrow> 'd DocumentRegistry" where
  "set_entry i e r = r\<lparr>heap := (heap r)(i := e)\<rparr>"

section \<open>Operations\<close>



definition lookup_entry :: "'d DocumentRegistry \<Rightarrow> jstring \<Rightarrow> entry_id option" where
  "lookup_entry r path = map_of (open_paths r) path"

definition get_document :: "jstring \<Rightarrow> 'd DocumentRegistry \<Rightarrow> 'd OpenDocument option result" where
  "get_document path r =
     bindr (normalizeRoot path) (\<lambda>normalized.
     Inr (map_option (\<lambda>i. let entry = heap r i in
       \<lparr>od_path = normalized, od_document = document entry, od_token = token entry,
        od_dirty = dirty entry, od_version = version entry, od_publishedText = publishedText entry,
        od_needsRefresh = needsRefresh entry, od_entry = i\<rparr>) (lookup_entry r normalized)))"


definition registry_paths :: "'d DocumentRegistry \<Rightarrow> jstring list" where
  "registry_paths r = map fst (open_paths r)"





definition documentMutationToken :: "jstring \<Rightarrow> jstring \<Rightarrow> 'd DocumentRegistry \<Rightarrow> jstring result" where
  "documentMutationToken path storageToken r =
     bindr (normalizeRoot path) (\<lambda>normalized.
     Inr (case lookup_entry r normalized of
            None \<Rightarrow> storageToken
          | Some i \<Rightarrow> js ''document:'' @ js_nat (version (heap r i)) @ js '':'' @ storageToken))"

definition pendingGrowth :: "('d \<Rightarrow> jstring) \<Rightarrow> jstring \<Rightarrow> 'd DocumentRegistry \<Rightarrow> nat" where
  "pendingGrowth txt except r =
     foldl (\<lambda>bytes (path, i).
       if path \<noteq> except \<and> dirty (heap r i)
       then bytes + (utf8ByteLength (txt (document (heap r i))) - utf8ByteLength (publishedText (heap r i)))
       else bytes) 0 (open_paths r)"

section \<open>Following the namespace\<close>

datatype mutation_op = Op_create | Op_write | Op_remove | Op_move | Op_metadata

text \<open>A \<open>vfs.mutation\<close> event; its \<open>subtree\<close> is a root and an optional destination.\<close>

record VfsMutation =
  ev_op :: mutation_op
  ev_path :: jstring
  ev_subtree :: "(jstring \<times> jstring option) option"

definition in_subtree :: "jstring \<Rightarrow> jstring \<Rightarrow> bool result" where
  "in_subtree root path = (if path = root then Inr True else isDescendant root path)"

fun filter_result :: "('a \<Rightarrow> bool result) \<Rightarrow> 'a list \<Rightarrow> 'a list result" where
  "filter_result f [] = Inr []"
| "filter_result f (x # xs) =
     bindr (f x) (\<lambda>keep. bindr (filter_result f xs) (\<lambda>ys. Inr (if keep then x # ys else ys)))"

definition delete_paths :: "jstring list \<Rightarrow> 'd DocumentRegistry \<Rightarrow> 'd DocumentRegistry" where
  "delete_paths ps r = r\<lparr>open_paths := fold map_delete ps (open_paths r)\<rparr>"

fun relocate_entries ::
  "jstring \<Rightarrow> jstring \<Rightarrow> (jstring \<times> entry_id) list \<Rightarrow> 'd DocumentRegistry \<Rightarrow> 'd DocumentRegistry" where
  "relocate_entries root to [] r = r"
| "relocate_entries root to ((path, i) # moved) r =
     relocate_entries root to moved
       ((set_entry i ((heap r i)\<lparr>version := reg_version r + 1, needsRefresh := True\<rparr>) r)
          \<lparr>reg_version := reg_version r + 1,
           open_paths := map_put (to @ drop (length root) path) i (open_paths r)\<rparr>)"

definition relocate :: "jstring \<Rightarrow> jstring \<Rightarrow> 'd DocumentRegistry \<Rightarrow> 'd DocumentRegistry result" where
  "relocate root to r =
     bindr (filter_result (\<lambda>(path, _). in_subtree root path) (open_paths r)) (\<lambda>moved.
     bindr (filter_result (in_subtree to) (registry_paths r)) (\<lambda>replaced.
     Inr (relocate_entries root to moved
            (delete_paths (map fst moved) (delete_paths replaced r)))))"

definition observe :: "VfsMutation \<Rightarrow> 'd DocumentRegistry \<Rightarrow> 'd DocumentRegistry result" where
  "observe event r =
     (if ev_op event = Op_move then
        (case ev_subtree event of
           Some (root, Some to) \<Rightarrow> relocate root to r
         | _ \<Rightarrow> Inr r)
      else if ev_op event \<noteq> Op_remove then Inr r
      else let root = (case ev_subtree event of Some (root, _) \<Rightarrow> root | None \<Rightarrow> ev_path event) in
        bindr (filter_result (in_subtree root) (registry_paths r)) (\<lambda>removed.
        Inr (delete_paths removed r)))"


section \<open>Maps in insertion order\<close>

lemma map_of_put [simp]: "map_of (map_put k v m) = (map_of m)(k \<mapsto> v)"
  by (induction k v m rule: map_put.induct) auto





lemma map_of_delete [simp]: "map_of (map_delete k m) = (map_of m)(k := None)"
  by (induction m) (auto simp: map_delete_def)

lemma delete_subset: "set (map_delete k m) \<subseteq> set m"
  by (auto simp: map_delete_def)

lemma distinct_delete:
  "distinct (map fst m) \<Longrightarrow> distinct (map fst (map_delete k m))"
  "distinct (map snd m) \<Longrightarrow> distinct (map snd (map_delete k m))"
  by (auto simp: map_delete_def distinct_map_filter)

lemma fold_delete:
  "fold map_delete ks m = filter (\<lambda>(k, _). k \<notin> set ks) m"
  by (induction ks arbitrary: m) (auto simp: map_delete_def intro!: filter_cong)

section \<open>The registry invariant\<close>

definition open_ids :: "'d DocumentRegistry \<Rightarrow> entry_id set" where
  "open_ids r = set (map snd (open_paths r))"

definition registry_ok :: "'d DocumentRegistry \<Rightarrow> bool" where
  "registry_ok r \<longleftrightarrow>
     distinct (map fst (open_paths r)) \<and> distinct (map snd (open_paths r)) \<and>
     (\<forall>p \<in> set (map fst (open_paths r)). canonical p) \<and>
     (\<forall>i \<in> open_ids r. i < next_entry r \<and> version (heap r i) \<le> reg_version r) \<and>
     inj_on (\<lambda>i. version (heap r i)) (open_ids r)"



lemma lookup_in_ids: "lookup_entry r p = Some i \<Longrightarrow> i \<in> open_ids r"
  by (auto simp: lookup_entry_def open_ids_def dest!: map_of_SomeD intro: rev_image_eqI)













section \<open>Following a move\<close>

definition under :: "jstring \<Rightarrow> jstring \<Rightarrow> bool" where
  "under root p \<longleftrightarrow> p = root \<or> below root p"

definition rebased :: "jstring \<Rightarrow> jstring \<Rightarrow> jstring \<Rightarrow> jstring" where
  "rebased root to p = to @ drop (length root) p"

lemma in_subtree_under:
  "canonical root \<Longrightarrow> canonical p \<Longrightarrow> in_subtree root p = Inr (under root p)"
  by (simp add: in_subtree_def under_def isDescendant_below)

lemma filter_result_Inr:
  "\<forall>x \<in> set xs. f x = Inr (g x) \<Longrightarrow> filter_result f xs = Inr (filter g xs)"
  by (induction xs) auto

lemma below_prefix:
  assumes "canonical root" "canonical p" "below root p"
  shows "\<exists>t. p = root @ t"
proof -
  obtain rs ps where rs: "root = path_of rs" "\<forall>seg \<in> set rs. valid_segment seg"
    and ps: "p = path_of ps" "\<forall>seg \<in> set ps. valid_segment seg"
    using assms by (metis canonicalE)
  then have segs: "segments_of root = rs" "segments_of p = ps" by (simp_all add: segments_path_of)
  obtain extra where extra: "ps = rs @ extra" "extra \<noteq> []"
    using assms(3) by (auto simp: below_def segs strict_prefix_def prefix_def)
  show ?thesis
  proof (cases "rs = []")
    case True
    then show ?thesis by (simp add: rs(1) ps(1)) (simp add: path_of_def)
  next
    case False
    then show ?thesis using extra by (simp add: rs(1) ps(1) path_of_append)
  qed
qed

lemma under_prefix: "canonical root \<Longrightarrow> canonical p \<Longrightarrow> under root p \<Longrightarrow> p = root @ drop (length root) p"
  using below_prefix [of root p] by (auto simp: under_def)

lemma rebased_inj:
  assumes "canonical root" "canonical p" "canonical q" "under root p" "under root q"
    "rebased root to p = rebased root to q"
  shows "p = q"
  using under_prefix [of root p] under_prefix [of root q] assms by (simp add: rebased_def)

lemma relocate_entries_lookup:
  "lookup_entry (relocate_entries root to moved r) q =
     (case map_of (rev (map (\<lambda>(p, i). (rebased root to p, i)) moved)) q of
        Some i \<Rightarrow> Some i | None \<Rightarrow> lookup_entry r q)"
  by (induction root to moved r rule: relocate_entries.induct)
     (auto simp: lookup_entry_def rebased_def set_entry_def map_add_def split: option.splits)

lemma relocate_entries_heap:
  "distinct (map snd moved) \<Longrightarrow>
   reg_version (relocate_entries root to moved r) = reg_version r + length moved \<and>
   (\<forall>i. i \<notin> snd ` set moved \<longrightarrow> heap (relocate_entries root to moved r) i = heap r i) \<and>
   (\<forall>i \<in> snd ` set moved. \<exists>v. reg_version r < v \<and>
      heap (relocate_entries root to moved r) i = (heap r i)\<lparr>version := v, needsRefresh := True\<rparr>)"
proof (induction root to moved r rule: relocate_entries.induct)
  case (2 root to path i moved r)
  let ?r = "(set_entry i ((heap r i)\<lparr>version := reg_version r + 1, needsRefresh := True\<rparr>) r)
          \<lparr>reg_version := reg_version r + 1,
           open_paths := map_put (to @ drop (length root) path) i (open_paths r)\<rparr>"
  from 2 have i: "i \<notin> snd ` set moved" and IH:
    "reg_version (relocate_entries root to moved ?r) = reg_version ?r + length moved"
    "\<And>j. j \<notin> snd ` set moved \<Longrightarrow> heap (relocate_entries root to moved ?r) j = heap ?r j"
    "\<And>j. j \<in> snd ` set moved \<Longrightarrow> \<exists>v. reg_version ?r < v \<and>
      heap (relocate_entries root to moved ?r) j = (heap ?r j)\<lparr>version := v, needsRefresh := True\<rparr>"
    by auto
  have other: "heap ?r j = heap r j" if "j \<noteq> i" for j using that by (simp add: set_entry_def)
  show ?case
  proof (intro conjI allI ballI impI)
    show "reg_version (relocate_entries root to ((path, i) # moved) r) = reg_version r + length ((path, i) # moved)"
      using IH(1) by simp
    fix j
    assume "j \<notin> snd ` set ((path, i) # moved)"
    with IH(2) [of j] other [of j] show "heap (relocate_entries root to ((path, i) # moved) r) j = heap r j" by simp
  next
    fix j
    assume j: "j \<in> snd ` set ((path, i) # moved)"
    show "\<exists>v. reg_version r < v \<and> heap (relocate_entries root to ((path, i) # moved) r) j =
        (heap r j)\<lparr>version := v, needsRefresh := True\<rparr>"
    proof (cases "j = i")
      case True
      with IH(2) [OF i] show ?thesis
        by (intro exI [of _ "reg_version r + 1"]) (simp add: set_entry_def)
    next
      case False
      with j IH(3) [of j] other [OF False] show ?thesis by (auto intro: Suc_lessD)
    qed
  qed
qed simp



lemma canonical_keys: "registry_ok r \<Longrightarrow> lookup_entry r p = Some i \<Longrightarrow> canonical p"
  by (auto simp: registry_ok_def lookup_entry_def dest!: map_of_SomeD)

lemma relocate_shape:
  assumes "registry_ok r" "canonical root" "canonical to"
  defines "moved \<equiv> filter (\<lambda>(p, _). under root p) (open_paths r)"
  shows "relocate root to r =
    Inr (relocate_entries root to moved
      (r\<lparr>open_paths := filter (\<lambda>(p, _). \<not> under to p \<and> \<not> under root p) (open_paths r)\<rparr>))"
proof -
  have c: "\<forall>(p, i) \<in> set (open_paths r). canonical p"
    using assms(1) by (auto simp: registry_ok_def)
  have "filter_result (\<lambda>(p, _). in_subtree root p) (open_paths r) = Inr moved"
    using c assms(2) unfolding moved_def by (subst filter_result_Inr) (auto simp: in_subtree_under)
  moreover have "filter_result (in_subtree to) (registry_paths r) = Inr (filter (under to) (registry_paths r))"
    using c assms(3) by (intro filter_result_Inr) (auto simp: in_subtree_under registry_paths_def)
  moreover have "delete_paths (map fst moved) (delete_paths (filter (under to) (registry_paths r)) r) =
      r\<lparr>open_paths := filter (\<lambda>(p, _). \<not> under to p \<and> \<not> under root p) (open_paths r)\<rparr>"
  proof -
    have "filter (\<lambda>(k, _). k \<notin> set (map fst moved))
        (filter (\<lambda>(k, _). k \<notin> set (filter (under to) (registry_paths r))) (open_paths r)) =
      filter (\<lambda>(p, _). \<not> under to p \<and> \<not> under root p) (open_paths r)"
      unfolding filter_filter by (rule filter_cong) (force simp: registry_paths_def moved_def)+
    then show ?thesis by (simp only: delete_paths_def fold_delete) simp
  qed
  ultimately show ?thesis by (simp add: relocate_def)
qed


text \<open>What a move does to every open path, and to every entry.\<close>

lemma relocate_effect:
  assumes r: "registry_ok r" and c: "canonical root" "canonical to" and r': "relocate root to r = Inr r'"
  shows "lookup_entry r p = Some i \<Longrightarrow> under root p \<Longrightarrow>
      lookup_entry r' (rebased root to p) = Some i \<and>
      (\<exists>v. reg_version r < v \<and> heap r' i = (heap r i)\<lparr>version := v, needsRefresh := True\<rparr>)"
    and "\<not> (\<exists>p i. lookup_entry r p = Some i \<and> under root p \<and> q = rebased root to p) \<Longrightarrow>
      lookup_entry r' q = (if under root q \<or> under to q then None else lookup_entry r q)"
    and "lookup_entry r p = Some i \<Longrightarrow> \<not> under root p \<Longrightarrow> heap r' i = heap r i"
proof -
  let ?moved = "filter (\<lambda>(p, _). under root p) (open_paths r)"
  let ?r = "r\<lparr>open_paths := filter (\<lambda>(p, _). \<not> under to p \<and> \<not> under root p) (open_paths r)\<rparr>"
  have r'_eq: "r' = relocate_entries root to ?moved ?r"
    using relocate_shape [OF assms(1-3)] r' by simp
  have keys: "distinct (map fst (open_paths r))" "distinct (map snd (open_paths r))"
    "\<And>p i. (p, i) \<in> set (open_paths r) \<Longrightarrow> canonical p"
    using r by (auto simp: registry_ok_def)
  have look: "lookup_entry r p = Some i \<longleftrightarrow> (p, i) \<in> set (open_paths r)" for p i
    using keys(1) by (simp add: lookup_entry_def)
  have dm: "distinct (map snd ?moved)" using keys(2) by (rule distinct_map_filter)
  note heap = relocate_entries_heap [OF dm, of root to ?r, folded r'_eq]
  have inj: "inj_on (rebased root to) (fst ` set ?moved)"
  proof (rule inj_onI)
    fix p q
    assume "p \<in> fst ` set ?moved" "q \<in> fst ` set ?moved" "rebased root to p = rebased root to q"
    with keys(3) rebased_inj [OF c(1), of p q to] show "p = q" by auto
  qed
  have "distinct (map fst (map (\<lambda>(p, i). (rebased root to p, i)) ?moved))"
  proof -
    have "map fst (map (\<lambda>(p, i). (rebased root to p, i)) ?moved) = map (rebased root to) (map fst ?moved)"
      by simp
    moreover have "distinct (map (rebased root to) (map fst ?moved))"
      using inj distinct_map_filter [OF keys(1)] by (simp only: distinct_map list.set_map)
    ultimately show ?thesis by (simp only:)
  qed
  then have "distinct (map fst (rev (map (\<lambda>(p, i). (rebased root to p, i)) ?moved)))"
    by (simp only: rev_map [symmetric] distinct_rev)
  then have new: "map_of (rev (map (\<lambda>(p, i). (rebased root to p, i)) ?moved)) q = Some i \<longleftrightarrow>
      (\<exists>p. (p, i) \<in> set ?moved \<and> q = rebased root to p)" for q i
    by (subst map_of_eq_Some_iff) auto
  show "lookup_entry r p = Some i \<Longrightarrow> under root p \<Longrightarrow>
      lookup_entry r' (rebased root to p) = Some i \<and>
      (\<exists>v. reg_version r < v \<and> heap r' i = (heap r i)\<lparr>version := v, needsRefresh := True\<rparr>)"
  proof
    assume a: "lookup_entry r p = Some i" "under root p"
    then have m: "(p, i) \<in> set ?moved" by (simp add: look)
    then have "map_of (rev (map (\<lambda>(p, i). (rebased root to p, i)) ?moved)) (rebased root to p) = Some i"
      unfolding new by blast
    then show "lookup_entry r' (rebased root to p) = Some i"
      unfolding r'_eq relocate_entries_lookup by (simp only: option.case)
    from m have "i \<in> snd ` set ?moved" by force
    with heap show "\<exists>v. reg_version r < v \<and> heap r' i = (heap r i)\<lparr>version := v, needsRefresh := True\<rparr>"
      by (auto simp del: set_filter)
  qed
  show "lookup_entry r' q = (if under root q \<or> under to q then None else lookup_entry r q)"
    if "\<not> (\<exists>p i. lookup_entry r p = Some i \<and> under root p \<and> q = rebased root to p)"
  proof -
    have none: "map_of (rev (map (\<lambda>(p, i). (rebased root to p, i)) ?moved)) q = None"
    proof -
      have "\<not> (\<exists>i. map_of (rev (map (\<lambda>(p, i). (rebased root to p, i)) ?moved)) q = Some i)"
        unfolding new using that by (auto simp: look)
      then show ?thesis by simp
    qed
    have "map_of (filter (\<lambda>(p, _). P p) m) q = (if P q then map_of m q else None)" for P and m :: "(jstring \<times> entry_id) list"
      by (induction m) auto
    with none show ?thesis
      unfolding r'_eq relocate_entries_lookup by (simp add: lookup_entry_def)
  qed
  show "lookup_entry r p = Some i \<Longrightarrow> \<not> under root p \<Longrightarrow> heap r' i = heap r i"
  proof -
    assume a: "lookup_entry r p = Some i" "\<not> under root p"
    then have "i \<notin> snd ` set ?moved"
      using keys(2) by (fastforce simp: look distinct_map inj_on_def)
    with heap show ?thesis by simp
  qed
qed

lemma observe_move [simp]:
  "ev_op event = Op_move \<Longrightarrow> ev_subtree event = Some (root, Some to) \<Longrightarrow> observe event r = relocate root to r"
  by (simp add: observe_def)


section \<open>Runs of the registry\<close>





section \<open>Properties\<close>



text \<open>
  Two open documents never have the same mutation token, whatever the storage
  tokens are: a guard taken on one of them is not satisfied by the other.
\<close>

theorem document_tokens_distinguish:
  assumes "registry_ok r" "lookup_entry r p = Some i" "lookup_entry r q = Some j" "p \<noteq> q"
  shows "documentMutationToken p s r \<noteq> documentMutationToken q t r"
proof
  assume eq: "documentMutationToken p s r = documentMutationToken q t r"
  have c: "canonical p" "canonical q" using assms canonical_keys by blast+
  have digits: "takeWhile is_digit (js_nat n @ js '':'' @ u) = js_nat n" for n u
    using js_nat_digits [of n] by (subst takeWhile_append2) (auto simp: is_digit_def)
  from eq assms(2,3) c have "js_nat (version (heap r i)) @ js '':'' @ s = js_nat (version (heap r j)) @ js '':'' @ t"
    by (simp add: documentMutationToken_def)
  then have "js_nat (version (heap r i)) = js_nat (version (heap r j))" by (metis digits)
  then have "version (heap r i) = version (heap r j)" by (metis digits_value_js_nat)
  moreover have "i \<in> open_ids r" "j \<in> open_ids r" using assms(2,3) lookup_in_ids by blast+
  ultimately have "i = j" using assms(1) by (auto simp: registry_ok_def dest: inj_onD)
  moreover have "(p, i) \<in> set (open_paths r)" "(q, j) \<in> set (open_paths r)"
    using assms(2,3) by (auto simp: lookup_entry_def dest: map_of_SomeD)
  moreover have "inj_on snd (set (open_paths r))" using assms(1) by (simp add: registry_ok_def distinct_map)
  ultimately have "(p, i) = (q, j)" by (simp add: inj_on_def) force
  with assms(4) show False by simp
qed

text \<open>
  C35. A move of a subtree takes every open document below its root to the same place
  below the destination, with a new version and marked for a refresh; documents that were open at
  the destination are closed, and every other document stays as it is.
\<close>

theorem relocate_moves_documents:
  assumes "registry_ok r" "canonical root" "canonical to" "relocate root to r = Inr r'"
  shows "(\<forall>p i. lookup_entry r p = Some i \<and> under root p \<longrightarrow>
      lookup_entry r' (rebased root to p) = Some i \<and>
      (\<exists>v. reg_version r < v \<and> heap r' i = (heap r i)\<lparr>version := v, needsRefresh := True\<rparr>)) \<and>
    (\<forall>q. (\<nexists>p i. lookup_entry r p = Some i \<and> under root p \<and> q = rebased root to p) \<longrightarrow>
      lookup_entry r' q = (if under root q \<or> under to q then None else lookup_entry r q)) \<and>
    (\<forall>p i. lookup_entry r p = Some i \<and> \<not> under root p \<longrightarrow> heap r' i = heap r i)"
  using relocate_effect [OF assms] by blast

text \<open>A registry with the documents \<open>/a\<close> and \<open>/a/b\<close> open.\<close>

definition example_registry :: "nat DocumentRegistry" where
  "example_registry =
     \<lparr>reg_version = 2, open_paths = [(path_of [js ''a''], 0), (path_of [js ''a'', js ''b''], 1)],
      heap = (\<lambda>i. \<lparr>document = i, token = [], dirty = False, version = i + 1, publishedText = [],
                     needsRefresh = False\<rparr>),
      next_entry = 2\<rparr>"

lemma example_paths_distinct: "path_of [js ''a''] \<noteq> path_of [js ''a'', js ''b'']"
  using example_paths(5) by (simp add: path_of_inject)

lemma example_registry_ok: "registry_ok example_registry"
  using example_paths(1,2) example_paths_distinct
  by (auto simp: registry_ok_def example_registry_def open_ids_def inj_on_def)

lemma example_registry_lookup:
  "lookup_entry example_registry (path_of [js ''a'']) = Some 0"
  "lookup_entry example_registry (path_of [js ''a'', js ''b'']) = Some 1"
  using example_paths_distinct by (simp_all add: lookup_entry_def example_registry_def)

theorem document_tokens_distinguish_witness:
  "documentMutationToken (path_of [js ''a'']) [] example_registry \<noteq>
   documentMutationToken (path_of [js ''a'', js ''b'']) [] example_registry"
  by (rule document_tokens_distinguish [OF example_registry_ok example_registry_lookup example_paths_distinct])

theorem relocate_moves_documents_witness:
  "\<exists>r'. relocate (path_of [js ''a'', js ''b'']) (path_of [js ''b'']) example_registry = Inr r' \<and>
     lookup_entry r' (path_of [js ''b'']) = Some 1 \<and> needsRefresh (heap r' 1)"
proof -
  have c: "canonical (path_of [js ''b''])"
    by (rule canonical_path_of)
       (use example_paths(5) in \<open>simp_all add: path_of_def js_consts ascii_length MAX_PATH_BYTES_def\<close>)
  obtain r' where r': "relocate (path_of [js ''a'', js ''b'']) (path_of [js ''b'']) example_registry = Inr r'"
    using relocate_shape [OF example_registry_ok example_paths(2) c] by blast
  have "under (path_of [js ''a'', js ''b'']) (path_of [js ''a'', js ''b''])"
    "rebased (path_of [js ''a'', js ''b'']) (path_of [js ''b'']) (path_of [js ''a'', js ''b'']) = path_of [js ''b'']"
    by (simp_all add: under_def rebased_def)
  with relocate_moves_documents [OF example_registry_ok example_paths(2) c r'] example_registry_lookup(2) r'
  show ?thesis by fastforce
qed

end
