(* ===== verification/Byte_Streams.thy ===== *)
theory Byte_Streams
  imports Unicode
begin

text \<open>
  Bodies as bytes: fixed-size slabs (\<open>src/vfs/streams.ts\<close>), the in-flight byte budget
  and the collection of a body under it (\<open>src/vfs/buffering.ts\<close>), and byte ranges
  (\<open>src/vfs/range.ts\<close>). A slab being filled is the list of its used bytes. The locale
  \<open>budget_interface\<close> is what collecting relies on; under it a collection that fails
  gives back everything it took.
\<close>

section \<open>Slabs\<close>

definition validateChunkBytes :: "nat \<Rightarrow> unit result" where
  "validateChunkBytes width' = (if width' < 1 \<or> width' > MAX_SAFE_INTEGER then Throw EINVAL else Inr ())"

definition validateMaximumBytes :: "nat \<Rightarrow> unit result" where
  "validateMaximumBytes n = (if n > MAX_SAFE_INTEGER then Throw EINVAL else Inr ())"

text \<open>
  The inner loop over one chunk. Every round copies at least one byte as long as
  the slab is not full, so the length of the chunk is enough fuel (\<open>fill_slab_ok\<close>).
\<close>

fun fill_slab :: "nat \<Rightarrow> nat \<Rightarrow> byte list list \<Rightarrow> byte list \<Rightarrow> byte list \<Rightarrow> byte list list \<times> byte list" where
  "fill_slab 0 width' slabs current chunk = (slabs, current)"
| "fill_slab (Suc n) width' slabs current chunk =
     (if chunk = [] then (slabs, current)
      else let copied = min (width' - length current) (length chunk);
               filled = current @ take copied chunk in
        if length filled = width' then fill_slab n width' (slabs @ [filled]) [] (drop copied chunk)
        else fill_slab n width' slabs filled (drop copied chunk))"

fun rechunk_from :: "nat \<Rightarrow> byte list list \<Rightarrow> byte list \<Rightarrow> byte list list \<Rightarrow> byte list list \<times> byte list" where
  "rechunk_from width' slabs current [] = (slabs, current)"
| "rechunk_from width' slabs current (chunk # cs) =
     (let (slabs', current') = fill_slab (length chunk) width' slabs current chunk in
      rechunk_from width' slabs' current' cs)"

definition rechunk :: "byte list list \<Rightarrow> nat \<Rightarrow> byte list list result" where
  "rechunk cs width' =
     bindr (validateChunkBytes width') (\<lambda>_.
     let (slabs, current) = rechunk_from width' [] [] cs in
     Inr (if length current > 0 then slabs @ [current] else slabs))"

section \<open>The in-flight byte budget\<close>

record InFlightByteBudget =
  usedBytes :: int
  maximumBytes :: nat

definition acquire :: "nat \<Rightarrow> nat \<Rightarrow> InFlightByteBudget \<Rightarrow> InFlightByteBudget result" where
  "acquire bytes heldByCaller b =
     (if usedBytes b + int bytes > int (maximumBytes b)
      then (if heldByCaller + bytes > maximumBytes b then Throw ENOSPC else Throw EAGAIN)
      else Inr (b\<lparr>usedBytes := usedBytes b + int bytes\<rparr>))"

definition release :: "nat \<Rightarrow> InFlightByteBudget \<Rightarrow> InFlightByteBudget" where
  "release bytes b = b\<lparr>usedBytes := usedBytes b - int bytes\<rparr>"

definition remainingBytes :: "InFlightByteBudget \<Rightarrow> int" where
  "remainingBytes b = int (maximumBytes b) - usedBytes b"

section \<open>Collecting a body\<close>

text \<open>A body that is in memory already, or a stream of chunks.\<close>

datatype ByteBody =
    Text jstring
  | Bytes "byte list"
  | Streamed "byte list list"

text \<open>
  The chunks appended one after the other, each charged before it is copied. The
  state is the budget, what was charged, and the slabs; an error keeps them, so
  that the caller can release.
\<close>

type_synonym 'b collecting = "'b \<times> nat \<times> byte list list \<times> byte list"

fun append_chunks ::
  "(nat \<Rightarrow> nat \<Rightarrow> 'b \<Rightarrow> 'b result) \<Rightarrow> nat \<Rightarrow> nat \<Rightarrow> nat \<Rightarrow> byte list list \<Rightarrow> 'b collecting \<Rightarrow>
   unit result \<times> 'b collecting" where
  "append_chunks acq held maximum width' [] st = (Inr (), st)"
| "append_chunks acq held maximum width' (chunk # cs) (b, accounted, slabs, current) =
     (case acq (length chunk) (held + accounted) b of
        Inl e \<Rightarrow> (Inl e, (b, accounted, slabs, current))
      | Inr b' \<Rightarrow>
          let accounted' = accounted + length chunk in
          if accounted' > maximum then (Throw EFBIG, (b', accounted', slabs, current))
          else let (slabs', current') = fill_slab (length chunk) width' slabs current chunk in
            append_chunks acq held maximum width' cs (b', accounted', slabs', current'))"

definition body_chunks :: "ByteBody \<Rightarrow> byte list list" where
  "body_chunks body = (case body of Text t \<Rightarrow> [encodeUtf8 t] | Bytes bs \<Rightarrow> [bs] | Streamed cs \<Rightarrow> cs)"

text \<open>
  \<open>collectMaterialized\<close>: a small or an oversized body in memory needs no slabs.
\<close>

definition collectMaterialized ::
  "(nat \<Rightarrow> nat \<Rightarrow> 'b \<Rightarrow> 'b result) \<Rightarrow> nat \<Rightarrow> nat \<Rightarrow> nat \<Rightarrow> byte list \<Rightarrow> 'b collecting \<Rightarrow>
   (unit result \<times> 'b collecting) option" where
  "collectMaterialized acq held maximum width' bytes st =
     (if length bytes > width' \<and> length bytes \<le> maximum then None
      else case st of (b, accounted, slabs, current) \<Rightarrow>
        (case acq (length bytes) (held + accounted) b of
           Inl e \<Rightarrow> Some (Inl e, st)
         | Inr b' \<Rightarrow>
             let accounted' = accounted + length bytes in
             if length bytes > maximum then Some (Throw EFBIG, (b', accounted', slabs, current))
             else Some (Inr (), (b', accounted', (if length bytes = 0 then [] else [bytes]), []))))"

definition collectRechunkedBytes ::
  "(nat \<Rightarrow> nat \<Rightarrow> 'b \<Rightarrow> 'b result) \<Rightarrow> nat \<Rightarrow> ByteBody \<Rightarrow> nat \<Rightarrow> nat \<Rightarrow> 'b \<Rightarrow> unit result \<times> 'b collecting" where
  "collectRechunkedBytes acq held body maximum width' b =
     (let st = (b, 0, [], []) in
      case bindr (validateMaximumBytes maximum) (\<lambda>_. validateChunkBytes width') of
        Inl e \<Rightarrow> (Inl e, st)
      | Inr _ \<Rightarrow>
          let whole = append_chunks acq held maximum width' (body_chunks body) st in
          (case body of
             Streamed _ \<Rightarrow> whole
           | _ \<Rightarrow>
               (case collectMaterialized acq held maximum width' (concat (body_chunks body)) st of
                  Some r \<Rightarrow> r | None \<Rightarrow> whole)))"

record BufferedChunksLease =
  l_chunks :: "byte list list"
  l_size :: nat
  l_accounted :: nat

text \<open>\<open>collectInlineBytes\<close> of the budget's operations; a failure releases what was charged.\<close>

definition collect_with ::
  "(nat \<Rightarrow> nat \<Rightarrow> 'b \<Rightarrow> 'b result) \<Rightarrow> (nat \<Rightarrow> 'b \<Rightarrow> 'b) \<Rightarrow> nat \<Rightarrow> ByteBody \<Rightarrow> nat \<Rightarrow> nat \<Rightarrow> 'b \<Rightarrow>
   BufferedChunksLease result \<times> 'b" where
  "collect_with acq rel held body maximum width' b =
     (case collectRechunkedBytes acq held body maximum width' b of
        (Inl e, (b', accounted, _, _)) \<Rightarrow> (Inl e, rel accounted b')
      | (Inr _, (b', accounted, slabs, current)) \<Rightarrow>
          (Inr \<lparr>l_chunks = (if length current > 0 then slabs @ [current] else slabs),
                l_size = accounted, l_accounted = accounted\<rparr>, b'))"

definition collectInlineBytes ::
  "ByteBody \<Rightarrow> nat \<Rightarrow> nat \<Rightarrow> nat \<Rightarrow> InFlightByteBudget \<Rightarrow> BufferedChunksLease result \<times> InFlightByteBudget" where
  "collectInlineBytes body maximum width' held b = collect_with acquire release held body maximum width' b"

text \<open>The loop of \<open>collectInlineBytesSync\<close> over the encoded text.\<close>

function slices :: "nat \<Rightarrow> 'a list \<Rightarrow> 'a list list" where
  "slices width' xs = (if xs = [] \<or> width' = 0 then [] else take width' xs # slices width' (drop width' xs))"
  by pat_completeness auto
termination
  by (relation "measure (\<lambda>(_, xs). length xs)") auto

declare slices.simps [simp del]

definition collectInlineBytesSync ::
  "jstring \<Rightarrow> nat \<Rightarrow> nat \<Rightarrow> nat \<Rightarrow> InFlightByteBudget \<Rightarrow> BufferedChunksLease result \<times> InFlightByteBudget" where
  "collectInlineBytesSync body maximum width' held b =
     (if width' < 1 \<or> width' > MAX_SAFE_INTEGER then (Throw EINVAL, b)
      else let input = encodeUtf8 body; size = length input in
        (case acquire size held b of
           Inl e \<Rightarrow> (Inl e, b)
         | Inr b' \<Rightarrow>
             if size > maximum then (Throw EFBIG, release size b')
             else (Inr \<lparr>l_chunks = slices width' input, l_size = size, l_accounted = size\<rparr>, b')))"

section \<open>Byte ranges\<close>

text \<open>The own properties of a range object; the fields are exactly these three.\<close>

record ByteRange =
  br_offset :: "nat option"
  br_length :: "nat option"
  br_suffix :: "nat option"

definition validateByteRange :: "ByteRange option \<Rightarrow> jstring option \<Rightarrow> unit result" where
  "validateByteRange range' path =
     (case range' of None \<Rightarrow> Inr ()
      | Some r \<Rightarrow>
          let bad = (\<lambda>v minimum. case v of None \<Rightarrow> False | Some n \<Rightarrow> n < minimum \<or> n > MAX_SAFE_INTEGER);
              fail = Inl (VfsError EINVAL path) in
          if bad (br_offset r) 0 \<or> bad (br_length r) 1 \<or> bad (br_suffix r) 1 then fail
          else if br_offset r = None \<and> br_length r = None \<and> br_suffix r = None then fail
          else if br_suffix r \<noteq> None \<and> (br_offset r \<noteq> None \<or> br_length r \<noteq> None) then fail
          else Inr ())"

definition byteRangeBounds :: "ByteRange option \<Rightarrow> nat \<Rightarrow> jstring option \<Rightarrow> (nat \<times> nat) result" where
  "byteRangeBounds range' sizeBytes path =
     bindr (validateByteRange range' path) (\<lambda>_.
     case range' of
       None \<Rightarrow> Inr (0, sizeBytes)
     | Some r \<Rightarrow>
         (case br_suffix r of
            Some suf \<Rightarrow> let len = min suf sizeBytes in Inr (sizeBytes - len, len)
          | None \<Rightarrow>
              let offset = min (case br_offset r of None \<Rightarrow> 0 | Some n \<Rightarrow> n) sizeBytes in
              Inr (offset, min (case br_length r of None \<Rightarrow> sizeBytes - offset | Some n \<Rightarrow> n) (sizeBytes - offset))))"

section \<open>Slabs keep the bytes\<close>

lemma fill_slab_ok:
  "length chunk \<le> n \<Longrightarrow> length current < width' \<Longrightarrow>
   \<exists>out cur. fill_slab n width' slabs current chunk = (slabs @ out, cur) \<and>
     concat out @ cur = current @ chunk \<and> (\<forall>o' \<in> set out. length o' = width') \<and> length cur < width'"
proof (induction n arbitrary: slabs current chunk)
  case (Suc n)
  show ?case
  proof (cases "chunk = []")
    case True
    with Suc.prems show ?thesis by simp
  next
    case False
    define copied where "copied = min (width' - length current) (length chunk)"
    define filled where "filled = current @ take copied chunk"
    have copied: "0 < copied" "copied \<le> length chunk" "length filled = length current + copied"
      using False Suc.prems(2) by (simp_all add: copied_def filled_def)
    have rest: "length (drop copied chunk) \<le> n" using copied Suc.prems(1) by simp
    have bytes: "filled @ drop copied chunk = current @ chunk" by (simp add: filled_def)
    have step: "fill_slab (Suc n) width' slabs current chunk =
        (if length filled = width' then fill_slab n width' (slabs @ [filled]) [] (drop copied chunk)
         else fill_slab n width' slabs filled (drop copied chunk))"
      using False by (simp add: filled_def copied_def Let_def)
    show ?thesis
    proof (cases "length filled = width'")
      case True
      have "length ([] :: byte list) < width'" using Suc.prems(2) by simp
      from Suc.IH [OF rest this, of "slabs @ [filled]"] obtain out cur where
        "fill_slab n width' (slabs @ [filled]) [] (drop copied chunk) = (slabs @ [filled] @ out, cur)"
        "concat out @ cur = drop copied chunk" "\<forall>o' \<in> set out. length o' = width'" "length cur < width'"
        by auto
      with True bytes show ?thesis
        unfolding step by (intro exI [of _ "filled # out"] exI [of _ cur]) simp
    next
      case less: False
      have "length filled < width'" using less Suc.prems(2) by (auto simp: filled_def copied_def)
      from Suc.IH [OF rest this, of slabs] less bytes show ?thesis
        unfolding step by simp
    qed
  qed
qed auto

text \<open>Slabs of a body: all full but a shorter, non-empty last one.\<close>

definition slabs_of :: "nat \<Rightarrow> byte list \<Rightarrow> byte list list \<Rightarrow> bool" where
  "slabs_of width' bytes slabs \<longleftrightarrow>
     concat slabs = bytes \<and> (\<forall>c \<in> set slabs. c \<noteq> [] \<and> length c \<le> width') \<and>
     (\<forall>c \<in> set (butlast slabs). length c = width')"

lemma rechunk_from_ok:
  "length current < width' \<Longrightarrow>
   \<exists>out cur. rechunk_from width' slabs current cs = (slabs @ out, cur) \<and>
     concat out @ cur = current @ concat cs \<and> (\<forall>o' \<in> set out. length o' = width') \<and> length cur < width'"
proof (induction cs arbitrary: slabs current)
  case (Cons chunk cs)
  obtain out cur where fill: "fill_slab (length chunk) width' slabs current chunk = (slabs @ out, cur)"
    "concat out @ cur = current @ chunk" "\<forall>o' \<in> set out. length o' = width'" "length cur < width'"
    using fill_slab_ok [OF le_refl Cons.prems] by blast
  from Cons.IH [OF fill(4), of "slabs @ out"] obtain out' cur' where rest:
    "rechunk_from width' (slabs @ out) cur cs = (slabs @ out @ out', cur')"
    "concat out' @ cur' = cur @ concat cs" "\<forall>o' \<in> set out'. length o' = width'" "length cur' < width'"
    by auto
  have "concat (out @ out') @ cur' = current @ concat (chunk # cs)"
    using fill(2) rest(2) by simp
  with fill rest show ?case by (intro exI [of _ "out @ out'"] exI [of _ cur']) auto
qed simp

lemma slabs_of_finish:
  assumes "concat out @ cur = bytes" "\<forall>o' \<in> set out. length o' = width'" "length cur < width'"
  shows "slabs_of width' bytes (if length cur > 0 then out @ [cur] else out)"
proof -
  have "c \<noteq> []" if "c \<in> set out" for c using assms(2,3) that by fastforce
  with assms show ?thesis by (auto simp: slabs_of_def dest: in_set_butlastD)
qed

lemma rechunk_ok:
  assumes "1 \<le> width'" "width' \<le> MAX_SAFE_INTEGER"
  shows "\<exists>slabs. rechunk cs width' = Inr slabs \<and> slabs_of width' (concat cs) slabs"
proof -
  have "length ([] :: byte list) < width'" using assms(1) by simp
  from rechunk_from_ok [OF this, of "[]" cs] obtain out cur where
    "rechunk_from width' [] [] cs = (out, cur)" "concat out @ cur = concat cs"
    "\<forall>o' \<in> set out. length o' = width'" "length cur < width'"
    by auto
  note parts = this
  have "rechunk cs width' = Inr (if length cur > 0 then out @ [cur] else out)"
    unfolding rechunk_def validateChunkBytes_def parts(1) using assms by simp
  with slabs_of_finish [OF parts(2-4)] show ?thesis by blast
qed

lemma slabs_of_Cons:
  "slabs_of width' bytes (c # cs) \<longleftrightarrow>
     (\<exists>rest. bytes = c @ rest \<and> slabs_of width' rest cs) \<and> c \<noteq> [] \<and> length c \<le> width' \<and>
     (cs \<noteq> [] \<longrightarrow> length c = width')"
  unfolding slabs_of_def by (cases cs) auto

lemma slabs_of_Nil [simp]: "slabs_of width' bytes [] \<longleftrightarrow> bytes = []"
  by (auto simp: slabs_of_def)

lemma slabs_of_empty: "slabs_of width' [] cs \<longleftrightarrow> cs = []"
  by (cases cs) (auto simp: slabs_of_Cons)

lemma slabs_of_unique: "slabs_of width' bytes a \<Longrightarrow> slabs_of width' bytes b \<Longrightarrow> a = b"
proof (induction a arbitrary: b bytes)
  case Nil
  then show ?case by (simp add: slabs_of_empty)
next
  case (Cons c a)
  from Cons.prems(1) obtain ra where ra: "bytes = c @ ra" "slabs_of width' ra a" "c \<noteq> []"
    "length c \<le> width'" "a \<noteq> [] \<longrightarrow> length c = width'"
    unfolding slabs_of_Cons by blast
  obtain d b' where b: "b = d # b'"
    using Cons.prems(2) ra(1,3) by (cases b) auto
  from Cons.prems(2) obtain rb where rb: "bytes = d @ rb" "slabs_of width' rb b'" "d \<noteq> []"
    "length d \<le> width'" "b' \<noteq> [] \<longrightarrow> length d = width'"
    unfolding b slabs_of_Cons by blast
  have eq: "c @ ra = d @ rb" using ra(1) rb(1) by simp
  have "length c = length d"
  proof (cases "a = [] \<or> b' = []")
    case True
    then have "ra = [] \<or> rb = []" using ra(2) rb(2) by auto
    then show ?thesis
      using arg_cong [OF eq, of length] ra(2,4,5) rb(2,4,5)
      by (cases "a = []"; cases "b' = []") auto
  qed (use ra(5) rb(5) in auto)
  with eq have "c = d" "ra = rb" by auto
  with Cons.IH [OF ra(2)] rb(2) b show ?case by simp
qed

lemma slices_ok: "0 < width' \<Longrightarrow> slabs_of width' bytes (slices width' bytes)"
proof (induction width' bytes rule: slices.induct)
  case (1 width' xs)
  show ?case
  proof (cases "xs = []")
    case True
    then show ?thesis by (subst slices.simps) simp
  next
    case False
    with 1 have IH: "slabs_of width' (drop width' xs) (slices width' (drop width' xs))" by simp
    have full: "length (take width' xs) = width'" if "slices width' (drop width' xs) \<noteq> []"
    proof -
      from that IH have "drop width' xs \<noteq> []" by (auto simp: slabs_of_empty)
      then show ?thesis by simp
    qed
    have eq: "slices width' xs = take width' xs # slices width' (drop width' xs)"
      using False 1(2) by (subst slices.simps) simp
    show ?thesis
      unfolding eq slabs_of_Cons using IH False 1(2) full
      by (intro conjI exI [of _ "drop width' xs"]) auto
  qed
qed

section \<open>Collecting under a budget\<close>

text \<open>
  What collecting relies on: a charge that is accepted can be given back, charges
  add up, and a refusal is \<open>ENOSPC\<close> or \<open>EAGAIN\<close>.
\<close>

locale budget_interface =
  fixes acq :: "nat \<Rightarrow> nat \<Rightarrow> 'b \<Rightarrow> 'b result" and rel :: "nat \<Rightarrow> 'b \<Rightarrow> 'b"
  assumes release_acquire: "acq n held b = Inr b' \<Longrightarrow> rel (m + n) b' = rel m b"
    and release_zero: "rel 0 b = b"
    and refusal: "acq n held b = Inl e \<Longrightarrow> e \<in> {VfsError ENOSPC None, VfsError EAGAIN None}"
begin

lemma append_chunks_balance:
  "append_chunks acq held maximum width' cs (b, accounted, slabs, current) = (r, (b', accounted', slabs', current')) \<Longrightarrow>
   rel accounted' b' = rel accounted b"
proof (induction cs arbitrary: b accounted slabs current)
  case (Cons chunk cs)
  show ?case
  proof (cases "acq (length chunk) (held + accounted) b")
    case (Inl e)
    with Cons.prems show ?thesis by simp
  next
    case (Inr b1)
    obtain s1 c1 where "fill_slab (length chunk) width' slabs current chunk = (s1, c1)" by force
    with Cons.prems Cons.IH Inr release_acquire [OF Inr, of accounted] show ?thesis
      by (auto simp: Let_def split: if_splits)
  qed
qed simp

lemma materialized_balance:
  assumes "collectMaterialized acq held maximum width' bytes (b, accounted, slabs, current) =
    Some (r, (b', accounted', slabs', current'))"
  shows "rel accounted' b' = rel accounted b"
proof (cases "acq (length bytes) (held + accounted) b")
  case (Inl e)
  with assms show ?thesis by (simp add: collectMaterialized_def split: if_splits)
next
  case (Inr b1)
  with assms have "b' = b1" "accounted' = accounted + length bytes"
    by (auto simp: collectMaterialized_def Let_def split: if_splits)
  with release_acquire [OF Inr] show ?thesis by simp
qed

lemma collect_failure:
  assumes "collect_with acq rel held body maximum width' b = (Inl e, b')"
  shows "b' = b"
proof -
  obtain r b1 accounted slabs current where c:
    "collectRechunkedBytes acq held body maximum width' b = (r, (b1, accounted, slabs, current))"
    using prod_cases5 by blast
  have "rel accounted b1 = rel 0 b"
  proof (cases "bindr (validateMaximumBytes maximum) (\<lambda>_. validateChunkBytes width')")
    case (Inl e)
    with c show ?thesis by (simp add: collectRechunkedBytes_def)
  next
    case (Inr u)
    show ?thesis
    proof (cases "append_chunks acq held maximum width' (body_chunks body) (b, 0, [], []) = (r, (b1, accounted, slabs, current))")
      case True
      then show ?thesis by (rule append_chunks_balance)
    next
      case False
      with c Inr have "collectMaterialized acq held maximum width' (concat (body_chunks body)) (b, 0, [], []) =
          Some (r, (b1, accounted, slabs, current))"
        by (auto simp: collectRechunkedBytes_def Let_def split: ByteBody.splits option.splits)
      then show ?thesis by (rule materialized_balance)
    qed
  qed
  with assms c release_zero show ?thesis
    by (cases r) (auto simp: collect_with_def)
qed

lemma collect_success:
  assumes "collect_with acq rel held body maximum width' b = (Inr lease, b')"
  shows "rel (l_accounted lease) b' = b"
proof -
  obtain r b1 accounted slabs current where c:
    "collectRechunkedBytes acq held body maximum width' b = (r, (b1, accounted, slabs, current))"
    using prod_cases5 by blast
  with assms obtain u where r: "r = Inr u" "b' = b1" "l_accounted lease = accounted"
    by (cases r) (auto simp: collect_with_def)
  show ?thesis
  proof (cases "append_chunks acq held maximum width' (body_chunks body) (b, 0, [], []) = (r, (b1, accounted, slabs, current))")
    case True
    from append_chunks_balance [OF this] r release_zero show ?thesis by simp
  next
    case False
    with c r have "collectMaterialized acq held maximum width' (concat (body_chunks body)) (b, 0, [], []) =
        Some (r, (b1, accounted, slabs, current))"
      by (auto simp: collectRechunkedBytes_def Let_def split: ByteBody.splits option.splits sum.splits)
    from materialized_balance [OF this] r release_zero show ?thesis by simp
  qed
qed

end

interpretation in_flight: budget_interface acquire release
  by unfold_locales (auto simp: acquire_def release_def split: if_splits)

lemma append_chunks_ok:
  "append_chunks acq held maximum width' cs (b, accounted, slabs, current) = (Inr u, (b', accounted', slabs', current')) \<Longrightarrow>
   length current < width' \<Longrightarrow>
   \<exists>out. slabs' = slabs @ out \<and> concat out @ current' = current @ concat cs \<and>
     (\<forall>c \<in> set out. length c = width') \<and> length current' < width' \<and>
     accounted' = accounted + length (concat cs) \<and> (cs \<noteq> [] \<longrightarrow> accounted' \<le> maximum)"
proof (induction cs arbitrary: b accounted slabs current)
  case (Cons chunk cs)
  obtain out cur where fill: "fill_slab (length chunk) width' slabs current chunk = (slabs @ out, cur)"
    "concat out @ cur = current @ chunk" "\<forall>o' \<in> set out. length o' = width'" "length cur < width'"
    using fill_slab_ok [OF le_refl Cons.prems(2)] by blast
  with Cons.prems(1) obtain b1 where step: "acq (length chunk) (held + accounted) b = Inr b1"
    "accounted + length chunk \<le> maximum"
    "append_chunks acq held maximum width' cs (b1, accounted + length chunk, slabs @ out, cur) =
      (Inr u, (b', accounted', slabs', current'))"
    by (cases "acq (length chunk) (held + accounted) b") (auto simp: Let_def split: if_splits)
  from Cons.IH [OF step(3) fill(4)] obtain out' where rest: "slabs' = (slabs @ out) @ out'"
    "concat out' @ current' = cur @ concat cs" "\<forall>c \<in> set out'. length c = width'" "length current' < width'"
    "accounted' = accounted + length chunk + length (concat cs)" "cs \<noteq> [] \<longrightarrow> accounted' \<le> maximum"
    by blast
  have "concat (out @ out') @ current' = current @ concat (chunk # cs)"
    using fill(2) rest(2) by simp
  with fill(3) rest step(2) show ?case
    by (intro exI [of _ "out @ out'"]) auto
qed simp

lemma materialized_ok:
  assumes "collectMaterialized acq held maximum width' bytes (b, 0, slabs0, current0) =
    Some (Inr u, (b', accounted, slabs, current))"
  shows "slabs_of width' bytes slabs \<and> current = [] \<and> accounted = length bytes \<and> accounted \<le> maximum"
proof -
  have "slabs = (if bytes = [] then [] else [bytes]) \<and> current = [] \<and> accounted = length bytes \<and>
      length bytes \<le> maximum \<and> length bytes \<le> width'"
    using assms by (auto simp: collectMaterialized_def Let_def not_less split: if_splits sum.splits)
  then show ?thesis by (simp add: slabs_of_Cons)
qed

definition body_bytes :: "ByteBody \<Rightarrow> byte list" where
  "body_bytes body = concat (body_chunks body)"

lemma collect_slabs:
  assumes "collectInlineBytes body maximum width' held b = (Inr lease, b')"
  shows "slabs_of width' (body_bytes body) (l_chunks lease)"
    and "l_size lease = length (body_bytes body)" and "l_accounted lease = length (body_bytes body)"
    and "length (body_bytes body) \<le> maximum"
proof -
  obtain r b1 accounted slabs current where c:
    "collectRechunkedBytes acquire held body maximum width' b = (r, (b1, accounted, slabs, current))"
    using prod_cases5 by blast
  with assms obtain u where r: "r = Inr u" "l_size lease = accounted" "l_accounted lease = accounted"
    "l_chunks lease = (if length current > 0 then slabs @ [current] else slabs)"
    by (cases r) (auto simp: collectInlineBytes_def collect_with_def)
  have w: "1 \<le> width'"
    using c r by (auto simp: collectRechunkedBytes_def validateChunkBytes_def bindr_def validateMaximumBytes_def split: if_splits)
  have "slabs_of width' (body_bytes body) (l_chunks lease) \<and> accounted = length (body_bytes body) \<and>
      accounted \<le> maximum"
  proof (cases "append_chunks acquire held maximum width' (body_chunks body) (b, 0, [], []) = (r, (b1, accounted, slabs, current))")
    case True
    with r(1) append_chunks_ok [of acquire held maximum width' "body_chunks body" b 0 "[]" "[]"] w
    obtain out where "slabs = out" "concat out @ current = concat (body_chunks body)"
      "\<forall>c \<in> set out. length c = width'" "length current < width'" "accounted = length (concat (body_chunks body))"
      "body_chunks body \<noteq> [] \<longrightarrow> accounted \<le> maximum"
      by (cases u) auto
    with slabs_of_finish [of out current "concat (body_chunks body)" width'] r(4) show ?thesis
      by (auto simp: body_bytes_def)
  next
    case False
    with c r have "collectMaterialized acquire held maximum width' (concat (body_chunks body)) (b, 0, [], []) =
        Some (r, (b1, accounted, slabs, current))"
      by (auto simp: collectRechunkedBytes_def Let_def split: ByteBody.splits option.splits sum.splits)
    with r(1) have "collectMaterialized acquire held maximum width' (body_bytes body) (b, 0, [], []) =
        Some (Inr u, (b1, accounted, slabs, current))" by (simp add: body_bytes_def)
    from materialized_ok [OF this] r(4) show ?thesis by simp
  qed
  then show "slabs_of width' (body_bytes body) (l_chunks lease)" "l_size lease = length (body_bytes body)"
    "l_accounted lease = length (body_bytes body)" "length (body_bytes body) \<le> maximum"
    using r by auto
qed

section \<open>Properties\<close>

lemma rechunk_slices:
  "rechunk cs width' = (if width' < 1 \<or> width' > MAX_SAFE_INTEGER then Throw EINVAL else Inr (slices width' (concat cs)))"
proof (cases "width' < 1 \<or> width' > MAX_SAFE_INTEGER")
  case True
  then show ?thesis by (auto simp: rechunk_def validateChunkBytes_def)
next
  case False
  then obtain slabs where "rechunk cs width' = Inr slabs" "slabs_of width' (concat cs) slabs"
    using rechunk_ok [of width' cs] by auto
  with slabs_of_unique [OF this(2) slices_ok [of width' "concat cs"]] False show ?thesis by auto
qed

text \<open>
  Slabs do not depend on how the source cut its bytes: rechunking gives the bytes
  in slices of the slab width, and only a width that is not a positive safe integer is refused.
\<close>

theorem rechunk_ignores_chunking:
  "rechunk cs width' =
     (if width' < 1 \<or> width' > MAX_SAFE_INTEGER then Throw EINVAL else Inr (slices width' (concat cs))) \<and>
   concat (slices (Suc n) bytes) = (bytes :: byte list) \<and> map length (butlast (slices (Suc n) bytes)) = replicate (length (slices (Suc n) bytes) - 1) (Suc n)"
proof -
  have "map length (butlast (slices (Suc n) bytes)) = map (\<lambda>_. Suc n) (butlast (slices (Suc n) bytes))"
    using slices_ok [of "Suc n" bytes] by (intro map_cong) (auto simp: slabs_of_def)
  then show ?thesis
    using slices_ok [of "Suc n" bytes] by (simp only: rechunk_slices) (simp add: slabs_of_def map_replicate_const)
qed

text \<open>
  C40. Collecting a body under the in-flight budget: a failure leaves the budget as it
  was, a success charges exactly the size of the body, which is within the limit, and the lease
  holds the bytes of the body in full slabs.
\<close>

theorem collecting_is_accounted:
  "case collectInlineBytes body maximum width' held b of
     (Inl e, b') \<Rightarrow> b' = b
   | (Inr lease, b') \<Rightarrow>
       slabs_of width' (body_bytes body) (l_chunks lease) \<and> l_size lease = length (body_bytes body) \<and>
       length (body_bytes body) \<le> maximum \<and> release (l_accounted lease) b' = b"
proof (cases "collectInlineBytes body maximum width' held b")
  case (Pair r b')
  show ?thesis
  proof (cases r)
    case (Inl e)
    with Pair in_flight.collect_failure show ?thesis by (auto simp: collectInlineBytes_def)
  next
    case (Inr lease)
    note c = Pair [unfolded Inr]
    show ?thesis
      using collect_slabs [OF c] in_flight.collect_success [OF c [unfolded collectInlineBytes_def]]
      by (simp add: c)
  qed
qed

text \<open>
  The synchronous collection of a text, and the collection of the same text as a
  body, give the same slabs, the same refusals and the same budget.
\<close>

theorem sync_collects_the_same:
  assumes "maximum \<le> MAX_SAFE_INTEGER"
  shows "collectInlineBytesSync t maximum width' held b = collectInlineBytes (Text t) maximum width' held b"
proof (cases "collectInlineBytes (Text t) maximum width' held b")
  case (Pair r b')
  let ?bytes = "encodeUtf8 t"
  show ?thesis
  proof (cases "width' < 1 \<or> width' > MAX_SAFE_INTEGER")
    case True
    with assms show ?thesis
      by (auto simp: collectInlineBytesSync_def collectInlineBytes_def collect_with_def collectRechunkedBytes_def
          validateMaximumBytes_def validateChunkBytes_def release_def)
  next
    case False
    then have valid: "bindr (validateMaximumBytes maximum) (\<lambda>_. validateChunkBytes width') = Inr ()"
      using assms by (simp add: validateMaximumBytes_def validateChunkBytes_def not_less)
    have same: "l_chunks lease = slices width' ?bytes" if "r = Inr lease" for lease
    proof -
      have "slabs_of width' ?bytes (l_chunks lease)"
        using collect_slabs(1) Pair that by (fastforce simp: body_bytes_def body_chunks_def)
      then show ?thesis using slabs_of_unique slices_ok [of width' ?bytes] False by auto
    qed
    obtain slabs current where fill: "fill_slab (length ?bytes) width' [] [] ?bytes = (slabs, current)" by force
    show ?thesis
      using Pair same False fill
      by (cases "acquire (length ?bytes) held b")
         (auto simp: collectInlineBytesSync_def collectInlineBytes_def collect_with_def collectRechunkedBytes_def
          valid body_chunks_def collectMaterialized_def Let_def release_def acquire_def split: if_splits)
  qed
qed

theorem sync_collects_the_same_witness:
  "collectInlineBytesSync (js ''ab'') 8 1 0 \<lparr>usedBytes = 0, maximumBytes = 4\<rparr> =
   collectInlineBytes (Text (js ''ab'')) 8 1 0 \<lparr>usedBytes = 0, maximumBytes = 4\<rparr>"
  using sync_collects_the_same [of 8] by (simp add: MAX_SAFE_INTEGER_def)

text \<open>
  The bounds of a byte range lie inside the file, a suffix range ends at its end,
  and an invalid range is \<open>EINVAL\<close> at the path given.
\<close>

theorem byte_ranges_stay_inside:
  "case byteRangeBounds r size' path of
     Inr (offset, len) \<Rightarrow> offset + len \<le> size' \<and>
       (case r of None \<Rightarrow> offset = 0 \<and> len = size'
        | Some br \<Rightarrow> case br_suffix br of Some n \<Rightarrow> offset + len = size' \<and> len = min n size'
          | None \<Rightarrow> offset = min (case br_offset br of None \<Rightarrow> 0 | Some m \<Rightarrow> m) size')
   | Inl e \<Rightarrow> e = VfsError EINVAL path"
  by (auto simp: byteRangeBounds_def validateByteRange_def Let_def bindr_def
      split: option.splits if_splits sum.splits)

end
