(* ===== verification/Vfs_State.thy ===== *)
theory Vfs_State
  imports Paths Byte_Streams
begin

text \<open>
  The state of the SQLite-backed filesystem (\<open>src/vfs/sql-model.ts\<close>,
  \<open>sql-schema.ts\<close>, \<open>sql-base.ts\<close>): the tables, the fields one instance keeps in
  memory, and the operations as functions from a state to a result and a state.
  A table is the list of its rows; a SQL statement is a list operation. Columns
  are typed, so the column checks of \<open>parseEntry\<close> hold by construction, and the
  four row shapes are the constructors of \<open>entry_kind\<close>.
\<close>

section \<open>Rows\<close>

datatype entry_kind =
    Directory
  | Symlink (linkTarget: jstring)
  | Inline
  | Opaque (opaqueObjectId: nat)

record EntryRow =
  e_id :: nat
  e_path :: jstring
  e_parent :: jstring
  e_name :: jstring
  e_kind :: entry_kind
  e_size :: nat
  e_mode :: "32 word"
  e_uid :: nat
  e_gid :: nat
  e_created :: nat
  e_modified :: nat
  e_changed :: nat
  e_linkIdentity :: "nat option"
  e_linkCount :: nat
  e_revision :: nat
  e_version :: nat
  e_digest :: "jstring option"
  e_digest_revision :: nat

record ChunkRow =
  c_entry :: nat
  c_index :: nat
  c_body :: "byte list"

record OpaqueObjectRow =
  o_id :: nat
  o_key :: jstring
  o_size :: nat
  o_etag :: jstring
  o_version :: jstring
  o_sha256 :: "jstring option"
  o_contentType :: "jstring option"
  o_retainUntil :: nat

record GarbageRow =
  g_key :: jstring
  g_notBefore :: nat
  g_attempts :: nat
  g_nextAttempt :: nat
  g_lastError :: "jstring option"

datatype upload_state = Upload_open | Upload_verifying | Upload_committed | Upload_garbage

record UploadRow =
  u_id :: jstring
  u_path :: jstring
  u_writtenPath :: "jstring option"
  u_traversalToken :: "jstring option"
  u_expectedToken :: jstring
  u_objectKey :: jstring
  u_state :: upload_state
  u_verificationToken :: "jstring option"
  u_expectedSize :: "nat option"
  u_expires :: nat
  u_leaseUntil :: "nat option"
  u_createParents :: bool
  u_mode :: "32 word option"
  u_contentType :: "jstring option"
  u_receipt :: "(nat \<times> jstring) option"

text \<open>The tables. \<open>usage\<close> is the singleton row of \<open>vfs_usage\<close>.\<close>

record Tables =
  entries :: "EntryRow list"
  chunks :: "ChunkRow list"
  tombstones :: "(jstring \<times> nat) list"
  path_changes :: "(jstring \<times> nat \<times> bool) list"
  objects :: "OpaqueObjectRow list"
  garbage :: "GarbageRow list"
  uploads :: "UploadRow list"
  usage_bytes :: int
  usage_entries :: int
  next_ino :: nat

section \<open>Events, configuration, state\<close>

datatype vfs_op = MCreate | MWrite | MRemove | MMove | MMetadata

record PendingMutation =
  m_op :: vfs_op
  m_path :: jstring
  m_token :: "jstring option"
  m_subtree :: "(jstring \<times> jstring option) option"

datatype quota_limit =
    maxInlineFileBytesLimit | maxInFlightBufferedBytesLimit | maxInlineLogicalBytesLimit | maxEntriesLimit | databaseHeadroomLimit

datatype vfs_event =
    Quota quota_limit
  | Usage int int
  | Mutation PendingMutation

text \<open>
  What an instance is constructed with. \<open>databaseSize\<close> is SQLite's own figure for
  the stored tables, so it is a parameter.
\<close>

record Config =
  chunkBytes :: nat
  maxInlineFileBytes :: nat
  maxInlineLogicalBytes :: nat
  maxEntries :: nat
  maxDatabaseBytes :: nat
  minDatabaseHeadroomBytes :: nat
  recordChanges :: bool
  observed :: bool
  mutationEpoch :: jstring
  sha256Hex :: "byte list \<Rightarrow> jstring"
  uploadSettlementGraceMs :: nat
  hasOpaqueStore :: bool
  databaseSize :: "Tables \<Rightarrow> nat"

text \<open>
  The fields of an instance besides the tables. The caches of parent metadata
  and of the link count answer what the tables answer and are left out;
  \<open>emitted\<close> collects what the event sink was given.
\<close>

record Vfs =
  tables :: Tables
  clock :: nat
  nextIno :: nat
  transactionDepth :: nat
  transactionUsage :: "(int \<times> int) option"
  deferredUsage :: "(int \<times> int \<times> bool) option"
  pendingUsage :: "(int \<times> int) option"
  pendingMutations :: "PendingMutation list"
  pendingParents :: "jstring list option"
  directoryParentsChanged :: bool
  directoryParentDeltas :: "(jstring \<times> int) list option"
  sharedInodes :: bool
  lastChangeSeq :: "nat option"
  lastInlineRead :: "EntryRow option"
  emitted :: "vfs_event list"
  inFlight :: InFlightByteBudget
  alarm :: "nat option"

section \<open>Operations\<close>

type_synonym 'a op = "Vfs \<Rightarrow> 'a result \<times> Vfs"

definition return_op :: "'a \<Rightarrow> 'a op" where
  "return_op x s = (Inr x, s)"

definition throw_op :: "js_error \<Rightarrow> 'a op" where
  "throw_op e s = (Inl e, s)"

definition bind_op :: "'a op \<Rightarrow> ('a \<Rightarrow> 'b op) \<Rightarrow> 'b op" where
  "bind_op m f s = (case m s of (Inl e, s') \<Rightarrow> (Inl e, s') | (Inr x, s') \<Rightarrow> f x s')"

text \<open>A computation that only reads, a computation that may throw, and a state update.\<close>

definition gets_op :: "(Vfs \<Rightarrow> 'a) \<Rightarrow> 'a op" where
  "gets_op f s = (Inr (f s), s)"

definition lift_op :: "'a result \<Rightarrow> 'a op" where
  "lift_op r s = (r, s)"

definition modify_op :: "(Vfs \<Rightarrow> Vfs) \<Rightarrow> unit op" where
  "modify_op f s = (Inr (), f s)"

definition when_op :: "bool \<Rightarrow> unit op \<Rightarrow> unit op" where
  "when_op b m = (if b then m else return_op ())"

fun each_op :: "('a \<Rightarrow> 'b op) \<Rightarrow> 'a list \<Rightarrow> 'b list op" where
  "each_op f [] = return_op []"
| "each_op f (x # xs) = bind_op (f x) (\<lambda>y. bind_op (each_op f xs) (\<lambda>ys. return_op (y # ys)))"

abbreviation fail_op :: "vfs_error_code \<Rightarrow> jstring \<Rightarrow> 'a op" where
  "fail_op code path \<equiv> throw_op (VfsError code (Some path))"

definition require_op :: "bool \<Rightarrow> vfs_error_code \<Rightarrow> jstring \<Rightarrow> unit op" where
  "require_op ok code path = (if ok then return_op () else fail_op code path)"

text \<open>A statement that changes the tables.\<close>

definition exec_op :: "(Tables \<Rightarrow> Tables) \<Rightarrow> unit op" where
  "exec_op f = modify_op (\<lambda>s. s\<lparr>tables := f (tables s)\<rparr>)"

named_theorems op_simps \<open>evaluation of operations\<close>

lemma op_eval [op_simps]:
  "return_op x s = (Inr x, s)" "throw_op e s = (Inl e, s)" "gets_op g s = (Inr (g s), s)"
  "lift_op r s = (r, s)" "modify_op h s = (Inr (), h s)"
  "require_op True c p s = (Inr (), s)" "require_op False c p s = (Inl (VfsError c (Some p)), s)"
  "when_op True m = m" "when_op False m = return_op ()"
  "exec_op f s = (Inr (), s\<lparr>tables := f (tables s)\<rparr>)"
  by (simp_all add: return_op_def throw_op_def gets_op_def lift_op_def modify_op_def require_op_def
      when_op_def exec_op_def)

lemma bind_op_eval [op_simps]:
  "m s = (Inr x, s') \<Longrightarrow> bind_op m f s = f x s'"
  "m s = (Inl e, s') \<Longrightarrow> bind_op m f s = (Inl e, s')"
  by (simp_all add: bind_op_def)

lemma bind_op_cong [fundef_cong]:
  "m s = m' s' \<Longrightarrow> s = s' \<Longrightarrow> (\<And>x t. m' s' = (Inr x, t) \<Longrightarrow> f x t = g x t) \<Longrightarrow> bind_op m f s = bind_op m' g s'"
  by (auto simp: bind_op_def split: prod.splits sum.splits)

text \<open>Inversion: what a successful composite operation did.\<close>

lemma bind_op_InrE [elim!]:
  assumes "bind_op m f s = (Inr y, s'')"
  obtains x s' where "m s = (Inr x, s')" "f x s' = (Inr y, s'')"
  using assms by (auto simp: bind_op_def split: prod.splits sum.splits)

lemma op_Inr_iff [simp]:
  "return_op x s = (Inr y, t) \<longleftrightarrow> y = x \<and> t = s"
  "throw_op e s = (Inr y, t) \<longleftrightarrow> False"
  "gets_op g s = (Inr y, t) \<longleftrightarrow> y = g s \<and> t = s"
  "lift_op r s = (Inr y, t) \<longleftrightarrow> r = Inr y \<and> t = s"
  "modify_op h s = (Inr u, t) \<longleftrightarrow> t = h s"
  "require_op b c p s = (Inr u, t) \<longleftrightarrow> b \<and> t = s"
  "exec_op g' s = (Inr u, t) \<longleftrightarrow> t = s\<lparr>tables := g' (tables s)\<rparr>"
  by (auto simp: return_op_def throw_op_def gets_op_def lift_op_def modify_op_def require_op_def exec_op_def)

lemma when_op_Inr: "when_op b m s = (Inr u, t) \<longleftrightarrow> (if b then m s = (Inr u, t) else t = s)"
  by (auto simp: when_op_def)

text \<open>
  A property of the state that an operation keeps, whether it succeeds or not,
  and the rules that take a composite operation apart.
\<close>

definition keeps :: "(Vfs \<Rightarrow> bool) \<Rightarrow> 'a op \<Rightarrow> bool" where
  "keeps P m \<longleftrightarrow> (\<forall>s. P s \<longrightarrow> P (snd (m s)))"

named_theorems keeps_intros \<open>rules for operations that keep a property\<close>

lemma keeps_simple [keeps_intros]:
  "keeps P (return_op x)" "keeps P (throw_op e)" "keeps P (gets_op g)" "keeps P (lift_op r)"
  "keeps P (require_op b c p)"
  by (auto simp: keeps_def return_op_def throw_op_def gets_op_def lift_op_def require_op_def)

lemma keeps_bind [keeps_intros]: "keeps P m \<Longrightarrow> (\<And>x. keeps P (f x)) \<Longrightarrow> keeps P (bind_op m f)"
  unfolding keeps_def bind_op_def by (fastforce split: prod.splits sum.splits)

lemma keeps_when [keeps_intros]: "keeps P m \<Longrightarrow> keeps P (when_op b m)"
  by (simp add: when_op_def keeps_simple)

lemma keeps_if [keeps_intros]: "keeps P m \<Longrightarrow> keeps P n \<Longrightarrow> keeps P (if b then m else n)"
  by simp

lemma keeps_option [keeps_intros]:
  "keeps P m \<Longrightarrow> (\<And>x. keeps P (f x)) \<Longrightarrow> keeps P (case v of None \<Rightarrow> m | Some x \<Rightarrow> f x)"
  by (cases v) auto

lemma keeps_each [keeps_intros]: "(\<And>x. keeps P (f x)) \<Longrightarrow> keeps P (each_op f xs)"
  by (induction xs) (auto intro: keeps_intros)

lemma keeps_modify [keeps_intros]: "(\<And>s. P s \<Longrightarrow> P (h s)) \<Longrightarrow> keeps P (modify_op h)"
  by (auto simp: keeps_def modify_op_def)

lemma keeps_exec: "(\<And>s. P s \<Longrightarrow> P (s\<lparr>tables := f (tables s)\<rparr>)) \<Longrightarrow> keeps P (exec_op f)"
  by (auto simp: exec_op_def intro: keeps_modify)

lemma keepsD: "keeps P m \<Longrightarrow> P s \<Longrightarrow> m s = (r, t) \<Longrightarrow> P t"
  by (auto simp: keeps_def)

end
