(* ===== verification/Vfs_Base.thy ===== *)
theory Vfs_Base
  imports Vfs_State
begin

unbundle bit_operations_syntax

text \<open>
  POSIX permissions (\<open>src/vfs/sql-posix.ts\<close>), the shared base of the filesystem
  (\<open>src/vfs/sql-base.ts\<close>): permission checks, transactions and the flush of parent
  times, and the point lookups of \<open>src/vfs/sql-path-base.ts\<close> they use. File modes
  are 32-bit words, as JavaScript's bit operators see them.
\<close>

section \<open>Permissions\<close>

type_synonym mode = "32 word"

definition MAX_POSIX_ID :: nat where "MAX_POSIX_ID = 0xffffffff"
definition DEFAULT_UMASK :: mode where "DEFAULT_UMASK = 18"
definition READ_PERMISSION :: mode where "READ_PERMISSION = 4"
definition WRITE_PERMISSION :: mode where "WRITE_PERMISSION = 2"
definition EXECUTE_PERMISSION :: mode where "EXECUTE_PERMISSION = 1"
definition SETGID_BIT :: mode where "SETGID_BIT = 0x400"
definition STICKY_BIT :: mode where "STICKY_BIT = 0x200"

record PosixAccessContext =
  cr_uid :: nat
  cr_gid :: nat
  cr_supplementary :: "nat list"
  cr_groups :: "nat list"
  cr_umask :: mode

definition posixId :: "nat \<Rightarrow> nat result" where
  "posixId value' = (if value' > MAX_POSIX_ID then Throw EINVAL else Inr value')"

definition posixContext :: "nat \<Rightarrow> nat \<Rightarrow> nat list \<Rightarrow> nat option \<Rightarrow> PosixAccessContext result" where
  "posixContext uid' gid' supplementary umask' =
     bindr (posixId uid') (\<lambda>u.
     bindr (posixId gid') (\<lambda>g.
     bindr (map_result posixId (remdups supplementary)) (\<lambda>gs.
     let mask = (case umask' of None \<Rightarrow> 18 | Some m \<Rightarrow> m) in
     if mask > 511 then Throw EINVAL
     else Inr \<lparr>cr_uid = u, cr_gid = g, cr_supplementary = gs, cr_groups = g # gs, cr_umask = of_nat mask\<rparr>)))"

definition posixPermissions :: "EntryRow \<Rightarrow> PosixAccessContext \<Rightarrow> mode" where
  "posixPermissions entry access =
     (if cr_uid access = 0 then 7
      else if e_uid entry = cr_uid access then drop_bit 6 (e_mode entry) AND 7
      else if e_gid entry \<in> set (cr_groups access) then drop_bit 3 (e_mode entry) AND 7
      else e_mode entry AND 7)"

definition is_directory :: "EntryRow \<Rightarrow> bool" where
  "is_directory entry = (e_kind entry = Directory)"

definition is_symlink :: "EntryRow \<Rightarrow> bool" where
  "is_symlink entry = (case e_kind entry of Symlink _ \<Rightarrow> True | _ \<Rightarrow> False)"

definition is_file :: "EntryRow \<Rightarrow> bool" where
  "is_file entry = (case e_kind entry of Inline \<Rightarrow> True | Opaque _ \<Rightarrow> True | _ \<Rightarrow> False)"

definition is_inline :: "EntryRow \<Rightarrow> bool" where
  "is_inline entry = (e_kind entry = Inline)"

text \<open>\<open>access\<close> is \<open>None\<close> for the trusted caller, who is never refused.\<close>

definition permitted :: "EntryRow \<Rightarrow> PosixAccessContext \<Rightarrow> mode \<Rightarrow> bool" where
  "permitted entry access required \<longleftrightarrow>
     (cr_uid access = 0 \<and> \<not> (required = EXECUTE_PERMISSION \<and> is_file entry \<and> e_mode entry AND 0x49 = 0)) \<or>
     posixPermissions entry access AND required = required"

definition assertPermission :: "EntryRow \<Rightarrow> PosixAccessContext option \<Rightarrow> mode \<Rightarrow> jstring \<Rightarrow> unit op" where
  "assertPermission entry access required path =
     (case access of None \<Rightarrow> return_op ()
      | Some ctx \<Rightarrow>
          if required = 0 then return_op ()
          else require_op (permitted entry ctx required) EACCES path)"

definition assertOwner :: "EntryRow \<Rightarrow> PosixAccessContext option \<Rightarrow> jstring \<Rightarrow> unit op" where
  "assertOwner entry access path =
     (case access of None \<Rightarrow> return_op ()
      | Some ctx \<Rightarrow> require_op (cr_uid ctx = 0 \<or> cr_uid ctx = e_uid entry) EPERM path)"

definition assertStickyRemoval ::
  "EntryRow \<Rightarrow> EntryRow \<Rightarrow> PosixAccessContext option \<Rightarrow> jstring \<Rightarrow> unit op" where
  "assertStickyRemoval parent target access path =
     (case access of None \<Rightarrow> return_op ()
      | Some ctx \<Rightarrow>
          require_op (cr_uid ctx = 0 \<or> e_mode parent AND STICKY_BIT = 0 \<or>
                      cr_uid ctx = e_uid parent \<or> cr_uid ctx = e_uid target) EPERM path)"

definition creationMode ::
  "mode \<Rightarrow> PosixAccessContext option \<Rightarrow> EntryRow \<Rightarrow> bool \<Rightarrow> bool \<Rightarrow> mode" where
  "creationMode mode' access parent directory intermediate =
     (case access of None \<Rightarrow> mode'
      | Some ctx \<Rightarrow>
          let permissions = mode' AND 0xfff AND NOT (cr_umask ctx);
              permissions = (if directory \<and> intermediate then permissions OR 0xc0 else permissions);
              permissions = (if directory \<and> e_mode parent AND SETGID_BIT \<noteq> 0
                             then permissions OR SETGID_BIT else permissions) in
          (if directory then 0x4000 else 0x8000) OR permissions)"

definition creationOwner :: "EntryRow \<Rightarrow> PosixAccessContext option \<Rightarrow> nat \<times> nat" where
  "creationOwner parent access =
     (case access of None \<Rightarrow> (0, 0)
      | Some ctx \<Rightarrow> (cr_uid ctx, if e_mode parent AND SETGID_BIT \<noteq> 0 then e_gid parent else cr_gid ctx))"

section \<open>Lookups\<close>

definition find_entry :: "jstring \<Rightarrow> Tables \<Rightarrow> EntryRow option" where
  "find_entry path t = find (\<lambda>e. e_path e = path) (entries t)"

definition find_tombstone :: "jstring \<Rightarrow> Tables \<Rightarrow> nat option" where
  "find_tombstone path t = map_of (tombstones t) path"

definition oneEntry :: "jstring \<Rightarrow> EntryRow option op" where
  "oneEntry path = gets_op (\<lambda>s. find_entry path (tables s))"

definition formatMutationToken :: "jstring \<Rightarrow> nat \<Rightarrow> jstring" where
  "formatMutationToken epoch version' = epoch @ js '':'' @ js_nat version'"

definition NEVER_MUTATED_TOKEN :: jstring where
  "NEVER_MUTATED_TOKEN = js ''vfs:never-mutated''"

definition mutationToken :: "Config \<Rightarrow> EntryRow \<Rightarrow> jstring" where
  "mutationToken cfg entry = formatMutationToken (mutationEpoch cfg) (e_version entry)"

definition tokenFor :: "Config \<Rightarrow> jstring \<Rightarrow> jstring op" where
  "tokenFor cfg path = gets_op (\<lambda>s.
     case find_entry path (tables s) of
       Some e \<Rightarrow> formatMutationToken (mutationEpoch cfg) (e_version e)
     | None \<Rightarrow>
         (case find_tombstone path (tables s) of
            Some v \<Rightarrow> formatMutationToken (mutationEpoch cfg) v
          | None \<Rightarrow> NEVER_MUTATED_TOKEN))"

text \<open>\<open>pathState\<close>: the entry, and the token of the path whether or not it exists.\<close>

definition pathState :: "Config \<Rightarrow> jstring \<Rightarrow> (EntryRow option \<times> jstring) op" where
  "pathState cfg path = gets_op (\<lambda>s.
     case find_entry path (tables s) of
       Some e \<Rightarrow> (Some e, mutationToken cfg e)
     | None \<Rightarrow>
         (case find_tombstone path (tables s) of
            None \<Rightarrow> (None, NEVER_MUTATED_TOKEN)
          | Some v \<Rightarrow> (None, formatMutationToken (mutationEpoch cfg) v)))"

definition links :: "Tables \<Rightarrow> nat" where
  "links t = length (filter is_symlink (entries t))"

text \<open>
  The range condition \<open>path = ? OR (path >= lower AND path < upper)\<close>, in SQLite's
  order of text. \<open>descendantRange\<close> throws only on a path that cannot be normalized.
\<close>

definition in_range :: "jstring \<times> jstring \<Rightarrow> jstring \<Rightarrow> bool" where
  "in_range bounds path \<longleftrightarrow> sql_le (fst bounds) path \<and> sql_less path (snd bounds)"

definition in_tree :: "jstring \<Rightarrow> jstring \<times> jstring \<Rightarrow> jstring \<Rightarrow> bool" where
  "in_tree root bounds path \<longleftrightarrow> path = root \<or> in_range bounds path"

definition descendantRange_op :: "jstring \<Rightarrow> (jstring \<times> jstring) op" where
  "descendantRange_op root = lift_op (descendantRange root)"

section \<open>Traversal\<close>

fun check_traversed :: "PosixAccessContext option \<Rightarrow> jstring \<Rightarrow> EntryRow list \<Rightarrow> unit op" where
  "check_traversed access path [] = return_op ()"
| "check_traversed access path (row # rows) =
     (if \<not> is_directory row then fail_op ENOTDIR (e_path row)
      else bind_op (assertPermission row access EXECUTE_PERMISSION path) (\<lambda>_.
           check_traversed access path rows))"

definition assertTraverse :: "jstring \<Rightarrow> jstring list \<Rightarrow> PosixAccessContext option \<Rightarrow> unit op" where
  "assertTraverse path followed access =
     (if access = None then return_op ()
      else bind_op (lift_op (traversalAncestors path followed)) (\<lambda>ordered.
        if length ordered = 0 then return_op ()
        else bind_op (gets_op (\<lambda>s. filter (\<lambda>e. e_path e \<in> set ordered) (entries (tables s)))) (\<lambda>rows.
          if length rows \<noteq> length ordered then fail_op ENOENT path
          else check_traversed access path rows)))"

text \<open>The SQL form of the permission bits, and the two checks of a whole subtree.\<close>

definition permissionExpression :: "EntryRow \<Rightarrow> PosixAccessContext \<Rightarrow> mode" where
  "permissionExpression e access =
     (if e_uid e = cr_uid access then drop_bit 6 (e_mode e) AND 7
      else if e_gid e \<in> set (cr_groups access) then drop_bit 3 (e_mode e) AND 7
      else e_mode e AND 7)"

text \<open>\<open>ORDER BY path LIMIT 1\<close>.\<close>

fun first_by_path :: "EntryRow list \<Rightarrow> EntryRow option" where
  "first_by_path [] = None"
| "first_by_path (e # es) =
     (case first_by_path es of None \<Rightarrow> Some e
      | Some f \<Rightarrow> if sql_less (e_path f) (e_path e) then Some f else Some e)"

definition assertSubtreePermissions ::
  "jstring \<Rightarrow> PosixAccessContext option \<Rightarrow> mode \<Rightarrow> mode \<Rightarrow> unit op" where
  "assertSubtreePermissions path access filePermissions directoryPermissions =
     (case access of None \<Rightarrow> return_op ()
      | Some ctx \<Rightarrow>
          if cr_uid ctx = 0 then return_op ()
          else bind_op (descendantRange_op path) (\<lambda>range.
            bind_op (gets_op (\<lambda>s. first_by_path (filter (\<lambda>e. in_tree path range (e_path e) \<and>
                ((is_directory e \<and> permissionExpression e ctx AND directoryPermissions \<noteq> directoryPermissions) \<or>
                 (is_file e \<and> permissionExpression e ctx AND filePermissions \<noteq> filePermissions)))
                (entries (tables s))))) (\<lambda>denied.
            case denied of None \<Rightarrow> return_op () | Some e \<Rightarrow> fail_op EACCES (e_path e))))"

definition assertSubtreeSticky :: "jstring \<Rightarrow> PosixAccessContext option \<Rightarrow> unit op" where
  "assertSubtreeSticky path access =
     (case access of None \<Rightarrow> return_op ()
      | Some ctx \<Rightarrow>
          if cr_uid ctx = 0 then return_op ()
          else bind_op (descendantRange_op path) (\<lambda>range.
            bind_op (gets_op (\<lambda>s. first_by_path (filter (\<lambda>child.
                sql_less path (e_path child) \<and> in_range range (e_path child) \<and>
                (case find_entry (e_parent child) (tables s) of None \<Rightarrow> False
                 | Some parent \<Rightarrow> e_mode parent AND STICKY_BIT \<noteq> 0 \<and> cr_uid ctx \<noteq> e_uid parent \<and>
                     cr_uid ctx \<noteq> e_uid child))
                (entries (tables s))))) (\<lambda>denied.
            case denied of None \<Rightarrow> return_op () | Some e \<Rightarrow> fail_op EPERM (e_path e))))"

section \<open>Properties\<close>

text \<open>Which class of the mode's bits speaks for an access, and what it grants, bit by bit.\<close>

definition class_shift :: "EntryRow \<Rightarrow> PosixAccessContext \<Rightarrow> nat" where
  "class_shift entry access =
     (if e_uid entry = cr_uid access then 6 else if e_gid entry \<in> set (cr_groups access) then 3 else 0)"

definition class_grants :: "EntryRow \<Rightarrow> PosixAccessContext \<Rightarrow> mode \<Rightarrow> bool" where
  "class_grants entry access required \<longleftrightarrow>
     (\<forall>n < 3. bit required n \<longrightarrow> bit (e_mode entry) (class_shift entry access + n))"

lemma bit_seven: "bit (7 :: mode) n \<longleftrightarrow> n < 3"
proof -
  have "(7 :: mode) = mask 3" by (simp add: mask_eq_exp_minus_1)
  moreover have "bit (mask 3 :: mode) n \<longleftrightarrow> n < 3" by (auto simp: bit_mask_iff)
  ultimately show ?thesis by (simp only:)
qed

lemma required_granted:
  "(drop_bit k m AND 7) AND (r AND 7) = (r AND 7 :: mode) \<longleftrightarrow> (\<forall>n < 3. bit r n \<longrightarrow> bit m (k + n))"
proof
  assume eq: "(drop_bit k m AND 7) AND (r AND 7) = r AND 7"
  show "\<forall>n < 3. bit r n \<longrightarrow> bit m (k + n)"
  proof (intro allI impI)
    fix n :: nat
    assume "n < 3" "bit r n"
    then have "bit (r AND 7) n" by (simp only: bit_and_iff bit_seven)
    with eq have "bit ((drop_bit k m AND 7) AND (r AND 7)) n" by simp
    then show "bit m (k + n)" by (simp only: bit_and_iff bit_drop_bit_eq comp_def)
  qed
next
  assume "\<forall>n < 3. bit r n \<longrightarrow> bit m (k + n)"
  then show "(drop_bit k m AND 7) AND (r AND 7) = r AND 7"
    by (intro bit_word_eqI) (auto simp only: bit_and_iff bit_drop_bit_eq comp_def bit_seven)
qed

text \<open>
  One class of permission bits decides an access check: the owner's bits for the
  owner, the group's for a member of the group, the others' otherwise, each required bit for
  itself. Only the superuser passes without them.
\<close>

theorem permission_check_decides:
  "permitted entry access (required AND 7) \<longleftrightarrow> cr_uid access = 0 \<or> class_grants entry access required"
proof (cases "cr_uid access = 0")
  case True
  have "7 AND (required AND 7) = required AND 7" by (simp add: ac_simps flip: and.assoc)
  with True show ?thesis by (simp add: permitted_def posixPermissions_def)
next
  case False
  with required_granted [of 6 "e_mode entry" required] required_granted [of 3 "e_mode entry" required]
    required_granted [of 0 "e_mode entry" required]
  show ?thesis by (auto simp: permitted_def posixPermissions_def class_grants_def class_shift_def)
qed




end
