(* ===== verification/Vfs_Path.thy ===== *)
theory Vfs_Path
  imports Vfs_Base
begin

text \<open>
  Path resolution (\<open>src/vfs/sql-path-base.ts\<close>): following links with a bound on
  the hops, dot segments, tokens and guards, the record of changes, and the
  versions a path goes through. Resolution only reads, so it is a function of the
  tables; its result carries the hop count and the links followed, which the code
  keeps in a shared context. \<open>resolve_fuel\<close> bounds the nesting of the two mutually
  recursive functions; \<open>resolution_terminates\<close> shows that it is never used up.
\<close>

section \<open>Resolution\<close>

definition MAX_SYMLINK_HOPS :: nat where "MAX_SYMLINK_HOPS = 40"

definition linkDestination :: "EntryRow \<Rightarrow> jstring result" where
  "linkDestination row =
     (let target = (case e_kind row of Symlink t \<Rightarrow> t | _ \<Rightarrow> []) in
      normalizeResolutionPath (if pathRequiresDirectory target then target @ [DOT] else target) (e_parent row))"

text \<open>The strict ancestors of a path below the root, nearest first; every step is shorter.\<close>

fun ancestor_chain :: "nat \<Rightarrow> jstring \<Rightarrow> jstring list result" where
  "ancestor_chain 0 at' = Inr []"
| "ancestor_chain (Suc n) at' =
     (if at' = [SLASH] then Inr []
      else bindr (dirname at') (\<lambda>up. bindr (ancestor_chain n up) (\<lambda>rest. Inr (at' # rest))))"

text \<open>\<open>ORDER BY length(path) ASC LIMIT 1\<close>; SQLite counts characters.\<close>

fun shortest_path :: "EntryRow list \<Rightarrow> EntryRow option" where
  "shortest_path [] = None"
| "shortest_path (e # es) =
     (case shortest_path es of None \<Rightarrow> Some e
      | Some f \<Rightarrow> if codePointLength (e_path f) < codePointLength (e_path e) then Some f else Some e)"

definition linkAncestor :: "Tables \<Rightarrow> jstring \<Rightarrow> EntryRow option result" where
  "linkAncestor t path =
     bindr (dirname path) (\<lambda>up.
     bindr (ancestor_chain (length up) up) (\<lambda>ancestors.
     if length ancestors = 0 then Inr None
     else Inr (shortest_path (filter (\<lambda>e. is_symlink e \<and> e_path e \<in> set ancestors) (entries t)))))"

definition missingAncestorLink :: "Tables \<Rightarrow> jstring \<Rightarrow> EntryRow option result" where
  "missingAncestorLink t path = (if links t = 0 then Inr None else linkAncestor t path)"

definition followsTerminalLink :: "EntryRow \<Rightarrow> bool \<Rightarrow> bool" where
  "followsTerminalLink row follow \<longleftrightarrow> follow \<and> is_symlink row"

record Resolution =
  r_path :: jstring
  r_row :: "EntryRow option"
  r_followed :: "jstring list"
  r_hops :: nat

text \<open>
  \<open>resolve_entry\<close> is one round of the loop of \<open>resolveEntry\<close> and the rounds after
  it, \<open>resolve_segments\<close> the loop of \<open>resolveDottedEntry\<close>. \<open>None\<close> is running out
  of fuel.
\<close>

fun resolve_entry ::
    "nat \<Rightarrow> Tables \<Rightarrow> jstring \<Rightarrow> jstring \<Rightarrow> bool \<Rightarrow> jstring list \<Rightarrow> nat \<Rightarrow> Resolution result option"
  and resolve_segments ::
    "nat \<Rightarrow> Tables \<Rightarrow> jstring list \<Rightarrow> jstring \<Rightarrow> bool \<Rightarrow> jstring list \<Rightarrow> nat \<Rightarrow> Resolution result option"
where
  "resolve_entry 0 t input path follow followed hops = None"
| "resolve_entry (Suc n) t input path follow followed hops =
     (if hops > MAX_SYMLINK_HOPS then Some (Throw_at ELOOP input)
      else if hasDotSegments path then
        resolve_segments n t (filter (\<lambda>seg. seg \<noteq> []) (split_on SLASH path)) [SLASH] follow followed hops
      else
        (case find_entry path t of
           None \<Rightarrow>
             (case missingAncestorLink t path of
                Inl e \<Rightarrow> Some (Inl e)
              | Inr None \<Rightarrow> Some (Inr \<lparr>r_path = path, r_row = None, r_followed = followed, r_hops = hops\<rparr>)
              | Inr (Some ancestor) \<Rightarrow>
                  (case bindr (linkDestination ancestor) (\<lambda>dest.
                          normalizeResolutionPath (dest @ [SLASH] @ drop (length (e_path ancestor)) path) [SLASH]) of
                     Inl e \<Rightarrow> Some (Inl e)
                   | Inr next \<Rightarrow>
                       resolve_entry n t input next follow (followed @ [e_path ancestor]) (hops + 1)))
         | Some row \<Rightarrow>
             if \<not> followsTerminalLink row follow
             then Some (Inr \<lparr>r_path = path, r_row = Some row, r_followed = followed, r_hops = hops\<rparr>)
             else
               (case linkDestination row of
                  Inl e \<Rightarrow> Some (Inl e)
                | Inr next \<Rightarrow> resolve_entry n t input next follow (followed @ [e_path row]) (hops + 1))))"
| "resolve_segments 0 t segments path follow followed hops = None"
| "resolve_segments (Suc n) t [] path follow followed hops =
     (case normalizeRoot path of
        Inl e \<Rightarrow> Some (Inl e)
      | Inr p \<Rightarrow> resolve_entry n t p p follow followed hops)"
| "resolve_segments (Suc n) t (segment # segments) path follow followed hops =
     (if segment \<noteq> [DOT] \<and> segment \<noteq> [DOT, DOT] then
        resolve_segments n t segments (path @ [SLASH] @ segment) follow followed hops
      else if path = [SLASH] then
        resolve_segments n t segments path follow (followed @ [[SLASH]]) hops
      else
        (case normalizeRoot path of
           Inl e \<Rightarrow> Some (Inl e)
         | Inr p \<Rightarrow>
             (case resolve_entry n t p p True followed hops of
                None \<Rightarrow> None
              | Some (Inl e) \<Rightarrow> Some (Inl e)
              | Some (Inr pre) \<Rightarrow>
                  (case r_row pre of
                     None \<Rightarrow> Some (Throw_at ENOENT (r_path pre))
                   | Some row \<Rightarrow>
                       if \<not> is_directory row then Some (Throw_at ENOTDIR (r_path pre))
                       else
                         (case (if segment = [DOT, DOT] then dirname (r_path pre) else Inr (r_path pre)) of
                            Inl e \<Rightarrow> Some (Inl e)
                          | Inr p' \<Rightarrow>
                              resolve_segments n t segments p' follow
                                (r_followed pre @ [r_path pre @ [SLASH]]) (r_hops pre))))))"


text \<open>
  Each hop costs at most the segments of one path, of which a path of 4096 bytes
  has at most as many, and three more steps.
\<close>

definition resolve_fuel :: nat where
  "resolve_fuel = 42 * (MAX_PATH_BYTES + 3)"

definition resolveEntry :: "Tables \<Rightarrow> jstring \<Rightarrow> bool \<Rightarrow> Resolution result" where
  "resolveEntry t input follow =
     (case resolve_entry resolve_fuel t input input follow [] 0 of
        None \<Rightarrow> Inl RangeError | Some r \<Rightarrow> r)"

definition resolveEntry_op :: "jstring \<Rightarrow> bool \<Rightarrow> Resolution op" where
  "resolveEntry_op input follow s = (resolveEntry (tables s) input follow, s)"

section \<open>Guards\<close>

definition tokenOf :: "Config \<Rightarrow> jstring \<Rightarrow> EntryRow option \<Rightarrow> jstring op" where
  "tokenOf cfg path entry =
     (case entry of
        Some e \<Rightarrow> if e_path e = path then return_op (mutationToken cfg e) else tokenFor cfg path
      | None \<Rightarrow> tokenFor cfg path)"

definition followed_token :: "Config \<Rightarrow> jstring \<Rightarrow> jstring op" where
  "followed_token cfg link =
     bind_op (if ends_with_char SLASH link then lift_op (normalizeRoot link) else return_op link)
       (\<lambda>path. tokenFor cfg path)"

definition guardToken :: "Config \<Rightarrow> jstring \<Rightarrow> EntryRow option \<Rightarrow> jstring op" where
  "guardToken cfg path entry =
     bind_op (lift_op (normalizeResolutionPath path [SLASH])) (\<lambda>normalized.
     bind_op (gets_op (\<lambda>s. links (tables s))) (\<lambda>n.
     if n = 0 \<and> \<not> hasDotSegments normalized then tokenOf cfg normalized entry
     else
       bind_op (resolveEntry_op normalized True) (\<lambda>resolved.
       bind_op (tokenFor cfg (r_path resolved)) (\<lambda>base.
       if length (r_followed resolved) = 0 then return_op base
       else bind_op (each_op (followed_token cfg) (r_followed resolved)) (\<lambda>tokens.
         return_op (join_with (js ''|'') (base # tokens)))))))"

definition validateGuard ::
  "Config \<Rightarrow> jstring \<Rightarrow> EntryRow option \<Rightarrow> jstring option \<Rightarrow> jstring option \<Rightarrow> unit op" where
  "validateGuard cfg path entry ifMutationToken written =
     (case ifMutationToken of None \<Rightarrow> return_op ()
      | Some expected \<Rightarrow>
          bind_op (case written of None \<Rightarrow> tokenOf cfg path entry | Some w \<Rightarrow> guardToken cfg w entry) (\<lambda>current.
          require_op (current = expected) EREVISION path))"

section \<open>Requiring entries\<close>

definition realpath :: "jstring \<Rightarrow> bool \<Rightarrow> PosixAccessContext option \<Rightarrow> jstring op" where
  "realpath path follow access =
     bind_op (lift_op (normalizeResolutionPath path [SLASH])) (\<lambda>normalized.
     bind_op (gets_op (\<lambda>s. links (tables s))) (\<lambda>n.
     if n = 0 \<and> \<not> hasDotSegments normalized then
       bind_op (assertTraverse normalized [] access) (\<lambda>_. return_op normalized)
     else
       bind_op (resolveEntry_op normalized follow) (\<lambda>resolved.
       bind_op (assertTraverse (r_path resolved) (r_followed resolved) access) (\<lambda>_.
       return_op (r_path resolved)))))"

definition oneResolved :: "jstring \<Rightarrow> bool \<Rightarrow> EntryRow option op" where
  "oneResolved path follow = bind_op (resolveEntry_op path follow) (\<lambda>r. return_op (r_row r))"

definition requireEntry :: "jstring \<Rightarrow> bool \<Rightarrow> EntryRow op" where
  "requireEntry path follow =
     bind_op (gets_op (\<lambda>s. links (tables s))) (\<lambda>n.
     bind_op (if n = 0 \<and> \<not> hasDotSegments path then oneEntry path else oneResolved path follow) (\<lambda>row.
     case row of None \<Rightarrow> fail_op ENOENT path | Some e \<Rightarrow> return_op e))"

definition or_require :: "EntryRow option \<Rightarrow> EntryRow op \<Rightarrow> EntryRow op" where
  "or_require resolved m = (case resolved of Some e \<Rightarrow> return_op e | None \<Rightarrow> m)"

definition requireDirectory :: "jstring \<Rightarrow> EntryRow option \<Rightarrow> EntryRow op" where
  "requireDirectory path resolved =
     bind_op (or_require resolved (requireEntry path True)) (\<lambda>row.
     if \<not> is_directory row then fail_op ENOTDIR path else return_op row)"

definition requireInline :: "jstring \<Rightarrow> EntryRow option \<Rightarrow> EntryRow op" where
  "requireInline path resolved =
     bind_op (or_require resolved (requireEntry path True)) (\<lambda>row.
     if is_directory row then fail_op EISDIR path
     else if \<not> is_inline row then fail_op ENOTSUP path
     else return_op row)"

record Access =
  a_path :: jstring
  a_row :: "EntryRow option"
  a_followed :: "jstring list"

definition resolveAccess :: "jstring \<Rightarrow> bool \<Rightarrow> bool \<Rightarrow> Access op" where
  "resolveAccess path allowMissingDirectory followTerminal =
     (let requiresDirectory = pathRequiresDirectory path; dotted = hasDotSegments path in
      bind_op (lift_op (if dotted then normalizeResolutionPath path [SLASH] else normalizeRoot path)) (\<lambda>normalized.
      bind_op (gets_op (\<lambda>s. links (tables s))) (\<lambda>n.
      bind_op (if n = 0 \<and> \<not> dotted
               then return_op \<lparr>a_path = normalized, a_row = None, a_followed = []\<rparr>
               else bind_op (resolveEntry_op normalized (followTerminal \<or> requiresDirectory)) (\<lambda>r.
                    return_op \<lparr>a_path = r_path r, a_row = r_row r, a_followed = r_followed r\<rparr>)) (\<lambda>resolved.
      bind_op (if requiresDirectory \<and> a_row resolved = None \<and> a_path resolved \<noteq> [SLASH]
               then bind_op (oneEntry (a_path resolved)) (\<lambda>row. return_op (resolved\<lparr>a_row := row\<rparr>))
               else return_op resolved) (\<lambda>resolved.
      if \<not> requiresDirectory \<or> a_path resolved = [SLASH] then return_op resolved
      else
        (case a_row resolved of
           None \<Rightarrow> if allowMissingDirectory then return_op resolved else fail_op ENOENT (a_path resolved)
         | Some row \<Rightarrow>
             if \<not> is_directory row then fail_op ENOTDIR (a_path resolved) else return_op resolved))))))"

section \<open>Recording changes\<close>

definition nextChangeSeq :: "Config \<Rightarrow> nat op" where
  "nextChangeSeq cfg =
     (if \<not> recordChanges cfg then return_op 0
      else bind_op (gets_op (\<lambda>s.
          (case lastChangeSeq s of
             None \<Rightarrow> foldl max 0 (map (\<lambda>(_, seq, _). seq) (path_changes (tables s)))
           | Some seq \<Rightarrow> seq) + 1)) (\<lambda>seq.
        bind_op (modify_op (\<lambda>s. s\<lparr>lastChangeSeq := Some seq\<rparr>)) (\<lambda>_. return_op seq)))"

fun upsert :: "'k \<Rightarrow> 'v \<Rightarrow> ('v \<Rightarrow> 'v) \<Rightarrow> ('k \<times> 'v) list \<Rightarrow> ('k \<times> 'v) list" where
  "upsert k v f [] = [(k, v)]"
| "upsert k v f ((k', v') # rows) = (if k' = k then (k, f v') # rows else (k', v') # upsert k v f rows)"

definition recordPathChange :: "Config \<Rightarrow> jstring \<Rightarrow> bool \<Rightarrow> nat option \<Rightarrow> unit op" where
  "recordPathChange cfg path present changeSeq =
     (if \<not> recordChanges cfg then return_op ()
      else bind_op (case changeSeq of Some seq \<Rightarrow> return_op seq | None \<Rightarrow> nextChangeSeq cfg) (\<lambda>seq.
        exec_op (\<lambda>t. t\<lparr>path_changes := upsert path (seq, present) (\<lambda>_. (seq, present)) (path_changes t)\<rparr>)))"

definition set_add :: "'a \<Rightarrow> 'a list option \<Rightarrow> 'a list option" where
  "set_add x xs = (case xs of None \<Rightarrow> Some [x] | Some ys \<Rightarrow> Some (if x \<in> set ys then ys else ys @ [x]))"

definition recordMutation :: "Config \<Rightarrow> PendingMutation \<Rightarrow> unit op" where
  "recordMutation cfg mutation =
     bind_op (if m_op mutation \<in> {MCreate, MRemove, MMove} then
         bind_op (lift_op (dirname (m_path mutation))) (\<lambda>parent.
         bind_op (modify_op (\<lambda>s. s\<lparr>pendingParents := set_add parent (pendingParents s)\<rparr>)) (\<lambda>_.
         case m_subtree mutation of
           Some (_, Some to) \<Rightarrow>
             bind_op (lift_op (dirname to)) (\<lambda>parent'.
             modify_op (\<lambda>s. s\<lparr>pendingParents := set_add parent' (pendingParents s)\<rparr>))
         | _ \<Rightarrow> return_op ()))
       else return_op ()) (\<lambda>_.
     when_op (observed cfg) (modify_op (\<lambda>s. s\<lparr>pendingMutations := pendingMutations s @ [mutation]\<rparr>)))"

definition plain_mutation :: "vfs_op \<Rightarrow> jstring \<Rightarrow> jstring option \<Rightarrow> PendingMutation" where
  "plain_mutation mop path tok = \<lparr>m_op = mop, m_path = path, m_token = tok, m_subtree = None\<rparr>"

definition publish_aliases :: "Config \<Rightarrow> vfs_op \<Rightarrow> EntryRow list \<Rightarrow> unit op" where
  "publish_aliases cfg mop rows =
     bind_op (each_op (\<lambda>row.
       bind_op (recordPathChange cfg (e_path row) True None) (\<lambda>_.
       recordMutation cfg (plain_mutation mop (e_path row) (Some (mutationToken cfg row))))) rows) (\<lambda>_. return_op ())"

text \<open>
  \<open>publishToken\<close>. \<open>knownIdentity\<close> is \<open>None\<close> when the caller passed no entry, and
  otherwise the link identity of the entry it passed.
\<close>

definition publishToken ::
  "Config \<Rightarrow> jstring \<Rightarrow> nat \<Rightarrow> bool \<Rightarrow> vfs_op \<Rightarrow> nat option option \<Rightarrow> jstring op" where
  "publishToken cfg path version' present mop knownIdentity =
     bind_op (recordPathChange cfg path present None) (\<lambda>_.
     let tok = formatMutationToken (mutationEpoch cfg) version' in
     bind_op (recordMutation cfg (plain_mutation mop path (Some tok))) (\<lambda>_.
     bind_op (gets_op (\<lambda>s.
       if sharedInodes s \<and> knownIdentity \<noteq> Some None \<and> present \<and> mop \<in> {MWrite, MMetadata} then
         filter (\<lambda>row. e_path row \<noteq> path \<and> e_linkIdentity row \<noteq> None \<and>
             e_linkIdentity row =
               (case knownIdentity of Some i \<Rightarrow> i
                | None \<Rightarrow> Option.bind (find_entry path (tables s)) e_linkIdentity))
           (entries (tables s))
       else [])) (\<lambda>rows.
     bind_op (publish_aliases cfg mop rows) (\<lambda>_. return_op tok))))"

definition publishLinkedMetadata :: "Config \<Rightarrow> nat list \<Rightarrow> unit op" where
  "publishLinkedMetadata cfg identities =
     (if length identities = 0 then return_op ()
      else bind_op (gets_op (\<lambda>s. filter (\<lambda>row. e_linkIdentity row \<in> Some ` set identities) (entries (tables s))))
        (\<lambda>rows. publish_aliases cfg MMetadata rows))"

text \<open>\<open>nextEntryVersion\<close>: deletes the tombstone of an absent path and continues its version.\<close>

definition nextEntryVersion :: "jstring \<Rightarrow> nat \<Rightarrow> nat op" where
  "nextEntryVersion path previousVersion =
     bind_op (gets_op (\<lambda>s. find_tombstone path (tables s))) (\<lambda>tombstone.
     bind_op (exec_op (\<lambda>t. t\<lparr>tombstones := filter (\<lambda>(p, _). p \<noteq> path) (tombstones t)\<rparr>)) (\<lambda>_.
     return_op (max previousVersion (case tombstone of None \<Rightarrow> 0 | Some v \<Rightarrow> v) + 1)))"

section \<open>Transactions\<close>

definition noteDirectoryChange :: "EntryRow \<Rightarrow> unit op" where
  "noteDirectoryChange entry =
     when_op (is_directory entry) (modify_op (\<lambda>s. s\<lparr>directoryParentsChanged := True\<rparr>))"

definition noteDirectoryDelta :: "jstring \<Rightarrow> int \<Rightarrow> unit op" where
  "noteDirectoryDelta parent delta =
     modify_op (\<lambda>s. s\<lparr>directoryParentDeltas :=
       Some (upsert parent delta (\<lambda>d. d + delta)
         (case directoryParentDeltas s of None \<Rightarrow> [] | Some ds \<Rightarrow> ds))\<rparr>)"

text \<open>The \<open>link_count\<close> expression of \<open>parentLinkCount\<close>, for one parent row.\<close>

definition parentLinkCount :: "Tables \<Rightarrow> bool \<Rightarrow> (jstring \<times> int) list option \<Rightarrow> EntryRow \<Rightarrow> nat" where
  "parentLinkCount t recount deltas row =
     (if recount \<or> (case deltas of None \<Rightarrow> False | Some ds \<Rightarrow> length ds > 2) then
        2 + length (filter (\<lambda>child. e_parent child = e_path row \<and> is_directory child \<and> e_path child \<noteq> [SLASH])
              (entries t))
      else
        (case deltas of None \<Rightarrow> e_linkCount row
         | Some ds \<Rightarrow> nat (int (e_linkCount row) + (case map_of ds (e_path row) of None \<Rightarrow> 0 | Some d \<Rightarrow> d))))"

definition flushParentTimes :: "Config \<Rightarrow> unit op" where
  "flushParentTimes cfg =
     bind_op (gets_op (\<lambda>s. (directoryParentDeltas s, pendingParents s))) (\<lambda>(deltas, parents).
     bind_op (modify_op (\<lambda>s. s\<lparr>directoryParentDeltas := None, pendingParents := None\<rparr>)) (\<lambda>_.
     case parents of None \<Rightarrow> return_op ()
     | Some paths \<Rightarrow>
         bind_op (gets_op (\<lambda>s. (directoryParentsChanged s, clock s))) (\<lambda>(recount, now).
         bind_op (modify_op (\<lambda>s. s\<lparr>directoryParentsChanged := False\<rparr>)) (\<lambda>_.
         bind_op (exec_op (\<lambda>t. t\<lparr>entries := map (\<lambda>row.
             if e_path row \<in> set paths \<and> is_directory row then
               row\<lparr>e_modified := now, e_changed := now, e_revision := e_revision row + 1,
                   e_version := e_version row + 1, e_linkCount := parentLinkCount t recount deltas row\<rparr>
             else row) (entries t)\<rparr>)) (\<lambda>_.
         bind_op (gets_op (\<lambda>s.
           if observed cfg \<or> recordChanges cfg
           then filter (\<lambda>row. e_path row \<in> set paths \<and> is_directory row) (entries (tables s)) else [])) (\<lambda>rows.
         bind_op (each_op (\<lambda>row. publishToken cfg (e_path row) (e_version row) True MMetadata (Some None)) rows) (\<lambda>_.
         return_op ())))))))"

definition emitCommittedMutations :: "Config \<Rightarrow> Vfs \<Rightarrow> Vfs" where
  "emitCommittedMutations cfg s =
     (let s = (case pendingUsage s of None \<Rightarrow> s
               | Some (bytes, n) \<Rightarrow> s\<lparr>pendingUsage := None,
                   emitted := (if observed cfg then emitted s @ [Usage bytes n] else emitted s)\<rparr>) in
      if length (pendingMutations s) > 0
      then s\<lparr>pendingMutations := [],
             emitted := (if observed cfg then emitted s @ map Mutation (pendingMutations s) else emitted s)\<rparr>
      else s)"

text \<open>
  \<open>transaction\<close>: an error restores the tables and drops what was pending; the
  identities and sequence numbers handed out stay used. A nested call only runs
  its body.
\<close>

definition transaction :: "Config \<Rightarrow> 'a op \<Rightarrow> 'a op" where
  "transaction cfg body s =
     (let outermost = (transactionDepth s = 0);
          (r, s1) = bind_op body (\<lambda>x.
            bind_op (if outermost then flushParentTimes cfg else return_op ()) (\<lambda>_. return_op x))
            (s\<lparr>transactionDepth := transactionDepth s + 1\<rparr>);
          s2 = s1\<lparr>transactionDepth := transactionDepth s,
                  transactionUsage := (if outermost then None else transactionUsage s1)\<rparr> in
      case r of
        Inr x \<Rightarrow> (Inr x, if outermost then emitCommittedMutations cfg s2 else s2)
      | Inl e \<Rightarrow>
          (Inl e, s2\<lparr>tables := (if outermost then tables s else tables s2), pendingUsage := None,
                     pendingMutations := [], pendingParents := None, directoryParentsChanged := False,
                     directoryParentDeltas := None\<rparr>))"

end
