(* ===== verification/Vfs_Resolution.thy ===== *)
theory Vfs_Resolution
  imports Vfs_Path
begin

text \<open>
  What resolution promises. It always ends: a rank that drops with every step bounds
  the nesting of the two loops below \<open>resolve_fuel\<close>, so the fuel is never used up.
  What it returns is what the tables hold at the resolved path. Without links and dot
  segments it is one lookup, which is what the shortcuts of the callers rely on.
\<close>

section \<open>Sizes of paths\<close>

lemma length_le_utf8: "length s \<le> utf8ByteLength s"
proof -
  have "length s \<le> length (concat (map (utf8_units \<circ> utf8OrderPoint) (code_points s)))"
  proof (induction s rule: characters_induct)
    case (step s)
    show ?case using step(1)
    proof (cases rule: front_cases)
      case (pair c d r)
      then have "2 \<le> length (utf8_units (utf8OrderPoint (code_point_front s)))"
        by (simp add: utf8_units_def utf8OrderPoint_def)
      with pair step show ?thesis by (simp add: code_points_step)
    next
      case (single c r)
      have "1 \<le> length (utf8_units (utf8OrderPoint (code_point_front s)))"
        by (simp add: utf8_units_def)
      with single step show ?thesis by (simp add: code_points_step)
    qed
  qed simp
  then show ?thesis by (simp add: utf8ByteLength_eq encodeUtf8_def)
qed

lemma length_split_segments: "length (filter (\<lambda>seg. seg \<noteq> []) (split_on c s)) \<le> length s"
proof -
  have "length (filter (\<lambda>seg. seg \<noteq> []) (split_on c s)) \<le> length s \<and>
    (hd (split_on c s) \<noteq> [] \<or> length (filter (\<lambda>seg. seg \<noteq> []) (split_on c s)) < Suc (length s))"
    by (induction s) (auto split: list.splits if_splits)
  then show ?thesis by simp
qed

lemma dot_front_segment: "dot_component_front b \<Longrightarrow> [DOT] \<in> set (split_on SLASH b) \<or> [DOT, DOT] \<in> set (split_on SLASH b)"
  unfolding dot_component_front_def by (auto simp: starts_with_iff split: list.splits)

lemma canonical_no_dots: "canonical path \<Longrightarrow> \<not> hasDotSegments path"
proof
  assume "canonical path" and dots: "hasDotSegments path"
  then obtain segs where segs: "path = path_of segs" "\<forall>seg \<in> set segs. valid_segment seg"
    by (auto elim: canonicalE)
  have "\<not> dot_component_front path" by (simp add: segs(1) path_of_def dot_component_front_def starts_with_iff)
  then have "slash_dot_component path" using dots by (simp add: hasDotSegments_def dot_component_def)
  then obtain a b where ab: "path = a @ SLASH # b" "dot_component_front b"
    by (auto simp: slash_dot_component_iff)
  have "[DOT] \<in> set (split_on SLASH path) \<or> [DOT, DOT] \<in> set (split_on SLASH path)"
    using dot_front_segment [OF ab(2)] by (auto simp: ab(1) split_on_append_any)
  moreover have "split_on SLASH path = [] # (if segs = [] then [[]] else segs)"
    using split_path_of [of segs] segs by (simp add: valid_no_slash)
  ultimately show False using segs(2) by (auto simp: valid_segment_def split: if_splits)
qed

lemma resolution_path_size: "normalizeResolutionPath path cwd = Inr p \<Longrightarrow> utf8ByteLength p \<le> MAX_PATH_BYTES"
  by (auto simp: normalizeResolutionPath_def Let_def validatePath_Inr canonical_def
      dest!: normalize_canonical split: if_splits)

text \<open>The paths resolution works on: canonical, or still with dot segments.\<close>

definition dotted_or_canonical :: "jstring \<Rightarrow> bool" where
  "dotted_or_canonical path \<longleftrightarrow> hasDotSegments path \<or> canonical path"

lemma canonical_dotted [simp]: "canonical path \<Longrightarrow> dotted_or_canonical path"
  by (simp add: dotted_or_canonical_def)

lemma resolution_path_kind: "normalizeResolutionPath path cwd = Inr p \<Longrightarrow> dotted_or_canonical p"
  by (auto simp: normalizeResolutionPath_def Let_def dotted_or_canonical_def
      dest!: normalize_canonical split: if_splits)

section \<open>Steps of a successful resolution\<close>

definition found_here :: "Tables \<Rightarrow> jstring \<Rightarrow> bool \<Rightarrow> jstring list \<Rightarrow> nat \<Rightarrow> Resolution \<Rightarrow> bool" where
  "found_here t path follow followed hops r \<longleftrightarrow>
     r = \<lparr>r_path = path, r_row = find_entry path t, r_followed = followed, r_hops = hops\<rparr> \<and>
     \<not> hasDotSegments path \<and>
     (case find_entry path t of None \<Rightarrow> missingAncestorLink t path = Inr None
      | Some row \<Rightarrow> \<not> followsTerminalLink row follow)"

lemma resolve_entry_step:
  assumes "resolve_entry (Suc n) t input path follow followed hops = Some (Inr r)"
  shows "hops \<le> MAX_SYMLINK_HOPS"
    and "resolve_segments n t (filter (\<lambda>seg. seg \<noteq> []) (split_on SLASH path)) [SLASH] follow followed hops = Some (Inr r) \<or>
      found_here t path follow followed hops r \<or>
      (\<exists>next link. dotted_or_canonical next \<and>
        resolve_entry n t input next follow (followed @ [link]) (hops + 1) = Some (Inr r))"
  using assms
  by (auto simp: found_here_def linkDestination_def Let_def dest: resolution_path_kind
      split: if_splits option.splits sum.splits)

lemma resolve_segments_step:
  assumes "resolve_segments (Suc n) t segments path follow followed hops = Some (Inr r)"
  shows "(\<exists>p. normalizeRoot path = Inr p \<and> resolve_entry n t p p follow followed hops = Some (Inr r)) \<or>
    (\<exists>rest path' followed'. resolve_segments n t rest path' follow followed' hops = Some (Inr r)) \<or>
    (\<exists>p pre rest path' followed'. resolve_entry n t p p True followed hops = Some (Inr pre) \<and>
      resolve_segments n t rest path' follow followed' (r_hops pre) = Some (Inr r))"
proof (cases segments)
  case Nil
  with assms show ?thesis by (auto split: sum.splits)
next
  case (Cons segment rest)
  show ?thesis
  proof (cases "(segment \<noteq> [DOT] \<and> segment \<noteq> [DOT, DOT]) \<or> path = [SLASH]")
    case True
    with assms Cons show ?thesis by (auto split: if_splits)
  next
    case False
    with assms Cons obtain p pre where pre: "normalizeRoot path = Inr p"
      "resolve_entry n t p p True followed hops = Some (Inr pre)"
      by (auto split: sum.splits option.splits)
    with assms Cons False obtain p' where
      "resolve_segments n t rest p' follow (r_followed pre @ [r_path pre @ [SLASH]]) (r_hops pre) = Some (Inr r)"
      by (auto split: sum.splits option.splits if_splits)
    with pre show ?thesis by blast
  qed
qed

text \<open>The hop count only grows, and never passes its bound.\<close>

lemma hops_grow:
  "(\<forall>input path follow followed hops r. resolve_entry n t input path follow followed hops = Some (Inr r) \<longrightarrow>
      hops \<le> r_hops r \<and> r_hops r \<le> MAX_SYMLINK_HOPS) \<and>
   (\<forall>segments path follow followed hops r. resolve_segments n t segments path follow followed hops = Some (Inr r) \<longrightarrow>
      hops \<le> r_hops r \<and> r_hops r \<le> MAX_SYMLINK_HOPS)"
proof (induction n)
  case (Suc n)
  show ?case
  proof (intro conjI allI impI)
    fix input path follow followed hops r
    assume res: "resolve_entry (Suc n) t input path follow followed hops = Some (Inr r)"
    from resolve_entry_step [OF this] Suc show "hops \<le> r_hops r" "r_hops r \<le> MAX_SYMLINK_HOPS"
      by (auto simp: found_here_def) (metis Suc_leD)
  next
    fix segments path follow followed hops r
    assume "resolve_segments (Suc n) t segments path follow followed hops = Some (Inr r)"
    from resolve_segments_step [OF this] Suc show "hops \<le> r_hops r" "r_hops r \<le> MAX_SYMLINK_HOPS"
      by (metis order_trans, metis)
  qed
qed simp

text \<open>What is returned is what the tables hold there.\<close>

lemma found_here_self: "found_here t path follow followed hops r \<Longrightarrow> found_here t (r_path r) follow followed (r_hops r) r"
  unfolding found_here_def by (metis Resolution.select_convs(1,2,4))

lemma resolution_found:
  "(\<forall>input path follow followed hops r. resolve_entry n t input path follow followed hops = Some (Inr r) \<longrightarrow>
      (\<exists>links. found_here t (r_path r) follow links (r_hops r) r)) \<and>
   (\<forall>segments path follow followed hops r. resolve_segments n t segments path follow followed hops = Some (Inr r) \<longrightarrow>
      (\<exists>links. found_here t (r_path r) follow links (r_hops r) r))"
proof (induction n)
  case (Suc n)
  show ?case
  proof (intro conjI allI impI)
    fix input path follow followed hops r
    assume "resolve_entry (Suc n) t input path follow followed hops = Some (Inr r)"
    from resolve_entry_step(2) [OF this] Suc show "\<exists>links. found_here t (r_path r) follow links (r_hops r) r"
      using found_here_self by blast
  next
    fix segments path follow followed hops r
    assume "resolve_segments (Suc n) t segments path follow followed hops = Some (Inr r)"
    from resolve_segments_step [OF this] Suc show "\<exists>links. found_here t (r_path r) follow links (r_hops r) r"
      by blast
  qed
qed simp

text \<open>The path of what is returned is canonical.\<close>

lemma resolution_canonical:
  "(\<forall>input path follow followed hops r. dotted_or_canonical path \<longrightarrow>
      resolve_entry n t input path follow followed hops = Some (Inr r) \<longrightarrow> canonical (r_path r)) \<and>
   (\<forall>segments path follow followed hops r. resolve_segments n t segments path follow followed hops = Some (Inr r) \<longrightarrow>
      canonical (r_path r))"
proof (induction n)
  case (Suc n)
  show ?case
  proof (intro conjI allI impI)
    fix input path follow followed hops r
    assume "dotted_or_canonical path" "resolve_entry (Suc n) t input path follow followed hops = Some (Inr r)"
    with resolve_entry_step(2) [OF this(2)] Suc show "canonical (r_path r)"
      by (auto simp: found_here_def dotted_or_canonical_def)
  next
    fix segments path follow followed hops r
    assume "resolve_segments (Suc n) t segments path follow followed hops = Some (Inr r)"
    from resolve_segments_step [OF this] Suc normalize_canonical canonical_dotted show "canonical (r_path r)"
      by metis
  qed
qed simp

lemma resolveEntry_found:
  assumes "resolveEntry t path follow = Inr r"
  shows "r_row r = find_entry (r_path r) t" "dotted_or_canonical path \<Longrightarrow> canonical (r_path r)"
proof -
  from assms have res: "resolve_entry resolve_fuel t path path follow [] 0 = Some (Inr r)"
    by (auto simp: resolveEntry_def split: option.splits)
  with resolution_canonical [of resolve_fuel t] show "dotted_or_canonical path \<Longrightarrow> canonical (r_path r)" by blast
  from res resolution_found [of resolve_fuel t] obtain links where "found_here t (r_path r) follow links (r_hops r) r"
    by blast
  then show "r_row r = find_entry (r_path r) t" unfolding found_here_def by (metis Resolution.select_convs(2))
qed

text \<open>Where resolution found nothing, it finds nothing again.\<close>

lemma resolution_settles:
  assumes "resolveEntry t path follow = Inr r" "r_row r = None" "resolveEntry t (r_path r) follow' = Inr r'"
  shows "r_row r' = None"
proof -
  from assms(1) resolution_found [of resolve_fuel t] obtain links
    where found: "found_here t (r_path r) follow links (r_hops r) r"
    by (auto simp: resolveEntry_def split: option.splits) blast
  with assms(2) have "find_entry (r_path r) t = None" unfolding found_here_def by (metis Resolution.select_convs(2))
  with found have here: "find_entry (r_path r) t = None" "missingAncestorLink t (r_path r) = Inr None"
    "\<not> hasDotSegments (r_path r)" by (simp_all add: found_here_def)
  obtain n where n: "resolve_fuel = Suc n" by (simp add: resolve_fuel_def MAX_PATH_BYTES_def)
  from assms(3) here show ?thesis unfolding resolveEntry_def n by auto
qed

section \<open>Resolution ends\<close>

text \<open>The rank of a round at a hop count, and what one more round costs.\<close>

definition hop_rank :: "nat \<Rightarrow> nat" where
  "hop_rank hops = (Suc MAX_SYMLINK_HOPS - hops) * (MAX_PATH_BYTES + 3) + 1"

lemma hop_rank_step: "hops \<le> MAX_SYMLINK_HOPS \<Longrightarrow> hop_rank hops = MAX_PATH_BYTES + 3 + hop_rank (hops + 1)"
  by (simp add: hop_rank_def Suc_diff_le)

lemma hop_rank_antimono: "hops \<le> hops' \<Longrightarrow> hop_rank hops' \<le> hop_rank hops"
  unfolding hop_rank_def by (intro add_right_mono mult_right_mono diff_le_mono2) simp_all

definition ends_within :: "Tables \<Rightarrow> nat \<Rightarrow> bool" where
  "ends_within t hops \<longleftrightarrow> (\<forall>n input path follow followed.
     hop_rank hops \<le> n \<longrightarrow> utf8ByteLength path \<le> MAX_PATH_BYTES \<longrightarrow>
     resolve_entry n t input path follow followed hops \<noteq> None)"

lemma entry_ends_plain:
  assumes "ends_within t (hops + 1)" "hop_rank (hops + 1) \<le> n" "\<not> hasDotSegments path"
  shows "resolve_entry (Suc n) t input path follow followed hops \<noteq> None"
proof (cases "hops > MAX_SYMLINK_HOPS")
  case True
  then show ?thesis by simp
next
  case False
  have next': "resolve_entry n t input nx follow followed' (Suc hops) \<noteq> None"
    if "normalizeResolutionPath q cwd = Inr nx" for nx q cwd followed'
    using assms(1,2) resolution_path_size [OF that] by (simp add: ends_within_def)
  have dest: "linkDestination row = Inr nx \<Longrightarrow> resolve_entry n t input nx follow followed' (Suc hops) \<noteq> None" for row nx followed'
    unfolding linkDestination_def Let_def by (rule next')
  show ?thesis
  proof (cases "find_entry path t")
    case None
    show ?thesis
      using False assms(3) None next'
      by (auto simp del: not_None_eq simp: bindr_def split: sum.splits option.splits)
  next
    case (Some row)
    show ?thesis
      using False assms(3) Some dest by (auto simp del: not_None_eq split: sum.splits)
  qed
qed

lemma segments_end:
  assumes "\<And>h. hops \<le> h \<Longrightarrow> ends_within t (h + 1)"
  shows "hops \<le> h \<Longrightarrow> length segments + 2 + hop_rank (hops + 1) \<le> n \<Longrightarrow>
    resolve_segments n t segments path follow followed h \<noteq> None"
proof (induction segments arbitrary: n path followed h)
  case Nil
  then obtain m where n: "n = Suc (Suc m)" "hop_rank (hops + 1) \<le> m"
    by (cases n; cases "n - 1") auto
  have "hop_rank (h + 1) \<le> m" using hop_rank_antimono [of "hops + 1" "h + 1"] Nil.prems(1) n(2) by simp
  note plain = entry_ends_plain [OF assms [OF Nil.prems(1)] this]
  show ?case
    unfolding n(1) using plain canonical_no_dots [OF normalize_canonical]
    by (auto simp del: not_None_eq resolve_entry.simps split: sum.splits)
next
  case (Cons segment segments)
  obtain m where n: "n = Suc m" "length segments + 2 + hop_rank (hops + 1) \<le> m"
    using Cons.prems(2) by (cases n) auto
  then obtain k where m: "m = Suc k" "hop_rank (hops + 1) \<le> k" by (cases m) auto
  have "hop_rank (h + 1) \<le> k" using hop_rank_antimono [of "hops + 1" "h + 1"] Cons.prems(1) m(2) by simp
  note plain = entry_ends_plain [OF assms [OF Cons.prems(1)] this, folded m(1)]
  have rest: "resolve_segments m t segments path' follow followed' h' \<noteq> None" if "h \<le> h'" for path' followed' h'
    using Cons.IH [OF _ n(2)] Cons.prems(1) that by simp
  have grow: "h \<le> r_hops pre" if "resolve_entry m t p p True followed h = Some (Inr pre)" for p pre
    using hops_grow [of m t] that by blast
  show ?case
  proof (cases "(segment \<noteq> [DOT] \<and> segment \<noteq> [DOT, DOT]) \<or> path = [SLASH]")
    case True
    with rest [OF le_refl] show ?thesis by (auto simp: n(1) simp del: not_None_eq)
  next
    case dots: False
    show ?thesis
    proof (cases "normalizeRoot path")
      case (Inl e)
      with dots show ?thesis by (auto simp: n(1))
    next
      case (Inr p)
      have "resolve_entry m t p p True followed h \<noteq> None"
        using plain canonical_no_dots [OF normalize_canonical [OF Inr]] by blast
      then obtain x where x: "resolve_entry m t p p True followed h = Some x" by blast
      have after': "\<exists>y. resolve_segments m t segments path' follow followed' (r_hops pre) = Some y"
        if "x = Inr pre" for pre path' followed'
        using rest [OF grow] x that by blast
      show ?thesis
        using dots Inr x after'
        by (auto simp: n(1) simp del: not_None_eq resolve_entry.simps split: sum.splits option.splits)
    qed
  qed
qed

lemma all_ends_within: "ends_within t hops"
proof (induction "Suc MAX_SYMLINK_HOPS - hops" arbitrary: hops rule: less_induct)
  case less
  show ?case unfolding ends_within_def
  proof (intro allI impI)
    fix n input path follow followed
    assume n: "hop_rank hops \<le> n" and size: "utf8ByteLength path \<le> MAX_PATH_BYTES"
    obtain m where m: "n = Suc m" using n by (cases n) (auto simp: hop_rank_def)
    show "resolve_entry n t input path follow followed hops \<noteq> None"
    proof (cases "hops > MAX_SYMLINK_HOPS")
      case True
      with m show ?thesis by simp
    next
      case low: False
      then have later: "ends_within t (h + 1)" if "hops \<le> h" for h
        using less [of "h + 1"] that by auto
      from low n m have rank: "MAX_PATH_BYTES + 2 + hop_rank (hops + 1) \<le> m"
        using hop_rank_step [of hops] by simp
      show ?thesis
      proof (cases "hasDotSegments path")
        case True
        have "length (filter (\<lambda>seg. seg \<noteq> []) (split_on SLASH path)) \<le> MAX_PATH_BYTES"
          using length_split_segments [of SLASH path] length_le_utf8 [of path] size by simp
        with rank have "length (filter (\<lambda>seg. seg \<noteq> []) (split_on SLASH path)) + 2 + hop_rank (hops + 1) \<le> m" by simp
        from segments_end [OF later le_refl this] True low m show ?thesis by (simp del: not_None_eq)
      next
        case False
        from entry_ends_plain [OF later [OF le_refl] _ False, of m] rank m show ?thesis by simp
      qed
    qed
  qed
qed

lemma resolution_terminates:
  assumes "utf8ByteLength input \<le> MAX_PATH_BYTES"
  shows "\<exists>x. resolve_entry resolve_fuel t input input follow [] 0 = Some x \<and> resolveEntry t input follow = x"
proof -
  have "hop_rank 0 \<le> resolve_fuel"
    by (simp add: hop_rank_def resolve_fuel_def MAX_SYMLINK_HOPS_def MAX_PATH_BYTES_def)
  with all_ends_within [of t 0] assms obtain x where "resolve_entry resolve_fuel t input input follow [] 0 = Some x"
    unfolding ends_within_def by blast
  then show ?thesis by (simp add: resolveEntry_def)
qed

section \<open>No links, and circles of links\<close>

lemma no_links: "links t = 0 \<Longrightarrow> find_entry path t = Some row \<Longrightarrow> \<not> is_symlink row"
  by (auto simp: links_def find_entry_def filter_empty_conv find_Some_iff)

lemma resolve_fuel_Suc: "\<exists>n. resolve_fuel = Suc n"
  by (simp add: resolve_fuel_def)

lemma lookup_without_links:
  assumes "links t = 0" "\<not> hasDotSegments path"
  shows "resolveEntry t path follow =
    Inr \<lparr>r_path = path, r_row = find_entry path t, r_followed = [], r_hops = 0\<rparr>"
proof -
  obtain n where n: "resolve_fuel = Suc n" using resolve_fuel_Suc by blast
  show ?thesis
    using assms no_links [OF assms(1), of path] unfolding resolveEntry_def n
    by (auto simp: missingAncestorLink_def followsTerminalLink_def split: option.splits)
qed

definition link_to :: "Tables \<Rightarrow> jstring \<Rightarrow> jstring \<Rightarrow> bool" where
  "link_to t p q \<longleftrightarrow> (\<exists>row. find_entry p t = Some row \<and> is_symlink row \<and> linkDestination row = Inr q)"

lemma circle_rounds:
  assumes "\<forall>p \<in> S. \<not> hasDotSegments p \<and> (\<exists>q \<in> S. link_to t p q)"
  shows "p \<in> S \<Longrightarrow> Suc MAX_SYMLINK_HOPS - hops < n \<Longrightarrow>
    resolve_entry n t input p True followed hops = Some (Throw_at ELOOP input)"
proof (induction n arbitrary: p followed hops)
  case (Suc n)
  obtain q row where q: "q \<in> S" "find_entry p t = Some row" "is_symlink row" "linkDestination row = Inr q"
    using assms Suc.prems(1) by (auto simp: link_to_def)
  have "\<not> hasDotSegments p" using assms Suc.prems(1) by blast
  with q Suc.IH [OF q(1), of "Suc hops"] Suc.prems(2) show ?case
    by (auto simp: followsTerminalLink_def)
qed simp

section \<open>Properties\<close>

text \<open>
  C31. Resolving a path of at most \<open>MAX_PATH_BYTES\<close> bytes always ends: the fuel of
  the model is never used up, whatever links and dot segments are on the way.
\<close>

theorem resolution_always_ends:
  assumes "utf8ByteLength input \<le> MAX_PATH_BYTES"
  shows "\<exists>x. resolve_entry resolve_fuel t input input follow [] 0 = Some x \<and> resolveEntry t input follow = x"
  using assms by (rule resolution_terminates)

text \<open>
  C32. A resolution that succeeds gives the entry the tables hold at the resolved path
  (or that there is none), a path without dot segments, never a link that was to be followed, and
  at most \<open>MAX_SYMLINK_HOPS\<close> hops.
\<close>

theorem resolution_is_sound:
  "case resolveEntry t input follow of
     Inl e \<Rightarrow> True
   | Inr r \<Rightarrow> r_row r = find_entry (r_path r) t \<and> \<not> hasDotSegments (r_path r) \<and>
       r_hops r \<le> MAX_SYMLINK_HOPS \<and>
       (case r_row r of None \<Rightarrow> True | Some row \<Rightarrow> \<not> followsTerminalLink row follow)"
proof (cases "resolveEntry t input follow")
  case (Inr r)
  then have "resolve_entry resolve_fuel t input input follow [] 0 = Some (Inr r)"
    by (simp add: resolveEntry_def del: resolve_entry.simps split: option.splits)
  then have "\<exists>links. found_here t (r_path r) follow links (r_hops r) r" "r_hops r \<le> MAX_SYMLINK_HOPS"
    using resolution_found [of resolve_fuel t] hops_grow [of resolve_fuel t] by blast+
  then obtain links where found: "found_here t (r_path r) follow links (r_hops r) r" by blast
  then have "r_row r = find_entry (r_path r) t"
    unfolding found_here_def by (metis Resolution.select_convs(2))
  with found \<open>r_hops r \<le> MAX_SYMLINK_HOPS\<close> show ?thesis
    by (auto simp: Inr found_here_def split: option.splits)
qed simp

text \<open>
  The shortcuts taken while there is no link are the general case: resolving a
  path without dot segments is then one lookup, with nothing followed.
\<close>

theorem shortcut_is_resolution:
  assumes "links t = 0" "\<not> hasDotSegments path"
  shows "resolveEntry t path follow =
    Inr \<lparr>r_path = path, r_row = find_entry path t, r_followed = [], r_hops = 0\<rparr>"
  using assms by (rule lookup_without_links)

text \<open>
  C33. Links that lead around in a circle are never followed for ever and never give a
  result: resolving any of them is \<open>ELOOP\<close>.
\<close>

theorem circle_of_links_is_ELOOP:
  assumes "\<forall>p \<in> S. \<not> hasDotSegments p \<and> (\<exists>q \<in> S. link_to t p q)" "p \<in> S"
  shows "resolveEntry t p True = Throw_at ELOOP p"
proof -
  have "Suc MAX_SYMLINK_HOPS - 0 < resolve_fuel"
    by (simp add: MAX_SYMLINK_HOPS_def resolve_fuel_def MAX_PATH_BYTES_def)
  from circle_rounds [OF assms this] show ?thesis by (simp add: resolveEntry_def del: resolve_entry.simps)
qed

definition example_entry :: "nat \<Rightarrow> jstring list \<Rightarrow> entry_kind \<Rightarrow> EntryRow" where
  "example_entry i segs kind = \<lparr>e_id = i, e_path = path_of segs, e_parent = path_of (butlast segs),
     e_name = (if segs = [] then [] else last segs), e_kind = kind, e_size = 0, e_mode = 0x1ff, e_uid = 0,
     e_gid = 0, e_created = 0, e_modified = 0, e_changed = 0, e_linkIdentity = None, e_linkCount = 1,
     e_revision = 1, e_version = 1, e_digest = None, e_digest_revision = 0\<rparr>"

definition example_tables :: "EntryRow list \<Rightarrow> Tables" where
  "example_tables es = \<lparr>entries = es, chunks = [], tombstones = [], path_changes = [], objects = [],
     garbage = [], uploads = [], usage_bytes = 0, usage_entries = int (length es), next_ino = length es + 1\<rparr>"

definition circle_tables :: Tables where
  "circle_tables = example_tables
     [example_entry 1 [] Directory, example_entry 2 [js ''a''] (Symlink (path_of [js ''a''])) ]"

lemma path_a_not_root: "path_of [js ''a''] \<noteq> [SLASH]" "[SLASH] \<noteq> path_of [js ''a'']"
  by (simp_all add: path_of_def)

theorem shortcut_is_resolution_witness:
  "resolveEntry (example_tables [example_entry 1 [] Directory]) (path_of [js ''a'']) True =
     Inr \<lparr>r_path = path_of [js ''a''], r_row = None, r_followed = [], r_hops = 0\<rparr>"
  using shortcut_is_resolution [of "example_tables [example_entry 1 [] Directory]" "path_of [js ''a'']" True]
    canonical_no_dots [OF example_paths(1)] path_a_not_root
  by (simp add: links_def example_tables_def example_entry_def is_symlink_def find_entry_def)

theorem resolution_always_ends_witness:
  "\<exists>x. resolve_entry resolve_fuel circle_tables [SLASH] [SLASH] True [] 0 = Some x"
  using resolution_always_ends [of "[SLASH]" circle_tables True] canonical_root
  by (auto simp: canonical_def simp del: canonical_root resolve_entry.simps)

theorem circle_of_links_is_ELOOP_witness:
  "resolveEntry circle_tables (path_of [js ''a'']) True = Throw_at ELOOP (path_of [js ''a''])"
proof (rule circle_of_links_is_ELOOP [of "{path_of [js ''a'']}"])
  have dest: "normalizeResolutionPath (path_of [js ''a'']) cwd = Inr (path_of [js ''a''])" for cwd
    using example_paths(1) canonical_no_dots [OF example_paths(1)]
    by (simp add: normalizeResolutionPath_def absolute_path_def) (simp add: path_of_def)
  have "\<not> pathRequiresDirectory (path_of [js ''a''])"
    by (simp add: pathRequiresDirectory_def path_of_def ends_with_char_Cons SLASH_def)
  then have "link_to circle_tables (path_of [js ''a'']) (path_of [js ''a''])"
    using path_a_not_root
    by (simp add: link_to_def circle_tables_def example_tables_def example_entry_def find_entry_def
        is_symlink_def linkDestination_def dest [simplified])
  then show "\<forall>p \<in> {path_of [js ''a'']}. \<not> hasDotSegments p \<and> (\<exists>q \<in> {path_of [js ''a'']}. link_to circle_tables p q)"
    using canonical_no_dots [OF example_paths(1)] by simp
qed simp

end
