(* ===== verification/Vfs_Mutation.thy ===== *)
theory Vfs_Mutation
  imports Vfs_Path
begin

text \<open>
  Usage and capacity, subtree bookkeeping (\<open>src/vfs/sql-mutation-base.ts\<close>), and the
  creation of entries and their parents (\<open>src/vfs/sql-content-base.ts\<close>).
\<close>

section \<open>Usage\<close>

definition writeUsage :: "int \<Rightarrow> int \<Rightarrow> unit op" where
  "writeUsage inlineDelta entryDelta =
     modify_op (\<lambda>s. s\<lparr>tables := (tables s)\<lparr>usage_bytes := usage_bytes (tables s) + inlineDelta,
       usage_entries := usage_entries (tables s) + entryDelta,
       next_ino := max (next_ino (tables s)) (nextIno s)\<rparr>\<rparr>)"

text \<open>\<open>withDeferredUsage\<close>; the \<open>finally\<close> clears the deferral in both outcomes.\<close>

definition withDeferredUsage :: "'a op \<Rightarrow> 'a op" where
  "withDeferredUsage body s =
     (if deferredUsage s \<noteq> None then body s
      else
        let (r, s') = bind_op body (\<lambda>x.
              bind_op (gets_op deferredUsage) (\<lambda>delta.
              case delta of
                Some (inlineBytes, n, changed) \<Rightarrow>
                  bind_op (when_op changed (writeUsage inlineBytes n)) (\<lambda>_. return_op x)
              | None \<Rightarrow> return_op x))
              (s\<lparr>deferredUsage := Some (0, 0, False)\<rparr>) in
        (r, s'\<lparr>deferredUsage := None\<rparr>))"

definition usage :: "(int \<times> int) op" where
  "usage s =
     (case transactionUsage s of
        Some u \<Rightarrow> (Inr u, s)
      | None \<Rightarrow>
          let u = (usage_bytes (tables s), usage_entries (tables s)) in
          (Inr u, if transactionDepth s > 0 then s\<lparr>transactionUsage := Some u\<rparr> else s))"

definition allocateIno :: "nat \<Rightarrow> nat op" where
  "allocateIno count s = (Inr (nextIno s), s\<lparr>nextIno := nextIno s + count\<rparr>)"

definition updateUsage :: "Config \<Rightarrow> int \<Rightarrow> int \<Rightarrow> unit op" where
  "updateUsage cfg inlineDelta entryDelta =
     (if inlineDelta = 0 \<and> entryDelta = 0 then
        when_op (observed cfg)
          (bind_op (gets_op transactionUsage) (\<lambda>cached.
           bind_op (case cached of Some u \<Rightarrow> return_op u | None \<Rightarrow> usage) (\<lambda>u.
           modify_op (\<lambda>s. s\<lparr>pendingUsage := Some u\<rparr>))))
      else
        bind_op (gets_op deferredUsage) (\<lambda>delta.
        bind_op (case delta of
            None \<Rightarrow> writeUsage inlineDelta entryDelta
          | Some (bytes, n, _) \<Rightarrow>
              modify_op (\<lambda>s. s\<lparr>deferredUsage := Some (bytes + inlineDelta, n + entryDelta, True)\<rparr>)) (\<lambda>_.
        bind_op (modify_op (\<lambda>s. s\<lparr>transactionUsage :=
            map_option (\<lambda>(bytes, n). (bytes + inlineDelta, n + entryDelta)) (transactionUsage s)\<rparr>)) (\<lambda>_.
        when_op (observed cfg)
          (bind_op usage (\<lambda>u. modify_op (\<lambda>s. s\<lparr>pendingUsage := Some u\<rparr>)))))))"

definition emit_op :: "Config \<Rightarrow> vfs_event \<Rightarrow> unit op" where
  "emit_op cfg event = when_op (observed cfg) (modify_op (\<lambda>s. s\<lparr>emitted := emitted s @ [event]\<rparr>))"

definition quotaExceeded :: "Config \<Rightarrow> quota_limit \<Rightarrow> jstring option \<Rightarrow> 'a op" where
  "quotaExceeded cfg limit path =
     bind_op (emit_op cfg (Quota limit)) (\<lambda>_. throw_op (VfsError ENOSPC path))"

definition assertDatabaseHeadroom :: "Config \<Rightarrow> jstring option \<Rightarrow> unit op" where
  "assertDatabaseHeadroom cfg path =
     bind_op (gets_op (\<lambda>s. databaseSize cfg (tables s))) (\<lambda>size.
     if size + minDatabaseHeadroomBytes cfg > maxDatabaseBytes cfg
     then quotaExceeded cfg databaseHeadroomLimit path else return_op ())"

definition assertCapacityFrom :: "Config \<Rightarrow> int \<times> int \<Rightarrow> int \<Rightarrow> int \<Rightarrow> jstring option \<Rightarrow> unit op" where
  "assertCapacityFrom cfg u inlineDelta entryDelta path =
     (if inlineDelta > 0 \<and> fst u + inlineDelta > int (maxInlineLogicalBytes cfg)
      then quotaExceeded cfg maxInlineLogicalBytesLimit path
      else if entryDelta > 0 \<and> snd u + entryDelta > int (maxEntries cfg)
      then quotaExceeded cfg maxEntriesLimit path
      else assertDatabaseHeadroom cfg path)"

definition assertCapacity :: "Config \<Rightarrow> int \<Rightarrow> int \<Rightarrow> jstring option \<Rightarrow> unit op" where
  "assertCapacity cfg inlineDelta entryDelta path =
     (if inlineDelta \<le> 0 \<and> entryDelta \<le> 0 then
        bind_op (when_op (observed cfg) (bind_op usage (\<lambda>_. return_op ()))) (\<lambda>_.
        assertDatabaseHeadroom cfg path)
      else bind_op usage (\<lambda>u. assertCapacityFrom cfg u inlineDelta entryDelta path))"

section \<open>Subtrees\<close>

record SubtreeSummary =
  sum_entries :: nat
  sum_inlineBytes :: nat
  sum_logicalFileBytes :: nat

definition selected :: "jstring \<Rightarrow> jstring \<times> jstring \<Rightarrow> bool \<Rightarrow> jstring \<Rightarrow> bool" where
  "selected path bounds single p = (if single then p = path else in_tree path bounds p)"

definition summarize :: "EntryRow list \<Rightarrow> SubtreeSummary" where
  "summarize rows =
     \<lparr>sum_entries = length rows,
      sum_inlineBytes = sum_list (map (\<lambda>e. if is_inline e then e_size e else 0) rows),
      sum_logicalFileBytes = sum_list (map (\<lambda>e. if is_file e then e_size e else 0) rows)\<rparr>"

definition aggregateSubtree :: "jstring \<Rightarrow> bool \<Rightarrow> SubtreeSummary op" where
  "aggregateSubtree path single =
     bind_op (descendantRange_op path) (\<lambda>bounds.
     gets_op (\<lambda>s. summarize (filter (\<lambda>e. selected path bounds single (e_path e)) (entries (tables s)))))"

definition upsert_tombstone :: "jstring \<Rightarrow> nat \<Rightarrow> (jstring \<times> nat) list \<Rightarrow> (jstring \<times> nat) list" where
  "upsert_tombstone path v = upsert path v (max v)"

definition recordSubtreeChange :: "Config \<Rightarrow> jstring \<Rightarrow> bool \<Rightarrow> nat \<Rightarrow> bool \<Rightarrow> unit op" where
  "recordSubtreeChange cfg path present changeSeq single =
     (if \<not> recordChanges cfg then return_op ()
      else if single then recordPathChange cfg path present (Some changeSeq)
      else bind_op (descendantRange_op path) (\<lambda>bounds.
        exec_op (\<lambda>t. t\<lparr>path_changes :=
          fold (\<lambda>e. upsert (e_path e) (changeSeq, present) (\<lambda>_. (changeSeq, present)))
            (filter (\<lambda>e. in_tree path bounds (e_path e)) (entries t)) (path_changes t)\<rparr>)))"

text \<open>The default of \<open>changeSeq\<close> is a fresh sequence number, drawn before the statement.\<close>

definition publishSubtreeRemoval :: "Config \<Rightarrow> jstring \<Rightarrow> nat option \<Rightarrow> bool \<Rightarrow> unit op" where
  "publishSubtreeRemoval cfg path changeSeq single =
     bind_op (case changeSeq of Some seq \<Rightarrow> return_op seq | None \<Rightarrow> nextChangeSeq cfg) (\<lambda>seq.
     bind_op (descendantRange_op path) (\<lambda>bounds.
     bind_op (exec_op (\<lambda>t. t\<lparr>tombstones :=
         fold (\<lambda>e. upsert_tombstone (e_path e) (e_version e + 1))
           (filter (\<lambda>e. selected path bounds single (e_path e)) (entries t)) (tombstones t)\<rparr>)) (\<lambda>_.
     recordSubtreeChange cfg path False seq single)))"

definition clearSubtreeTombstones :: "jstring \<Rightarrow> unit op" where
  "clearSubtreeTombstones path =
     bind_op (descendantRange_op path) (\<lambda>bounds.
     exec_op (\<lambda>t. t\<lparr>tombstones :=
       filter (\<lambda>(p, _). \<not> (in_tree path bounds p \<and> find_entry p t \<noteq> None)) (tombstones t)\<rparr>))"

section \<open>Creating entries\<close>

definition DIRECTORY_MODE :: mode where "DIRECTORY_MODE = 0x41ed"
definition FILE_MODE :: mode where "FILE_MODE = 0x81a4"
definition SYMLINK_MODE :: mode where "SYMLINK_MODE = 0xa1ff"

text \<open>
  \<open>INSERT INTO vfs_entries\<close>: the unique index on the path, and the trigger that
  an opaque entry needs its object, raise an error of SQLite's own.
\<close>

definition insert_entry :: "EntryRow \<Rightarrow> unit op" where
  "insert_entry row s =
     (if find_entry (e_path row) (tables s) \<noteq> None \<or> (\<exists>e \<in> set (entries (tables s)). e_id e = e_id row) \<or>
         (case e_kind row of Opaque i \<Rightarrow> \<not> (\<exists>ob \<in> set (objects (tables s)). o_id ob = i) | _ \<Rightarrow> False)
      then (Inl SqlError, s)
      else (Inr (), s\<lparr>tables := (tables s)\<lparr>entries := entries (tables s) @ [row]\<rparr>\<rparr>))"

definition createDirectory ::
  "Config \<Rightarrow> jstring \<Rightarrow> nat \<Rightarrow> mode \<Rightarrow> PosixAccessContext option \<Rightarrow> bool \<Rightarrow> EntryRow option \<Rightarrow> EntryRow op" where
  "createDirectory cfg path now mode' access intermediate knownParent =
     bind_op (lift_op (dirname path)) (\<lambda>parentPath.
     bind_op (lift_op (basename path)) (\<lambda>name'.
     bind_op (if access = None then return_op None
              else bind_op (case knownParent of Some p \<Rightarrow> return_op p | None \<Rightarrow> requireDirectory parentPath None)
                     (\<lambda>p. return_op (Some p))) (\<lambda>parent.
     bind_op (case parent of None \<Rightarrow> return_op ()
              | Some p \<Rightarrow> assertPermission p access (WRITE_PERMISSION OR EXECUTE_PERMISSION) path) (\<lambda>_.
     let effectiveMode = (case parent of None \<Rightarrow> mode' | Some p \<Rightarrow> creationMode mode' access p True intermediate);
         owner = (case parent of None \<Rightarrow> (0, 0) | Some p \<Rightarrow> creationOwner p access) in
     bind_op (nextEntryVersion path 0) (\<lambda>mutationVersion.
     bind_op (allocateIno 1) (\<lambda>ino.
     let row = \<lparr>e_id = ino, e_path = path, e_parent = parentPath, e_name = name', e_kind = Directory,
                e_size = 0, e_mode = effectiveMode, e_uid = fst owner, e_gid = snd owner,
                e_created = now, e_modified = now, e_changed = now, e_linkIdentity = None,
                e_linkCount = 2, e_revision = 1, e_version = mutationVersion,
                e_digest = None, e_digest_revision = 0\<rparr> in
     bind_op (insert_entry row) (\<lambda>_.
     bind_op (noteDirectoryDelta parentPath 1) (\<lambda>_.
     bind_op (publishToken cfg path mutationVersion True MCreate None) (\<lambda>_.
     bind_op (updateUsage cfg 0 1) (\<lambda>_.
     return_op row))))))))))"

text \<open>
  The \<open>while\<close> loop of \<open>creationParents\<close>; every round shortens the path, and the
  root ends it. It yields the row it stopped on, where that is, and what is missing.
\<close>

fun missing_parents :: "nat \<Rightarrow> jstring \<Rightarrow> jstring list \<Rightarrow> (EntryRow \<times> jstring \<times> jstring list) op" where
  "missing_parents 0 current missing = throw_op RangeError"
| "missing_parents (Suc n) current missing =
     bind_op (oneResolved current True) (\<lambda>parent.
     case parent of
       Some row \<Rightarrow> return_op (row, current, missing)
     | None \<Rightarrow>
         bind_op (lift_op (dirname current)) (\<lambda>up. missing_parents n up (current # missing)))"

definition creationParents :: "jstring \<Rightarrow> bool \<Rightarrow> (EntryRow \<times> jstring list) op" where
  "creationParents path recursive =
     bind_op (lift_op (dirname path)) (\<lambda>up.
     bind_op (missing_parents (length up + 1) up []) (\<lambda>(parent, current, missing).
     if e_path parent \<noteq> current then fail_op ENOTDIR current
     else bind_op (requireDirectory current (Some parent)) (\<lambda>existing.
       if length missing > 0 \<and> \<not> recursive then fail_op ENOENT up
       else return_op (existing, missing))))"

definition assertCreationAccess ::
  "jstring \<Rightarrow> jstring list \<Rightarrow> PosixAccessContext option \<Rightarrow> EntryRow \<Rightarrow> unit op" where
  "assertCreationAccess path followed access parent =
     (if access = None then return_op ()
      else bind_op (assertTraverse (e_path parent) followed access) (\<lambda>_.
           assertPermission parent access (WRITE_PERMISSION OR EXECUTE_PERMISSION) path))"

fun create_chain :: "Config \<Rightarrow> nat \<Rightarrow> PosixAccessContext option \<Rightarrow> jstring list \<Rightarrow> EntryRow \<Rightarrow> EntryRow op" where
  "create_chain cfg now access [] parent = return_op parent"
| "create_chain cfg now access (path # paths) parent =
     bind_op (createDirectory cfg path now DIRECTORY_MODE access True (Some parent)) (\<lambda>row.
     create_chain cfg now access paths row)"

definition createMissingParents ::
  "Config \<Rightarrow> jstring \<Rightarrow> nat \<Rightarrow> PosixAccessContext option \<Rightarrow> EntryRow \<times> jstring list \<Rightarrow> EntryRow op" where
  "createMissingParents cfg path now access parents =
     (if length (snd parents) = 0 then return_op (fst parents)
      else bind_op (assertCapacity cfg 0 (int (length (snd parents))) (Some path)) (\<lambda>_.
           create_chain cfg now access (snd parents) (fst parents)))"

definition prepareParents ::
  "Config \<Rightarrow> jstring \<Rightarrow> bool \<Rightarrow> nat \<Rightarrow> jstring list \<Rightarrow> PosixAccessContext option \<Rightarrow> EntryRow op" where
  "prepareParents cfg path recursive now followed access =
     bind_op (creationParents path recursive) (\<lambda>parents.
     bind_op (assertCreationAccess path followed access (fst parents)) (\<lambda>_.
     createMissingParents cfg path now access parents))"

definition assertWriteAccess ::
  "jstring \<Rightarrow> EntryRow option \<Rightarrow> bool \<Rightarrow> jstring list \<Rightarrow> PosixAccessContext option \<Rightarrow> unit op" where
  "assertWriteAccess path entry recursive followed access =
     (case entry of
        None \<Rightarrow>
          if access = None then return_op ()
          else bind_op (creationParents path recursive) (\<lambda>parents.
               assertCreationAccess path followed access (fst parents))
      | Some e \<Rightarrow>
          bind_op (assertTraverse path followed access) (\<lambda>_.
          assertPermission e access WRITE_PERMISSION path))"

definition assertDestinationReplaceable :: "EntryRow option \<Rightarrow> jstring \<Rightarrow> bool \<Rightarrow> unit op" where
  "assertDestinationReplaceable destination target replace =
     (case destination of
        None \<Rightarrow> return_op ()
      | Some e \<Rightarrow>
          if \<not> replace then fail_op EEXIST target
          else if \<not> is_directory e then return_op ()
          else bind_op (gets_op (\<lambda>s. \<exists>child \<in> set (entries (tables s)). e_parent child = target)) (\<lambda>occupied.
            require_op (\<not> occupied) ENOTEMPTY target))"

section \<open>Chunks\<close>

definition find_chunk :: "nat \<Rightarrow> nat \<Rightarrow> Tables \<Rightarrow> ChunkRow option" where
  "find_chunk i n t = find (\<lambda>c. c_entry c = i \<and> c_index c = n) (chunks t)"

fun insort_chunk :: "ChunkRow \<Rightarrow> ChunkRow list \<Rightarrow> ChunkRow list" where
  "insort_chunk c [] = [c]"
| "insort_chunk c (d # ds) = (if c_index c \<le> c_index d then c # d # ds else d # insort_chunk c ds)"

text \<open>\<open>SELECT body FROM vfs_inline_chunks WHERE entry_id = ? ORDER BY chunk_index\<close>\<close>

definition stored_chunks :: "nat \<Rightarrow> Tables \<Rightarrow> ChunkRow list" where
  "stored_chunks i t = foldr insort_chunk (filter (\<lambda>c. c_entry c = i) (chunks t)) []"

definition stored_body :: "nat \<Rightarrow> Tables \<Rightarrow> byte list" where
  "stored_body i t = concat (map c_body (stored_chunks i t))"

definition put_chunk :: "nat \<Rightarrow> nat \<Rightarrow> byte list \<Rightarrow> ChunkRow list \<Rightarrow> ChunkRow list" where
  "put_chunk i n body cs =
     (if \<exists>c \<in> set cs. c_entry c = i \<and> c_index c = n
      then map (\<lambda>c. if c_entry c = i \<and> c_index c = n then c\<lparr>c_body := body\<rparr> else c) cs
      else cs @ [\<lparr>c_entry = i, c_index = n, c_body = body\<rparr>])"

text \<open>
  \<open>writeChunks\<close>: one statement for every 33 rows, which is one upsert for every
  chunk; the trigger refuses a chunk of anything but an inline entry.
\<close>

definition writeChunks :: "nat \<Rightarrow> nat \<Rightarrow> byte list list \<Rightarrow> bool \<Rightarrow> unit op" where
  "writeChunks entryId firstIndex bodies updateSingle =
     (if updateSingle \<and> length bodies = 1 then
        bind_op (gets_op (\<lambda>s. find_chunk entryId firstIndex (tables s))) (\<lambda>found.
        if found = None then throw_op (VfsError EIO None)
        else exec_op (\<lambda>t. t\<lparr>chunks := put_chunk entryId firstIndex (bodies ! 0) (chunks t)\<rparr>))
      else if length bodies = 0 then return_op ()
      else
        bind_op (gets_op (\<lambda>s. \<exists>e \<in> set (entries (tables s)). e_id e = entryId \<and> is_inline e)) (\<lambda>guarded.
        if \<not> guarded then throw_op SqlError
        else exec_op (\<lambda>t. t\<lparr>chunks :=
          fold (\<lambda>(n, body). put_chunk entryId n body) (enumerate firstIndex bodies) (chunks t)\<rparr>)))"

text \<open>\<open>StoredBodyCursor\<close>: the stored body is compared with the new slabs as one run of bytes.\<close>

fun match_chunk :: "byte list \<Rightarrow> byte list list \<Rightarrow> byte list \<Rightarrow> (byte list \<times> byte list list) option" where
  "match_chunk body rows [] = Some (body, rows)"
| "match_chunk [] [] (b # chunk) = None"
| "match_chunk [] (row # rows) (b # chunk) = match_chunk row rows (b # chunk)"
| "match_chunk (c # body) rows (b # chunk) = (if c \<noteq> b then None else match_chunk body rows chunk)"

fun match_chunks :: "byte list \<Rightarrow> byte list list \<Rightarrow> byte list list \<Rightarrow> bool" where
  "match_chunks body rows [] = True"
| "match_chunks body rows (chunk # cs) =
     (case match_chunk body rows chunk of None \<Rightarrow> False
      | Some (body', rows') \<Rightarrow> match_chunks body' rows' cs)"

definition inlineBodyMatches :: "nat \<Rightarrow> byte list list \<Rightarrow> Tables \<Rightarrow> bool" where
  "inlineBodyMatches entryId bodies t = match_chunks [] (map c_body (stored_chunks entryId t)) bodies"

definition storedDigest :: "nat \<Rightarrow> Tables \<Rightarrow> jstring option" where
  "storedDigest entryId t =
     Option.bind (find (\<lambda>e. e_id e = entryId) (entries t)) (\<lambda>e.
       if e_digest e \<noteq> None \<and> e_digest_revision e = e_revision e then e_digest e else None)"

definition update_entry :: "nat \<Rightarrow> (EntryRow \<Rightarrow> EntryRow) \<Rightarrow> Tables \<Rightarrow> Tables" where
  "update_entry i f t = t\<lparr>entries := map (\<lambda>e. if e_id e = i then f e else e) (entries t)\<rparr>"

definition bodyIsUnchanged :: "nat \<Rightarrow> nat \<Rightarrow> byte list list \<Rightarrow> jstring option \<Rightarrow> bool op" where
  "bodyIsUnchanged entryId revision bodies digest =
     bind_op (gets_op (\<lambda>s. if digest = None then None else storedDigest entryId (tables s))) (\<lambda>stored.
     if stored \<noteq> None then return_op (stored = digest)
     else
       bind_op (gets_op (\<lambda>s. inlineBodyMatches entryId bodies (tables s))) (\<lambda>matches.
       if \<not> matches then return_op False
       else bind_op (when_op (digest \<noteq> None)
              (exec_op (update_entry entryId (\<lambda>e. e\<lparr>e_digest := digest, e_digest_revision := revision\<rparr>)))) (\<lambda>_.
            return_op True)))"

end
