(* ===== verification/Vfs_Write.thy ===== *)
theory Vfs_Write
  imports Vfs_Mutation
begin

text \<open>
  Writing and appending inline files (\<open>src/vfs/sql-write-plan-base.ts\<close>,
  \<open>src/vfs/sql-write-base.ts\<close>). A write is planned against the tables, its body is
  collected under the in-flight budget, and a transaction publishes it. A string is
  collected without giving up control; for a streamed body other operations run between
  the plan and the commit, so \<open>writeFile_plan\<close> and \<open>writeFile_commit\<close> are operations
  of their own.
\<close>

section \<open>Objects and garbage\<close>

definition find_object :: "nat \<Rightarrow> Tables \<Rightarrow> OpaqueObjectRow option" where
  "find_object i t = find (\<lambda>ob. o_id ob = i) (objects t)"

definition opaqueObject :: "nat \<Rightarrow> OpaqueObjectRow option op" where
  "opaqueObject i = gets_op (\<lambda>s. find_object i (tables s))"

definition find_upload :: "jstring \<Rightarrow> Tables \<Rightarrow> UploadRow option" where
  "find_upload i t = find (\<lambda>u. u_id u = i) (uploads t)"

fun put_garbage :: "jstring \<Rightarrow> nat \<Rightarrow> GarbageRow list \<Rightarrow> GarbageRow list" where
  "put_garbage key notBefore [] =
     [\<lparr>g_key = key, g_notBefore = notBefore, g_attempts = 0, g_nextAttempt = notBefore, g_lastError = None\<rparr>]"
| "put_garbage key notBefore (g # gs) =
     (if g_key g = key
      then g\<lparr>g_notBefore := max (g_notBefore g) notBefore, g_nextAttempt := max (g_nextAttempt g) notBefore\<rparr> # gs
      else g # put_garbage key notBefore gs)"

definition queueGarbage :: "jstring \<Rightarrow> nat \<Rightarrow> unit op" where
  "queueGarbage key notBefore = exec_op (\<lambda>t. t\<lparr>garbage := put_garbage key notBefore (garbage t)\<rparr>)"

definition queueUploadGarbage :: "Config \<Rightarrow> UploadRow \<Rightarrow> nat \<Rightarrow> unit op" where
  "queueUploadGarbage cfg session now =
     queueGarbage (u_objectKey session) (max now (u_expires session + uploadSettlementGraceMs cfg))"

definition references :: "nat \<Rightarrow> EntryRow \<Rightarrow> bool" where
  "references i e \<longleftrightarrow> (case e_kind e of Opaque j \<Rightarrow> i = j | _ \<Rightarrow> False)"

definition queueObjectIfUnreferenced :: "nat \<Rightarrow> nat \<Rightarrow> bool op" where
  "queueObjectIfUnreferenced i now =
     bind_op (gets_op (\<lambda>s. if \<exists>e \<in> set (entries (tables s)). references i e then None
                           else find_object i (tables s))) (\<lambda>found.
     case found of None \<Rightarrow> return_op False
     | Some ob \<Rightarrow>
         bind_op (exec_op (\<lambda>t. t\<lparr>objects := filter (\<lambda>o'. o_id o' \<noteq> i) (objects t)\<rparr>)) (\<lambda>_.
         bind_op (queueGarbage (o_key ob) (max now (o_retainUntil ob))) (\<lambda>_.
         return_op True)))"

text \<open>
  \<open>removeExact\<close>, for an entry that is not hard-linked and not held open: the triggers
  and the retained inodes of \<open>src/fs/hard-links.ts\<close> are not modelled. The chunks go
  first, as the trigger on deleting an inline entry wants.
\<close>

definition removeExact :: "Config \<Rightarrow> jstring \<Rightarrow> nat \<Rightarrow> bool \<Rightarrow> EntryRow option \<Rightarrow> bool op" where
  "removeExact cfg path now advanceVersion resolved =
     bind_op (case resolved of Some e \<Rightarrow> return_op (Some e) | None \<Rightarrow> oneEntry path) (\<lambda>found.
     case found of None \<Rightarrow> return_op False
     | Some entry \<Rightarrow>
         bind_op (when_op (is_directory entry) (noteDirectoryDelta (e_parent entry) (-1))) (\<lambda>_.
         bind_op (when_op (is_inline entry)
           (exec_op (\<lambda>t. t\<lparr>chunks := filter (\<lambda>c. c_entry c \<noteq> e_id entry) (chunks t)\<rparr>))) (\<lambda>_.
         bind_op (exec_op (\<lambda>t. t\<lparr>entries := filter (\<lambda>e. e_id e \<noteq> e_id entry) (entries t)\<rparr>)) (\<lambda>_.
         bind_op (exec_op (\<lambda>t. t\<lparr>tombstones :=
             upsert_tombstone path (e_version entry + (if advanceVersion then 1 else 0)) (tombstones t)\<rparr>)) (\<lambda>_.
         bind_op (updateUsage cfg (if is_inline entry then - int (e_size entry) else 0) (-1)) (\<lambda>_.
         case e_kind entry of
           Opaque i \<Rightarrow> queueObjectIfUnreferenced i now
         | _ \<Rightarrow> return_op False))))))"

text \<open>
  \<open>scheduleGarbageAlarm\<close>: the earliest deadline, and never later than the alarm that
  is set. The garbage queue counts only where an opaque store is configured.
\<close>

definition deadlines :: "bool \<Rightarrow> Tables \<Rightarrow> nat list" where
  "deadlines collects t =
     (if collects then map (\<lambda>g. max (g_notBefore g) (g_nextAttempt g)) (garbage t) else []) @
     map u_expires (filter (\<lambda>u. u_state u = Upload_open) (uploads t)) @
     List.map_filter u_leaseUntil (filter (\<lambda>u. u_state u = Upload_verifying) (uploads t)) @
     map u_expires (filter (\<lambda>u. u_state u = Upload_committed) (uploads t))"

definition scheduleGarbageAlarm :: "Config \<Rightarrow> unit op" where
  "scheduleGarbageAlarm cfg =
     modify_op (\<lambda>s.
       case deadlines (hasOpaqueStore cfg) (tables s) of
         [] \<Rightarrow> s
       | d # ds \<Rightarrow>
           let due = foldl min d ds in
           (case alarm s of
              None \<Rightarrow> s\<lparr>alarm := Some due\<rparr>
            | Some current \<Rightarrow> if due < current then s\<lparr>alarm := Some due\<rparr> else s))"

section \<open>Planning a write\<close>

datatype disposition = Upsert | Create_new | Replace

record WriteOptions =
  wo_createParents :: bool
  wo_disposition :: disposition
  wo_skipIfUnchanged :: bool

record WriteGuard =
  wg_ifMutationToken :: "jstring option"
  wg_mode :: "mode option"

record InlineWritePlan =
  p_written :: jstring
  p_path :: jstring
  p_followed :: "jstring list"
  p_createParents :: bool
  p_disposition :: disposition
  p_skipIfUnchanged :: bool
  p_mode :: "mode option"
  p_guard :: "jstring option"
  p_capturedToken :: jstring
  p_capturedEntry :: "EntryRow option"
  p_conditional :: "nat option"

record WriteResult =
  wr_path :: jstring
  wr_revision :: nat
  wr_token :: jstring
  wr_size :: nat
  wr_created :: bool

definition planInlineWrite ::
  "Config \<Rightarrow> jstring \<Rightarrow> WriteGuard \<Rightarrow> WriteOptions \<Rightarrow> PosixAccessContext option \<Rightarrow> EntryRow option \<Rightarrow>
   InlineWritePlan op" where
  "planInlineWrite cfg path entry options posix snapshot =
     bind_op (case snapshot of
         None \<Rightarrow> resolveAccess path False True
       | Some e \<Rightarrow> return_op \<lparr>a_path = e_path e, a_row = Some e, a_followed = []\<rparr>) (\<lambda>access.
     let normalized = a_path access in
     bind_op (case a_row access of
         None \<Rightarrow> pathState cfg normalized
       | Some e \<Rightarrow> return_op (Some e, mutationToken cfg e)) (\<lambda>(before, captured).
     bind_op (assertWriteAccess normalized before (wo_createParents options) (a_followed access) posix) (\<lambda>_.
     if wo_disposition options = Create_new \<and> before \<noteq> None then fail_op EEXIST normalized
     else if wo_disposition options = Replace \<and> before = None then fail_op ENOENT normalized
     else if (case before of None \<Rightarrow> False | Some e \<Rightarrow> is_directory e) then fail_op EISDIR normalized
     else
       bind_op (validateGuard cfg normalized before (wg_ifMutationToken entry) (Some path)) (\<lambda>_.
       return_op
         \<lparr>p_written = path, p_path = normalized, p_followed = a_followed access,
          p_createParents = wo_createParents options, p_disposition = wo_disposition options,
          p_skipIfUnchanged = wo_skipIfUnchanged options, p_mode = wg_mode entry,
          p_guard = wg_ifMutationToken entry, p_capturedToken = captured, p_capturedEntry = before,
          p_conditional = map_option e_version snapshot\<rparr>))))"

section \<open>Committing a write\<close>

text \<open>Returns only after all failures that an unchanged write must still expose.\<close>

definition unchangedInlineWrite ::
  "InlineWritePlan \<Rightarrow> EntryRow option \<Rightarrow> byte list list \<Rightarrow> nat \<Rightarrow> jstring option \<Rightarrow>
   (WriteResult \<times> bool) option op" where
  "unchangedInlineWrite plan current bodies sizeBytes digest =
     (case current of
        None \<Rightarrow> return_op None
      | Some e \<Rightarrow>
          if \<not> p_skipIfUnchanged plan \<or> \<not> is_inline e then return_op None
          else if e_size e \<noteq> sizeBytes then return_op None
          else if p_mode plan \<noteq> None \<and> p_mode plan \<noteq> Some (e_mode e) then return_op None
          else bind_op (bodyIsUnchanged (e_id e) (e_revision e) bodies digest) (\<lambda>unchanged.
            if \<not> unchanged then return_op None
            else return_op (Some
              (\<lparr>wr_path = p_path plan, wr_revision = e_revision e, wr_token = p_capturedToken plan,
                wr_size = sizeBytes, wr_created = False\<rparr>, False))))"

record InlineMutationPlan =
  i_owner :: "nat \<times> nat"
  i_mode :: mode
  i_inlineDelta :: int
  i_entryDelta :: int
  i_version :: nat

definition parent_of :: "EntryRow option \<Rightarrow> jstring \<Rightarrow> EntryRow op" where
  "parent_of parent path =
     (case parent of Some p \<Rightarrow> return_op p
      | None \<Rightarrow> bind_op (lift_op (dirname path)) (\<lambda>up. requireDirectory up None))"

definition inlineWriteMode ::
  "InlineWritePlan \<Rightarrow> EntryRow option \<Rightarrow> EntryRow option \<Rightarrow> PosixAccessContext option \<Rightarrow> mode op" where
  "inlineWriteMode plan current parent posix =
     (let wanted = (case p_mode plan of Some m \<Rightarrow> m | None \<Rightarrow> FILE_MODE) in
      case current of
        Some e \<Rightarrow> return_op (if posix = None then (case p_mode plan of Some m \<Rightarrow> m | None \<Rightarrow> e_mode e) else e_mode e)
      | None \<Rightarrow>
          if posix = None then return_op wanted
          else bind_op (parent_of parent (p_path plan)) (\<lambda>p. return_op (creationMode wanted posix p False False)))"

definition inlineMutationPlan ::
  "Config \<Rightarrow> InlineWritePlan \<Rightarrow> EntryRow option \<Rightarrow> EntryRow option \<Rightarrow> nat \<Rightarrow> PosixAccessContext option \<Rightarrow> bool \<Rightarrow>
   InlineMutationPlan op" where
  "inlineMutationPlan cfg plan current parent sizeBytes posix deferCapacity =
     bind_op (case current of
         Some e \<Rightarrow> return_op (e_uid e, e_gid e)
       | None \<Rightarrow>
           if posix = None then return_op (0, 0)
           else bind_op (parent_of parent (p_path plan)) (\<lambda>p. return_op (creationOwner p posix))) (\<lambda>owner.
     bind_op (inlineWriteMode plan current parent posix) (\<lambda>mode'.
     let previous = (case current of Some e \<Rightarrow> if is_inline e then e_size e else 0 | None \<Rightarrow> 0);
         inlineDelta = (int sizeBytes - int previous) * int (case current of Some e \<Rightarrow> e_linkCount e | None \<Rightarrow> 1);
         entryDelta = (if current = None then 1 else 0) in
     bind_op (when_op (\<not> deferCapacity) (assertCapacity cfg inlineDelta entryDelta (Some (p_path plan)))) (\<lambda>_.
     bind_op (case current of None \<Rightarrow> nextEntryVersion (p_path plan) 0
              | Some e \<Rightarrow> return_op (e_version e + 1)) (\<lambda>version'.
     return_op \<lparr>i_owner = owner, i_mode = mode', i_inlineDelta = inlineDelta, i_entryDelta = entryDelta,
                i_version = version'\<rparr>))))"

text \<open>\<open>SELECT MAX(chunk_index) FROM vfs_inline_chunks WHERE entry_id = ?\<close>\<close>

definition last_chunk_index :: "nat \<Rightarrow> Tables \<Rightarrow> nat option" where
  "last_chunk_index i t =
     (case map c_index (filter (\<lambda>c. c_entry c = i) (chunks t)) of [] \<Rightarrow> None | n # ns \<Rightarrow> Some (foldl max n ns))"

definition rewritten :: "nat \<Rightarrow> mode \<Rightarrow> nat \<Rightarrow> jstring option \<Rightarrow> nat \<Rightarrow> EntryRow \<Rightarrow> EntryRow" where
  "rewritten sizeBytes mode' now digest version' e =
     e\<lparr>e_kind := Inline, e_size := sizeBytes, e_mode := mode', e_modified := now, e_changed := now,
       e_revision := e_revision e + 1, e_digest := digest, e_digest_revision := e_revision e + 1,
       e_version := version'\<rparr>"

text \<open>
  The result is the id, the new revision and the last chunk index there was;
  \<open>None\<close> is the conditional update that found no row.
\<close>

definition writeInlineEntry ::
  "InlineWritePlan \<Rightarrow> EntryRow option \<Rightarrow> InlineMutationPlan \<Rightarrow> nat \<Rightarrow> jstring option \<Rightarrow> nat \<Rightarrow>
   (nat \<times> nat \<times> nat option) option op" where
  "writeInlineEntry plan current mutation sizeBytes digest now =
     (let rewrite = rewritten sizeBytes (i_mode mutation) now digest (i_version mutation) in
      case (case current of Some e \<Rightarrow> if is_inline e then Some e else None | None \<Rightarrow> None) of
        Some e \<Rightarrow>
          let expected = (case p_conditional plan of Some v \<Rightarrow> v | None \<Rightarrow> e_version e) in
          bind_op (gets_op (\<lambda>s. find (\<lambda>r. e_id r = e_id e \<and> e_version r = expected) (entries (tables s)))) (\<lambda>found.
          case found of None \<Rightarrow> return_op None
          | Some r \<Rightarrow>
              bind_op (gets_op (\<lambda>s. last_chunk_index (e_id e) (tables s))) (\<lambda>last'.
              bind_op (exec_op (update_entry (e_id e) rewrite)) (\<lambda>_.
              return_op (Some (e_id e, e_revision r + 1, last')))))
      | None \<Rightarrow>
          bind_op (case current of Some e \<Rightarrow> return_op (e_id e) | None \<Rightarrow> allocateIno 1) (\<lambda>ino.
          bind_op (oneEntry (p_path plan)) (\<lambda>existing.
          case existing of
            Some r \<Rightarrow>
              if is_symlink r then throw_op SqlError
              else bind_op (exec_op (update_entry (e_id r) rewrite)) (\<lambda>_.
                return_op (Some (e_id r, e_revision r + 1, None)))
          | None \<Rightarrow>
              bind_op (lift_op (dirname (p_path plan))) (\<lambda>up.
              bind_op (lift_op (basename (p_path plan))) (\<lambda>name'.
              bind_op (insert_entry
                \<lparr>e_id = ino, e_path = p_path plan, e_parent = up, e_name = name', e_kind = Inline,
                 e_size = sizeBytes, e_mode = i_mode mutation, e_uid = fst (i_owner mutation),
                 e_gid = snd (i_owner mutation),
                 e_created = (case current of Some e \<Rightarrow> e_created e | None \<Rightarrow> now),
                 e_modified = now, e_changed = now, e_linkIdentity = None, e_linkCount = 1,
                 e_revision = 1, e_version = i_version mutation, e_digest = digest,
                 e_digest_revision = 1\<rparr>) (\<lambda>_.
              return_op (Some (ino, 1, None))))))))"

definition finishInlineWrite ::
  "Config \<Rightarrow> InlineWritePlan \<Rightarrow> EntryRow option \<Rightarrow> InlineMutationPlan \<Rightarrow> nat \<Rightarrow> nat \<Rightarrow> byte list list \<Rightarrow> nat \<Rightarrow> nat \<Rightarrow>
   (WriteResult \<times> bool) op" where
  "finishInlineWrite cfg plan current mutation entryId revision bodies sizeBytes now =
     bind_op (publishToken cfg (p_path plan) (i_version mutation) True
                (if current = None then MCreate else MWrite)
                (Some (Option.bind current e_linkIdentity))) (\<lambda>tok.
     bind_op (writeChunks entryId 0 bodies
                (case current of None \<Rightarrow> False
                 | Some e \<Rightarrow> is_inline e \<and> e_size e > 0 \<and> e_size e \<le> chunkBytes cfg)) (\<lambda>_.
     bind_op (updateUsage cfg (i_inlineDelta mutation) (i_entryDelta mutation)) (\<lambda>_.
     bind_op (case current of
         Some e \<Rightarrow> (case e_kind e of Opaque i \<Rightarrow> queueObjectIfUnreferenced i now | _ \<Rightarrow> return_op False)
       | None \<Rightarrow> return_op False) (\<lambda>queued.
     return_op (\<lparr>wr_path = p_path plan, wr_revision = revision, wr_token = tok, wr_size = sizeBytes,
                 wr_created = (current = None)\<rparr>, queued)))))"

definition commitInlineWrite ::
  "Config \<Rightarrow> InlineWritePlan \<Rightarrow> byte list list \<Rightarrow> nat \<Rightarrow> jstring option \<Rightarrow> nat \<Rightarrow> PosixAccessContext option \<Rightarrow> bool \<Rightarrow> bool \<Rightarrow>
   (WriteResult \<times> bool) op" where
  "commitInlineWrite cfg plan bodies sizeBytes digest now posix deferCapacity revalidate =
     bind_op (if revalidate then
         bind_op (pathState cfg (p_path plan)) (\<lambda>(entry, tok).
         if tok \<noteq> p_capturedToken plan then fail_op EREVISION (p_path plan)
         else bind_op (validateGuard cfg (p_path plan) entry (p_guard plan) (Some (p_written plan))) (\<lambda>_.
           return_op entry))
       else return_op (p_capturedEntry plan)) (\<lambda>current.
     if (case current of None \<Rightarrow> False | Some e \<Rightarrow> is_directory e) then fail_op EISDIR (p_path plan)
     else
     bind_op (lift_op (dirname (p_path plan))) (\<lambda>up.
     bind_op (if current = None \<and> (posix \<noteq> None \<or> up \<noteq> [SLASH])
              then bind_op (prepareParents cfg (p_path plan) (p_createParents plan) now (p_followed plan) posix)
                     (\<lambda>p. return_op (Some p))
              else return_op None) (\<lambda>parent.
     bind_op (when_op (current \<noteq> None \<and> revalidate)
                (assertWriteAccess (p_path plan) current False (p_followed plan) posix)) (\<lambda>_.
     bind_op (unchangedInlineWrite plan current bodies sizeBytes digest) (\<lambda>unchanged.
     case unchanged of Some r \<Rightarrow> return_op r
     | None \<Rightarrow>
         bind_op (inlineMutationPlan cfg plan current parent sizeBytes posix deferCapacity) (\<lambda>mutation.
         bind_op (writeInlineEntry plan current mutation sizeBytes digest now) (\<lambda>written.
         case written of
           None \<Rightarrow>
             bind_op (planInlineWrite cfg (p_written plan)
                 \<lparr>wg_ifMutationToken = p_guard plan, wg_mode = None\<rparr>
                 \<lparr>wo_createParents = p_createParents plan, wo_disposition = p_disposition plan,
                  wo_skipIfUnchanged = p_skipIfUnchanged plan\<rparr> posix None) (\<lambda>_.
             fail_op EREVISION (p_path plan))
         | Some (entryId, revision, last') \<Rightarrow>
             bind_op (case (current, last') of
                 (Some e, Some n) \<Rightarrow>
                   when_op (is_inline e \<and> n \<ge> length bodies)
                     (exec_op (\<lambda>t. t\<lparr>chunks := filter (\<lambda>c. \<not> (c_entry c = e_id e \<and> c_index c \<ge> length bodies))
                        (chunks t)\<rparr>))
               | _ \<Rightarrow> return_op ()) (\<lambda>_.
             finishInlineWrite cfg plan current mutation entryId revision bodies sizeBytes now))))))))"

section \<open>Collecting bodies\<close>

text \<open>
  A refused collection announces the limit: \<open>EFBIG\<close> the size of a file, and otherwise
  (\<open>ENOSPC\<close> or \<open>EAGAIN\<close>, raised by the budget itself) the in-flight bytes.
\<close>

definition collection_limit :: "js_error \<Rightarrow> quota_limit option" where
  "collection_limit e =
     (case e of
        VfsError EFBIG _ \<Rightarrow> Some maxInlineFileBytesLimit
      | VfsError ENOSPC _ \<Rightarrow> Some maxInFlightBufferedBytesLimit
      | VfsError EAGAIN _ \<Rightarrow> Some maxInFlightBufferedBytesLimit
      | _ \<Rightarrow> None)"

definition collecting_op ::
  "Config \<Rightarrow> (InFlightByteBudget \<Rightarrow> BufferedChunksLease result \<times> InFlightByteBudget) \<Rightarrow> BufferedChunksLease op" where
  "collecting_op cfg collect s =
     (case collect (inFlight s) of
        (Inr lease, b) \<Rightarrow> (Inr lease, s\<lparr>inFlight := b\<rparr>)
      | (Inl e, b) \<Rightarrow>
          (Inl e, s\<lparr>inFlight := b,
             emitted := (if observed cfg then emitted s @ (case collection_limit e of None \<Rightarrow> [] | Some l \<Rightarrow> [Quota l])
                         else emitted s)\<rparr>))"

definition collectInline :: "Config \<Rightarrow> ByteBody \<Rightarrow> nat \<Rightarrow> BufferedChunksLease op" where
  "collectInline cfg body held =
     collecting_op cfg (collectInlineBytes body (maxInlineFileBytes cfg) (chunkBytes cfg) held)"

definition collectInlineSync :: "Config \<Rightarrow> jstring \<Rightarrow> nat \<Rightarrow> BufferedChunksLease op" where
  "collectInlineSync cfg body held =
     collecting_op cfg (collectInlineBytesSync body (maxInlineFileBytes cfg) (chunkBytes cfg) held)"

definition release_op :: "nat \<Rightarrow> Vfs \<Rightarrow> Vfs" where
  "release_op n s = s\<lparr>inFlight := release n (inFlight s)\<rparr>"

text \<open>\<open>useBuffered\<close> and \<open>useBufferedSet\<close>: the leases are released in either outcome.\<close>

definition useBuffered :: "BufferedChunksLease list \<Rightarrow> 'a op \<Rightarrow> 'a op" where
  "useBuffered leases body s =
     (let (r, s') = body s in (r, foldl (\<lambda>s l. release_op (l_accounted l) s) s' leases))"

definition incomingDigest :: "Config \<Rightarrow> WriteOptions \<Rightarrow> BufferedChunksLease \<Rightarrow> jstring option" where
  "incomingDigest cfg options lease =
     (if wo_skipIfUnchanged options then Some (sha256Hex cfg (concat (l_chunks lease))) else None)"

section \<open>Writing a file\<close>

definition writeFile_commit ::
  "Config \<Rightarrow> InlineWritePlan \<Rightarrow> BufferedChunksLease \<Rightarrow> jstring option \<Rightarrow> PosixAccessContext option \<Rightarrow> bool \<Rightarrow>
   WriteResult op" where
  "writeFile_commit cfg plan lease digest posix revalidate =
     bind_op (useBuffered [lease] (transaction cfg
       (bind_op (gets_op clock) (\<lambda>now.
        commitInlineWrite cfg plan (l_chunks lease) (l_size lease) digest now posix False revalidate)))) (\<lambda>(result, queued).
     bind_op (when_op queued (scheduleGarbageAlarm cfg)) (\<lambda>_. return_op result))"

text \<open>The entry of the last direct read, when the guard was taken from it.\<close>

definition read_snapshot ::
  "Config \<Rightarrow> jstring \<Rightarrow> WriteGuard \<Rightarrow> WriteOptions \<Rightarrow> PosixAccessContext option \<Rightarrow> EntryRow option op" where
  "read_snapshot cfg path guard options posix =
     bind_op (gets_op lastInlineRead) (\<lambda>last'.
     case last' of
       Some e \<Rightarrow>
         if posix = None \<and> wo_disposition options \<noteq> Create_new \<and> \<not> pathRequiresDirectory path \<and>
            wg_ifMutationToken guard = Some (mutationToken cfg e)
         then bind_op (lift_op (normalizeRoot path)) (\<lambda>normalized.
           return_op (if normalized = e_path e then Some e else None))
         else return_op None
     | None \<Rightarrow> return_op None)"

text \<open>
  \<open>writeFile\<close> of a string that is not compared with what is stored: nothing runs between
  the plan and the commit, so the commit does not look again.
\<close>

definition writeFile_text ::
  "Config \<Rightarrow> jstring \<Rightarrow> jstring \<Rightarrow> WriteGuard \<Rightarrow> WriteOptions \<Rightarrow> PosixAccessContext option \<Rightarrow> WriteResult op" where
  "writeFile_text cfg path body guard options posix =
     bind_op (read_snapshot cfg path guard options posix) (\<lambda>snapshot.
     bind_op (planInlineWrite cfg path guard options posix snapshot) (\<lambda>plan.
     bind_op (collectInlineSync cfg body 0) (\<lambda>lease.
     writeFile_commit cfg plan lease None posix False)))"

text \<open>The general form, as the operations before and after the body has streamed.\<close>

definition writeFile_plan ::
  "Config \<Rightarrow> jstring \<Rightarrow> WriteGuard \<Rightarrow> WriteOptions \<Rightarrow> PosixAccessContext option \<Rightarrow> InlineWritePlan op" where
  "writeFile_plan cfg path guard options posix = planInlineWrite cfg path guard options posix None"

definition writeFile_streamed ::
  "Config \<Rightarrow> InlineWritePlan \<Rightarrow> BufferedChunksLease \<Rightarrow> WriteOptions \<Rightarrow> PosixAccessContext option \<Rightarrow> WriteResult op" where
  "writeFile_streamed cfg plan lease options posix =
     writeFile_commit cfg plan lease (incomingDigest cfg options lease) posix True"

section \<open>Writing several files\<close>

record WriteFilesEntry =
  we_path :: jstring
  we_body :: ByteBody
  we_guard :: WriteGuard

fun plan_all ::
  "Config \<Rightarrow> WriteOptions \<Rightarrow> PosixAccessContext option \<Rightarrow> WriteFilesEntry list \<Rightarrow> jstring list \<Rightarrow> InlineWritePlan list op" where
  "plan_all cfg options posix [] claimed = return_op []"
| "plan_all cfg options posix (entry # rest) claimed =
     bind_op (planInlineWrite cfg (we_path entry) (we_guard entry) options posix None) (\<lambda>plan.
     if p_path plan \<in> set claimed then fail_op EINVAL (p_path plan)
     else bind_op (plan_all cfg options posix rest (p_path plan # claimed)) (\<lambda>plans.
       return_op (plan # plans)))"

text \<open>A failed collection releases the leases that were taken before it.\<close>

fun collect_all ::
  "Config \<Rightarrow> WriteFilesEntry list \<Rightarrow> nat \<Rightarrow> BufferedChunksLease list \<Rightarrow> BufferedChunksLease list op" where
  "collect_all cfg [] held leases s = (Inr leases, s)"
| "collect_all cfg (entry # rest) held leases s =
     (case (case we_body entry of
              Text t \<Rightarrow> collectInlineSync cfg t held s
            | body \<Rightarrow> collectInline cfg body held s) of
        (Inl e, s') \<Rightarrow> (Inl e, foldl (\<lambda>s l. release_op (l_accounted l) s) s' leases)
      | (Inr lease, s') \<Rightarrow> collect_all cfg rest (held + l_size lease) (leases @ [lease]) s')"

fun commit_each ::
  "Config \<Rightarrow> (InlineWritePlan \<times> BufferedChunksLease \<times> jstring option) list \<Rightarrow> nat \<Rightarrow> PosixAccessContext option \<Rightarrow>
   (WriteResult list \<times> bool) op" where
  "commit_each cfg [] now posix = return_op ([], False)"
| "commit_each cfg ((plan, lease, digest) # rest) now posix =
     bind_op (commitInlineWrite cfg plan (l_chunks lease) (l_size lease) digest now posix True True) (\<lambda>(result, queued).
     bind_op (commit_each cfg rest now posix) (\<lambda>(results, queued').
     return_op (result # results, queued \<or> queued')))"

definition commitInlineWriteSet ::
  "Config \<Rightarrow> (InlineWritePlan \<times> BufferedChunksLease \<times> jstring option) list \<Rightarrow> PosixAccessContext option \<Rightarrow>
   (WriteResult list \<times> bool) op" where
  "commitInlineWriteSet cfg collected posix =
     useBuffered (map (\<lambda>(_, lease, _). lease) collected) (transaction cfg (withDeferredUsage
       (bind_op usage (\<lambda>before.
        bind_op (assertCapacityFrom cfg before 0 0 None) (\<lambda>_.
        bind_op (gets_op clock) (\<lambda>now.
        bind_op (commit_each cfg collected now posix) (\<lambda>written.
        bind_op usage (\<lambda>after.
        bind_op (assertCapacityFrom cfg before (fst after - fst before) (snd after - snd before) None) (\<lambda>_.
        return_op written)))))))))"

definition writeFiles ::
  "Config \<Rightarrow> WriteFilesEntry list \<Rightarrow> WriteOptions \<Rightarrow> PosixAccessContext option \<Rightarrow> WriteResult list op" where
  "writeFiles cfg files options posix =
     (if length files = 0 then return_op []
      else
        bind_op (plan_all cfg options posix files []) (\<lambda>plans.
        bind_op (collect_all cfg files 0 []) (\<lambda>leases.
        bind_op (commitInlineWriteSet cfg
          (map (\<lambda>(plan, lease). (plan, lease, incomingDigest cfg options lease)) (zip plans leases)) posix)
          (\<lambda>(results, queued).
        bind_op (when_op queued (scheduleGarbageAlarm cfg)) (\<lambda>_. return_op results)))))"

section \<open>Appending\<close>

definition matchesChunkTail :: "nat \<Rightarrow> nat \<Rightarrow> nat \<Rightarrow> nat \<Rightarrow> bool" where
  "matchesChunkTail sizeBytes width' index tailBytes \<longleftrightarrow>
     (let expectedIndex = (sizeBytes - 1) div width' in
      sizeBytes > 0 \<and> index = expectedIndex \<and> tailBytes = sizeBytes - expectedIndex * width')"

definition assertAppendSize :: "Config \<Rightarrow> jstring \<Rightarrow> nat \<Rightarrow> unit op" where
  "assertAppendSize cfg path sizeBytes =
     (if sizeBytes \<le> maxInlineFileBytes cfg then return_op ()
      else bind_op (emit_op cfg (Quota maxInlineFileBytesLimit)) (\<lambda>_. fail_op EFBIG path))"

text \<open>\<open>SELECT length(body) ... ORDER BY chunk_index LIMIT 1\<close>; \<open>one()\<close> throws on no row.\<close>

definition storedChunkBytes :: "EntryRow \<Rightarrow> jstring \<Rightarrow> nat op" where
  "storedChunkBytes entry path =
     bind_op (gets_op (\<lambda>s. stored_chunks (e_id entry) (tables s))) (\<lambda>rows.
     case rows of [] \<Rightarrow> throw_op SqlError
     | row # _ \<Rightarrow> if length (c_body row) = 0 then fail_op EIO path else return_op (length (c_body row)))"

record AppendPlan =
  ap_first :: nat
  ap_chunks :: "byte list list"
  ap_tailSuffix :: "byte list option"

definition appendTail :: "Config \<Rightarrow> EntryRow \<Rightarrow> jstring \<Rightarrow> byte list list \<Rightarrow> ChunkRow \<Rightarrow> AppendPlan op" where
  "appendTail cfg current path suffixChunks lastChunk =
     (let index = c_index lastChunk; tail = c_body lastChunk in
      bind_op (if matchesChunkTail (e_size current) (chunkBytes cfg) index (length tail)
               then return_op (chunkBytes cfg)
               else bind_op (storedChunkBytes current path) (\<lambda>stored.
                 if matchesChunkTail (e_size current) stored index (length tail) then return_op stored
                 else fail_op EIO path)) (\<lambda>width'.
      if length tail = width' then
        bind_op (if width' = chunkBytes cfg then return_op suffixChunks
                 else lift_op (rechunk suffixChunks width')) (\<lambda>bodies.
        return_op \<lparr>ap_first = index + 1, ap_chunks = bodies, ap_tailSuffix = None\<rparr>)
      else
        bind_op (lift_op (rechunk (tail # suffixChunks) width')) (\<lambda>bodies.
        return_op \<lparr>ap_first = index, ap_chunks = bodies, ap_tailSuffix = None\<rparr>)))"

definition last_chunk :: "nat \<Rightarrow> Tables \<Rightarrow> ChunkRow option" where
  "last_chunk i t = (case stored_chunks i t of [] \<Rightarrow> None | cs \<Rightarrow> Some (last cs))"

definition appendChunkPlan :: "Config \<Rightarrow> EntryRow \<Rightarrow> jstring \<Rightarrow> byte list list \<Rightarrow> AppendPlan op" where
  "appendChunkPlan cfg current path suffixChunks =
     (let compact = (e_size current > 0 \<and> length suffixChunks = 1 \<and>
                     e_size current + length (suffixChunks ! 0) \<le> chunkBytes cfg) in
      bind_op (gets_op (\<lambda>s. last_chunk (e_id current) (tables s))) (\<lambda>lastChunk.
      case lastChunk of
        None \<Rightarrow>
          if e_size current \<noteq> 0 then fail_op EIO path
          else return_op \<lparr>ap_first = 0, ap_chunks = suffixChunks, ap_tailSuffix = None\<rparr>
      | Some row \<Rightarrow>
          if compact \<and> c_index row = 0 \<and> length (c_body row) = e_size current
          then return_op \<lparr>ap_first = 0, ap_chunks = [], ap_tailSuffix = Some (suffixChunks ! 0)\<rparr>
          else appendTail cfg current path suffixChunks row))"

definition append_to_chunk :: "nat \<Rightarrow> nat \<Rightarrow> byte list \<Rightarrow> Tables \<Rightarrow> Tables" where
  "append_to_chunk i n suffix' t =
     t\<lparr>chunks := map (\<lambda>c. if c_entry c = i \<and> c_index c = n then c\<lparr>c_body := c_body c @ suffix'\<rparr> else c) (chunks t)\<rparr>"

definition appendContent ::
  "Config \<Rightarrow> EntryRow \<Rightarrow> jstring \<Rightarrow> byte list list \<Rightarrow> nat \<Rightarrow> bool \<Rightarrow> WriteResult op" where
  "appendContent cfg current path suffixChunks suffixBytes conditional =
     (let sizeBytes = e_size current + suffixBytes; grown = int suffixBytes * int (e_linkCount current);
          version' = e_version current + 1 in
      bind_op (assertAppendSize cfg path sizeBytes) (\<lambda>_.
      bind_op (assertCapacity cfg grown 0 (Some path)) (\<lambda>_.
      bind_op (appendChunkPlan cfg current path suffixChunks) (\<lambda>plan.
      bind_op (gets_op clock) (\<lambda>now.
      bind_op (gets_op (\<lambda>s. \<exists>e \<in> set (entries (tables s)). e_id e = e_id current \<and>
          (conditional \<longrightarrow> e_version e = e_version current))) (\<lambda>matched.
      if conditional \<and> \<not> matched then fail_op EREVISION path
      else
      bind_op (exec_op (update_entry (e_id current) (\<lambda>e. e\<lparr>e_size := sizeBytes, e_modified := now,
          e_changed := now, e_revision := e_revision e + 1, e_version := version'\<rparr>))) (\<lambda>_.
      bind_op (case ap_tailSuffix plan of
          Some suffix' \<Rightarrow> exec_op (append_to_chunk (e_id current) (ap_first plan) suffix')
        | None \<Rightarrow> writeChunks (e_id current) (ap_first plan) (ap_chunks plan) False) (\<lambda>_.
      bind_op (publishToken cfg path version' True MWrite (Some (e_linkIdentity current))) (\<lambda>tok.
      bind_op (updateUsage cfg grown 0) (\<lambda>_.
      return_op \<lparr>wr_path = path, wr_revision = e_revision current + 1, wr_token = tok,
                 wr_size = sizeBytes, wr_created = False\<rparr>))))))))))"

definition commitAppend ::
  "Config \<Rightarrow> jstring \<Rightarrow> jstring \<Rightarrow> jstring list \<Rightarrow> jstring \<Rightarrow> byte list list \<Rightarrow> nat \<Rightarrow> jstring option \<Rightarrow>
   PosixAccessContext option \<Rightarrow> EntryRow option \<Rightarrow> WriteResult op" where
  "commitAppend cfg path writtenPath followed capturedToken suffixChunks suffixBytes ifMutationToken posix snapshot =
     transaction cfg
       (bind_op (case snapshot of
            None \<Rightarrow> requireInline path None
          | Some e \<Rightarrow> if suffixBytes = 0 then requireInline path None else return_op e) (\<lambda>current.
        if mutationToken cfg current \<noteq> capturedToken then fail_op EREVISION path
        else
        bind_op (validateGuard cfg path (Some current) ifMutationToken (Some writtenPath)) (\<lambda>_.
        bind_op (assertTraverse path followed posix) (\<lambda>_.
        bind_op (assertPermission current posix WRITE_PERMISSION path) (\<lambda>_.
        if suffixBytes = 0 then
          return_op \<lparr>wr_path = path, wr_revision = e_revision current, wr_token = capturedToken,
                     wr_size = e_size current, wr_created = False\<rparr>
        else appendContent cfg current path suffixChunks suffixBytes (snapshot \<noteq> None))))))"

definition appendFile_begin ::
  "Config \<Rightarrow> jstring \<Rightarrow> jstring option \<Rightarrow> PosixAccessContext option \<Rightarrow> (Access \<times> EntryRow) op" where
  "appendFile_begin cfg path ifMutationToken posix =
     bind_op (resolveAccess path False True) (\<lambda>access.
     let normalized = a_path access in
     bind_op (assertTraverse normalized (a_followed access) posix) (\<lambda>_.
     bind_op (requireInline normalized (a_row access)) (\<lambda>before.
     bind_op (assertPermission before posix WRITE_PERMISSION normalized) (\<lambda>_.
     bind_op (validateGuard cfg normalized (Some before) ifMutationToken (Some path)) (\<lambda>_.
     return_op (access, before))))))"

definition appendFile_text ::
  "Config \<Rightarrow> jstring \<Rightarrow> jstring \<Rightarrow> jstring option \<Rightarrow> PosixAccessContext option \<Rightarrow> WriteResult op" where
  "appendFile_text cfg path body ifMutationToken posix =
     bind_op (appendFile_begin cfg path ifMutationToken posix) (\<lambda>(access, before).
     bind_op (collectInlineSync cfg body 0) (\<lambda>lease.
     useBuffered [lease] (commitAppend cfg (a_path access) path (a_followed access) (mutationToken cfg before)
       (l_chunks lease) (l_size lease) ifMutationToken posix (Some before))))"

text \<open>The end of an append whose body was streamed, after other operations have run.\<close>

definition appendFile_streamed ::
  "Config \<Rightarrow> jstring \<Rightarrow> Access \<Rightarrow> EntryRow \<Rightarrow> BufferedChunksLease \<Rightarrow> jstring option \<Rightarrow> PosixAccessContext option \<Rightarrow>
   WriteResult op" where
  "appendFile_streamed cfg path access before lease ifMutationToken posix =
     useBuffered [lease] (commitAppend cfg (a_path access) path (a_followed access) (mutationToken cfg before)
       (l_chunks lease) (l_size lease) ifMutationToken posix None)"

section \<open>Validating a deferred write\<close>

text \<open>The sizes are the numbers the caller passes; a size that is not given skips their checks.\<close>

definition validateInlineWrite ::
  "Config \<Rightarrow> jstring \<Rightarrow> WriteGuard \<Rightarrow> WriteOptions \<Rightarrow> int option \<Rightarrow> int \<Rightarrow> PosixAccessContext option \<Rightarrow> mode op" where
  "validateInlineWrite cfg path guard options sizeBytes additionalInlineBytes posix =
     bind_op (planInlineWrite cfg path guard options posix None) (\<lambda>plan.
     case p_capturedEntry plan of None \<Rightarrow> fail_op ENOTSUP path
     | Some before \<Rightarrow>
         if \<not> is_inline before then fail_op ENOTSUP path
         else
         bind_op (case sizeBytes of None \<Rightarrow> return_op ()
           | Some n \<Rightarrow>
               if n > int MAX_SAFE_INTEGER \<or> n < 0 \<or>
                  additionalInlineBytes > int MAX_SAFE_INTEGER \<or> additionalInlineBytes < 0
               then fail_op EINVAL path
               else bind_op (assertAppendSize cfg path (nat n)) (\<lambda>_.
                 assertCapacity cfg (n - int (e_size before) + additionalInlineBytes) 0 (Some path))) (\<lambda>_.
         return_op (if posix = None then (case wg_mode guard of Some m \<Rightarrow> m | None \<Rightarrow> e_mode before)
                    else e_mode before)))"

end
