(* ===== verification/Vfs_Effects.thy ===== *)
theory Vfs_Effects
  imports Vfs_Write
begin

text \<open>
  What the operations leave alone. An operation is \<open>silent\<close> when it changes neither the
  entries, their chunks, tombstones and objects, nor what is charged for them: every check,
  every resolution and every announcement is. The lemmas after it say what the operations
  that do change the tables change, so that an invariant is carried through a composite
  operation by its effects alone.
\<close>

section \<open>What an operation can change\<close>

definition charge :: "Vfs \<Rightarrow> int \<times> int" where
  "charge s =
     (usage_bytes (tables s) + (case deferredUsage s of None \<Rightarrow> 0 | Some (b, _, _) \<Rightarrow> b),
      usage_entries (tables s) + (case deferredUsage s of None \<Rightarrow> 0 | Some (_, n, _) \<Rightarrow> n))"

text \<open>The usage an operation may have read is the one that is charged.\<close>

definition usage_ok :: "Vfs \<Rightarrow> bool" where
  "usage_ok s \<longleftrightarrow> (case transactionUsage s of Some u \<Rightarrow> u = charge s | None \<Rightarrow> deferredUsage s = None) \<and>
     (transactionDepth s = 0 \<longrightarrow> deferredUsage s = None)"

record View =
  v_entries :: "EntryRow list"
  v_chunks :: "ChunkRow list"
  v_tombstones :: "(jstring \<times> nat) list"
  v_objects :: "OpaqueObjectRow list"
  v_nextIno :: nat
  v_charge :: "int \<times> int"

definition view :: "Vfs \<Rightarrow> View" where
  "view s = \<lparr>v_entries = entries (tables s), v_chunks = chunks (tables s), v_tombstones = tombstones (tables s),
     v_objects = objects (tables s), v_nextIno = nextIno s, v_charge = charge s\<rparr>"

text \<open>What no statement of a transaction changes.\<close>

definition ambient :: "Vfs \<Rightarrow> nat \<times> nat \<times> InFlightByteBudget \<times> EntryRow option \<times> bool" where
  "ambient s = (clock s, transactionDepth s, inFlight s, lastInlineRead s, deferredUsage s = None)"

definition like :: "Vfs \<Rightarrow> Vfs \<Rightarrow> bool" where
  "like s t \<longleftrightarrow> view t = view s \<and> (usage_ok s \<longrightarrow> usage_ok t) \<and> deferredUsage t = deferredUsage s \<and>
     ambient t = ambient s"

definition silent :: "'a op \<Rightarrow> bool" where
  "silent m \<longleftrightarrow> (\<forall>s. like s (snd (m s)))"

named_theorems silent_intros \<open>rules for operations that are silent\<close>

lemma like_refl [simp]: "like s s"
  by (simp add: like_def)

lemma like_trans: "like s t \<Longrightarrow> like t u \<Longrightarrow> like s u"
  by (auto simp: like_def)

lemma silentD: "silent m \<Longrightarrow> m s = (r, t) \<Longrightarrow> like s t"
  by (metis silent_def snd_conv)

lemma silent_simple [silent_intros]:
  "silent (return_op x)" "silent (throw_op e)" "silent (gets_op g)" "silent (lift_op r)" "silent (require_op b c p)"
  by (auto simp: silent_def return_op_def throw_op_def gets_op_def lift_op_def require_op_def)

lemma silent_bind [silent_intros]:
  assumes "silent m" "\<And>x. silent (f x)"
  shows "silent (bind_op m f)"
  unfolding silent_def
proof
  fix s
  obtain r t where r: "m s = (r, t)" by force
  then have "like s t" using assms(1) by (rule silentD [rotated])
  then show "like s (snd (bind_op m f s))"
    using assms(2) like_trans by (cases r) (auto simp: bind_op_def r silent_def)
qed

lemma silent_when [silent_intros]: "silent m \<Longrightarrow> silent (when_op b m)"
  by (simp add: when_op_def silent_simple)

lemma silent_if [silent_intros]: "silent m \<Longrightarrow> silent n \<Longrightarrow> silent (if b then m else n)"
  by simp

lemma silent_option [silent_intros]:
  "silent m \<Longrightarrow> (\<And>x. silent (f x)) \<Longrightarrow> silent (case v of None \<Rightarrow> m | Some x \<Rightarrow> f x)"
  by (cases v) auto

lemma silent_list [silent_intros]:
  "silent m \<Longrightarrow> (\<And>x xs. silent (f x xs)) \<Longrightarrow> silent (case v of [] \<Rightarrow> m | x # xs \<Rightarrow> f x xs)"
  by (cases v) auto

lemma silent_pair [silent_intros]: "(\<And>x y. silent (f x y)) \<Longrightarrow> silent (case v of (x, y) \<Rightarrow> f x y)"
  by (cases v) auto

lemma silent_let [silent_intros]: "(\<And>x. silent (f x)) \<Longrightarrow> silent (let x = v in f x)"
  by simp

lemma silent_each [silent_intros]: "(\<And>x. silent (f x)) \<Longrightarrow> silent (each_op f xs)"
  by (induction xs) (auto intro: silent_intros)

lemma silent_modify:
  "(\<And>s. like s (h s)) \<Longrightarrow> silent (modify_op h)"
  by (auto simp: silent_def modify_op_def)

lemma view_simps:
  "view s = view t \<longleftrightarrow> entries (tables s) = entries (tables t) \<and> chunks (tables s) = chunks (tables t) \<and>
     tombstones (tables s) = tombstones (tables t) \<and> objects (tables s) = objects (tables t) \<and>
     nextIno s = nextIno t \<and> charge s = charge t"
  by (auto simp: view_def)

lemmas silent_defs = like_def view_simps charge_def usage_ok_def ambient_def

section \<open>The silent operations\<close>

lemma silent_checks [silent_intros]:
  "silent (assertPermission entry access required path)" "silent (assertOwner entry access path)"
  "silent (assertStickyRemoval parent target access path)" "silent (oneEntry path)" "silent (tokenFor cfg path)"
  "silent (pathState cfg path)" "silent (descendantRange_op path)" "silent (resolveEntry_op path follow)"
  "silent (opaqueObject i)"
  unfolding assertPermission_def assertOwner_def assertStickyRemoval_def oneEntry_def tokenFor_def pathState_def
    descendantRange_op_def opaqueObject_def
  by (intro silent_intros | simp add: silent_def resolveEntry_op_def)+

lemma silent_traversed [silent_intros]: "silent (check_traversed access path rows)"
  by (induction rows) (auto intro!: silent_intros)

lemma silent_traversal [silent_intros]:
  "silent (assertTraverse path followed access)" "silent (assertSubtreePermissions path access m n)"
  "silent (assertSubtreeSticky path access)"
  unfolding assertTraverse_def assertSubtreePermissions_def assertSubtreeSticky_def
  by (intro silent_intros)+

lemma silent_or_require [silent_intros]: "silent m \<Longrightarrow> silent (or_require resolved m)"
  unfolding or_require_def by (intro silent_intros)

lemma silent_lookups [silent_intros]:
  "silent (tokenOf cfg path entry)" "silent (followed_token cfg link)" "silent (guardToken cfg path entry)"
  "silent (validateGuard cfg path entry ifMutationToken written)" "silent (realpath path follow access)"
  "silent (oneResolved path follow)" "silent (requireEntry path follow)"
  "silent (requireDirectory path resolved)" "silent (requireInline path resolved)"
  "silent (resolveAccess path allowMissing followTerminal)"
  unfolding validateGuard_def guardToken_def tokenOf_def followed_token_def realpath_def oneResolved_def requireEntry_def
    requireDirectory_def requireInline_def resolveAccess_def
  by (intro silent_intros)+

lemma silent_usage [silent_intros]: "silent usage"
  by (auto simp: silent_def usage_def silent_defs Let_def split: option.splits)

lemma silent_emit [silent_intros]: "silent (emit_op cfg event)"
  unfolding emit_op_def by (intro silent_intros silent_modify) (auto simp: silent_defs split: option.splits)

lemma silent_capacity [silent_intros]:
  "silent (quotaExceeded cfg limit path)" "silent (assertDatabaseHeadroom cfg path)"
  "silent (assertCapacityFrom cfg u b n path)" "silent (assertCapacity cfg b n path)"
  "silent (aggregateSubtree root single)"
  unfolding quotaExceeded_def assertDatabaseHeadroom_def assertCapacityFrom_def assertCapacity_def aggregateSubtree_def
  by (intro silent_intros)+

lemma silent_notes [silent_intros]:
  "silent (nextChangeSeq cfg)" "silent (recordPathChange cfg path present changeSeq)"
  "silent (recordMutation cfg mutation)" "silent (noteDirectoryChange entry)" "silent (noteDirectoryDelta parent delta)"
  unfolding nextChangeSeq_def recordPathChange_def recordMutation_def noteDirectoryChange_def noteDirectoryDelta_def exec_op_def
  by (intro silent_intros silent_modify; auto simp: silent_defs split: option.splits)+

lemma silent_publish [silent_intros]:
  "silent (publish_aliases cfg mop rows)" "silent (publishToken cfg path version' present mop identity)"
  "silent (publishLinkedMetadata cfg identities)" "silent (recordSubtreeChange cfg path present changeSeq single)"
  unfolding publish_aliases_def publishToken_def publishLinkedMetadata_def recordSubtreeChange_def
  by (intro silent_intros)+ (auto simp: silent_def exec_op_def modify_op_def silent_defs split: option.splits)

lemma silent_missing [silent_intros]: "silent (missing_parents n current missing)"
  by (induction n arbitrary: current missing) (auto intro!: silent_intros)

lemma silent_creation [silent_intros]:
  "silent (creationParents path recursive)" "silent (assertCreationAccess path followed access parent)"
  "silent (assertWriteAccess path entry recursive followed access)"
  "silent (assertDestinationReplaceable destination target replace)"
  unfolding creationParents_def assertCreationAccess_def assertWriteAccess_def assertDestinationReplaceable_def
  by (intro silent_intros)+

lemma silent_plans [silent_intros]:
  "silent (planInlineWrite cfg path guard options posix snapshot)" "silent (parent_of parent path)"
  "silent (storedChunkBytes e path)" "silent (assertAppendSize cfg path n)"
  "silent (read_snapshot cfg path guard options posix)"
  unfolding planInlineWrite_def parent_of_def storedChunkBytes_def assertAppendSize_def read_snapshot_def
  by (intro silent_intros)+

lemma silent_appendTail [silent_intros]: "silent (appendTail cfg e path suffixChunks row)"
  unfolding appendTail_def by (intro silent_intros)

lemma silent_append_plans [silent_intros]:
  "silent (inlineWriteMode plan current parent posix)"
  "silent (appendChunkPlan cfg e path suffixChunks)" "silent (appendFile_begin cfg path tok posix)"
  unfolding inlineWriteMode_def appendChunkPlan_def appendFile_begin_def
  by (intro silent_intros)+

section \<open>The effects of the others\<close>

lemma view_fields [simp]:
  "v_entries (view s) = entries (tables s)" "v_chunks (view s) = chunks (tables s)"
  "v_tombstones (view s) = tombstones (tables s)" "v_objects (view s) = objects (tables s)"
  "v_nextIno (view s) = nextIno s" "v_charge (view s) = charge s"
  by (simp_all add: view_def)

text \<open>Charging an operation.\<close>

definition charged :: "int \<Rightarrow> int \<Rightarrow> View \<Rightarrow> View" where
  "charged b n v = v\<lparr>v_charge := (fst (v_charge v) + b, snd (v_charge v) + n)\<rparr>"

definition moved :: "Vfs \<Rightarrow> View \<Rightarrow> Vfs \<Rightarrow> bool" where
  "moved s v t \<longleftrightarrow> view t = v \<and> (usage_ok s \<longrightarrow> usage_ok t) \<and> ambient t = ambient s"

lemma like_moved: "like s t \<longleftrightarrow> moved s (view s) t \<and> deferredUsage t = deferredUsage s"
  by (auto simp: like_def moved_def)

lemma moved_trans: "moved s v t \<Longrightarrow> moved t w u \<Longrightarrow> moved s w u"
  by (auto simp: moved_def)

lemma updateUsage_moved:
  assumes "updateUsage cfg b n s = (Inr u, t)"
  shows "moved s (charged b n (view s)) t"
proof (cases "b = 0 \<and> n = 0")
  case True
  have "silent (updateUsage cfg b n)"
    unfolding updateUsage_def using True
    by (auto intro!: silent_intros silent_modify simp: silent_defs split: option.splits)
  moreover have "charged 0 0 (view s) = view s" by (simp add: charged_def view_def)
  ultimately show ?thesis using silentD [where m = "updateUsage cfg b n", OF _ assms] True
    by (auto simp: like_moved)
next
  case False
  define after where "after = when_op (observed cfg) (bind_op usage (\<lambda>u. modify_op (\<lambda>s. s\<lparr>pendingUsage := Some u\<rparr>)))"
  have after: "silent after"
    unfolding after_def by (auto intro!: silent_intros silent_modify simp: silent_defs split: option.splits)
  from assms False obtain t1 where t1: "after (t1\<lparr>transactionUsage :=
        map_option (\<lambda>(bytes, k). (bytes + b, k + n)) (transactionUsage t1)\<rparr>) = (Inr u, t)"
    "(case deferredUsage s of None \<Rightarrow> writeUsage b n
      | Some (bytes, k, _) \<Rightarrow> modify_op (\<lambda>s. s\<lparr>deferredUsage := Some (bytes + b, k + n, True)\<rparr>)) s = (Inr (), t1)"
    unfolding updateUsage_def after_def by auto
  define t2 where "t2 = t1\<lparr>transactionUsage := map_option (\<lambda>(bytes, k). (bytes + b, k + n)) (transactionUsage t1)\<rparr>"
  have "moved s (charged b n (view s)) t2"
    using t1(2)
    by (auto simp: moved_def t2_def charged_def view_def charge_def usage_ok_def ambient_def writeUsage_def
        split: option.splits prod.splits)
  moreover from silentD [OF after t1(1)] have "moved t2 (view t2) t" by (simp add: like_moved t2_def)
  ultimately show ?thesis by (metis moved_def moved_trans)
qed

section \<open>Postconditions on views\<close>

text \<open>
  \<open>vpost m v Q\<close>: run from any state with the view \<open>v\<close> and the right usage, the operation fails
  or ends with a result and a view that satisfy \<open>Q\<close>, and the usage is right again. The rules
  take a composite operation apart from the front; a silent operation leaves the view alone.
\<close>

definition vpost :: "'a op \<Rightarrow> View \<Rightarrow> ('a \<Rightarrow> View \<Rightarrow> bool) \<Rightarrow> bool" where
  "vpost m v Q \<longleftrightarrow> (\<forall>s x t. view s = v \<longrightarrow> usage_ok s \<longrightarrow> m s = (Inr x, t) \<longrightarrow>
     Q x (view t) \<and> moved s (view t) t)"

lemma vpostI:
  "(\<And>s x t. view s = v \<Longrightarrow> usage_ok s \<Longrightarrow> m s = (Inr x, t) \<Longrightarrow> Q x (view t) \<and> moved s (view t) t) \<Longrightarrow> vpost m v Q"
  by (auto simp: vpost_def)

lemma vpostD: "vpost m v Q \<Longrightarrow> view s = v \<Longrightarrow> usage_ok s \<Longrightarrow> m s = (Inr x, t) \<Longrightarrow> Q x (view t) \<and> moved s (view t) t"
  by (auto simp: vpost_def)

named_theorems vpost_intros \<open>rules for postconditions on views\<close>

lemma vpost_bind [vpost_intros]: "vpost m v (\<lambda>x w. vpost (f x) w Q) \<Longrightarrow> vpost (bind_op m f) v Q"
proof (rule vpostI)
  fix s y t
  assume m: "vpost m v (\<lambda>x w. vpost (f x) w Q)" and s: "view s = v" "usage_ok s" "bind_op m f s = (Inr y, t)"
  from s(3) obtain x u where u: "m s = (Inr x, u)" "f x u = (Inr y, t)" by (rule bind_op_InrE)
  from vpostD [OF m s(1,2) u(1)] have f: "vpost (f x) (view u) Q" "moved s (view u) u" by blast+
  then have "usage_ok u" using s(2) by (simp add: moved_def)
  from vpostD [OF f(1) refl this u(2)] moved_trans [OF f(2)] show "Q y (view t) \<and> moved s (view t) t" by blast
qed

lemma vpost_weaken: "vpost m v Q' \<Longrightarrow> (\<And>x w. Q' x w \<Longrightarrow> Q x w) \<Longrightarrow> vpost m v Q"
  unfolding vpost_def by blast

lemma vpost_return [vpost_intros]: "Q x v \<Longrightarrow> vpost (return_op x) v Q"
  unfolding vpost_def by (auto simp: moved_def)

lemma vpost_throw [vpost_intros]: "vpost (throw_op e) v Q"
  unfolding vpost_def by auto

lemma vpost_lift [vpost_intros]: "(\<And>x. r = Inr x \<Longrightarrow> Q x v) \<Longrightarrow> vpost (lift_op r) v Q"
  unfolding vpost_def by (auto simp: moved_def)

lemma vpost_require [vpost_intros]: "(b \<Longrightarrow> Q () v) \<Longrightarrow> vpost (require_op b c p) v Q"
  unfolding vpost_def by (auto simp: moved_def)

lemma vpost_silent: "silent m \<Longrightarrow> (\<And>x. Q x v) \<Longrightarrow> vpost m v Q"
  unfolding vpost_def using silentD like_moved like_def by metis

lemma vpost_if [vpost_intros]:
  "(b \<Longrightarrow> vpost m v Q) \<Longrightarrow> (\<not> b \<Longrightarrow> vpost n v Q) \<Longrightarrow> vpost (if b then m else n) v Q"
  by simp

lemma vpost_when [vpost_intros]:
  "(b \<Longrightarrow> vpost m v Q) \<Longrightarrow> (\<not> b \<Longrightarrow> Q () v) \<Longrightarrow> vpost (when_op b m) v Q"
  by (simp add: when_op_def vpost_return)

lemma vpost_option [vpost_intros]:
  "(c = None \<Longrightarrow> vpost m v Q) \<Longrightarrow> (\<And>x. c = Some x \<Longrightarrow> vpost (f x) v Q) \<Longrightarrow>
   vpost (case c of None \<Rightarrow> m | Some x \<Rightarrow> f x) v Q"
  by (cases c) auto

lemma vpost_pair [vpost_intros]:
  "(\<And>x y. c = (x, y) \<Longrightarrow> vpost (f x y) v Q) \<Longrightarrow> vpost (case c of (x, y) \<Rightarrow> f x y) v Q"
  by (cases c) auto

lemma vpost_let [vpost_intros]: "(\<And>x. x = c \<Longrightarrow> vpost (f x) v Q) \<Longrightarrow> vpost (let x = c in f x) v Q"
  by simp

lemma vpost_gets: "(\<And>s. view s = v \<Longrightarrow> Q (g s) v) \<Longrightarrow> vpost (gets_op g) v Q"
  unfolding vpost_def by (auto simp: moved_def)

text \<open>What a read answers when it depends on the view only.\<close>

definition entry_at :: "jstring \<Rightarrow> EntryRow list \<Rightarrow> EntryRow option" where
  "entry_at path es = find (\<lambda>e. e_path e = path) es"

lemma find_entry_at: "find_entry path t = entry_at path (entries t)"
  by (simp add: find_entry_def entry_at_def)

lemma entry_at_None: "entry_at path es = None \<longleftrightarrow> path \<notin> e_path ` set es"
  by (auto simp: entry_at_def find_None_iff)

lemma entry_at_SomeD: "entry_at path es = Some e \<Longrightarrow> e \<in> set es \<and> e_path e = path"
  by (auto simp: entry_at_def find_Some_iff)

lemma vpost_oneEntry [vpost_intros]: "Q (entry_at path (v_entries v)) v \<Longrightarrow> vpost (oneEntry path) v Q"
  unfolding oneEntry_def by (rule vpost_gets) (auto simp: find_entry_at)

lemma vpost_pathState [vpost_intros]:
  "(\<And>tok. Q (entry_at path (v_entries v), tok) v) \<Longrightarrow> vpost (pathState cfg path) v Q"
  unfolding pathState_def by (rule vpost_gets) (auto simp: find_entry_at split: option.splits)

section \<open>The effects of the others\<close>

lemma vpost_updateUsage [vpost_intros]:
  "Q () (charged b n v) \<Longrightarrow> vpost (updateUsage cfg b n) v Q"
  by (rule vpostI) (auto simp: moved_def dest!: updateUsage_moved)

lemma vpost_exec:
  assumes "\<And>t. usage_bytes (f t) = usage_bytes t \<and> usage_entries (f t) = usage_entries t"
    "\<And>t. entries t = v_entries v \<Longrightarrow> chunks t = v_chunks v \<Longrightarrow> tombstones t = v_tombstones v \<Longrightarrow> objects t = v_objects v \<Longrightarrow>
      Q () (v\<lparr>v_entries := entries (f t), v_chunks := chunks (f t), v_tombstones := tombstones (f t),
        v_objects := objects (f t)\<rparr>)"
  shows "vpost (exec_op f) v Q"
proof (rule vpostI)
  fix s x t
  assume "view s = v" "usage_ok s" "exec_op f s = (Inr x, t)"
  then have s: "view s = v" "exec_op f s = (Inr x, t)" by simp_all
  then have "view t = v\<lparr>v_entries := entries (f (tables s)), v_chunks := chunks (f (tables s)),
      v_tombstones := tombstones (f (tables s)), v_objects := objects (f (tables s))\<rparr>"
    using assms(1) by (auto simp: view_def charge_def)
  with assms(2) [of "tables s"] s(1) have "Q () (view t)" by auto
  moreover have "moved s (view t) t"
    using s(2) assms(1) by (auto simp: moved_def usage_ok_def charge_def ambient_def split: option.splits)
  ultimately show "Q x (view t) \<and> moved s (view t) t" by simp
qed

lemma vpost_exec_table [vpost_intros]:
  "(\<And>t. entries t = v_entries v \<Longrightarrow> Q () (v\<lparr>v_entries := f t\<rparr>)) \<Longrightarrow> vpost (exec_op (\<lambda>t. t\<lparr>entries := f t\<rparr>)) v Q"
  "(\<And>t. chunks t = v_chunks v \<Longrightarrow> Q () (v\<lparr>v_chunks := g t\<rparr>)) \<Longrightarrow> vpost (exec_op (\<lambda>t. t\<lparr>chunks := g t\<rparr>)) v Q"
  "(\<And>t. tombstones t = v_tombstones v \<Longrightarrow> Q () (v\<lparr>v_tombstones := h t\<rparr>)) \<Longrightarrow>
   vpost (exec_op (\<lambda>t. t\<lparr>tombstones := h t\<rparr>)) v Q"
  "(\<And>t. objects t = v_objects v \<Longrightarrow> Q () (v\<lparr>v_objects := k t\<rparr>)) \<Longrightarrow> vpost (exec_op (\<lambda>t. t\<lparr>objects := k t\<rparr>)) v Q"
  by (rule vpost_exec; cases v; simp)+

definition drop_tombstone :: "jstring \<Rightarrow> (jstring \<times> nat) list \<Rightarrow> (jstring \<times> nat) list" where
  "drop_tombstone path ts = filter (\<lambda>(p, _). p \<noteq> path) ts"

definition next_version :: "jstring \<Rightarrow> nat \<Rightarrow> (jstring \<times> nat) list \<Rightarrow> nat" where
  "next_version path previous ts = max previous (case map_of ts path of None \<Rightarrow> 0 | Some v \<Rightarrow> v) + 1"

lemma vpost_nextEntryVersion [vpost_intros]:
  "Q (next_version path previous (v_tombstones v)) (v\<lparr>v_tombstones := drop_tombstone path (v_tombstones v)\<rparr>) \<Longrightarrow>
   vpost (nextEntryVersion path previous) v Q"
  unfolding nextEntryVersion_def
  by (intro vpost_intros vpost_gets vpost_exec)
     (auto simp: next_version_def drop_tombstone_def find_tombstone_def intro!: vpost_return)

lemma vpost_allocateIno [vpost_intros]:
  "Q (v_nextIno v) (v\<lparr>v_nextIno := v_nextIno v + n\<rparr>) \<Longrightarrow> vpost (allocateIno n) v Q"
  unfolding vpost_def
  by (auto simp: allocateIno_def view_def moved_def ambient_def usage_ok_def charge_def split: option.splits)

definition fresh_row :: "EntryRow \<Rightarrow> EntryRow list \<Rightarrow> bool" where
  "fresh_row row es \<longleftrightarrow> e_path row \<notin> e_path ` set es \<and> e_id row \<notin> e_id ` set es"

lemma vpost_insert_entry [vpost_intros]:
  assumes "fresh_row row (v_entries v) \<Longrightarrow>
    \<forall>i. e_kind row = Opaque i \<longrightarrow> (\<exists>ob \<in> set (v_objects v). o_id ob = i) \<Longrightarrow>
    Q () (v\<lparr>v_entries := v_entries v @ [row]\<rparr>)"
  shows "vpost (insert_entry row) v Q"
proof (rule vpostI)
  fix s x t
  assume "view s = v" "usage_ok s" "insert_entry row s = (Inr x, t)"
  then have s: "view s = v" "insert_entry row s = (Inr x, t)" by simp_all
  then have "fresh_row row (v_entries v)" "\<forall>i. e_kind row = Opaque i \<longrightarrow> (\<exists>ob \<in> set (v_objects v). o_id ob = i)"
    by (auto simp: insert_entry_def fresh_row_def find_entry_at entry_at_None split: entry_kind.splits if_splits)
  note assms [OF this]
  moreover have "view t = v\<lparr>v_entries := v_entries v @ [row]\<rparr>" "moved s (view t) t"
    using s by (auto simp: insert_entry_def view_def moved_def ambient_def usage_ok_def charge_def split: if_splits option.splits)
  ultimately show "Q x (view t) \<and> moved s (view t) t" by simp
qed

text \<open>What the capacity checks let through.\<close>

definition fits :: "Config \<Rightarrow> int \<times> int \<Rightarrow> int \<Rightarrow> int \<Rightarrow> bool" where
  "fits cfg u b n \<longleftrightarrow> (b > 0 \<longrightarrow> fst u + b \<le> int (maxInlineLogicalBytes cfg)) \<and>
     (n > 0 \<longrightarrow> snd u + n \<le> int (maxEntries cfg))"

lemma vpost_usage [vpost_intros]: "Q (v_charge v) v \<Longrightarrow> vpost usage v Q"
proof (rule vpostI)
  fix s x t assume "Q (v_charge v) v" "view s = v" "usage_ok s" "usage s = (Inr x, t)"
  moreover then have "x = charge s" by (auto simp: usage_def usage_ok_def charge_def Let_def split: option.splits)
  ultimately show "Q x (view t) \<and> moved s (view t) t"
    using silentD [OF silent_usage, of s "Inr x" t] by (auto simp: like_def moved_def)
qed

lemma vpost_headroom: "Q () v \<Longrightarrow> vpost (assertDatabaseHeadroom cfg path) v Q"
  by (rule vpost_silent) (auto intro: silent_intros)

lemma vpost_quotaExceeded: "vpost (quotaExceeded cfg limit path) v Q"
  unfolding quotaExceeded_def
  by (rule vpost_bind, rule vpost_silent) (auto intro: silent_intros vpost_throw)

lemma vpost_assertCapacityFrom:
  "(fits cfg u b n \<Longrightarrow> Q () v) \<Longrightarrow> vpost (assertCapacityFrom cfg u b n path) v Q"
  unfolding assertCapacityFrom_def
  by (intro vpost_if vpost_quotaExceeded vpost_headroom) (auto simp: fits_def)

lemma vpost_assertCapacity:
  "(fits cfg (v_charge v) b n \<Longrightarrow> Q () v) \<Longrightarrow> vpost (assertCapacity cfg b n path) v Q"
  unfolding assertCapacity_def
  apply (rule vpost_if)
  subgoal
    apply (rule vpost_bind, rule vpost_silent)
    subgoal by (intro silent_intros)
    by (rule vpost_headroom) (simp add: fits_def)
  by (rule vpost_bind, rule vpost_usage, rule vpost_assertCapacityFrom) auto

section \<open>Creating directories\<close>

definition new_directory :: "jstring \<Rightarrow> EntryRow \<Rightarrow> View \<Rightarrow> bool" where
  "new_directory path row v \<longleftrightarrow>
     e_path row = path \<and> dirname path = Inr (e_parent row) \<and> basename path = Inr (e_name row) \<and>
     is_directory row \<and> e_id row = v_nextIno v \<and> e_linkIdentity row = None \<and>
     e_version row = next_version path 0 (v_tombstones v) \<and> fresh_row row (v_entries v)"

definition with_directory :: "EntryRow \<Rightarrow> View \<Rightarrow> View" where
  "with_directory row v = charged 0 1 (v\<lparr>v_entries := v_entries v @ [row],
     v_tombstones := drop_tombstone (e_path row) (v_tombstones v), v_nextIno := v_nextIno v + 1\<rparr>)"

lemma view_eqI: "Q r w \<Longrightarrow> w = w' \<Longrightarrow> Q r w'"
  by simp

lemma vpost_createDirectory [vpost_intros]:
  assumes "\<And>row. new_directory path row v \<Longrightarrow> Q row (with_directory row v)"
  shows "vpost (createDirectory cfg path now mode' access intermediate known) v Q"
  unfolding createDirectory_def
  apply (rule vpost_bind, rule vpost_lift)
  apply (rule vpost_bind, rule vpost_lift)
  apply (rule vpost_bind, rule vpost_silent)
  subgoal by (intro silent_intros)
  apply (rule vpost_bind, rule vpost_silent)
  subgoal by (intro silent_intros)
  apply (intro vpost_intros)
  apply (rule vpost_silent)
  subgoal by (intro silent_intros)
  apply (intro vpost_intros)
  apply (rule vpost_silent)
  subgoal by (intro silent_intros)
  apply (intro vpost_intros)
  apply (rule view_eqI [where Q = Q], rule assms)
   apply (auto simp: new_directory_def with_directory_def charged_def Let_def is_directory_def split: option.splits)
  done

section \<open>Transactions\<close>

text \<open>What \<open>flushParentTimes\<close> may do to a row: a directory gets new times and a new version.\<close>

definition touched :: "EntryRow \<Rightarrow> EntryRow \<Rightarrow> bool" where
  "touched e e' \<longleftrightarrow> e' = e \<or>
     (is_directory e \<and> (\<exists>now k. e' = e\<lparr>e_modified := now, e_changed := now, e_revision := e_revision e + 1,
        e_version := e_version e + 1, e_linkCount := k\<rparr>))"

abbreviation all_touched :: "EntryRow list \<Rightarrow> EntryRow list \<Rightarrow> bool" where
  "all_touched \<equiv> list_all2 touched"

lemma touched_refl [simp]: "touched e e"
  by (simp add: touched_def)

lemma all_touched_refl [simp]: "all_touched es es"
  by (simp add: list_all2_refl)

lemma silent_flush_published [silent_intros]:
  "silent (each_op (\<lambda>row. publishToken cfg (e_path row) (e_version row) True MMetadata (Some None)) rows)"
  by (intro silent_intros)

lemma vpost_flush:
  assumes "\<And>es. all_touched (v_entries v) es \<Longrightarrow> Q () (v\<lparr>v_entries := es\<rparr>)"
  shows "vpost (flushParentTimes cfg) v Q"
proof -
  have same: "Q () v" using assms [of "v_entries v"] by simp
  show ?thesis
    unfolding flushParentTimes_def
    apply (intro vpost_intros vpost_gets)
    apply (rule vpost_silent)
    subgoal by (rule silent_modify) (auto simp: silent_defs split: option.splits)
    apply (intro vpost_intros vpost_gets)
    subgoal by (rule same)
    apply (rule vpost_silent)
    subgoal by (rule silent_modify) (auto simp: silent_defs split: option.splits)
    apply (intro vpost_intros vpost_gets)
    apply (rule vpost_silent)
    subgoal by (intro silent_intros)
    apply (intro vpost_intros assms)
    apply (auto simp: list_all2_conv_all_nth touched_def)
    done
qed

lemma vpost_transaction [vpost_intros]:
  assumes "vpost body v (\<lambda>x w. \<forall>es. all_touched (v_entries w) es \<longrightarrow> Q x (w\<lparr>v_entries := es\<rparr>))"
  shows "vpost (transaction cfg body) v Q"
proof (rule vpostI)
  fix s x t
  assume s: "view s = v" "usage_ok s" "transaction cfg body s = (Inr x, t)"
  define m where "m = bind_op body (\<lambda>x.
      bind_op (if transactionDepth s = 0 then flushParentTimes cfg else return_op ()) (\<lambda>_. return_op x))"
  have same: "Q x w" if "\<forall>es. all_touched (v_entries w) es \<longrightarrow> Q x (w\<lparr>v_entries := es\<rparr>)" for x w
    using that [rule_format, of "v_entries w"] by simp
  have m: "vpost m v Q"
    unfolding m_def
    by (rule vpost_bind, rule vpost_weaken [OF assms]) (auto intro!: vpost_bind vpost_if vpost_flush vpost_return intro: same)
  define s0 where "s0 = s\<lparr>transactionDepth := transactionDepth s + 1\<rparr>"
  obtain s1 where s1: "m s0 = (Inr x, s1)" and t: "t = (let s2 = s1\<lparr>transactionDepth := transactionDepth s,
      transactionUsage := (if transactionDepth s = 0 then None else transactionUsage s1)\<rparr> in
      if transactionDepth s = 0 then emitCommittedMutations cfg s2 else s2)"
    using s(3) unfolding transaction_def m_def s0_def by (auto simp: Let_def split: prod.splits sum.splits)
  have "view s0 = v" "usage_ok s0" using s(1,2) by (auto simp: s0_def view_def charge_def usage_ok_def split: option.splits)
  from vpostD [OF m this s1] have Q: "Q x (view s1)" and step: "moved s0 (view s1) s1" by blast+
  have viewed: "view t = view s1"
    unfolding t by (auto simp: Let_def emitCommittedMutations_def view_def charge_def split: option.splits)
  have "ambient t = ambient s" "usage_ok s \<longrightarrow> usage_ok t"
    using step s(2) unfolding t
    by (auto simp: Let_def emitCommittedMutations_def moved_def ambient_def usage_ok_def charge_def s0_def split: option.splits)
  with viewed Q show "Q x (view t) \<and> moved s (view t) t" by (simp add: moved_def)
qed

end
