(* ===== verification/Vfs_Chunks.thy ===== *)
theory Vfs_Chunks
  imports Vfs_Effects
begin

text \<open>
  The table of chunks as a map from an entry and an index to bytes: what the upserts, the
  deletions and the appends of \<open>src/vfs/sql-content-base.ts\<close> and
  \<open>src/vfs/sql-write-base.ts\<close> do to it, and that a body stored in slabs is read back.
\<close>

section \<open>The table as a map\<close>

definition chunk_key :: "ChunkRow \<Rightarrow> nat \<times> nat" where
  "chunk_key c = (c_entry c, c_index c)"

definition distinct_chunks :: "ChunkRow list \<Rightarrow> bool" where
  "distinct_chunks cs \<longleftrightarrow> distinct (map chunk_key cs)"

definition chunk_at :: "ChunkRow list \<Rightarrow> nat \<Rightarrow> nat \<Rightarrow> byte list option" where
  "chunk_at cs i n = map_option c_body (find (\<lambda>c. chunk_key c = (i, n)) cs)"

definition body_of :: "nat \<Rightarrow> ChunkRow list \<Rightarrow> byte list" where
  "body_of i cs = concat (map c_body (sort_key c_index (filter (\<lambda>c. c_entry c = i) cs)))"

text \<open>The chunks of an entry are these bodies, numbered from zero.\<close>

definition layout :: "nat \<Rightarrow> ChunkRow list \<Rightarrow> byte list list \<Rightarrow> bool" where
  "layout i cs bodies \<longleftrightarrow> (\<forall>n. chunk_at cs i n = (if n < length bodies then Some (bodies ! n) else None))"

lemma insort_chunk_key: "insort_chunk c cs = insort_key c_index c cs"
  by (induction cs) auto

lemma stored_chunks_sorted: "stored_chunks i t = sort_key c_index (filter (\<lambda>c. c_entry c = i) (chunks t))"
  by (simp add: stored_chunks_def sort_key_def insort_chunk_key [abs_def])

lemma stored_body_of: "stored_body i t = body_of i (chunks t)"
  by (simp add: stored_body_def body_of_def stored_chunks_sorted)

lemma find_SomeD: "find P xs = Some x \<Longrightarrow> P x \<and> x \<in> set xs"
  by (auto simp: find_Some_iff)

lemma find_chunk_at: "map_option c_body (find_chunk i n t) = chunk_at (chunks t) i n"
  by (simp add: find_chunk_def chunk_at_def chunk_key_def)

lemma chunk_at_Nil [simp]: "chunk_at [] i n = None"
  by (simp add: chunk_at_def)

lemma chunk_at_Cons: "chunk_at (c # cs) i n = (if chunk_key c = (i, n) then Some (c_body c) else chunk_at cs i n)"
  by (simp add: chunk_at_def)

lemma chunk_at_SomeD: "chunk_at cs i n = Some b \<Longrightarrow> \<exists>c \<in> set cs. c_entry c = i \<and> c_index c = n \<and> c_body c = b"
  by (auto simp: chunk_at_def chunk_key_def dest: find_SomeD)

lemma chunk_at_None: "chunk_at cs i n = None \<longleftrightarrow> (i, n) \<notin> chunk_key ` set cs"
  by (auto simp: chunk_at_def find_None_iff image_iff)

lemma chunk_at_in: "distinct_chunks cs \<Longrightarrow> c \<in> set cs \<Longrightarrow> chunk_at cs (c_entry c) (c_index c) = Some (c_body c)"
  by (induction cs) (auto simp: chunk_at_Cons distinct_chunks_def image_iff chunk_key_def)

section \<open>Reading back\<close>

lemma layout_rows:
  assumes "distinct_chunks cs" "layout i cs bodies"
  defines "rows \<equiv> sort_key c_index (filter (\<lambda>c. c_entry c = i) cs)"
  shows "map c_index rows = [0..<length bodies]" "map c_body rows = bodies"
proof -
  have rows: "set rows = {c \<in> set cs. c_entry c = i}" by (auto simp: rows_def)
  have "distinct (map c_index (filter (\<lambda>c. c_entry c = i) cs))"
    using assms(1)
    by (induction cs) (auto simp: distinct_chunks_def chunk_key_def image_iff)
  then have "distinct (map c_index rows)" by (simp add: distinct_map rows_def distinct_sort)
  moreover have "sorted (map c_index rows)" by (simp add: rows_def)
  moreover have "set (map c_index rows) = {..<length bodies}"
  proof -
    have "(\<exists>c \<in> set rows. c_index c = n) \<longleftrightarrow> n < length bodies" for n
      using assms(2) chunk_at_None [of cs i n] by (auto simp: layout_def rows chunk_key_def image_iff split: if_splits)
    then show ?thesis by (auto simp: set_eq_iff image_iff) metis+
  qed
  ultimately show index: "map c_index rows = [0..<length bodies]"
    by (intro sorted_distinct_set_unique) (auto simp: atLeast0LessThan)
  show "map c_body rows = bodies"
  proof (rule nth_equalityI)
    show "length (map c_body rows) = length bodies" using arg_cong [OF index, of length] by simp
    fix n assume n: "n < length (map c_body rows)"
    then have "c_index (rows ! n) = n" using arg_cong [OF index, of "\<lambda>xs. xs ! n"] arg_cong [OF index, of length] by simp
    moreover have "rows ! n \<in> set cs" "c_entry (rows ! n) = i" using n nth_mem [of n rows] rows by auto
    ultimately have "chunk_at cs i n = Some (c_body (rows ! n))" using chunk_at_in [OF assms(1)] by metis
    with assms(2) n show "map c_body rows ! n = bodies ! n" by (auto simp: layout_def split: if_splits)
  qed
qed

lemma layout_body: "distinct_chunks cs \<Longrightarrow> layout i cs bodies \<Longrightarrow> body_of i cs = concat bodies"
  by (simp add: body_of_def layout_rows)

lemma stored_layout:
  "distinct_chunks (chunks t) \<Longrightarrow> layout i (chunks t) bodies \<Longrightarrow> map c_body (stored_chunks i t) = bodies \<and>
     map c_index (stored_chunks i t) = [0..<length bodies]"
  by (simp add: stored_chunks_sorted layout_rows)

lemma body_of_cong: "filter (\<lambda>c. c_entry c = i) cs = filter (\<lambda>c. c_entry c = i) ds \<Longrightarrow> body_of i cs = body_of i ds"
  by (simp add: body_of_def)

text \<open>Another entry's chunks keep its layout when the map is the same there.\<close>

lemma layout_cong: "(\<And>n. chunk_at cs i n = chunk_at ds i n) \<Longrightarrow> layout i cs bodies \<longleftrightarrow> layout i ds bodies"
  by (simp add: layout_def)

section \<open>Changing the table\<close>

lemma chunk_at_append:
  "chunk_at (cs @ ds) i n = (case chunk_at cs i n of Some b \<Rightarrow> Some b | None \<Rightarrow> chunk_at ds i n)"
  by (induction cs) (auto simp: chunk_at_Cons)

lemma chunk_at_map:
  assumes "\<And>c. chunk_key (f c) = chunk_key c"
    "\<And>c. chunk_key c = (i, n) \<Longrightarrow> c_body (f c) = g (c_body c)"
  shows "chunk_at (map f cs) i n = map_option g (chunk_at cs i n)"
  by (induction cs) (auto simp: chunk_at_Cons assms)

lemma put_chunk_at:
  "chunk_at (put_chunk i n body cs) j m = (if j = i \<and> m = n then Some body else chunk_at cs j m)"
proof (cases "\<exists>c \<in> set cs. c_entry c = i \<and> c_index c = n")
  case True
  then have put: "put_chunk i n body cs = map (\<lambda>c. if c_entry c = i \<and> c_index c = n then c\<lparr>c_body := body\<rparr> else c) cs"
    by (simp add: put_chunk_def)
  from True have "chunk_at cs i n \<noteq> None" unfolding chunk_at_None by (auto simp: chunk_key_def)
  then show ?thesis
    unfolding put
    by (subst chunk_at_map [where g = "if j = i \<and> m = n then \<lambda>b. body else id"])
       (auto simp: chunk_key_def option.map_id)
next
  case False
  then have "chunk_at cs i n = None" by (auto simp: chunk_at_None chunk_key_def)
  with False show ?thesis by (auto simp: put_chunk_def chunk_at_append chunk_at_Cons chunk_key_def split: option.splits)
qed

lemma put_chunk_keys:
  "map chunk_key (put_chunk i n body cs) =
     map chunk_key cs @ (if (i, n) \<in> chunk_key ` set cs then [] else [(i, n)])"
  by (auto simp: put_chunk_def chunk_key_def image_iff)

lemma put_chunk_distinct: "distinct_chunks cs \<Longrightarrow> distinct_chunks (put_chunk i n body cs)"
  by (simp add: distinct_chunks_def put_chunk_keys)

lemma put_chunk_entries: "c_entry ` set (put_chunk i n body cs) \<subseteq> insert i (c_entry ` set cs)"
  by (auto simp: put_chunk_def split: if_splits)

abbreviation put_chunks :: "nat \<Rightarrow> nat \<Rightarrow> byte list list \<Rightarrow> ChunkRow list \<Rightarrow> ChunkRow list" where
  "put_chunks i k bodies cs \<equiv> fold (\<lambda>(n, body). put_chunk i n body) (enumerate k bodies) cs"

lemma put_chunks_at:
  "chunk_at (put_chunks i k bodies cs) j m =
     (if j = i \<and> k \<le> m \<and> m < k + length bodies then Some (bodies ! (m - k)) else chunk_at cs j m)"
proof (induction bodies arbitrary: k cs)
  case (Cons b bodies)
  show ?case
    by (auto simp: Cons.IH put_chunk_at nth_Cons' intro: arg_cong [where f = "(!) bodies"])
qed auto

lemma put_chunks_ok:
  "distinct_chunks cs \<Longrightarrow> distinct_chunks (put_chunks i k bodies cs)"
  "c_entry ` set (put_chunks i k bodies cs) \<subseteq> insert i (c_entry ` set cs)"
proof (induction bodies arbitrary: k cs)
  case (Cons b bodies)
  { case 1 show ?case using Cons.IH(1) [OF put_chunk_distinct [OF 1]] by simp }
  { case 2 show ?case using Cons.IH(2) [of "Suc k" "put_chunk i k b cs"] put_chunk_entries [of i k b cs] by auto }
qed auto

lemma filter_chunks:
  assumes "\<And>c. P c = Q (c_entry c) (c_index c)"
  shows "chunk_at (filter P cs) i n = (if Q i n then chunk_at cs i n else None)"
    "distinct_chunks cs \<Longrightarrow> distinct_chunks (filter P cs)"
  by (induction cs) (auto simp: chunk_at_Cons chunk_key_def assms distinct_chunks_def)

lemma drop_tail_at:
  "chunk_at (filter (\<lambda>c. \<not> (c_entry c = i \<and> c_index c \<ge> k)) cs) j m =
    (if j = i \<and> m \<ge> k then None else chunk_at cs j m)"
  by (subst filter_chunks(1) [where Q = "\<lambda>j m. \<not> (j = i \<and> m \<ge> k)"]) auto

lemma drop_entry_at:
  "chunk_at (filter (\<lambda>c. c_entry c \<noteq> i) cs) j m = (if j = i then None else chunk_at cs j m)"
  by (subst filter_chunks(1) [where Q = "\<lambda>j m. j \<noteq> i"]) auto

lemma append_chunk_at:
  "chunk_at (map (\<lambda>c. if c_entry c = i \<and> c_index c = n then c\<lparr>c_body := c_body c @ suffix'\<rparr> else c) cs) j m =
     (if j = i \<and> m = n then map_option (\<lambda>b. b @ suffix') (chunk_at cs j m) else chunk_at cs j m)"
  by (subst chunk_at_map [where g = "if j = i \<and> m = n then \<lambda>b. b @ suffix' else id"])
     (auto simp: chunk_key_def option.map_id)

lemma map_chunks_ok:
  assumes "\<And>c. chunk_key (f c) = chunk_key c"
  shows "distinct_chunks cs \<Longrightarrow> distinct_chunks (map f cs)" "c_entry ` set (map f cs) = c_entry ` set cs"
proof -
  have "c_entry (f c) = c_entry c" for c using assms [of c] by (simp add: chunk_key_def)
  then show "c_entry ` set (map f cs) = c_entry ` set cs" by (auto simp: image_iff)
  have "chunk_key \<circ> f = chunk_key" using assms by auto
  then show "distinct_chunks cs \<Longrightarrow> distinct_chunks (map f cs)" by (simp add: distinct_chunks_def)
qed

section \<open>Comparing bodies\<close>

text \<open>The cursor over the stored rows accepts exactly the bodies that continue alike.\<close>

lemma match_chunk_ok:
  "match_chunk body rows chunk = None \<longleftrightarrow> \<not> prefix chunk (body @ concat rows)"
  "match_chunk body rows chunk = Some (body', rows') \<Longrightarrow> body @ concat rows = chunk @ body' @ concat rows'"
  by (induction body rows chunk rule: match_chunk.induct) (auto split: if_splits)

lemma match_chunks_ok: "match_chunks body rows bodies \<longleftrightarrow> prefix (concat bodies) (body @ concat rows)"
proof (induction bodies arbitrary: body rows)
  case (Cons b bodies)
  show ?case
  proof (cases "match_chunk body rows b")
    case None
    then show ?thesis using match_chunk_ok(1) [of body rows b] by (auto dest: append_prefixD)
  next
    case (Some x)
    then show ?thesis using Cons match_chunk_ok(2) [of body rows b] by (cases x) auto
  qed
qed simp

lemma inlineBodyMatches_ok:
  assumes "length (concat bodies) = length (body_of i (chunks t))"
  shows "inlineBodyMatches i bodies t \<longleftrightarrow> concat bodies = body_of i (chunks t)"
  using assms
  by (auto simp: inlineBodyMatches_def match_chunks_ok body_of_def stored_chunks_sorted prefix_def)

end
