(* ===== verification/Vfs_Tree.thy ===== *)
theory Vfs_Tree
  imports Vfs_Chunks Vfs_Resolution
begin

text \<open>
  The namespace as a tree, and what it stands for: a map from paths to directories, bytes,
  links and objects. The invariant of the tables (\<open>sound\<close>), the contents they represent
  (\<open>fs\<close>), and how rows grow older (\<open>evolves\<close>). The creation of directories and of missing
  parents (\<open>src/vfs/sql-content-base.ts\<close>) is shown to be \<open>mkdirs\<close> on the contents.
\<close>

section \<open>The invariant\<close>

definition parent_ok :: "EntryRow list \<Rightarrow> EntryRow \<Rightarrow> bool" where
  "parent_ok es e \<longleftrightarrow> canonical (e_path e) \<and>
     (e_path e \<noteq> [SLASH] \<longrightarrow> dirname (e_path e) = Inr (e_parent e) \<and>
        (\<exists>d \<in> set es. e_path d = e_parent e \<and> is_directory d))"

definition tree_ok :: "EntryRow list \<Rightarrow> bool" where
  "tree_ok es \<longleftrightarrow> distinct (map e_path es) \<and> distinct (map e_id es) \<and>
     (\<exists>d \<in> set es. e_path d = [SLASH] \<and> is_directory d) \<and> (\<forall>e \<in> set es. parent_ok es e)"

text \<open>No entry is hard-linked.\<close>

definition solitary :: "EntryRow \<Rightarrow> bool" where
  "solitary e \<longleftrightarrow> e_linkIdentity e = None \<and> (is_directory e \<or> e_linkCount e = 1)"

definition stored :: "EntryRow \<Rightarrow> ChunkRow list \<Rightarrow> bool" where
  "stored e cs \<longleftrightarrow> (\<exists>w bodies. 0 < w \<and> layout (e_id e) cs bodies \<and> slabs_of w (concat bodies) bodies \<and>
     length (concat bodies) = e_size e)"

definition bodies_ok :: "EntryRow list \<Rightarrow> ChunkRow list \<Rightarrow> bool" where
  "bodies_ok es cs \<longleftrightarrow> distinct_chunks cs \<and> c_entry ` set cs \<subseteq> e_id ` {e \<in> set es. is_inline e} \<and>
     (\<forall>e \<in> set es. is_inline e \<longrightarrow> stored e cs)"

definition inline_total :: "EntryRow list \<Rightarrow> int" where
  "inline_total es = (\<Sum>e\<leftarrow>es. if is_inline e then int (e_size e) else 0)"

definition object_ok :: "OpaqueObjectRow list \<Rightarrow> EntryRow \<Rightarrow> bool" where
  "object_ok obs e \<longleftrightarrow> (case e_kind e of Opaque i \<Rightarrow> i \<in> o_id ` set obs | _ \<Rightarrow> True)"

text \<open>A digest counts while its revision is the entry's, and then it is the body's; it is never ahead.\<close>

definition digest_ok :: "Config \<Rightarrow> ChunkRow list \<Rightarrow> EntryRow \<Rightarrow> bool" where
  "digest_ok cfg cs e \<longleftrightarrow> (is_inline e \<longrightarrow> e_digest_revision e \<le> e_revision e \<and>
     (e_digest_revision e = e_revision e \<longrightarrow> e_digest e \<in> {None, Some (sha256Hex cfg (body_of (e_id e) cs))}))"

definition sound :: "Config \<Rightarrow> View \<Rightarrow> bool" where
  "sound cfg v \<longleftrightarrow> tree_ok (v_entries v) \<and> (\<forall>e \<in> set (v_entries v). e_id e < v_nextIno v \<and> solitary e \<and>
       object_ok (v_objects v) e \<and> e_path e \<notin> fst ` set (v_tombstones v) \<and> digest_ok cfg (v_chunks v) e) \<and>
     distinct (map fst (v_tombstones v)) \<and>
     bodies_ok (v_entries v) (v_chunks v) \<and> v_charge v = (inline_total (v_entries v), int (length (v_entries v)))"

section \<open>The contents\<close>

datatype node = Dir | Data "byte list" | Link jstring | Blob nat

definition node_of :: "ChunkRow list \<Rightarrow> EntryRow \<Rightarrow> node" where
  "node_of cs e = (case e_kind e of Directory \<Rightarrow> Dir | Inline \<Rightarrow> Data (body_of (e_id e) cs)
     | Symlink t \<Rightarrow> Link t | Opaque i \<Rightarrow> Blob i)"

definition fs :: "View \<Rightarrow> jstring \<Rightarrow> node option" where
  "fs v p = map_option (node_of (v_chunks v)) (entry_at p (v_entries v))"

definition mkdirs :: "jstring \<Rightarrow> (jstring \<Rightarrow> node option) \<Rightarrow> jstring \<Rightarrow> node option" where
  "mkdirs p f q = (if f q = None \<and> canonical q \<and> below q p then Some Dir else f q)"

section \<open>Versions\<close>

text \<open>
  The version of a path: its entry's, or what its tombstone remembers. Rows keep their
  identity, and content that changes gets a new version.
\<close>

definition path_version :: "View \<Rightarrow> jstring \<Rightarrow> nat" where
  "path_version v p = (case entry_at p (v_entries v) of Some e \<Rightarrow> e_version e
     | None \<Rightarrow> (case map_of (v_tombstones v) p of Some n \<Rightarrow> n | None \<Rightarrow> 0))"

definition bare :: "EntryRow \<Rightarrow> EntryRow" where
  "bare e = e\<lparr>e_digest := None, e_digest_revision := 0\<rparr>"

definition same_row :: "EntryRow \<Rightarrow> EntryRow \<Rightarrow> bool" where
  "same_row e e' \<longleftrightarrow> bare e = bare e'"

definition ages :: "View \<Rightarrow> View \<Rightarrow> bool" where
  "ages v w \<longleftrightarrow> (\<forall>p. path_version v p \<le> path_version w p \<and>
     (fs v p \<noteq> fs w p \<longrightarrow> path_version v p < path_version w p))"

definition evolves :: "View \<Rightarrow> View \<Rightarrow> bool" where
  "evolves v w \<longleftrightarrow> ages v w \<and> v_nextIno v \<le> v_nextIno w \<and>
     (\<forall>e' \<in> set (v_entries w). v_nextIno v \<le> e_id e' \<or>
        (\<exists>e \<in> set (v_entries v). e_id e' = e_id e \<and> (e_version e < e_version e' \<or> same_row e e')))"

lemma same_row_refl [simp]: "same_row e e"
  by (simp add: same_row_def)

lemma same_row_trans: "same_row a b \<Longrightarrow> same_row b c \<Longrightarrow> same_row a c"
  by (simp add: same_row_def)

lemma bare_fields [simp]:
  "e_version (bare e) = e_version e" "e_path (bare e) = e_path e" "e_id (bare e) = e_id e"
  "e_kind (bare e) = e_kind e" "e_size (bare e) = e_size e" "e_revision (bare e) = e_revision e"
  by (simp_all add: bare_def)

lemma same_rowD:
  assumes "same_row a b"
  shows "e_version a = e_version b" "e_path a = e_path b" "e_id a = e_id b" "e_kind a = e_kind b" "e_size a = e_size b"
    "e_revision a = e_revision b"
  using assms bare_fields unfolding same_row_def by metis+

lemma ages_refl [simp]: "ages v v"
  by (simp add: ages_def)

lemma ages_trans: "ages u v \<Longrightarrow> ages v w \<Longrightarrow> ages u w"
  unfolding ages_def by (metis le_trans less_le_trans order.strict_trans1)

lemma evolves_refl [simp]: "evolves v v"
  by (auto simp: evolves_def)

lemma evolves_trans:
  assumes "evolves u v" "evolves v w"
  shows "evolves u w"
proof -
  have "v_nextIno u \<le> e_id e'' \<or>
      (\<exists>e \<in> set (v_entries u). e_id e'' = e_id e \<and> (e_version e < e_version e'' \<or> same_row e e''))"
    if "e'' \<in> set (v_entries w)" for e''
  proof (cases "v_nextIno v \<le> e_id e''")
    case True
    with assms(1) show ?thesis by (simp add: evolves_def)
  next
    case False
    with assms(2) that obtain e' where e': "e' \<in> set (v_entries v)" "e_id e'' = e_id e'"
      "e_version e' < e_version e'' \<or> same_row e' e''"
      by (auto simp: evolves_def)
    show ?thesis
    proof (cases "v_nextIno u \<le> e_id e'")
      case False
      with assms(1) e'(1) obtain e where e: "e \<in> set (v_entries u)" "e_id e' = e_id e"
        "e_version e < e_version e' \<or> same_row e e'"
        by (auto simp: evolves_def)
      with e' show ?thesis using same_rowD(1) same_row_trans less_trans by metis
    qed (use e'(2) in simp)
  qed
  moreover have "v_nextIno u \<le> v_nextIno w" using assms by (simp add: evolves_def)
  moreover have "ages u w" using assms ages_trans by (auto simp: evolves_def)
  ultimately show ?thesis by (simp add: evolves_def)
qed

section \<open>Paths above a path\<close>

lemma dirname_canonical:
  assumes "canonical p" "p \<noteq> [SLASH]"
  obtains q x where "dirname p = Inr q" "basename p = Inr x" "canonical q" "below q p"
    "\<And>r. canonical r \<Longrightarrow> below r p \<Longrightarrow> r = q \<or> below r q"
proof -
  obtain segs where segs: "p = path_of segs" "\<forall>seg \<in> set segs. valid_segment seg"
    using assms(1) by (rule canonicalE)
  with assms(2) have "segs \<noteq> []" by auto
  then obtain up x where up: "segs = up @ [x]" by (metis rev_exhaust)
  have q: "canonical (path_of up)" using canonical_append1 assms(1) segs up by blast
  have segments: "segments_of p = up @ [x]" "segments_of (path_of up) = up"
    using segs up by (simp_all add: segments_path_of)
  show thesis
  proof (rule that [of "path_of up" x])
    show "dirname p = Inr (path_of up)" "basename p = Inr x"
      using dirname_path_of [of up x] assms(1) segs up by auto
    show "below (path_of up) p" by (simp add: below_def segments strict_prefix_def)
    fix r assume r: "canonical r" "below r p"
    then have "segments_of r = up \<or> strict_prefix (segments_of r) up"
      by (auto simp: below_def segments strict_prefix_def)
    then show "r = path_of up \<or> below r (path_of up)"
      using canonical_segments [OF r(1)] by (auto simp: below_def segments)
  qed (rule q)
qed

lemma nothing_below_root: "canonical r \<Longrightarrow> \<not> below r [SLASH]"
proof -
  have "segments_of [SLASH] = []" using segments_path_of [of "[]"] by simp
  then show ?thesis by (simp add: below_def)
qed

section \<open>Rows of a tree\<close>

lemma entry_at_in: "distinct (map e_path es) \<Longrightarrow> e \<in> set es \<Longrightarrow> entry_at (e_path e) es = Some e"
  by (induction es) (auto simp: entry_at_def)

lemma entry_at_iff: "distinct (map e_path es) \<Longrightarrow> entry_at p es = Some e \<longleftrightarrow> e \<in> set es \<and> e_path e = p"
  using entry_at_in entry_at_SomeD by metis

lemma tree_entry: "tree_ok es \<Longrightarrow> entry_at p es = Some e \<longleftrightarrow> e \<in> set es \<and> e_path e = p"
  by (simp add: entry_at_iff tree_ok_def)

lemma tree_id: "tree_ok es \<Longrightarrow> e \<in> set es \<Longrightarrow> f \<in> set es \<Longrightarrow> e_id e = e_id f \<Longrightarrow> e = f"
  unfolding tree_ok_def distinct_map by (meson inj_onD)

lemma tree_path: "tree_ok es \<Longrightarrow> e \<in> set es \<Longrightarrow> f \<in> set es \<Longrightarrow> e_path e = e_path f \<Longrightarrow> e = f"
  unfolding tree_ok_def distinct_map by (meson inj_onD)

lemma tree_above:
  assumes "tree_ok es"
  shows "d \<in> set es \<Longrightarrow> canonical q \<Longrightarrow> below q (e_path d) \<Longrightarrow> \<exists>a \<in> set es. e_path a = q \<and> is_directory a"
proof (induction "length (segments_of (e_path d))" arbitrary: d rule: less_induct)
  case less
  have ok: "parent_ok es d" using assms less.prems(1) by (simp add: tree_ok_def)
  then have c: "canonical (e_path d)" by (simp add: parent_ok_def)
  have "e_path d \<noteq> [SLASH]" using less.prems(2,3) nothing_below_root by metis
  from dirname_canonical [OF c this] obtain up x where up: "dirname (e_path d) = Inr up"
    "below up (e_path d)" "\<And>r. canonical r \<Longrightarrow> below r (e_path d) \<Longrightarrow> r = up \<or> below r up"
    by metis
  from ok up(1) \<open>e_path d \<noteq> [SLASH]\<close> obtain a where a: "a \<in> set es" "e_path a = up" "is_directory a"
    by (auto simp: parent_ok_def)
  from up(3) [OF less.prems(2,3)] show ?case
  proof
    assume "below q up"
    moreover have "length (segments_of up) < length (segments_of (e_path d))"
      using up(2) by (simp add: below_def prefix_length_less)
    ultimately show ?thesis using less.hyps [of a] a less.prems(2) by simp
  qed (use a in blast)
qed

lemma tree_insert:
  assumes "tree_ok es" "fresh_row row es" "canonical (e_path row)" "dirname (e_path row) = Inr (e_parent row)"
    "d \<in> set es" "e_path d = e_parent row" "is_directory d"
  shows "tree_ok (es @ [row])"
proof -
  have "parent_ok es e \<Longrightarrow> parent_ok (es @ [row]) e" for e by (auto simp: parent_ok_def)
  moreover have "parent_ok (es @ [row]) row" using assms(3-) by (auto simp: parent_ok_def)
  ultimately show ?thesis using assms(1,2) by (auto simp: tree_ok_def fresh_row_def)
qed

section \<open>Rows that keep their place\<close>

text \<open>Rows that differ in times, versions, modes and digests only.\<close>

definition alike :: "EntryRow \<Rightarrow> EntryRow \<Rightarrow> bool" where
  "alike e e' \<longleftrightarrow> e_path e' = e_path e \<and> e_id e' = e_id e \<and> e_parent e' = e_parent e \<and> e_kind e' = e_kind e \<and>
     e_size e' = e_size e \<and> (solitary e \<longrightarrow> solitary e')"

lemma alike_is [simp]: "alike e e' \<Longrightarrow> is_directory e' = is_directory e" "alike e e' \<Longrightarrow> is_inline e' = is_inline e"
  by (simp_all add: alike_def is_directory_def is_inline_def)

lemma alike_map:
  assumes "list_all2 alike es es'"
  shows "map e_path es' = map e_path es" "map e_id es' = map e_id es" "inline_total es' = inline_total es"
    "length es' = length es"
  using assms by (induction rule: list_all2_induct) (auto simp: alike_def inline_total_def is_inline_def)

lemma alike_member: "list_all2 alike es es' \<Longrightarrow> e' \<in> set es' \<Longrightarrow> \<exists>e \<in> set es. alike e e'"
  by (induction rule: list_all2_induct) auto

lemma alike_member': "list_all2 alike es es' \<Longrightarrow> e \<in> set es \<Longrightarrow> \<exists>e' \<in> set es'. alike e e'"
  by (induction rule: list_all2_induct) auto

lemma alike_tree:
  assumes "list_all2 alike es es'" "tree_ok es"
  shows "tree_ok es'"
proof -
  have dirs: "\<exists>d' \<in> set es'. e_path d' = p \<and> is_directory d'"
    if "\<exists>d \<in> set es. e_path d = p \<and> is_directory d" for p
    using that alike_member' [OF assms(1)] by (metis alike_def alike_is(1))
  have "parent_ok es' e'" if "e' \<in> set es'" for e'
  proof -
    from alike_member [OF assms(1) that] obtain e where e: "e \<in> set es" "alike e e'" by blast
    with assms(2) have "parent_ok es e" by (simp add: tree_ok_def)
    with e(2) dirs [of "e_parent e"] show ?thesis by (auto simp: parent_ok_def alike_def)
  qed
  with assms dirs [of "[SLASH]"] show ?thesis by (simp add: tree_ok_def alike_map)
qed

lemma alike_entry_at:
  "list_all2 alike es es' \<Longrightarrow> rel_option alike (entry_at p es) (entry_at p es')"
  by (induction rule: list_all2_induct) (auto simp: entry_at_def alike_def)

lemma alike_fs:
  assumes "list_all2 alike (v_entries v) es"
  shows "fs (v\<lparr>v_entries := es\<rparr>) = fs v"
proof
  fix p
  from alike_entry_at [OF assms, of p] show "fs (v\<lparr>v_entries := es\<rparr>) p = fs v p"
    by (auto simp: fs_def node_of_def alike_def elim!: option.rel_cases split: entry_kind.splits)
qed

lemma alike_sound:
  assumes "list_all2 alike (v_entries v) es" "sound cfg v" "\<forall>e \<in> set es. digest_ok cfg (v_chunks v) e"
  shows "sound cfg (v\<lparr>v_entries := es\<rparr>)"
proof -
  note m = alike_member [OF assms(1)]
  have "e_id e' < v_nextIno v \<and> solitary e' \<and> object_ok (v_objects v) e' \<and>
      e_path e' \<notin> fst ` set (v_tombstones v) \<and> digest_ok cfg (v_chunks v) e'" if e': "e' \<in> set es" for e'
  proof -
    from m [OF e'] obtain e where e: "e \<in> set (v_entries v)" "alike e e'" by blast
    with assms(2) have "e_id e < v_nextIno v \<and> solitary e \<and> object_ok (v_objects v) e \<and>
        e_path e \<notin> fst ` set (v_tombstones v) \<and> digest_ok cfg (v_chunks v) e" by (simp add: sound_def)
    with e(2) e' assms(3) show ?thesis by (simp add: alike_def object_ok_def)
  qed
  moreover have "bodies_ok es (v_chunks v)"
  proof -
    have "e_id ` {e \<in> set (v_entries v). is_inline e} \<subseteq> e_id ` {e \<in> set es. is_inline e}"
      using alike_member' [OF assms(1)] by (auto simp: image_iff alike_def is_inline_def) metis
    moreover have "stored e' (v_chunks v)" if "e' \<in> set es" "is_inline e'" for e'
      using m [OF that(1)] that(2) assms(2) by (auto simp: sound_def bodies_ok_def stored_def alike_def is_inline_def)
    ultimately show ?thesis using assms(2) unfolding sound_def bodies_ok_def by blast
  qed
  ultimately show ?thesis
    using assms alike_tree [OF assms(1)] by (auto simp: sound_def alike_map)
qed

lemma touched_alike: "touched e e' \<Longrightarrow> alike e e'"
  by (auto simp: touched_def alike_def solitary_def is_directory_def)

lemma alike_trans: "alike a b \<Longrightarrow> alike b c \<Longrightarrow> alike a c"
  by (auto simp: alike_def)

lemma touched_entry_at:
  "all_touched es es' \<Longrightarrow> rel_option touched (entry_at p es) (entry_at p es')"
  by (induction rule: list_all2_induct) (auto simp: entry_at_def touched_def)

definition older :: "EntryRow \<Rightarrow> EntryRow \<Rightarrow> bool" where
  "older e e' \<longleftrightarrow> alike e e' \<and> (e_version e < e_version e' \<or> same_row e e')"

lemma older_evolves:
  assumes "list_all2 older (v_entries v) es"
  shows "evolves v (v\<lparr>v_entries := es\<rparr>)"
proof -
  have alike: "list_all2 alike (v_entries v) es" using assms by (rule list_all2_mono) (simp add: older_def)
  have "\<exists>e \<in> set (v_entries v). e_id e' = e_id e \<and> (e_version e < e_version e' \<or> same_row e e')" if "e' \<in> set es" for e'
    using assms that by (induction rule: list_all2_induct) (auto simp: older_def alike_def)
  moreover have "rel_option older (entry_at p (v_entries v)) (entry_at p es)" for p
    using assms by (induction rule: list_all2_induct) (auto simp: entry_at_def older_def alike_def)
  then have "path_version v p \<le> path_version (v\<lparr>v_entries := es\<rparr>) p" for p
    by (force simp: path_version_def older_def dest: same_rowD(1) elim!: option.rel_cases [of older "entry_at p (v_entries v)" "entry_at p es"])
  then have "ages v (v\<lparr>v_entries := es\<rparr>)" by (simp add: ages_def alike_fs [OF alike])
  ultimately show ?thesis by (simp add: evolves_def)
qed

lemma touched_evolves: "all_touched (v_entries v) es \<Longrightarrow> evolves v (v\<lparr>v_entries := es\<rparr>)"
  by (rule older_evolves, erule list_all2_mono) (auto simp: older_def touched_alike, auto simp: touched_def)

text \<open>What the end of a transaction does to the tables keeps all that is said here of them.\<close>

lemma flushed_ok:
  assumes "all_touched (v_entries v) es"
  shows "sound cfg v \<Longrightarrow> sound cfg (v\<lparr>v_entries := es\<rparr>)" "fs (v\<lparr>v_entries := es\<rparr>) = fs v"
    "evolves v (v\<lparr>v_entries := es\<rparr>)"
proof -
  have "list_all2 alike (v_entries v) es" using assms touched_alike by (rule list_all2_mono)
  then show "sound cfg v \<Longrightarrow> sound cfg (v\<lparr>v_entries := es\<rparr>)" "fs (v\<lparr>v_entries := es\<rparr>) = fs v"
  proof -
    assume alike: "list_all2 alike (v_entries v) es"
    then show "fs (v\<lparr>v_entries := es\<rparr>) = fs v" by (rule alike_fs)
    have "touched e e' \<Longrightarrow> digest_ok cfg cs e \<Longrightarrow> digest_ok cfg cs e'" for e e' cs
      by (auto simp: touched_def digest_ok_def is_directory_def is_inline_def)
    with assms have "\<forall>e \<in> set (v_entries v). digest_ok cfg (v_chunks v) e \<Longrightarrow> \<forall>e \<in> set es. digest_ok cfg (v_chunks v) e"
      by (induction rule: list_all2_induct) auto
    then show "sound cfg v \<Longrightarrow> sound cfg (v\<lparr>v_entries := es\<rparr>)"
      by (intro alike_sound [OF alike]) (auto simp: sound_def)
  qed
qed (rule touched_evolves, fact)

section \<open>Creating a directory\<close>

lemma inline_total_append [simp]: "inline_total (es @ fs') = inline_total es + inline_total fs'"
  by (simp add: inline_total_def)

lemma inline_total_Cons [simp]:
  "inline_total (e # es) = (if is_inline e then int (e_size e) else 0) + inline_total es"
  "inline_total [] = 0"
  by (simp_all add: inline_total_def)

lemma is_directory_not_inline [simp]: "is_directory e \<Longrightarrow> \<not> is_inline e"
  by (simp add: is_directory_def is_inline_def)

lemma drop_tombstone_ok:
  "fst ` set (drop_tombstone p ts) = fst ` set ts - {p}"
  "distinct (map fst ts) \<Longrightarrow> distinct (map fst (drop_tombstone p ts))"
  "q \<noteq> p \<Longrightarrow> map_of (drop_tombstone p ts) q = map_of ts q"
  by (induction ts) (auto simp: drop_tombstone_def)

lemma entry_at_snoc: "entry_at p (es @ [e]) = (case entry_at p es of Some d \<Rightarrow> Some d
    | None \<Rightarrow> if e_path e = p then Some e else None)"
  by (induction es) (auto simp: entry_at_def)

lemma fs_snoc:
  assumes "fresh_row row (v_entries v)" "v_entries w = v_entries v @ [row]"
    "\<And>e. e \<in> set (v_entries v) \<Longrightarrow> node_of (v_chunks w) e = node_of (v_chunks v) e"
  shows "fs w = (fs v)(e_path row \<mapsto> node_of (v_chunks w) row)"
proof
  fix p
  have "entry_at (e_path row) (v_entries v) = None" using assms(1) by (simp add: fresh_row_def entry_at_None)
  then show "fs w p = ((fs v)(e_path row \<mapsto> node_of (v_chunks w) row)) p"
    using assms(2,3) entry_at_SomeD [of p "v_entries v"] by (auto simp: fs_def entry_at_snoc split: option.splits)
qed

lemma with_directory_ok:
  assumes "sound cfg v" "new_directory path row v" "canonical path" "d \<in> set (v_entries v)" "dirname path = Inr (e_path d)"
    "is_directory d"
  shows "sound cfg (with_directory row v)" "fs (with_directory row v) = (fs v)(path \<mapsto> Dir)"
    "evolves v (with_directory row v)" "row \<in> set (v_entries (with_directory row v))"
proof -
  from assms(2) have row: "e_path row = path" "dirname path = Inr (e_parent row)" "is_directory row" "e_id row = v_nextIno v"
    "e_linkIdentity row = None" "fresh_row row (v_entries v)"
    by (simp_all add: new_directory_def)
  have tree: "tree_ok (v_entries v @ [row])"
    by (rule tree_insert [where d = d]) (use assms row in \<open>auto simp: sound_def\<close>)
  have "bodies_ok (v_entries v @ [row]) (v_chunks v)"
    using assms(1) row(3) by (auto simp: sound_def bodies_ok_def)
  with assms(1) row tree show "sound cfg (with_directory row v)"
    by (auto simp: sound_def with_directory_def charged_def drop_tombstone_ok solitary_def object_ok_def is_directory_def
        digest_ok_def is_inline_def less_Suc_eq split: entry_kind.splits)
  show "fs (with_directory row v) = (fs v)(path \<mapsto> Dir)"
    by (subst fs_snoc [OF row(6)])
       (use row in \<open>auto simp: with_directory_def charged_def node_of_def is_directory_def\<close>)
  have "ages v (with_directory row v)"
  proof (unfold ages_def, intro allI)
    fix p
    have "entry_at path (v_entries v) = None" using row(1,6) by (simp add: fresh_row_def entry_at_None)
    then show "path_version v p \<le> path_version (with_directory row v) p \<and>
        (fs v p \<noteq> fs (with_directory row v) p \<longrightarrow> path_version v p < path_version (with_directory row v) p)"
      using assms(2) row(1) unfolding \<open>fs (with_directory row v) = (fs v)(path \<mapsto> Dir)\<close>
      by (auto simp: path_version_def with_directory_def charged_def entry_at_snoc drop_tombstone_ok(3) new_directory_def
          next_version_def split: option.splits)
  qed
  then show "evolves v (with_directory row v)"
    using row(4) by (auto simp: evolves_def with_directory_def charged_def)
  show "row \<in> set (v_entries (with_directory row v))" by (simp add: with_directory_def charged_def)
qed

section \<open>Creating missing parents\<close>

lemma vpost_resolveEntry [vpost_intros]:
  assumes "\<And>r. r_row r = entry_at (r_path r) (v_entries v) \<Longrightarrow> (dotted_or_canonical path \<longrightarrow> canonical (r_path r)) \<Longrightarrow> Q r v"
  shows "vpost (resolveEntry_op path follow) v Q"
proof (rule vpostI)
  fix s r t assume "view s = v" "usage_ok s" "resolveEntry_op path follow s = (Inr r, t)"
  with assms [of r] resolveEntry_found [of "tables s" path follow r]
  show "Q r (view t) \<and> moved s (view t) t"
    by (auto simp: resolveEntry_op_def find_entry_at moved_def)
qed

lemma vpost_oneResolved [vpost_intros]:
  assumes "\<And>row. row \<in> set (v_entries v) \<Longrightarrow> Q (Some row) v" "Q None v"
  shows "vpost (oneResolved path follow) v Q"
  unfolding oneResolved_def
  by (intro vpost_intros) (metis assms entry_at_SomeD not_Some_eq)

fun chain :: "jstring \<Rightarrow> jstring list \<Rightarrow> jstring \<Rightarrow> bool" where
  "chain p [] q \<longleftrightarrow> p = q"
| "chain p (c # cs) q \<longleftrightarrow> dirname c = Inr p \<and> chain c cs q"

lemma chain_snoc: "chain p (cs @ [c]) q \<longleftrightarrow> c = q \<and> (\<exists>up. dirname c = Inr up \<and> chain p cs up)"
  by (induction cs arbitrary: p) auto

lemma dirname_root [simp]: "dirname [SLASH] = Inr [SLASH]"
  by (simp add: dirname_def)

lemma chain_above:
  "chain p cs q \<Longrightarrow> canonical q \<Longrightarrow> c \<in> set cs \<Longrightarrow> canonical c \<and> (c = q \<or> below c q)"
proof (induction cs arbitrary: q rule: rev_induct)
  case (snoc d cs)
  from snoc.prems(1) obtain up where up: "d = q" "dirname q = Inr up" "chain p cs up"
    by (auto simp: chain_snoc)
  show ?case
  proof (cases "q = [SLASH]")
    case True
    with snoc.IH [OF up(3)] snoc.prems up show ?thesis using nothing_below_root by auto
  next
    case False
    with snoc.prems(2) up(2) have "canonical up" "below up q" using dirname_canonical by (metis Inr_inject)+
    with snoc up below_trans show ?thesis by auto
  qed
qed simp

lemma vpost_missing_parents:
  "(\<And>row at' cs. row \<in> set (v_entries v) \<Longrightarrow> chain at' cs current \<Longrightarrow> Q (row, at', cs @ missing) v) \<Longrightarrow>
   vpost (missing_parents n current missing) v Q"
proof (induction n arbitrary: current missing)
  case (Suc n)
  show ?case
    unfolding missing_parents.simps
  proof (rule vpost_bind, rule vpost_oneResolved; simp)
    fix row assume "row \<in> set (v_entries v)"
    with Suc.prems [of row current "[]"] show "vpost (return_op (row, current, missing)) v Q"
      by (simp add: vpost_return)
  next
    show "vpost (bind_op (lift_op (dirname current)) (\<lambda>up. missing_parents n up (current # missing))) v Q"
    proof (rule vpost_bind, rule vpost_lift, rule Suc.IH)
      fix up row at' cs assume "dirname current = Inr up" "row \<in> set (v_entries v)" "chain at' cs up"
      with Suc.prems [of row at' "cs @ [current]"] show "Q (row, at', cs @ current # missing) v"
        by (simp add: chain_snoc)
    qed
  qed
qed (simp add: vpost_throw)

lemma vpost_requireDirectory_known [vpost_intros]:
  "(is_directory row \<Longrightarrow> Q row v) \<Longrightarrow> vpost (requireDirectory path (Some row)) v Q"
  unfolding requireDirectory_def or_require_def by (simp, intro vpost_intros) simp

lemma vpost_creationParents [vpost_intros]:
  assumes "\<And>up row cs. dirname path = Inr up \<Longrightarrow> row \<in> set (v_entries v) \<Longrightarrow> is_directory row \<Longrightarrow>
    chain (e_path row) cs up \<Longrightarrow> Q (row, cs) v"
  shows "vpost (creationParents path recursive) v Q"
  unfolding creationParents_def
  by (intro vpost_intros vpost_missing_parents) (use assms in auto)

text \<open>The directories that were made, and nothing else.\<close>

definition made :: "jstring list \<Rightarrow> View \<Rightarrow> View \<Rightarrow> bool" where
  "made cs v w \<longleftrightarrow> (\<forall>q. fs w q = (if q \<in> set cs then Some Dir else fs v q)) \<and> (\<forall>c \<in> set cs. fs v c = None)"

lemma vpost_create_chain:
  assumes "sound cfg v" "parent \<in> set (v_entries v)" "is_directory parent" "chain (e_path parent) cs up"
    "\<forall>c \<in> set cs. canonical c"
    "\<And>row w. sound cfg w \<Longrightarrow> evolves v w \<Longrightarrow> row \<in> set (v_entries w) \<Longrightarrow> is_directory row \<Longrightarrow> e_path row = up \<Longrightarrow>
       made cs v w \<Longrightarrow> v_charge w = (fst (v_charge v), snd (v_charge v) + int (length cs)) \<Longrightarrow> Q row w"
  shows "vpost (create_chain cfg now access cs parent) v Q"
  using assms
proof (induction cs arbitrary: v parent Q)
  case Nil
  then show ?case by (auto intro!: vpost_return simp: made_def)
next
  case (Cons c cs)
  show ?case
    unfolding create_chain.simps
  proof (intro vpost_bind vpost_createDirectory)
    fix row assume row: "new_directory c row v"
    have ok: "sound cfg (with_directory row v)" "fs (with_directory row v) = (fs v)(c \<mapsto> Dir)"
      "evolves v (with_directory row v)" "row \<in> set (v_entries (with_directory row v))"
      by (rule with_directory_ok [OF Cons.prems(1) row _ Cons.prems(2)]; use Cons.prems in simp)+
    have "is_directory row" "e_path row = c" "fresh_row row (v_entries v)" using row by (simp_all add: new_directory_def)
    then have fresh: "fs v c = None" by (auto simp: fs_def fresh_row_def entry_at_None)
    show "vpost (create_chain cfg now access cs row) (with_directory row v) Q"
    proof (rule Cons.IH [OF ok(1,4) \<open>is_directory row\<close>])
      fix row' w assume w: "sound cfg w" "evolves (with_directory row v) w" "row' \<in> set (v_entries w)" "is_directory row'"
        "e_path row' = up" "made cs (with_directory row v) w"
        "v_charge w = (fst (v_charge (with_directory row v)), snd (v_charge (with_directory row v)) + int (length cs))"
      have "made (c # cs) v w"
        using w(6) fresh unfolding made_def ok(2) by (auto split: if_splits)
      moreover have "v_charge w = (fst (v_charge v), snd (v_charge v) + int (length (c # cs)))"
        using w(7) by (simp add: with_directory_def charged_def)
      ultimately show "Q row' w" using w(1-5) ok(3) Cons.prems(6) evolves_trans by blast
    qed (use Cons.prems \<open>e_path row = c\<close> in auto)
  qed
qed

lemma made_mkdirs:
  assumes "sound cfg w" "canonical path" "path \<noteq> [SLASH]" "dirname path = Inr up" "made cs v w"
    "row \<in> set (v_entries w)" "e_path row = up" "\<forall>c \<in> set cs. canonical c \<and> (c = up \<or> below c up)"
  shows "fs w = mkdirs path (fs v)"
proof
  fix q
  from dirname_canonical [OF assms(2,3)] assms(4) have up: "below up path"
    "\<And>r. canonical r \<Longrightarrow> below r path \<Longrightarrow> r = up \<or> below r up" by (metis Inr_inject)+
  have tree: "tree_ok (v_entries w)" using assms(1) by (simp add: sound_def)
  show "fs w q = mkdirs path (fs v) q"
  proof (cases "q \<in> set cs")
    case True
    with assms(5,8) up(1) below_trans show ?thesis by (auto simp: made_def mkdirs_def)
  next
    case False
    have "fs v q \<noteq> None" if "canonical q" "below q path"
    proof -
      have "\<exists>a \<in> set (v_entries w). e_path a = q"
        using up(2) [OF that] assms(6,7) tree_above [OF tree assms(6) that(1)] by blast
      then have "fs w q \<noteq> None" using tree_entry [OF tree] by (auto simp: fs_def)
      with False assms(5) show ?thesis by (simp add: made_def)
    qed
    with False assms(5) show ?thesis by (auto simp: made_def mkdirs_def)
  qed
qed

definition within :: "Config \<Rightarrow> View \<Rightarrow> bool" where
  "within cfg v \<longleftrightarrow> fst (v_charge v) \<le> int (maxInlineLogicalBytes cfg) \<and> snd (v_charge v) \<le> int (maxEntries cfg)"

lemma within_fits:
  "within cfg v \<Longrightarrow> fits cfg (v_charge v) b n \<Longrightarrow> v_charge w = (fst (v_charge v) + b, snd (v_charge v) + n) \<Longrightarrow> within cfg w"
  by (auto simp: within_def fits_def)

lemma vpost_createMissingParents:
  assumes "sound cfg v" "canonical path" "path \<noteq> [SLASH]"
    and up: "dirname path = Inr up" "row \<in> set (v_entries v)" "is_directory row" "chain (e_path row) cs up"
    and post: "\<And>row w. sound cfg w \<Longrightarrow> evolves v w \<Longrightarrow> row \<in> set (v_entries w) \<Longrightarrow> is_directory row \<Longrightarrow>
       dirname path = Inr (e_path row) \<Longrightarrow> fs w = mkdirs path (fs v) \<Longrightarrow> (within cfg v \<longrightarrow> within cfg w) \<Longrightarrow> Q row w"
  shows "vpost (createMissingParents cfg path now access (row, cs)) v Q"
proof -
  have "canonical up" using dirname_canonical [OF assms(2,3)] up(1) by (metis Inr_inject)
  note above = chain_above [OF up(4) this]
  have last': "length cs = 0 \<Longrightarrow> e_path row = up" using up(4) by simp
  show ?thesis
    unfolding createMissingParents_def fst_conv snd_conv
    apply (intro vpost_intros)
    subgoal premises none
      using post [of v row] up last' [OF none] made_mkdirs [OF assms(1-3) up(1), of "[]" v row] assms(1)
      by (auto simp: made_def)
    apply (rule vpost_assertCapacity)
    apply (rule vpost_create_chain [OF assms(1) up(2-4)])
    subgoal using above by blast
    subgoal for row' w
      using post [of w row'] up(1) made_mkdirs [OF _ assms(2,3) up(1), of cfg w cs v row'] above
        within_fits [of cfg v 0 "int (length cs)" w] by auto
    done
qed

lemma vpost_prepareParents:
  assumes "sound cfg v" "canonical path" "path \<noteq> [SLASH]"
    "\<And>row w. sound cfg w \<Longrightarrow> evolves v w \<Longrightarrow> row \<in> set (v_entries w) \<Longrightarrow> is_directory row \<Longrightarrow>
       dirname path = Inr (e_path row) \<Longrightarrow> fs w = mkdirs path (fs v) \<Longrightarrow> (within cfg v \<longrightarrow> within cfg w) \<Longrightarrow> Q row w"
  shows "vpost (prepareParents cfg path recursive now followed access) v Q"
  unfolding prepareParents_def
  apply (rule vpost_bind, rule vpost_creationParents, rule vpost_bind, rule vpost_silent)
  subgoal by (intro silent_intros)
  by (rule vpost_createMissingParents [OF assms(1-3)]) (use assms(4) in auto)

end
