(* ===== verification/Vfs_Rows.thy ===== *)
theory Vfs_Rows
  imports Vfs_Tree
begin

text \<open>
  The parts of a write as changes of the tables (\<open>src/vfs/sql-write-plan-base.ts\<close>,
  \<open>src/vfs/sql-content-base.ts\<close>): a row and its chunks are replaced or added, a digest is
  filled in, an object goes. Each keeps the tables sound and is an update of the contents.
\<close>

section \<open>Replacing the body of a row\<close>

text \<open>The chunks of one entry are replaced, and the others are as they were.\<close>

definition rebodied :: "nat \<Rightarrow> byte list list \<Rightarrow> ChunkRow list \<Rightarrow> ChunkRow list \<Rightarrow> bool" where
  "rebodied i bodies cs cs' \<longleftrightarrow> distinct_chunks cs' \<and> layout i cs' bodies \<and>
     (\<forall>j n. j \<noteq> i \<longrightarrow> chunk_at cs' j n = chunk_at cs j n) \<and>
     c_entry ` set cs' \<subseteq> insert i (c_entry ` set cs) \<and> (bodies = [] \<longrightarrow> c_entry ` set cs' \<subseteq> c_entry ` set cs)"

lemma rebodied_stored:
  assumes "rebodied i bodies cs cs'" "distinct_chunks cs" "e_id e \<noteq> i" "stored e cs"
  shows "stored e cs'" "body_of (e_id e) cs' = body_of (e_id e) cs"
proof -
  from assms(4) obtain w bs where bs: "0 < w" "layout (e_id e) cs bs" "slabs_of w (concat bs) bs"
    "length (concat bs) = e_size e" by (auto simp: stored_def)
  have "layout (e_id e) cs' bs"
    using bs(2) assms(1,3) by (auto simp: layout_def rebodied_def)
  with bs assms(1,2) layout_body show "stored e cs'" "body_of (e_id e) cs' = body_of (e_id e) cs"
    by (auto simp: stored_def rebodied_def)
qed

definition replace_row :: "EntryRow \<Rightarrow> EntryRow list \<Rightarrow> EntryRow list" where
  "replace_row r' es = map (\<lambda>e. if e_id e = e_id r' then r' else e) es"

text \<open>A row that takes the place of \<open>r\<close> and has these bytes as its content.\<close>

definition content_row :: "EntryRow \<Rightarrow> nat \<Rightarrow> EntryRow \<Rightarrow> bool" where
  "content_row r size' r' \<longleftrightarrow> e_path r' = e_path r \<and> e_id r' = e_id r \<and> e_parent r' = e_parent r \<and>
     e_linkIdentity r' = e_linkIdentity r \<and> e_linkCount r' = e_linkCount r \<and>
     e_kind r' = Inline \<and> e_size r' = size' \<and> e_version r < e_version r'"

definition old_size :: "EntryRow \<Rightarrow> int" where
  "old_size r = (if is_inline r then int (e_size r) else 0)"

lemma replace_row_facts:
  assumes "tree_ok es" "r \<in> set es" "content_row r n r'" "\<not> is_directory r"
  shows "map e_path (replace_row r' es) = map e_path es" "map e_id (replace_row r' es) = map e_id es"
    "set (replace_row r' es) = insert r' (set es - {r})"
    "inline_total (replace_row r' es) = inline_total es + int n - old_size r"
    "tree_ok (replace_row r' es)"
proof -
  have same: "e = r" if "e \<in> set es" "e_id e = e_id r'" for e
    using that assms(1-3) tree_id by (auto simp: content_row_def)
  then show paths: "map e_path (replace_row r' es) = map e_path es"
    using assms(3) by (auto simp: replace_row_def content_row_def)
  show ids: "map e_id (replace_row r' es) = map e_id es"
    by (auto simp: replace_row_def)
  show set': "set (replace_row r' es) = insert r' (set es - {r})"
    using assms(2,3) same by (auto simp: replace_row_def content_row_def image_iff)
  show "inline_total (replace_row r' es) = inline_total es + int n - old_size r"
  proof -
    obtain as bs where es: "es = as @ r # bs" using assms(2) by (auto simp: in_set_conv_decomp)
    have "e_id e \<noteq> e_id r" if "e \<in> set as \<union> set bs" for e
    proof -
      have "distinct (map e_id es)" using assms(1) by (simp add: tree_ok_def)
      then have "e_id r \<notin> e_id ` (set as \<union> set bs)" by (auto simp: es)
      with that show ?thesis by (metis imageI)
    qed
    then have "replace_row r' es = as @ r' # bs"
      using assms(3) unfolding es replace_row_def by (auto simp: content_row_def intro!: map_idI)
    with assms(3) show ?thesis by (simp add: es old_size_def content_row_def is_inline_def)
  qed
  have dirs: "\<exists>d' \<in> set (replace_row r' es). e_path d' = p \<and> is_directory d'"
    if "\<exists>d \<in> set es. e_path d = p \<and> is_directory d" for p
    using that assms(4) unfolding set' by auto
  have "parent_ok (replace_row r' es) e" if "e \<in> set (replace_row r' es)" for e
  proof -
    have "parent_ok es e \<Longrightarrow> parent_ok (replace_row r' es) e" for e
      using dirs by (auto simp: parent_ok_def)
    moreover have "parent_ok es e" if "e \<in> set es" for e using assms(1) that by (simp add: tree_ok_def)
    moreover have "parent_ok es r \<Longrightarrow> parent_ok es r'"
      using assms(3) by (simp add: parent_ok_def content_row_def)
    ultimately show ?thesis using that assms(2) unfolding set' by auto
  qed
  with assms(1) dirs [of "[SLASH]"] paths ids show "tree_ok (replace_row r' es)" by (simp add: tree_ok_def)
qed

lemma replace_row_at:
  assumes "tree_ok es" "r \<in> set es" "content_row r n r'" "\<not> is_directory r"
  shows "entry_at p (replace_row r' es) = (if p = e_path r then Some r' else entry_at p es)"
proof -
  note f = replace_row_facts [OF assms]
  show ?thesis
  proof (cases "p = e_path r")
    case True
    with f(3,5) assms(3) show ?thesis by (simp add: tree_entry content_row_def)
  next
    case False
    show ?thesis
    proof (cases "entry_at p es")
      case None
      then have "p \<notin> set (map e_path (replace_row r' es))" unfolding f(1) by (simp add: entry_at_None)
      then have "entry_at p (replace_row r' es) = None" by (simp add: entry_at_None)
      with None False show ?thesis by simp
    next
      case (Some e)
      with assms(1) have "e \<in> set es" "e_path e = p" by (simp_all add: tree_entry)
      with False f(3,5) have "entry_at p (replace_row r' es) = Some e" by (auto simp: tree_entry)
      with Some False show ?thesis by simp
    qed
  qed
qed

text \<open>The effect of a write on an existing row.\<close>

definition overwritten :: "EntryRow \<Rightarrow> EntryRow \<Rightarrow> ChunkRow list \<Rightarrow> OpaqueObjectRow list \<Rightarrow> View \<Rightarrow> View" where
  "overwritten r r' cs obs v = charged (int (e_size r') - old_size r) 0
     (v\<lparr>v_entries := replace_row r' (v_entries v), v_chunks := cs, v_objects := obs\<rparr>)"

lemma overwritten_ok:
  assumes "sound cfg v" "r \<in> set (v_entries v)" "\<not> is_directory r" "content_row r n r'"
    "rebodied (e_id r) bodies (v_chunks v) cs" "0 < w" "slabs_of w (concat bodies) bodies" "n = length (concat bodies)"
    "digest_ok cfg cs r'" "\<forall>e \<in> set (v_entries v) - {r}. object_ok obs e"
  shows "sound cfg (overwritten r r' cs obs v)"
    "fs (overwritten r r' cs obs v) = (fs v)(e_path r \<mapsto> Data (concat bodies))"
    "evolves v (overwritten r r' cs obs v)"
proof -
  let ?w = "overwritten r r' cs obs v"
  have tree: "tree_ok (v_entries v)" and bodies: "bodies_ok (v_entries v) (v_chunks v)"
    using assms(1) by (simp_all add: sound_def)
  note f = replace_row_facts [OF tree assms(2,4,3)]
  have fields: "v_entries ?w = replace_row r' (v_entries v)" "v_chunks ?w = cs" "v_objects ?w = obs"
    "v_tombstones ?w = v_tombstones v" "v_nextIno ?w = v_nextIno v"
    "v_charge ?w = (fst (v_charge v) + (int n - old_size r), snd (v_charge v))"
    using assms(4) by (simp_all add: overwritten_def charged_def content_row_def)
  have r': "is_inline r'" "e_id r' = e_id r" "e_path r' = e_path r" "e_size r' = n"
    using assms(4) by (simp_all add: content_row_def is_inline_def)
  have other: "e_id e \<noteq> e_id r" if "e \<in> set (v_entries v) - {r}" for e
    using that assms(2) tree_id [OF tree] by auto
  have other_body: "is_inline e \<Longrightarrow> stored e cs \<and> body_of (e_id e) cs = body_of (e_id e) (v_chunks v)"
    if "e \<in> set (v_entries v) - {r}" for e
    using rebodied_stored [OF assms(5) _ other [OF that]] bodies that by (auto simp: bodies_ok_def)
  have "layout (e_id r) cs bodies" "distinct_chunks cs" using assms(5) by (simp_all add: rebodied_def)
  then have stored': "stored r' cs" "body_of (e_id r') cs = concat bodies"
    using assms(6-8) r' layout_body by (auto simp: stored_def)
  have "c_entry ` set cs \<subseteq> e_id ` {e \<in> set (replace_row r' (v_entries v)). is_inline e}"
  proof -
    let ?ids = "e_id ` {e \<in> set (replace_row r' (v_entries v)). is_inline e}"
    have "e_id e \<in> ?ids" if "e \<in> set (v_entries v)" "is_inline e" for e
      using that r' unfolding f(3) by (cases "e = r") (force simp: image_iff)+
    then have "e_id ` {e \<in> set (v_entries v). is_inline e} \<subseteq> ?ids" by blast
    moreover have "e_id r \<in> ?ids" using r' unfolding f(3) by (force simp: image_iff)
    moreover have "c_entry ` set cs \<subseteq> insert (e_id r) (c_entry ` set (v_chunks v))"
      using assms(5) by (simp add: rebodied_def)
    moreover have "c_entry ` set (v_chunks v) \<subseteq> e_id ` {e \<in> set (v_entries v). is_inline e}"
      using bodies by (simp add: bodies_ok_def)
    ultimately show ?thesis by (meson insert_subset subset_trans insert_mono)
  qed
  then have bodies': "bodies_ok (replace_row r' (v_entries v)) cs"
    using stored' other_body \<open>distinct_chunks cs\<close> unfolding bodies_ok_def f(3) by auto
  have row: "e_id e < v_nextIno v \<and> solitary e \<and> object_ok obs e \<and> e_path e \<notin> fst ` set (v_tombstones v) \<and>
      digest_ok cfg cs e" if e: "e \<in> set (replace_row r' (v_entries v))" for e
  proof (cases "e = r'")
    case True
    have "e_id r < v_nextIno v \<and> solitary r \<and> e_path r \<notin> fst ` set (v_tombstones v)"
      using assms(1,2) by (simp add: sound_def)
    with assms(3,4,9) r' True show ?thesis
      by (auto simp: solitary_def object_ok_def content_row_def)
  next
    case False
    with e have e: "e \<in> set (v_entries v) - {r}" unfolding f(3) by simp
    then have "e_id e < v_nextIno v \<and> solitary e \<and> e_path e \<notin> fst ` set (v_tombstones v) \<and> digest_ok cfg (v_chunks v) e"
      using assms(1) by (simp add: sound_def)
    with e other_body [OF e] assms(10) show ?thesis by (auto simp: digest_ok_def)
  qed
  have "length (replace_row r' (v_entries v)) = length (v_entries v)" by (simp add: replace_row_def)
  then show "sound cfg ?w"
    using assms(1) row bodies' f(4,5) unfolding sound_def fields by simp
  have at: "entry_at p (v_entries ?w) = (if p = e_path r then Some r' else entry_at p (v_entries v))" for p
    unfolding fields by (rule replace_row_at [OF tree assms(2,4,3)])
  have entry: "entry_at p (v_entries v) = Some e \<Longrightarrow> p \<noteq> e_path r \<Longrightarrow> e \<in> set (v_entries v) - {r}" for p e
    using tree_entry [OF tree] by auto
  show fs: "fs ?w = (fs v)(e_path r \<mapsto> Data (concat bodies))"
  proof
    fix p
    have "node_of cs e = node_of (v_chunks v) e" if "e \<in> set (v_entries v) - {r}" for e
      using other_body [OF that] by (auto simp: node_of_def is_inline_def split: entry_kind.splits)
    moreover have "node_of cs r' = Data (concat bodies)"
      using stored'(2) r'(1) by (simp add: node_of_def is_inline_def)
    ultimately show "fs ?w p = ((fs v)(e_path r \<mapsto> Data (concat bodies))) p"
      using entry [of p] by (auto simp: fs_def at fields(2) intro!: option.map_cong0 option.map_cong)
  qed
  have "entry_at (e_path r) (v_entries v) = Some r" using assms(2) by (simp add: tree_entry [OF tree])
  then have "path_version v (e_path r) = e_version r" by (simp add: path_version_def)
  moreover have "path_version ?w p = (if p = e_path r then e_version r' else path_version v p)" for p
    unfolding path_version_def at fields(4) by simp
  ultimately have "ages v ?w"
    using assms(4) by (auto simp: ages_def fs content_row_def)
  then show "evolves v ?w"
    using assms(2,4) f(3) unfolding evolves_def fields by (auto simp: content_row_def)
qed

section \<open>Adding a row with a body\<close>

definition new_file :: "jstring \<Rightarrow> nat \<Rightarrow> EntryRow \<Rightarrow> View \<Rightarrow> bool" where
  "new_file path n row v \<longleftrightarrow> e_path row = path \<and> dirname path = Inr (e_parent row) \<and> e_kind row = Inline \<and>
     e_size row = n \<and> e_id row = v_nextIno v \<and> e_linkIdentity row = None \<and> e_linkCount row = 1 \<and>
     e_version row = next_version path 0 (v_tombstones v) \<and> fresh_row row (v_entries v)"

definition with_file :: "EntryRow \<Rightarrow> ChunkRow list \<Rightarrow> View \<Rightarrow> View" where
  "with_file row cs v = charged (int (e_size row)) 1 (v\<lparr>v_entries := v_entries v @ [row], v_chunks := cs,
     v_tombstones := drop_tombstone (e_path row) (v_tombstones v), v_nextIno := v_nextIno v + 1\<rparr>)"

lemma with_file_ok:
  assumes "sound cfg v" "new_file path n row v" "canonical path" "d \<in> set (v_entries v)" "dirname path = Inr (e_path d)"
    "is_directory d" "rebodied (e_id row) bodies (v_chunks v) cs" "0 < w" "slabs_of w (concat bodies) bodies"
    "n = length (concat bodies)" "digest_ok cfg cs row"
  shows "sound cfg (with_file row cs v)" "fs (with_file row cs v) = (fs v)(path \<mapsto> Data (concat bodies))"
    "evolves v (with_file row cs v)"
proof -
  let ?w = "with_file row cs v"
  from assms(2) have row: "e_path row = path" "dirname path = Inr (e_parent row)" "is_inline row" "e_size row = n"
    "e_id row = v_nextIno v" "e_linkIdentity row = None" "e_linkCount row = 1" "fresh_row row (v_entries v)"
    "e_version row = next_version path 0 (v_tombstones v)"
    by (simp_all add: new_file_def is_inline_def)
  have fields: "v_entries ?w = v_entries v @ [row]" "v_chunks ?w = cs" "v_objects ?w = v_objects v"
    "v_tombstones ?w = drop_tombstone path (v_tombstones v)" "v_nextIno ?w = v_nextIno v + 1"
    "v_charge ?w = (fst (v_charge v) + int n, snd (v_charge v) + 1)"
    using row(1,4) by (simp_all add: with_file_def charged_def)
  have bodies: "bodies_ok (v_entries v) (v_chunks v)" using assms(1) by (simp add: sound_def)
  have old: "e_id e < v_nextIno v \<and> solitary e \<and> object_ok (v_objects v) e \<and> e_path e \<notin> fst ` set (v_tombstones v) \<and>
      digest_ok cfg (v_chunks v) e" if "e \<in> set (v_entries v)" for e
    using assms(1) that by (simp add: sound_def)
  have other_body: "is_inline e \<Longrightarrow> stored e cs \<and> body_of (e_id e) cs = body_of (e_id e) (v_chunks v)"
    if "e \<in> set (v_entries v)" for e
    using rebodied_stored [OF assms(7)] bodies that old [OF that] row(5) by (auto simp: bodies_ok_def)
  have tree: "tree_ok (v_entries v @ [row])"
    by (rule tree_insert [where d = d]) (use assms row in \<open>auto simp: sound_def\<close>)
  have "layout (e_id row) cs bodies" "distinct_chunks cs" using assms(7) by (simp_all add: rebodied_def)
  then have stored': "stored row cs" "body_of (e_id row) cs = concat bodies"
    using assms(8-10) row layout_body by (auto simp: stored_def)
  have "c_entry ` set cs \<subseteq> insert (e_id row) (c_entry ` set (v_chunks v))" using assms(7) by (simp add: rebodied_def)
  moreover have "c_entry ` set (v_chunks v) \<subseteq> e_id ` {e \<in> set (v_entries v). is_inline e}"
    using bodies by (simp add: bodies_ok_def)
  ultimately have "c_entry ` set cs \<subseteq> e_id ` {e \<in> set (v_entries v @ [row]). is_inline e}"
    using row(3) by (simp add: subset_iff image_iff) blast
  then have bodies': "bodies_ok (v_entries v @ [row]) cs"
    using stored' other_body \<open>distinct_chunks cs\<close> unfolding bodies_ok_def by auto
  have "e_id e < v_nextIno v + 1 \<and> solitary e \<and> object_ok (v_objects v) e \<and>
      e_path e \<notin> fst ` set (drop_tombstone path (v_tombstones v)) \<and> digest_ok cfg cs e"
    if "e \<in> set (v_entries v @ [row])" for e
  proof (cases "e \<in> set (v_entries v)")
    case True
    with old [OF True] other_body [OF True] show ?thesis by (auto simp: digest_ok_def drop_tombstone_ok)
  next
    case False
    with that row assms(11) show ?thesis
      by (auto simp: solitary_def object_ok_def is_inline_def drop_tombstone_ok)
  qed
  then show "sound cfg ?w"
    using assms(1) bodies' tree row(3,4) unfolding sound_def fields by (simp add: drop_tombstone_ok)
  have "node_of cs e = node_of (v_chunks v) e" if "e \<in> set (v_entries v)" for e
    using other_body [OF that] by (auto simp: node_of_def is_inline_def split: entry_kind.splits)
  moreover have "node_of cs row = Data (concat bodies)" using stored'(2) row(3) by (simp add: node_of_def is_inline_def)
  ultimately show fs: "fs ?w = (fs v)(path \<mapsto> Data (concat bodies))"
    using fs_snoc [OF row(8), of ?w] row(1) by (simp add: fields)
  have none: "entry_at path (v_entries v) = None" using row(1,8) by (simp add: fresh_row_def entry_at_None)
  have "path_version ?w p = (if p = path then e_version row else path_version v p)" for p
    unfolding path_version_def fields using none row(1)
    by (auto simp: entry_at_snoc drop_tombstone_ok(3) split: option.splits)
  moreover have "path_version v path < e_version row"
    using none row(9) by (auto simp: path_version_def next_version_def split: option.splits)
  ultimately have "ages v ?w" by (auto simp: ages_def fs)
  then show "evolves v ?w" using row(5) unfolding evolves_def fields by auto
qed

section \<open>What the parts of a commit do\<close>

definition token_at :: "Config \<Rightarrow> View \<Rightarrow> jstring \<Rightarrow> jstring" where
  "token_at cfg v path = (case entry_at path (v_entries v) of Some e \<Rightarrow> mutationToken cfg e
     | None \<Rightarrow> (case map_of (v_tombstones v) path of None \<Rightarrow> NEVER_MUTATED_TOKEN
        | Some n \<Rightarrow> formatMutationToken (mutationEpoch cfg) n))"

lemma vpost_pathState_token:
  "Q (entry_at path (v_entries v), token_at cfg v path) v \<Longrightarrow> vpost (pathState cfg path) v Q"
  unfolding pathState_def
  by (rule vpost_gets) (auto simp: find_entry_at token_at_def find_tombstone_def split: option.splits)

lemma vpost_publishToken [vpost_intros]:
  assumes "Q (formatMutationToken (mutationEpoch cfg) version') v"
  shows "vpost (publishToken cfg path version' present mop identity) v Q"
proof (rule vpostI)
  fix s x t assume "view s = v" "usage_ok s" "publishToken cfg path version' present mop identity s = (Inr x, t)"
  then have s: "view s = v" "publishToken cfg path version' present mop identity s = (Inr x, t)" by simp_all
  then have "x = formatMutationToken (mutationEpoch cfg) version'"
    unfolding publishToken_def by (auto simp: Let_def)
  moreover have "moved s (view t) t" "view t = v"
    using silentD [OF silent_publish(2) s(2)] s(1) by (auto simp: like_def moved_def)
  ultimately show "Q x (view t) \<and> moved s (view t) t" using assms by simp
qed

lemma put_chunks_one: "length bodies = 1 \<Longrightarrow> put_chunks i k bodies cs = put_chunk i k (bodies ! 0) cs"
  by (cases bodies) auto

lemma vpost_writeChunks [vpost_intros]:
  assumes "Q () (v\<lparr>v_chunks := put_chunks i k bodies (v_chunks v)\<rparr>)"
  shows "vpost (writeChunks i k bodies single) v Q"
  unfolding writeChunks_def
  apply (intro vpost_intros vpost_gets)
  subgoal using assms by (simp add: put_chunks_one)
  subgoal using assms by simp
  subgoal using assms by simp
  done

text \<open>An object goes only when nothing refers to it any more.\<close>

definition without_object :: "nat \<Rightarrow> View \<Rightarrow> View" where
  "without_object i v = v\<lparr>v_objects := filter (\<lambda>ob. o_id ob \<noteq> i) (v_objects v)\<rparr>"

lemma silent_queueGarbage [silent_intros]: "silent (queueGarbage key n)"
  unfolding queueGarbage_def exec_op_def by (intro silent_modify) (auto simp: silent_defs split: option.splits)

lemma vpost_queueObject:
  assumes "\<And>x. Q x v" "\<forall>e \<in> set (v_entries v). \<not> references i e \<Longrightarrow> Q True (without_object i v)"
  shows "vpost (queueObjectIfUnreferenced i now) v Q"
  unfolding queueObjectIfUnreferenced_def
  apply (intro vpost_bind vpost_gets)
  apply (intro vpost_intros)
  subgoal by (rule assms(1))
  subgoal
    apply (rule vpost_silent)
    subgoal by (intro silent_intros)
    apply (intro vpost_intros)
    using assms(2) by (auto simp: without_object_def split: if_splits)
  done

lemma without_object_ok:
  assumes "sound cfg v" "\<forall>e \<in> set (v_entries v). \<not> references i e"
  shows "sound cfg (without_object i v)" "fs (without_object i v) = fs v" "evolves v (without_object i v)"
    "token_at cfg (without_object i v) p = token_at cfg v p"
proof -
  have "object_ok (v_objects v) e \<Longrightarrow> object_ok (v_objects (without_object i v)) e" if "e \<in> set (v_entries v)" for e
    using assms(2) that by (auto simp: object_ok_def references_def without_object_def split: entry_kind.splits)
  with assms(1) show "sound cfg (without_object i v)" by (auto simp: sound_def without_object_def)
  show same: "fs (without_object i v) = fs v" by (simp add: fs_def without_object_def fun_eq_iff)
  have "path_version (without_object i v) p = path_version v p" for p
    by (cases "entry_at p (v_entries v)") (simp_all add: path_version_def without_object_def)
  then show "evolves v (without_object i v)"
    by (auto simp: evolves_def ages_def same) (auto simp: without_object_def)
  show "token_at cfg (without_object i v) p = token_at cfg v p"
    by (cases "entry_at p (v_entries v)") (simp_all add: token_at_def without_object_def)
qed

lemma rebodied_put:
  assumes "distinct_chunks cs1" "\<And>n. length bodies \<le> n \<Longrightarrow> chunk_at cs1 i n = None"
    "\<And>j n. j \<noteq> i \<Longrightarrow> chunk_at cs1 j n = chunk_at cs j n" "c_entry ` set cs1 \<subseteq> c_entry ` set cs"
  shows "rebodied i bodies cs (put_chunks i 0 bodies cs1)"
  unfolding rebodied_def layout_def
proof (intro conjI allI impI)
  show "c_entry ` set (put_chunks i 0 bodies cs1) \<subseteq> insert i (c_entry ` set cs)"
    using put_chunks_ok(2) [of i 0 bodies cs1] assms(4) by (meson insert_mono subset_trans)
qed (use assms put_chunks_ok(1) [OF assms(1)] in \<open>simp_all add: put_chunks_at\<close>)

lemma last_chunk_index_bound:
  "last_chunk_index i t = Some m \<Longrightarrow> chunk_at (chunks t) i n \<noteq> None \<Longrightarrow> n \<le> m"
  "last_chunk_index i t = None \<Longrightarrow> chunk_at (chunks t) i n = None"
proof -
  have "\<forall>x \<in> insert k (set ns). x \<le> foldl max k ns" for k :: nat and ns
  proof (induction ns arbitrary: k)
    case (Cons a ns)
    from Cons [of "max k a"] show ?case by simp
  qed simp
  note bound = this
  assume last': "last_chunk_index i t = Some m" "chunk_at (chunks t) i n \<noteq> None"
  let ?ns = "map c_index (filter (\<lambda>c. c_entry c = i) (chunks t))"
  from last'(2) have "n \<in> set ?ns" by (auto dest!: chunk_at_SomeD)
  moreover from last'(1) obtain k ns where "?ns = k # ns" "m = foldl max k ns"
    by (auto simp: last_chunk_index_def split: list.splits)
  ultimately show "n \<le> m" using bound [of k ns] by auto
next
  show "last_chunk_index i t = None \<Longrightarrow> chunk_at (chunks t) i n = None"
    by (auto simp: last_chunk_index_def chunk_at_None chunk_key_def filter_empty_conv split: list.splits)
qed

section \<open>Comparing before writing\<close>

definition with_digest :: "nat \<Rightarrow> nat \<Rightarrow> jstring option \<Rightarrow> View \<Rightarrow> View" where
  "with_digest i revision digest v = v\<lparr>v_entries :=
     map (\<lambda>e. if e_id e = i then e\<lparr>e_digest := digest, e_digest_revision := revision\<rparr> else e) (v_entries v)\<rparr>"

lemma with_digest_ok:
  assumes "sound cfg v" "r \<in> set (v_entries v)" "digest = Some (sha256Hex cfg (body_of (e_id r) (v_chunks v)))" "n \<le> e_revision r"
  shows "sound cfg (with_digest (e_id r) n digest v)" "fs (with_digest (e_id r) n digest v) = fs v"
    "evolves v (with_digest (e_id r) n digest v)"
    "token_at cfg (with_digest (e_id r) n digest v) p = token_at cfg v p"
proof -
  let ?f = "\<lambda>e. if e_id e = e_id r then e\<lparr>e_digest := digest, e_digest_revision := n\<rparr> else e"
  have same: "bare (?f e) = bare e" for e by (simp add: bare_def)
  have alike: "list_all2 alike (v_entries v) (map ?f (v_entries v))"
    by (auto simp: list_all2_conv_all_nth alike_def solitary_def is_directory_def)
  have "\<forall>e \<in> set (map ?f (v_entries v)). digest_ok cfg (v_chunks v) e"
    using assms tree_id [of "v_entries v"] by (fastforce simp: sound_def digest_ok_def is_inline_def)
  from alike_sound [OF alike assms(1) this] show "sound cfg (with_digest (e_id r) n digest v)"
    by (simp add: with_digest_def)
  show fs: "fs (with_digest (e_id r) n digest v) = fs v"
    using alike_fs [OF alike] by (simp add: with_digest_def)
  have at: "entry_at p (map ?f es) = map_option ?f (entry_at p es)" for p es
    by (induction es) (auto simp: entry_at_def)
  have "path_version (with_digest (e_id r) n digest v) p = path_version v p" for p
    by (cases "entry_at p (v_entries v)") (simp_all add: path_version_def with_digest_def at)
  then have "ages v (with_digest (e_id r) n digest v)" by (simp add: ages_def fs)
  then show "evolves v (with_digest (e_id r) n digest v)"
  proof -
    have rows: "\<exists>e \<in> set (v_entries v). e_id e' = e_id e \<and> same_row e e'" if e': "e' \<in> set (map ?f (v_entries v))" for e'
    proof -
      from e' obtain e where "e \<in> set (v_entries v)" "e' = ?f e" by auto
      moreover have "same_row e (?f e)" unfolding same_row_def same ..
      moreover have "e_id (?f e) = e_id e" by simp
      ultimately show ?thesis by metis
    qed
    have fields: "v_entries (with_digest (e_id r) n digest v) = map ?f (v_entries v)"
      "v_nextIno (with_digest (e_id r) n digest v) = v_nextIno v" by (simp_all add: with_digest_def)
    assume "ages v (with_digest (e_id r) n digest v)"
    then show ?thesis unfolding evolves_def fields using rows by blast
  qed
  show "token_at cfg (with_digest (e_id r) n digest v) p = token_at cfg v p"
    by (cases "entry_at p (v_entries v)") (simp_all add: token_at_def with_digest_def at mutationToken_def)
qed

lemma vpost_bodyIsUnchanged:
  assumes "Q False v"
    "\<And>e. e \<in> set (v_entries v) \<Longrightarrow> e_id e = i \<Longrightarrow> digest \<noteq> None \<Longrightarrow> e_digest e = digest \<Longrightarrow>
       e_digest_revision e = e_revision e \<Longrightarrow> Q True v"
    "\<And>t. chunks t = v_chunks v \<Longrightarrow> inlineBodyMatches i bodies t \<Longrightarrow>
       Q True (if digest = None then v else with_digest i revision digest v)"
  shows "vpost (bodyIsUnchanged i revision bodies digest) v Q"
  unfolding bodyIsUnchanged_def
proof (intro vpost_bind vpost_gets vpost_if; (intro vpost_return)?)
  fix s
  assume s: "view s = v" "(if digest = None then None else storedDigest i (tables s)) \<noteq> None"
  then obtain e where found: "digest \<noteq> None" "find (\<lambda>e. e_id e = i) (entries (tables s)) = Some e"
    and fresh: "e_digest e \<noteq> None" "e_digest_revision e = e_revision e"
    by (auto simp: storedDigest_def bind_eq_Some_conv split: if_splits)
  then obtain d where "e_digest e = Some d" "storedDigest i (tables s) = Some d"
    by (auto simp: storedDigest_def)
  with found fresh s(1) find_SomeD [OF found(2)]
  have e: "digest \<noteq> None" "e \<in> set (v_entries v)" "e_id e = i" "e_digest e = Some d"
    "e_digest_revision e = e_revision e" "storedDigest i (tables s) = Some d"
    by auto
  show "Q ((if digest = None then None else storedDigest i (tables s)) = digest) v"
    using assms(1) assms(2) [OF e(2,3,1)] e by (cases "digest = Some d") auto
next
  show "Q False v" by (rule assms(1))
next
  fix s s'
  assume s: "view s' = v" "\<not> \<not> inlineBodyMatches i bodies (tables s')"
  from assms(3) [of "tables s'"] s have "Q True (if digest = None then v else with_digest i revision digest v)"
    by (auto simp: view_def)
  then show "vpost (when_op (digest \<noteq> None) (exec_op (update_entry i (\<lambda>e. e\<lparr>e_digest := digest, e_digest_revision := revision\<rparr>)))) v
      (\<lambda>_ w. vpost (return_op True) w Q)"
    unfolding update_entry_def [abs_def]
    by (intro vpost_intros) (auto simp: with_digest_def split: if_splits)
qed

section \<open>Writing the row\<close>

lemma update_replaces:
  assumes "tree_ok es" "r \<in> set es" "e_id (f r) = e_id r"
  shows "map (\<lambda>e. if e_id e = e_id r then f e else e) es = replace_row (f r) es"
proof -
  have "e = r" if "e \<in> set es" "e_id e = e_id r" for e using tree_id [OF assms(1) that(1) assms(2)] that(2) .
  with assms(3) show ?thesis by (auto simp: replace_row_def intro!: map_cong)
qed

lemma vpost_writeInline:
  assumes "tree_ok (v_entries v)" "is_inline e" "r \<in> set (v_entries v)" "same_row e r" "Q None v"
    "\<And>last'. (\<And>n. chunk_at (v_chunks v) (e_id r) n \<noteq> None \<Longrightarrow> \<exists>m. last' = Some m \<and> n \<le> m) \<Longrightarrow>
       Q (Some (e_id r, e_revision r + 1, last'))
         (v\<lparr>v_entries := replace_row (rewritten size' (i_mode mutation) now digest (i_version mutation) r) (v_entries v)\<rparr>)"
  shows "vpost (writeInlineEntry plan (Some e) mutation size' digest now) v Q"
proof -
  have id: "e_id e = e_id r" using assms(4) by (rule same_rowD)
  show ?thesis
    unfolding writeInlineEntry_def Let_def
    apply (simp only: option.case assms(2) if_True)
    apply (intro vpost_bind vpost_gets)
    apply (rule vpost_option)
    subgoal by (intro vpost_return assms(5))
    subgoal premises found for s r'
    proof -
      have r': "r' = r"
        using found tree_id [OF assms(1) _ assms(3)] id by (auto dest!: find_SomeD)
      show ?thesis
        unfolding r' update_entry_def [abs_def]
        apply (intro vpost_bind vpost_gets vpost_exec_table vpost_return)
        unfolding id
        subgoal premises s for s' t
          using assms(6) [of "last_chunk_index (e_id r) (tables s')"] s(2)
            update_replaces [OF assms(1,3), of "rewritten size' (i_mode mutation) now digest (i_version mutation)"]
            last_chunk_index_bound [of "e_id r" "tables s'"] s(1)
          by (cases "last_chunk_index (e_id r) (tables s')") (auto simp: rewritten_def view_def)
        done
    qed
    done
qed

lemma vpost_writeInline_stale:
  assumes "is_inline e" "p_conditional plan = Some (e_version e)"
    "\<forall>r \<in> set (v_entries v). e_id r = e_id e \<longrightarrow> e_version r \<noteq> e_version e" "Q None v"
  shows "vpost (writeInlineEntry plan (Some e) mutation size' digest now) v Q"
  unfolding writeInlineEntry_def Let_def
  apply (simp only: option.case assms(1,2) if_True)
  apply (intro vpost_bind vpost_gets)
  apply (rule vpost_option)
  subgoal by (intro vpost_return assms(4))
  subgoal using assms(3) by (auto dest!: find_SomeD)
  done

lemma vpost_writeOver:
  assumes "tree_ok (v_entries v)" "\<not> is_inline e" "r \<in> set (v_entries v)" "same_row e r" "e_path e = p_path plan"
    "\<not> is_symlink r \<Longrightarrow> Q (Some (e_id r, e_revision r + 1, None))
       (v\<lparr>v_entries := replace_row (rewritten size' (i_mode mutation) now digest (i_version mutation) r) (v_entries v)\<rparr>)"
  shows "vpost (writeInlineEntry plan (Some e) mutation size' digest now) v Q"
proof -
  have "entry_at (p_path plan) (v_entries v) = Some r"
    using assms(3,5) same_rowD(2) [OF assms(4)] by (simp add: tree_entry [OF assms(1)])
  then show ?thesis
    unfolding writeInlineEntry_def Let_def
    apply (simp only: option.case assms(2) if_False)
    apply (intro vpost_bind vpost_return vpost_oneEntry)
    apply (simp only: option.case update_entry_def [abs_def])
    apply (intro vpost_intros)
    using assms(6) update_replaces [OF assms(1,3), of "rewritten size' (i_mode mutation) now digest (i_version mutation)"]
    by (auto simp: rewritten_def)
qed

lemma vpost_writeNew:
  assumes "entry_at (p_path plan) (v_entries v) = None"
    "\<And>row. e_path row = p_path plan \<Longrightarrow> dirname (p_path plan) = Inr (e_parent row) \<Longrightarrow> e_kind row = Inline \<Longrightarrow>
       e_size row = size' \<Longrightarrow> e_id row = v_nextIno v \<Longrightarrow> e_linkIdentity row = None \<Longrightarrow> e_linkCount row = 1 \<Longrightarrow>
       e_version row = i_version mutation \<Longrightarrow> e_digest row = digest \<and> e_digest_revision row = e_revision row \<Longrightarrow> fresh_row row (v_entries v) \<Longrightarrow>
       Q (Some (v_nextIno v, 1, None)) (v\<lparr>v_nextIno := v_nextIno v + 1, v_entries := v_entries v @ [row]\<rparr>)"
  shows "vpost (writeInlineEntry plan None mutation size' digest now) v Q"
  unfolding writeInlineEntry_def Let_def
  apply (simp only: option.case)
  apply (intro vpost_bind vpost_allocateIno vpost_oneEntry)
  apply (simp add: assms(1) del: One_nat_def)
  apply (intro vpost_intros)
  apply (simp del: One_nat_def)
  apply (rule assms(2))
  apply simp_all
  done

section \<open>Finishing a write\<close>

definition finished :: "InlineMutationPlan \<Rightarrow> nat \<Rightarrow> byte list list \<Rightarrow> EntryRow option \<Rightarrow> View \<Rightarrow> View \<Rightarrow> bool" where
  "finished mutation i bodies current v w \<longleftrightarrow>
     (let v1 = charged (i_inlineDelta mutation) (i_entryDelta mutation) (v\<lparr>v_chunks := put_chunks i 0 bodies (v_chunks v)\<rparr>) in
      w = v1 \<or> (\<exists>e j. current = Some e \<and> e_kind e = Opaque j \<and> w = without_object j v1 \<and>
        (\<forall>x \<in> set (v_entries v1). \<not> references j x)))"

lemma vpost_finish:
  assumes "\<And>queued w. finished mutation i bodies current v w \<Longrightarrow>
    Q (\<lparr>wr_path = p_path plan, wr_revision = revision,
        wr_token = formatMutationToken (mutationEpoch cfg) (i_version mutation), wr_size = size',
        wr_created = (current = None)\<rparr>, queued) w"
  shows "vpost (finishInlineWrite cfg plan current mutation i revision bodies size' now) v Q"
  unfolding finishInlineWrite_def
  apply (intro vpost_bind vpost_publishToken vpost_writeChunks vpost_updateUsage)
  apply (cases current)
  subgoal using assms by (auto simp: finished_def intro!: vpost_return)
  subgoal for e
    apply (cases "e_kind e")
    subgoal using assms by (auto simp: finished_def intro!: vpost_return)
    subgoal using assms by (auto simp: finished_def intro!: vpost_return)
    subgoal using assms by (auto simp: finished_def intro!: vpost_return)
    subgoal for j
      apply (simp only: option.case entry_kind.case)
      apply (rule vpost_queueObject)
      subgoal using assms by (intro vpost_return) (auto simp: finished_def Let_def)
      subgoal using assms by (intro vpost_return) (auto simp: finished_def Let_def)
      done
    done
  done

lemma finished_charge:
  "finished mutation i bodies current v w \<Longrightarrow>
   v_charge w = (fst (v_charge v) + i_inlineDelta mutation, snd (v_charge v) + i_entryDelta mutation)"
  by (auto simp: finished_def Let_def charged_def without_object_def)

definition abs_write :: "jstring \<Rightarrow> byte list \<Rightarrow> (jstring \<Rightarrow> node option) \<Rightarrow> jstring \<Rightarrow> node option" where
  "abs_write p bytes f = (mkdirs p f)(p \<mapsto> Data bytes)"

text \<open>What holds after a write of these bytes.\<close>

definition committed :: "Config \<Rightarrow> jstring \<Rightarrow> byte list \<Rightarrow> View \<Rightarrow> WriteResult \<Rightarrow> View \<Rightarrow> bool" where
  "committed cfg path bytes v result w \<longleftrightarrow> sound cfg w \<and> evolves v w \<and> fs w = abs_write path bytes (fs v) \<and>
     wr_path result = path \<and> wr_size result = length bytes \<and> wr_token result = token_at cfg w path"

text \<open>The parents are there, and nothing else has changed.\<close>

definition ready :: "Config \<Rightarrow> jstring \<Rightarrow> View \<Rightarrow> View \<Rightarrow> bool" where
  "ready cfg path v u \<longleftrightarrow> sound cfg u \<and> evolves v u \<and> fs u = mkdirs path (fs v) \<and> (within cfg v \<longrightarrow> within cfg u)"

lemma ready_committed:
  assumes "ready cfg path v u" "sound cfg w" "evolves u w" "fs w = (fs u)(path \<mapsto> Data bytes)"
    "wr_path result = path" "wr_size result = length bytes" "wr_token result = token_at cfg w path"
  shows "committed cfg path bytes v result w"
  using assms evolves_trans by (auto simp: committed_def ready_def abs_write_def)

text \<open>Bodies in slabs, and the digest that goes with them.\<close>

definition body_given :: "Config \<Rightarrow> byte list list \<Rightarrow> nat \<Rightarrow> jstring option \<Rightarrow> bool" where
  "body_given cfg bodies size' digest \<longleftrightarrow> (\<exists>w. 0 < w \<and> slabs_of w (concat bodies) bodies) \<and> size' = length (concat bodies) \<and>
     digest \<in> {None, Some (sha256Hex cfg (concat bodies))}"

lemma finished_over:
  assumes u: "ready cfg path v u" "r \<in> set (v_entries u)" "e_path r = path" "\<not> is_directory r" "same_row e r"
    and body: "body_given cfg bodies size' digest"
    and cs: "distinct_chunks cs1" "\<And>n. length bodies \<le> n \<Longrightarrow> chunk_at cs1 (e_id r) n = None"
      "\<And>j n. j \<noteq> e_id r \<Longrightarrow> chunk_at cs1 j n = chunk_at (v_chunks u) j n" "c_entry ` set cs1 \<subseteq> c_entry ` set (v_chunks u)"
    and m: "i_inlineDelta mutation = int size' - old_size r" "i_entryDelta mutation = 0"
      "i_version mutation = e_version r + 1"
    and fin: "finished mutation (e_id r) bodies (Some e)
      (u\<lparr>v_entries := replace_row (rewritten size' (i_mode mutation) now digest (i_version mutation) r) (v_entries u),
         v_chunks := cs1\<rparr>) w"
  shows "committed cfg path (concat bodies) v \<lparr>wr_path = path, wr_revision = n,
    wr_token = formatMutationToken (mutationEpoch cfg) (i_version mutation), wr_size = size', wr_created = c\<rparr> w"
proof -
  let ?r' = "rewritten size' (i_mode mutation) now digest (i_version mutation) r"
  let ?cs = "put_chunks (e_id r) 0 bodies cs1"
  let ?w1 = "overwritten r ?r' ?cs (v_objects u) u"
  have sound: "sound cfg u" using u(1) by (simp add: ready_def)
  have reb: "rebodied (e_id r) bodies (v_chunks u) ?cs" by (rule rebodied_put [OF cs])
  have row: "content_row r size' ?r'" using m(3) by (simp add: content_row_def rewritten_def)
  have body_of: "body_of (e_id r) ?cs = concat bodies"
    using reb layout_body by (simp add: rebodied_def)
  obtain k where k: "0 < k" "slabs_of k (concat bodies) bodies" and size: "size' = length (concat bodies)"
    and digest: "digest_ok cfg ?cs ?r'"
    using body body_of by (auto simp: body_given_def digest_ok_def rewritten_def)
  have "\<forall>e \<in> set (v_entries u) - {r}. object_ok (v_objects u) e" using sound by (simp add: sound_def)
  note over = overwritten_ok [OF sound u(2,4) row reb k size digest this]
  have tree: "tree_ok (v_entries ?w1)" using over(1) by (simp add: sound_def)
  have "?r' \<in> set (v_entries ?w1)"
    using u(2) by (auto simp: overwritten_def charged_def replace_row_def rewritten_def image_iff)
  moreover have "e_path ?r' = path" "e_version ?r' = i_version mutation" using u(3) by (simp_all add: rewritten_def)
  ultimately have tok: "token_at cfg ?w1 path = formatMutationToken (mutationEpoch cfg) (i_version mutation)"
    using tree_entry [OF tree, of path ?r'] by (simp add: token_at_def mutationToken_def)
  have w1: "charged (i_inlineDelta mutation) (i_entryDelta mutation)
      (u\<lparr>v_entries := replace_row ?r' (v_entries u), v_chunks := ?cs\<rparr>) = ?w1"
    using m(1,2) by (simp add: overwritten_def charged_def rewritten_def)
  from fin w1 consider "w = ?w1" | j where "w = without_object j ?w1" "\<forall>x \<in> set (v_entries ?w1). \<not> references j x"
    by (auto simp: finished_def Let_def)
  then show ?thesis
  proof cases
    case 1
    show ?thesis
      by (rule ready_committed [OF u(1)]) (use 1 over tok size u(3) in auto)
  next
    case 2
    note wo = without_object_ok [OF over(1) 2(2)]
    show ?thesis
      by (rule ready_committed [OF u(1)]) (use 2 over wo tok size u(3) evolves_trans in auto)
  qed
qed

lemma finished_new:
  assumes u: "ready cfg path v u" "canonical path" "d \<in> set (v_entries u)" "dirname path = Inr (e_path d)" "is_directory d"
    and body: "body_given cfg bodies size' digest"
    and row: "new_file path size' row u" "e_digest row = digest \<and> e_digest_revision row = e_revision row"
    and m: "i_inlineDelta mutation = int size'" "i_entryDelta mutation = 1" "i_version mutation = e_version row"
    and fin: "finished mutation (e_id row) bodies None
      (u\<lparr>v_tombstones := drop_tombstone path (v_tombstones u), v_nextIno := v_nextIno u + 1,
         v_entries := v_entries u @ [row]\<rparr>) w"
  shows "committed cfg path (concat bodies) v \<lparr>wr_path = path, wr_revision = n,
    wr_token = formatMutationToken (mutationEpoch cfg) (i_version mutation), wr_size = size', wr_created = c\<rparr> w"
proof -
  let ?cs = "put_chunks (e_id row) 0 bodies (v_chunks u)"
  have sound: "sound cfg u" using u(1) by (simp add: ready_def)
  have row': "e_path row = path" "e_id row = v_nextIno u" "fresh_row row (v_entries u)" "e_size row = size'"
    using row(1) by (simp_all add: new_file_def)
  have none: "chunk_at (v_chunks u) (e_id row) n = None" for n
  proof -
    have "c_entry ` set (v_chunks u) \<subseteq> e_id ` set (v_entries u)" using sound by (auto simp: sound_def bodies_ok_def)
    with row'(3) show ?thesis by (auto simp: chunk_at_None chunk_key_def fresh_row_def)
  qed
  have "distinct_chunks (v_chunks u)" using sound by (simp add: sound_def bodies_ok_def)
  then have reb: "rebodied (e_id row) bodies (v_chunks u) ?cs" by (rule rebodied_put) (simp_all add: none)
  have body_of: "body_of (e_id row) ?cs = concat bodies"
    using reb layout_body by (simp add: rebodied_def)
  obtain k where k: "0 < k" "slabs_of k (concat bodies) bodies" and size: "size' = length (concat bodies)"
    and digest: "digest_ok cfg ?cs row"
    using body body_of row(2) by (auto simp: body_given_def digest_ok_def)
  note added = with_file_ok [OF sound row(1) u(2-5) reb k size digest]
  have w: "w = with_file row ?cs u"
    using fin m row' by (auto simp: finished_def Let_def with_file_def charged_def)
  have tree: "tree_ok (v_entries w)" using added(1) w by (simp add: sound_def)
  have "row \<in> set (v_entries w)" by (simp add: w with_file_def charged_def)
  with tree_entry [OF tree, of path row] row'(1) m(3)
  have "token_at cfg w path = formatMutationToken (mutationEpoch cfg) (i_version mutation)"
    by (simp add: token_at_def mutationToken_def)
  then show ?thesis
    by (intro ready_committed [OF u(1)]) (use added w size in auto)
qed

end
