(* ===== verification/Vfs_Commit.thy ===== *)
theory Vfs_Commit
  imports Vfs_Rows
begin

text \<open>
  What committing a write does (\<open>src/vfs/sql-write-plan-base.ts\<close>): the tables stay
  sound, the contents become \<open>abs_write\<close> of what they were, and the path gets a new
  version, whatever branch the code takes.
\<close>

section \<open>Committing\<close>

lemma vpost_inlineMutationPlan:
  assumes "\<And>m. (\<not> deferCapacity \<longrightarrow> fits cfg (v_charge v) (i_inlineDelta m) (i_entryDelta m)) \<Longrightarrow>
    i_inlineDelta m = (int size' - (case current of Some e \<Rightarrow> old_size e | None \<Rightarrow> 0)) *
      int (case current of Some e \<Rightarrow> e_linkCount e | None \<Rightarrow> 1) \<Longrightarrow>
    i_entryDelta m = (if current = None then 1 else 0) \<Longrightarrow>
    i_version m = (case current of Some e \<Rightarrow> e_version e + 1 | None \<Rightarrow> next_version (p_path plan) 0 (v_tombstones v)) \<Longrightarrow>
    Q m (if current = None then v\<lparr>v_tombstones := drop_tombstone (p_path plan) (v_tombstones v)\<rparr> else v)"
  shows "vpost (inlineMutationPlan cfg plan current parent size' posix deferCapacity) v Q"
  unfolding inlineMutationPlan_def Let_def
  apply (rule vpost_bind, rule vpost_silent)
  subgoal by (intro silent_intros)
  apply (rule vpost_bind, rule vpost_silent)
  subgoal by (intro silent_intros)
  apply (rule vpost_bind)
  apply (rule vpost_weaken [where Q' = "\<lambda>_ w. w = v \<and> (\<not> deferCapacity \<longrightarrow> fits cfg (v_charge v)
      ((int size' - int (case current of None \<Rightarrow> 0 | Some e \<Rightarrow> if is_inline e then e_size e else 0)) *
        int (case current of None \<Rightarrow> 1 | Some e \<Rightarrow> e_linkCount e)) (if current = None then 1 else 0))"])
  subgoal by (intro vpost_when vpost_assertCapacity) simp_all
  apply (elim conjE, hypsubst)
  apply (cases current)
  subgoal
    apply (simp only: option.case)
    apply (intro vpost_bind vpost_nextEntryVersion vpost_return)
    using assms by simp
  subgoal premises p
    using p(1) unfolding p(2) option.case
    by (intro vpost_bind vpost_return)
       (use assms in \<open>simp add: p(2) old_size_def split: if_splits\<close>)
  done

text \<open>
  The entry a commit starts from: none, the row that is stored, or (when the entry of an
  earlier read is written without another look) one whose version is gone.
\<close>

definition cur_ok :: "View \<Rightarrow> InlineWritePlan \<Rightarrow> EntryRow option \<Rightarrow> bool" where
  "cur_ok v plan current \<longleftrightarrow>
     (case current of None \<Rightarrow> entry_at (p_path plan) (v_entries v) = None
      | Some e \<Rightarrow> e_path e = p_path plan \<and>
          ((\<exists>r \<in> set (v_entries v). same_row e r) \<or>
           (is_inline e \<and> p_conditional plan = Some (e_version e) \<and> \<not> p_skipIfUnchanged plan \<and>
            (\<forall>r \<in> set (v_entries v). e_id r = e_id e \<longrightarrow> e_version r \<noteq> e_version e))))"

definition no_collision :: "Config \<Rightarrow> View \<Rightarrow> jstring \<Rightarrow> byte list \<Rightarrow> bool" where
  "no_collision cfg v path bytes \<longleftrightarrow> (\<forall>old. fs v path = Some (Data old) \<longrightarrow> sha256Hex cfg old = sha256Hex cfg bytes \<longrightarrow> old = bytes)"

lemma mkdirs_existing:
  assumes "sound cfg v" "d \<in> set (v_entries v)" "e_path d = path \<or> dirname path = Inr (e_path d) \<and> canonical path \<and> path \<noteq> [SLASH]"
  shows "mkdirs path (fs v) = fs v"
proof
  fix q
  have tree: "tree_ok (v_entries v)" using assms(1) by (simp add: sound_def)
  have "fs v q \<noteq> None" if q: "canonical q" "below q path"
  proof -
    from assms(3) have "q = e_path d \<or> below q (e_path d)"
      using q dirname_canonical [of path] by (metis Inr_inject)
    then have "\<exists>a \<in> set (v_entries v). e_path a = q" using tree_above [OF tree assms(2) q(1)] assms(2) by blast
    then show ?thesis using tree_entry [OF tree] by (auto simp: fs_def)
  qed
  then show "mkdirs path (fs v) q = fs v q" by (auto simp: mkdirs_def)
qed

lemma mkdirs_at [simp]: "mkdirs path f path = f path"
  by (simp add: mkdirs_def)

lemma ready_refl: "sound cfg v \<Longrightarrow> mkdirs path (fs v) = fs v \<Longrightarrow> ready cfg path v v"
  by (simp add: ready_def)

lemma vpost_unchanged:
  assumes "sound cfg v" "cur_ok v plan current" "body_given cfg bodies size' digest"
    "p_skipIfUnchanged plan \<longrightarrow> no_collision cfg v (p_path plan) (concat bodies)" "Q None v"
    "\<And>result w. committed cfg (p_path plan) (concat bodies) v
        (result\<lparr>wr_token := token_at cfg v (p_path plan)\<rparr>) w \<Longrightarrow> p_skipIfUnchanged plan \<Longrightarrow>
      v_charge w = v_charge v \<Longrightarrow> wr_token result = p_capturedToken plan \<Longrightarrow> Q (Some (result, False)) w"
  shows "vpost (unchangedInlineWrite plan current bodies size' digest) v Q"
proof (cases current)
  case None
  then show ?thesis by (simp add: unchangedInlineWrite_def vpost_return assms(5))
next
  case (Some e)
  show ?thesis
  proof (cases "\<not> p_skipIfUnchanged plan \<or> \<not> is_inline e \<or> e_size e \<noteq> size'")
    case True
    then show ?thesis by (auto simp: Some unchangedInlineWrite_def intro!: vpost_return vpost_if assms(5))
  next
    case False
    with Some assms(2) obtain r where r: "r \<in> set (v_entries v)" "same_row e r" "e_path e = p_path plan"
      by (auto simp: cur_ok_def)
    have tree: "tree_ok (v_entries v)" and bodies: "bodies_ok (v_entries v) (v_chunks v)"
      using assms(1) by (simp_all add: sound_def)
    note same = same_rowD [OF r(2)]
    have inline: "is_inline r" "e_size r = size'" using False same by (simp_all add: is_inline_def)
    obtain bs where bs: "layout (e_id r) (v_chunks v) bs" "length (concat bs) = size'"
      using bodies r(1) inline by (auto simp: bodies_ok_def stored_def)
    then have old: "body_of (e_id r) (v_chunks v) = concat bs" using bodies layout_body by (simp add: bodies_ok_def)
    have fsv: "fs v (p_path plan) = Some (Data (body_of (e_id r) (v_chunks v)))"
      using tree_entry [OF tree, of "p_path plan" r] r same(2) inline(1) by (simp add: fs_def node_of_def is_inline_def)
    have size: "size' = length (concat bodies)" "digest \<in> {None, Some (sha256Hex cfg (concat bodies))}"
      using assms(3) by (auto simp: body_given_def)
    let ?r = "\<lparr>wr_path = p_path plan, wr_revision = e_revision e, wr_token = p_capturedToken plan,
        wr_size = size', wr_created = False\<rparr>"
    have done': "Q (Some (?r, False)) w"
      if same_body: "concat bodies = body_of (e_id r) (v_chunks v)"
        and w: "sound cfg w" "evolves v w" "fs w = fs v" "token_at cfg w (p_path plan) = token_at cfg v (p_path plan)"
          "v_charge w = v_charge v" for w
    proof (rule assms(6))
      have "mkdirs (p_path plan) (fs v) = fs v" using mkdirs_existing [OF assms(1) r(1)] r(3) same(2) by simp
      then have "fs w = abs_write (p_path plan) (concat bodies) (fs v)"
        using w(3) same_body fsv by (auto simp: abs_write_def)
      with w size show "committed cfg (p_path plan) (concat bodies) v (?r\<lparr>wr_token := token_at cfg v (p_path plan)\<rparr>) w"
        by (simp add: committed_def)
    qed (use False w in auto)
    have "vpost (bodyIsUnchanged (e_id e) (e_revision e) bodies digest) v
        (\<lambda>unchanged w. vpost (if \<not> unchanged then return_op None else return_op (Some (?r, False))) w Q)"
    proof (rule vpost_bodyIsUnchanged)
      show "vpost (if \<not> False then return_op None else return_op (Some (?r, False))) v Q"
        using assms(5) by (simp add: vpost_return)
      fix e' assume e': "e' \<in> set (v_entries v)" "e_id e' = e_id e" "digest \<noteq> None" "e_digest e' = digest"
        "e_digest_revision e' = e_revision e'"
      then have "e' = r" using tree_id [OF tree _ r(1)] same(3) by simp
      then have "digest = Some (sha256Hex cfg (body_of (e_id r) (v_chunks v)))"
        using assms(1) e' r(1) inline by (auto simp: sound_def digest_ok_def)
      with size(2) e'(3) have "sha256Hex cfg (body_of (e_id r) (v_chunks v)) = sha256Hex cfg (concat bodies)" by auto
      with assms(4) fsv False have "concat bodies = body_of (e_id r) (v_chunks v)" by (simp add: no_collision_def)
      from done' [OF this assms(1)] show "vpost (if \<not> True then return_op None else return_op (Some (?r, False))) v Q"
        by (simp add: vpost_return)
    next
      fix t assume t: "chunks t = v_chunks v" "inlineBodyMatches (e_id e) bodies t"
      have "length (concat bodies) = length (body_of (e_id r) (chunks t))"
        unfolding t(1) old bs(2) by (rule size(1) [symmetric])
      from inlineBodyMatches_ok [OF this] t(2) [unfolded same(3)]
      have eq: "concat bodies = body_of (e_id r) (v_chunks v)" unfolding t(1) by blast
      show "vpost (if \<not> True then return_op None else return_op (Some (?r, False)))
          (if digest = None then v else with_digest (e_id e) (e_revision e) digest v) Q"
      proof (cases "digest = None")
        case True
        with done' [OF eq assms(1)] show ?thesis by (simp add: vpost_return)
      next
        case False
        with size(2) eq have "digest = Some (sha256Hex cfg (body_of (e_id r) (v_chunks v)))" by auto
        from with_digest_ok [OF assms(1) r(1) this, of "e_revision e", folded same(3)] done' [OF eq] False
        show ?thesis by (auto simp: vpost_return with_digest_def same(6))
      qed
    qed
    with False show ?thesis
      by (auto simp: Some unchangedInlineWrite_def intro!: vpost_return assms(5) vpost_bind)
  qed
qed

text \<open>The rest of a commit, once the row is written: for a row that was there.\<close>

lemma commit_existing:
  assumes u: "ready cfg path v u" "r \<in> set (v_entries u)" "e_path r = path" "\<not> is_directory r" "same_row e r"
    and body: "body_given cfg bodies size' digest"
    and plan: "p_path plan = path" "p_conditional plan = c"
    and m: "i_inlineDelta mutation = int size' - old_size r" "i_entryDelta mutation = 0" "i_version mutation = e_version r + 1"
    and Q: "\<And>result queued w. committed cfg path (concat bodies) v result w \<Longrightarrow>
      v_charge w = (fst (v_charge u) + i_inlineDelta mutation, snd (v_charge u) + i_entryDelta mutation) \<Longrightarrow>
      Q (result, queued) w"
    and stale: "vpost replan u (\<lambda>_ _. True)"
  shows "vpost (bind_op (writeInlineEntry plan (Some e) mutation size' digest now) (\<lambda>written.
      case written of None \<Rightarrow> bind_op replan (\<lambda>_. fail_op EREVISION path)
      | Some (entryId, revision, last') \<Rightarrow>
          bind_op (case (Some e, last') of
              (Some e, Some n) \<Rightarrow> when_op (is_inline e \<and> n \<ge> length bodies)
                (exec_op (\<lambda>t. t\<lparr>chunks := filter (\<lambda>c. \<not> (c_entry c = e_id e \<and> c_index c \<ge> length bodies)) (chunks t)\<rparr>))
            | _ \<Rightarrow> return_op ()) (\<lambda>_.
          finishInlineWrite cfg plan (Some e) mutation entryId revision bodies size' now))) u Q"
proof -
  have sound: "sound cfg u" using u(1) by (simp add: ready_def)
  then have tree: "tree_ok (v_entries u)" and bodies: "bodies_ok (v_entries u) (v_chunks u)" by (simp_all add: sound_def)
  have id: "e_id e = e_id r" "e_path e = path" "is_inline e \<longleftrightarrow> is_inline r"
    using same_rowD [OF u(5)] u(3) by (simp_all add: is_inline_def)
  have distinct: "distinct_chunks (v_chunks u)" using bodies by (simp add: bodies_ok_def)
  let ?u' = "u\<lparr>v_entries := replace_row (rewritten size' (i_mode mutation) now digest (i_version mutation) r) (v_entries u)\<rparr>"
  have finish: "vpost (finishInlineWrite cfg plan (Some e) mutation (e_id r) revision bodies size' now) (?u'\<lparr>v_chunks := cs1\<rparr>) Q"
    if "distinct_chunks cs1" "\<And>n. length bodies \<le> n \<Longrightarrow> chunk_at cs1 (e_id r) n = None"
      "\<And>j n. j \<noteq> e_id r \<Longrightarrow> chunk_at cs1 j n = chunk_at (v_chunks u) j n" "c_entry ` set cs1 \<subseteq> c_entry ` set (v_chunks u)"
    for cs1 revision
    unfolding plan(1) [symmetric]
    by (rule vpost_finish, rule Q [unfolded plan(1) [symmetric]], rule finished_over [OF u(1-5) body that m, folded plan(1)])
       (simp_all add: finished_charge)
  show ?thesis
  proof (cases "is_inline e")
    case True
    show ?thesis
    proof (rule vpost_bind, rule vpost_writeInline [OF tree True u(2,5)])
      show "vpost (case None of None \<Rightarrow> bind_op replan (\<lambda>_. fail_op EREVISION path) | Some x \<Rightarrow> f x) u Q" for f
        by (simp, rule vpost_bind, rule vpost_weaken [OF stale], rule vpost_throw)
    next
      fix last' assume last': "\<And>n. chunk_at (v_chunks u) (e_id r) n \<noteq> None \<Longrightarrow> \<exists>m. last' = Some m \<and> n \<le> m"
      show "vpost (case Some (e_id r, e_revision r + 1, last') of None \<Rightarrow> bind_op replan (\<lambda>_. fail_op EREVISION path)
        | Some (entryId, revision, last') \<Rightarrow>
          bind_op (case (Some e, last') of
              (Some e, Some n) \<Rightarrow> when_op (is_inline e \<and> n \<ge> length bodies)
                (exec_op (\<lambda>t. t\<lparr>chunks := filter (\<lambda>c. \<not> (c_entry c = e_id e \<and> c_index c \<ge> length bodies)) (chunks t)\<rparr>))
            | _ \<Rightarrow> return_op ()) (\<lambda>_.
          finishInlineWrite cfg plan (Some e) mutation entryId revision bodies size' now)) ?u' Q"
      proof (cases "\<exists>n. last' = Some n \<and> length bodies \<le> n")
        case drop: True
        then obtain n where n: "last' = Some n" "length bodies \<le> n" by blast
        have drop': "vpost (finishInlineWrite cfg plan (Some e) mutation (e_id r) (e_revision r + 1) bodies size' now)
          (?u'\<lparr>v_chunks := filter (\<lambda>c. \<not> (c_entry c = e_id r \<and> c_index c \<ge> length bodies)) (v_chunks u)\<rparr>) Q"
        proof (rule finish)
          show "distinct_chunks (filter (\<lambda>c. \<not> (c_entry c = e_id r \<and> c_index c \<ge> length bodies)) (v_chunks u))"
            by (rule filter_chunks(2) [OF _ distinct, of _ "\<lambda>j m. \<not> (j = e_id r \<and> m \<ge> length bodies)"]) simp
        qed (unfold drop_tail_at, auto)
        show ?thesis
          using True n drop' by (auto simp: id(1) intro!: vpost_bind vpost_when vpost_exec_table)
      next
        case False
        then have "chunk_at (v_chunks u) (e_id r) n = None" if "length bodies \<le> n" for n
          using last' [of n] that by (auto simp del: not_None_eq) (meson dual_order.trans)
        from finish [OF distinct this] have keep:
          "vpost (finishInlineWrite cfg plan (Some e) mutation (e_id r) (e_revision r + 1) bodies size' now) ?u' Q" by simp
        with False show ?thesis
          by (cases last') (auto simp: when_op_def intro!: vpost_bind vpost_return)
      qed
    qed
  next
    case False
    show ?thesis
    proof (rule vpost_bind, rule vpost_writeOver [OF tree False u(2,5)])
      show "e_path e = p_path plan" using id(2) plan(1) by simp
      have "chunk_at (v_chunks u) (e_id r) n = None" for n
      proof -
        have "e_id r \<notin> c_entry ` set (v_chunks u)"
          using bodies False id(3) tree_id [OF tree _ u(2)] by (fastforce simp: bodies_ok_def)
        then show ?thesis by (auto simp: chunk_at_None chunk_key_def)
      qed
      from finish [OF distinct this] show "vpost (case Some (e_id r, e_revision r + 1, None) of
          None \<Rightarrow> bind_op replan (\<lambda>_. fail_op EREVISION path)
        | Some (entryId, revision, last') \<Rightarrow>
          bind_op (case (Some e, last') of
              (Some e, Some n) \<Rightarrow> when_op (is_inline e \<and> n \<ge> length bodies)
                (exec_op (\<lambda>t. t\<lparr>chunks := filter (\<lambda>c. \<not> (c_entry c = e_id e \<and> c_index c \<ge> length bodies)) (chunks t)\<rparr>))
            | _ \<Rightarrow> return_op ()) (\<lambda>_.
          finishInlineWrite cfg plan (Some e) mutation entryId revision bodies size' now)) ?u' Q"
        by (simp add: vpost_bind vpost_return)
    qed
  qed
qed

text \<open>The start of a commit: the parents of a new file, or the row itself.\<close>

lemma vpost_parents:
  assumes "sound cfg v" "canonical path" "path \<noteq> [SLASH]" "dirname path = Inr up"
    "\<And>parent u. ready cfg path v u \<Longrightarrow> \<exists>d \<in> set (v_entries u). e_path d = up \<and> is_directory d \<Longrightarrow> Q parent u"
  shows "vpost (if posix \<noteq> None \<or> up \<noteq> [SLASH]
      then bind_op (prepareParents cfg path recursive now followed posix) (\<lambda>p. return_op (Some p))
      else return_op None) v Q"
proof (rule vpost_if; intro vpost_bind vpost_return)
  show "vpost (prepareParents cfg path recursive now followed posix) v (\<lambda>x w. vpost (return_op (Some x)) w Q)"
    by (rule vpost_prepareParents [OF assms(1-3)], rule vpost_return, rule assms(5))
       (auto simp: ready_def assms(4))
  assume "\<not> (posix \<noteq> None \<or> up \<noteq> [SLASH])"
  then have up: "up = [SLASH]" by simp
  obtain d where d: "d \<in> set (v_entries v)" "e_path d = [SLASH]" "is_directory d"
    using assms(1) by (auto simp: sound_def tree_ok_def)
  have "ready cfg path v v"
    by (rule ready_refl [OF assms(1) mkdirs_existing [OF assms(1) d(1)]]) (use assms d up in auto)
  with d up show "Q None v" by (intro assms(5)) auto
qed

text \<open>The rest of a commit for a new file.\<close>

lemma commit_new:
  assumes u: "ready cfg path v u" "canonical path" "d \<in> set (v_entries u)" "dirname path = Inr (e_path d)" "is_directory d"
    and none: "entry_at path (v_entries u) = None"
    and body: "body_given cfg bodies size' digest"
    and plan: "p_path plan = path"
    and m: "i_inlineDelta mutation = int size'" "i_entryDelta mutation = 1"
      "i_version mutation = next_version path 0 (v_tombstones u)"
    and Q: "\<And>result queued w. committed cfg path (concat bodies) v result w \<Longrightarrow>
      v_charge w = (fst (v_charge u) + i_inlineDelta mutation, snd (v_charge u) + i_entryDelta mutation) \<Longrightarrow>
      Q (result, queued) w"
  shows "vpost (bind_op (writeInlineEntry plan None mutation size' digest now) (\<lambda>written.
      case written of None \<Rightarrow> bind_op replan (\<lambda>_. fail_op EREVISION path)
      | Some (entryId, revision, last') \<Rightarrow>
          bind_op (return_op ()) (\<lambda>_. finishInlineWrite cfg plan None mutation entryId revision bodies size' now)))
    (u\<lparr>v_tombstones := drop_tombstone path (v_tombstones u)\<rparr>) Q"
proof (rule vpost_bind, rule vpost_writeNew)
  let ?u' = "u\<lparr>v_tombstones := drop_tombstone path (v_tombstones u)\<rparr>"
  show "entry_at (p_path plan) (v_entries ?u') = None" using none plan by simp
  fix row assume row: "e_path row = p_path plan" "dirname (p_path plan) = Inr (e_parent row)" "e_kind row = Inline"
    "e_size row = size'" "e_id row = v_nextIno ?u'" "e_linkIdentity row = None" "e_linkCount row = 1"
    "e_version row = i_version mutation" "e_digest row = digest \<and> e_digest_revision row = e_revision row" "fresh_row row (v_entries ?u')"
  have new: "new_file path size' row u" using row m(3) plan by (simp add: new_file_def)
  have id: "e_id row = v_nextIno u" using row(5) by simp
  have "vpost (finishInlineWrite cfg plan None mutation (e_id row) 1 bodies size' now)
      (u\<lparr>v_tombstones := drop_tombstone path (v_tombstones u), v_nextIno := v_nextIno u + 1,
         v_entries := v_entries u @ [row]\<rparr>) Q"
    unfolding plan [symmetric]
    by (rule vpost_finish, rule Q [unfolded plan [symmetric]],
        rule finished_new [OF u body new row(9) m(1,2) row(8) [symmetric], folded plan]) (simp_all add: finished_charge)
  then show "vpost (case Some (v_nextIno ?u', 1, None) of None \<Rightarrow> bind_op replan (\<lambda>_. fail_op EREVISION path)
      | Some (entryId, revision, last') \<Rightarrow>
          bind_op (return_op ()) (\<lambda>_. finishInlineWrite cfg plan None mutation entryId revision bodies size' now))
    (?u'\<lparr>v_nextIno := v_nextIno ?u' + 1, v_entries := v_entries ?u' @ [row]\<rparr>) Q"
    unfolding id by (simp add: vpost_bind vpost_return)
qed

lemma commit_current:
  assumes "sound cfg v" "cur_ok v plan (Some e)" "\<not> is_directory e" "body_given cfg bodies size' digest"
    "i_inlineDelta mutation = (int size' - old_size e) * int (e_linkCount e)" "i_entryDelta mutation = 0"
    "i_version mutation = e_version e + 1"
    "\<And>result queued w. committed cfg (p_path plan) (concat bodies) v result w \<Longrightarrow>
      v_charge w = (fst (v_charge v) + i_inlineDelta mutation, snd (v_charge v) + i_entryDelta mutation) \<Longrightarrow>
      Q (result, queued) w"
    "vpost replan v (\<lambda>_ _. True)"
  shows "vpost (bind_op (writeInlineEntry plan (Some e) mutation size' digest now) (\<lambda>written.
      case written of None \<Rightarrow> bind_op replan (\<lambda>_. fail_op EREVISION (p_path plan))
      | Some (entryId, revision, last') \<Rightarrow>
          bind_op (case (Some e, last') of
              (Some e, Some n) \<Rightarrow> when_op (is_inline e \<and> n \<ge> length bodies)
                (exec_op (\<lambda>t. t\<lparr>chunks := filter (\<lambda>c. \<not> (c_entry c = e_id e \<and> c_index c \<ge> length bodies)) (chunks t)\<rparr>))
            | _ \<Rightarrow> return_op ()) (\<lambda>_.
          finishInlineWrite cfg plan (Some e) mutation entryId revision bodies size' now))) v Q"
proof (cases "\<exists>r \<in> set (v_entries v). same_row e r")
  case True
  then obtain r where r: "r \<in> set (v_entries v)" "same_row e r" by blast
  note same = same_rowD [OF r(2)]
  have path: "e_path r = p_path plan" using assms(2) same by (simp add: cur_ok_def)
  have dir: "\<not> is_directory r" using assms(3) same by (simp add: is_directory_def)
  have "e_linkCount (bare e) = e_linkCount (bare r)" using r(2) by (simp add: same_row_def)
  then have "e_linkCount e = e_linkCount r" by (simp add: bare_def)
  moreover have "solitary r" using assms(1) r(1) by (simp add: sound_def)
  ultimately have "e_linkCount e = 1" using dir by (simp add: solitary_def)
  moreover have "old_size e = old_size r" using same by (simp add: old_size_def is_inline_def)
  ultimately have m: "i_inlineDelta mutation = int size' - old_size r" "i_version mutation = e_version r + 1"
    using assms(5,7) same by simp_all
  have "ready cfg (p_path plan) v v"
    by (rule ready_refl [OF assms(1) mkdirs_existing [OF assms(1) r(1)]]) (simp add: path)
  then show ?thesis
    by (rule commit_existing [OF _ r(1) path dir r(2) assms(4) refl refl m(1) assms(6) m(2)])
       (fact assms(8), fact assms(9))
next
  case False
  with assms(2) have stale: "is_inline e" "p_conditional plan = Some (e_version e)"
    "\<forall>r \<in> set (v_entries v). e_id r = e_id e \<longrightarrow> e_version r \<noteq> e_version e"
    by (auto simp: cur_ok_def)
  show ?thesis
    by (rule vpost_bind, rule vpost_writeInline_stale [OF stale],
        simp, rule vpost_bind, rule vpost_weaken [OF assms(9)], rule vpost_throw)
qed

text \<open>
  A commit of this body: it fails, or the body is the content. An unchanged write is not
  carried out, and answers with the token that was captured.
\<close>

definition commit_result :: "Config \<Rightarrow> InlineWritePlan \<Rightarrow> byte list \<Rightarrow> View \<Rightarrow> WriteResult \<Rightarrow> View \<Rightarrow> bool" where
  "commit_result cfg plan bytes v result w \<longleftrightarrow> committed cfg (p_path plan) bytes v result w \<or>
     p_skipIfUnchanged plan \<and> wr_token result = p_capturedToken plan \<and>
     committed cfg (p_path plan) bytes v (result\<lparr>wr_token := token_at cfg v (p_path plan)\<rparr>) w"

lemma vpost_commit_from:
  assumes "sound cfg v" "canonical (p_path plan)" "cur_ok v plan current" "body_given cfg bodies size' digest"
    "p_skipIfUnchanged plan \<longrightarrow> no_collision cfg v (p_path plan) (concat bodies)"
    "\<And>result queued w. commit_result cfg plan (concat bodies) v result w \<Longrightarrow>
      (\<not> deferCapacity \<longrightarrow> within cfg v \<longrightarrow> within cfg w) \<Longrightarrow> Q (result, queued) w"
    "\<not> (case current of None \<Rightarrow> False | Some e \<Rightarrow> is_directory e)" "dirname (p_path plan) = Inr up"
    "\<And>u. vpost replan u (\<lambda>_ _. True)"
  shows "vpost (bind_op (if current = None \<and> (posix \<noteq> None \<or> up \<noteq> [SLASH])
              then bind_op (prepareParents cfg (p_path plan) (p_createParents plan) now (p_followed plan) posix)
                     (\<lambda>p. return_op (Some p))
              else return_op None) (\<lambda>parent.
     bind_op (when_op (current \<noteq> None \<and> revalidate)
                (assertWriteAccess (p_path plan) current False (p_followed plan) posix)) (\<lambda>_.
     bind_op (unchangedInlineWrite plan current bodies size' digest) (\<lambda>unchanged.
     case unchanged of Some r \<Rightarrow> return_op r
     | None \<Rightarrow>
         bind_op (inlineMutationPlan cfg plan current parent size' posix deferCapacity) (\<lambda>mutation.
         bind_op (writeInlineEntry plan current mutation size' digest now) (\<lambda>written.
         case written of None \<Rightarrow> bind_op replan (\<lambda>_. fail_op EREVISION (p_path plan))
         | Some (entryId, revision, last') \<Rightarrow>
             bind_op (case (current, last') of
                 (Some e, Some n) \<Rightarrow>
                   when_op (is_inline e \<and> n \<ge> length bodies)
                     (exec_op (\<lambda>t. t\<lparr>chunks := filter (\<lambda>c. \<not> (c_entry c = e_id e \<and> c_index c \<ge> length bodies))
                        (chunks t)\<rparr>))
               | _ \<Rightarrow> return_op ()) (\<lambda>_.
             finishInlineWrite cfg plan current mutation entryId revision bodies size' now))))))) v Q"
proof (cases current)
  case None
  have none: "entry_at (p_path plan) (v_entries v) = None" using assms(3) None by (simp add: cur_ok_def)
  have root: "p_path plan \<noteq> [SLASH]"
  proof
    assume "p_path plan = [SLASH]"
    moreover obtain d where "d \<in> set (v_entries v)" "e_path d = [SLASH]"
      using assms(1) unfolding sound_def tree_ok_def by blast
    ultimately show False using none unfolding entry_at_None by (metis imageI)
  qed
  have Q: "Q (result, queued) w" if "committed cfg (p_path plan) (concat bodies) v result w"
    "ready cfg (p_path plan) v u" "\<not> deferCapacity \<longrightarrow> fits cfg (v_charge u) b n"
    "v_charge w = (fst (v_charge u) + b, snd (v_charge u) + n)" for result queued u w b n
    using that assms(6) [of result w queued] within_fits [of cfg u b n w] by (auto simp: commit_result_def ready_def)
  show ?thesis
    unfolding None
    apply (rule vpost_bind)
    apply (simp only: simp_thms)
    apply (rule vpost_parents [OF assms(1,2) root assms(8)])
    apply (rule vpost_bind, rule vpost_silent)
    subgoal by (intro silent_intros)
    apply (simp add: unchangedInlineWrite_def)
    apply (rule vpost_bind, rule vpost_return)
    apply (simp only: option.case)
    apply (rule vpost_bind, rule vpost_inlineMutationPlan)
    apply (simp only: option.case simp_thms if_True)
    subgoal premises p for parent u m
    proof -
      from p(2) obtain d where d: "d \<in> set (v_entries u)" "e_path d = up" "is_directory d" by blast
      have "sound cfg u" "fs u = mkdirs (p_path plan) (fs v)" using p(1) by (simp_all add: ready_def)
      then have "fs u (p_path plan) = None" using none by (simp add: fs_def)
      then have none': "entry_at (p_path plan) (v_entries u) = None" by (simp add: fs_def)
      have dir: "dirname (p_path plan) = Inr (e_path d)" using assms(8) d(2) by simp
      show ?thesis
        using commit_new [OF p(1) assms(2) d(1) dir d(3) none' assms(4) refl, where mutation = m and Q = Q and replan = replan and now = now] p(3-) Q [OF _ p(1), of _ _ "i_inlineDelta m" "i_entryDelta m"]
        by simp
    qed
    done
next
  case (Some e)
  show ?thesis
    unfolding Some
    apply (simp only: simp_thms if_False option.distinct)
    apply (rule vpost_bind, rule vpost_return)
    apply (rule vpost_bind, rule vpost_silent)
    subgoal by (intro silent_intros)
    apply (rule vpost_bind, rule vpost_unchanged [OF assms(1) assms(3) [unfolded Some] assms(4,5)])
    subgoal for x
      apply (simp only: option.case)
      apply (rule vpost_bind, rule vpost_inlineMutationPlan)
      apply (simp only: option.case if_False option.distinct)
      apply (rule commit_current [OF assms(1) assms(3) [unfolded Some] _ assms(4)])
      subgoal using assms(7) Some by simp
      subgoal by simp
      subgoal by simp
      subgoal by simp
      subgoal premises p for m result queued w
        using assms(6) [of result w queued] p within_fits [of cfg v "i_inlineDelta m" "i_entryDelta m" w]
        by (simp add: commit_result_def)
      subgoal by (rule assms(9))
      done
    subgoal for x result w
      using assms(6) by (simp add: commit_result_def vpost_return within_def)
    done
qed

lemma vpost_commitInlineWrite:
  assumes "sound cfg v" "canonical (p_path plan)" "body_given cfg bodies size' digest"
    "p_skipIfUnchanged plan \<longrightarrow> no_collision cfg v (p_path plan) (concat bodies)"
    "\<not> revalidate \<Longrightarrow> cur_ok v plan (p_capturedEntry plan) \<and> \<not> p_skipIfUnchanged plan"
    "\<And>result queued w. committed cfg (p_path plan) (concat bodies) v result w \<Longrightarrow>
       (revalidate \<longrightarrow> p_capturedToken plan = token_at cfg v (p_path plan)) \<Longrightarrow>
       (\<not> deferCapacity \<longrightarrow> within cfg v \<longrightarrow> within cfg w) \<Longrightarrow> Q (result, queued) w"
  shows "vpost (commitInlineWrite cfg plan bodies size' digest now posix deferCapacity revalidate) v Q"
proof -
  let ?captured = "\<lambda>current. cur_ok v plan current \<and>
      (revalidate \<longrightarrow> p_capturedToken plan = token_at cfg v (p_path plan)) \<and> (\<not> revalidate \<longrightarrow> \<not> p_skipIfUnchanged plan)"
  have start: "vpost (if revalidate then
         bind_op (pathState cfg (p_path plan)) (\<lambda>(entry, tok).
         if tok \<noteq> p_capturedToken plan then fail_op EREVISION (p_path plan)
         else bind_op (validateGuard cfg (p_path plan) entry (p_guard plan) (Some (p_written plan))) (\<lambda>_.
           return_op entry))
       else return_op (p_capturedEntry plan)) v (\<lambda>current w. w = v \<and> ?captured current)"
  proof (rule vpost_if)
    assume "revalidate"
    have "cur_ok v plan (entry_at (p_path plan) (v_entries v))"
      using entry_at_SomeD [of "p_path plan"] by (auto simp: cur_ok_def split: option.splits intro: same_row_refl)
    with \<open>revalidate\<close> show "vpost (bind_op (pathState cfg (p_path plan)) (\<lambda>(entry, tok).
         if tok \<noteq> p_capturedToken plan then fail_op EREVISION (p_path plan)
         else bind_op (validateGuard cfg (p_path plan) entry (p_guard plan) (Some (p_written plan))) (\<lambda>_.
           return_op entry))) v (\<lambda>current w. w = v \<and> ?captured current)"
      by (intro vpost_bind vpost_pathState_token) (auto intro!: vpost_throw vpost_bind vpost_silent silent_intros vpost_return)
  qed (use assms(5) in \<open>auto intro: vpost_return\<close>)
  have skip: "committed cfg (p_path plan) (concat bodies) v result w"
    if "?captured current" "commit_result cfg plan (concat bodies) v result w" for current result w
    using that by (auto simp: commit_result_def) (metis WriteResult.surjective WriteResult.update_convs(3))
  show ?thesis
    unfolding commitInlineWrite_def
    apply (rule vpost_bind, rule vpost_weaken [OF start])
    apply (elim conjE, hypsubst)
    apply (rule vpost_if, rule vpost_throw)
    apply (rule vpost_bind, rule vpost_lift)
    apply (rule vpost_commit_from [OF assms(1,2) _ assms(3,4)])
    subgoal by assumption
    subgoal premises p for current up result queued w
      using assms(6) [OF skip [of current]] p by blast
    subgoal by assumption
    subgoal by assumption
    subgoal by (rule vpost_silent) (intro silent_intros TrueI)+
    done
qed

end
