(* ===== verification/Vfs_Rollback.thy ===== *)
theory Vfs_Rollback
  imports Vfs_Effects
begin

text \<open>
  What holds in either outcome. No operation of a transaction changes the clock, the depth,
  the in-flight bytes or the entry of the last read, and identities only grow; so a failed
  outermost transaction (\<open>transaction\<close> of \<open>src/vfs/sql-base.ts\<close>) leaves the tables and the
  budget as they were.
\<close>

definition stays :: "'a op \<Rightarrow> bool" where
  "stays m \<longleftrightarrow> (\<forall>s. ambient (snd (m s)) = ambient s \<and> nextIno s \<le> nextIno (snd (m s)))"

named_theorems stays_intros \<open>rules for operations that stay inside a transaction\<close>

lemma staysD: "stays m \<Longrightarrow> m s = (r, t) \<Longrightarrow> ambient t = ambient s \<and> nextIno s \<le> nextIno t"
  by (metis stays_def snd_conv)

lemma silent_stays: "silent m \<Longrightarrow> stays m"
  by (auto simp: stays_def silent_def like_def view_simps)

lemma stays_bind [stays_intros]:
  assumes "stays m" "\<And>x. stays (f x)"
  shows "stays (bind_op m f)"
  unfolding stays_def
proof
  fix s
  obtain r t where r: "m s = (r, t)" by force
  then have t: "ambient t = ambient s" "nextIno s \<le> nextIno t" using assms(1) staysD by blast+
  show "ambient (snd (bind_op m f s)) = ambient s \<and> nextIno s \<le> nextIno (snd (bind_op m f s))"
  proof (cases r)
    case (Inr x)
    from staysD [OF assms(2), of x t] t r Inr show ?thesis
      by (cases "f x t") (fastforce simp: bind_op_def)
  qed (use t r in \<open>simp add: bind_op_def\<close>)
qed

lemma stays_simple [stays_intros]:
  "stays (return_op x)" "stays (throw_op e)" "stays (gets_op g)" "stays (lift_op r)" "stays (require_op b c p)"
  by (intro silent_stays silent_intros)+

lemma stays_when [stays_intros]: "stays m \<Longrightarrow> stays (when_op b m)"
  by (simp add: when_op_def stays_simple)

lemma stays_if [stays_intros]: "stays m \<Longrightarrow> stays n \<Longrightarrow> stays (if b then m else n)"
  by simp

lemma stays_option [stays_intros]:
  "stays m \<Longrightarrow> (\<And>x. stays (f x)) \<Longrightarrow> stays (case v of None \<Rightarrow> m | Some x \<Rightarrow> f x)"
  by (cases v) auto

lemma stays_list [stays_intros]:
  "stays m \<Longrightarrow> (\<And>x xs. stays (f x xs)) \<Longrightarrow> stays (case v of [] \<Rightarrow> m | x # xs \<Rightarrow> f x xs)"
  by (cases v) auto

lemma stays_pair [stays_intros]: "(\<And>x y. stays (f x y)) \<Longrightarrow> stays (case v of (x, y) \<Rightarrow> f x y)"
  by (cases v) auto

lemma stays_kind [stays_intros]:
  "stays a \<Longrightarrow> (\<And>x. stays (b x)) \<Longrightarrow> stays c \<Longrightarrow> (\<And>x. stays (d x)) \<Longrightarrow>
   stays (case k of Directory \<Rightarrow> a | Symlink x \<Rightarrow> b x | Inline \<Rightarrow> c | Opaque x \<Rightarrow> d x)"
  by (cases k) auto

lemma stays_let [stays_intros]: "(\<And>x. stays (f x)) \<Longrightarrow> stays (let x = v in f x)"
  by simp

lemma stays_modify [stays_intros]:
  "(\<And>s. ambient (h s) = ambient s \<and> nextIno s \<le> nextIno (h s)) \<Longrightarrow> stays (modify_op h)"
  by (auto simp: stays_def modify_op_def)

lemma stays_exec [stays_intros]: "stays (exec_op f)"
  by (auto simp: exec_op_def ambient_def intro!: stays_modify)

lemma stays_writeUsage [stays_intros]: "stays (writeUsage b n)"
  unfolding writeUsage_def by (intro stays_intros) (simp add: ambient_def)

lemma stays_usage [stays_intros]: "stays usage"
  by (intro silent_stays silent_intros)

lemma stays_updateUsage [stays_intros]: "stays (updateUsage cfg b n)"
proof -
  have deferred: "stays (bind_op (gets_op deferredUsage) (\<lambda>delta.
      bind_op (case delta of None \<Rightarrow> writeUsage b n
          | Some (bytes, k, _) \<Rightarrow> modify_op (\<lambda>s. s\<lparr>deferredUsage := Some (bytes + b, k + n, True)\<rparr>)) f))"
    if "\<And>x. stays (f x)" for f :: "unit \<Rightarrow> unit op"
    unfolding stays_def
  proof
    fix s
    have "\<exists>t. (case deferredUsage s of None \<Rightarrow> writeUsage b n
        | Some (bytes, k, _) \<Rightarrow> modify_op (\<lambda>s. s\<lparr>deferredUsage := Some (bytes + b, k + n, True)\<rparr>)) s = (Inr (), t) \<and>
        ambient t = ambient s \<and> nextIno s \<le> nextIno t"
      by (auto simp: writeUsage_def modify_op_def ambient_def split: option.splits)
    then obtain t where t: "(case deferredUsage s of None \<Rightarrow> writeUsage b n
        | Some (bytes, k, _) \<Rightarrow> modify_op (\<lambda>s. s\<lparr>deferredUsage := Some (bytes + b, k + n, True)\<rparr>)) s = (Inr (), t)"
      "ambient t = ambient s" "nextIno s \<le> nextIno t" by blast
    from that [of "()"] t show "ambient (snd (bind_op (gets_op deferredUsage) (\<lambda>delta.
        bind_op (case delta of None \<Rightarrow> writeUsage b n
          | Some (bytes, k, _) \<Rightarrow> modify_op (\<lambda>s. s\<lparr>deferredUsage := Some (bytes + b, k + n, True)\<rparr>)) f) s)) = ambient s \<and>
      nextIno s \<le> nextIno (snd (bind_op (gets_op deferredUsage) (\<lambda>delta.
        bind_op (case delta of None \<Rightarrow> writeUsage b n
          | Some (bytes, k, _) \<Rightarrow> modify_op (\<lambda>s. s\<lparr>deferredUsage := Some (bytes + b, k + n, True)\<rparr>)) f) s))"
      by (auto simp: bind_op_def gets_op_def stays_def intro: order_trans)
  qed
  have later: "\<And>u. ambient (s\<lparr>transactionUsage := u\<rparr>) = ambient s \<and> ambient (s\<lparr>pendingUsage := u'\<rparr>) = ambient s" for s u'
    by (simp add: ambient_def)
  show ?thesis
    unfolding updateUsage_def by (intro stays_if stays_when deferred stays_intros) (simp_all add: later)
qed

lemma stays_allocateIno [stays_intros]: "stays (allocateIno n)"
  by (auto simp: stays_def allocateIno_def ambient_def)

lemma stays_insert_entry [stays_intros]: "stays (insert_entry row)"
  by (auto simp: stays_def insert_entry_def ambient_def split: entry_kind.splits)

lemma stays_nextEntryVersion [stays_intros]: "stays (nextEntryVersion path n)"
  unfolding nextEntryVersion_def by (intro stays_intros)

lemma stays_notes [stays_intros]:
  "stays (noteDirectoryDelta parent delta)" "stays (noteDirectoryChange entry)"
  "stays (publishToken cfg path version' present mop identity)" "stays (recordPathChange cfg path present changeSeq)"
  "stays (recordMutation cfg mutation)" "stays (assertCapacity cfg b k where')" "stays (assertCapacityFrom cfg u b k where')"
  "stays (nextChangeSeq cfg)"
  by (intro silent_stays silent_intros)+

lemma stays_checks [stays_intros]:
  "stays (requireDirectory path resolved)" "stays (assertPermission entry access required path)" "stays (oneEntry path)"
  "stays (creationParents path recursive)" "stays (assertCreationAccess path followed access parent)"
  "stays (assertWriteAccess path current recursive followed access)" "stays (pathState cfg path)"
  "stays (validateGuard cfg path current ifMutationToken written)" "stays (parent_of known path)"
  "stays (inlineWriteMode plan current known posix)" "stays (planInlineWrite cfg path guard options posix snapshot)"
  "stays (requireInline path resolved)" "stays (assertTraverse path followed access)" "stays (assertAppendSize cfg path n)"
  "stays (appendChunkPlan cfg e path bodies)" "stays (resolveAccess path allowMissing follow)"
  by (intro silent_stays silent_intros)+

lemma stays_each [stays_intros]: "(\<And>x. stays (f x)) \<Longrightarrow> stays (each_op f xs)"
  by (induction xs) (auto intro: stays_intros)

lemma stays_flush [stays_intros]: "stays (flushParentTimes cfg)"
  unfolding flushParentTimes_def by (intro stays_intros) (simp_all add: ambient_def)

lemma stays_createDirectory [stays_intros]: "stays (createDirectory cfg path now mode' access intermediate known)"
  unfolding createDirectory_def by (intro stays_intros)

lemma stays_create_chain [stays_intros]: "stays (create_chain cfg now access paths parent)"
  by (induction paths arbitrary: parent) (auto intro!: stays_intros)

lemma stays_prepareParents [stays_intros]: "stays (prepareParents cfg path recursive now followed access)"
  unfolding prepareParents_def createMissingParents_def by (intro stays_intros)

lemma stays_chunks [stays_intros]: "stays (writeChunks i k bodies single)" "stays (bodyIsUnchanged i n bodies digest)"
  unfolding writeChunks_def bodyIsUnchanged_def by (intro stays_intros)+

lemma stays_queue [stays_intros]: "stays (queueObjectIfUnreferenced i now)"
  unfolding queueObjectIfUnreferenced_def queueGarbage_def by (intro stays_intros)

lemma stays_write_parts [stays_intros]:
  "stays (unchangedInlineWrite plan current bodies n digest)"
  "stays (inlineMutationPlan cfg plan current parent n posix deferCapacity)"
  "stays (writeInlineEntry plan current mutation n digest now)"
  "stays (finishInlineWrite cfg plan current mutation i revision bodies n now)"
  unfolding unchangedInlineWrite_def inlineMutationPlan_def writeInlineEntry_def finishInlineWrite_def
  by (intro stays_intros)+

lemma stays_commit [stays_intros]:
  "stays (commitInlineWrite cfg plan bodies n digest now posix deferCapacity revalidate)"
  unfolding commitInlineWrite_def
  by (intro stays_intros)

lemma stays_append [stays_intros]: "stays (appendContent cfg current path bodies n conditional)"
  unfolding appendContent_def by (intro stays_intros)

lemma stays_remove [stays_intros]: "stays (removeExact cfg path now advance resolved)"
  unfolding removeExact_def by (intro stays_intros)

section \<open>Transactions\<close>

lemma transaction_outcome:
  assumes "stays body" "transaction cfg body s = (r, t)"
  shows "ambient t = ambient s" "nextIno s \<le> nextIno t"
    "r = Inl e \<Longrightarrow> transactionDepth s = 0 \<Longrightarrow> tables t = tables s \<and> transactionUsage t = None"
proof -
  define m where "m = bind_op body (\<lambda>x.
      bind_op (if transactionDepth s = 0 then flushParentTimes cfg else return_op ()) (\<lambda>_. return_op x))"
  have "stays m" unfolding m_def using assms(1) by (intro stays_intros)
  moreover obtain r' s1 where s1: "m (s\<lparr>transactionDepth := transactionDepth s + 1\<rparr>) = (r', s1)" by force
  ultimately have same: "ambient s1 = ambient (s\<lparr>transactionDepth := transactionDepth s + 1\<rparr>)" "nextIno s \<le> nextIno s1"
    by (auto dest: staysD)
  have t: "(r, t) = (let s2 = s1\<lparr>transactionDepth := transactionDepth s,
      transactionUsage := (if transactionDepth s = 0 then None else transactionUsage s1)\<rparr> in
      case r' of Inr x \<Rightarrow> (Inr x, if transactionDepth s = 0 then emitCommittedMutations cfg s2 else s2)
      | Inl e \<Rightarrow> (Inl e, s2\<lparr>tables := (if transactionDepth s = 0 then tables s else tables s2), pendingUsage := None,
                     pendingMutations := [], pendingParents := None, directoryParentsChanged := False,
                     directoryParentDeltas := None\<rparr>))"
    using assms(2) s1 by (simp add: transaction_def m_def Let_def)
  have emit: "ambient (emitCommittedMutations cfg u) = ambient u \<and> nextIno (emitCommittedMutations cfg u) = nextIno u" for u
    by (auto simp: emitCommittedMutations_def ambient_def Let_def split: option.splits)
  show "ambient t = ambient s" "nextIno s \<le> nextIno t"
    using t same emit by (auto simp: Let_def ambient_def split: sum.splits)
  show "r = Inl e \<Longrightarrow> transactionDepth s = 0 \<Longrightarrow> tables t = tables s \<and> transactionUsage t = None"
    using t by (auto simp: Let_def split: sum.splits)
qed

lemma stays_transaction [stays_intros]: "stays body \<Longrightarrow> stays (transaction cfg body)"
  unfolding stays_def using transaction_outcome(1,2) by (metis prod.collapse stays_def)

end
