(* ===== verification/Vfs_Writes.thy ===== *)
theory Vfs_Writes
  imports Vfs_Commit Vfs_Rollback
begin

text \<open>
  Whole writes (\<open>src/vfs/sql-write-base.ts\<close>): a plan names the entry that is stored at a
  canonical path, a lease holds the body in slabs, and a transaction commits both. So a write
  that succeeds is \<open>abs_write\<close> on the contents, and one that fails changes nothing.
\<close>

section \<open>Plans\<close>

lemma vpost_resolveAccess:
  assumes "\<And>a. canonical (a_path a) \<Longrightarrow> a_row a = None \<or> a_row a = entry_at (a_path a) (v_entries v) \<Longrightarrow> Q a v"
  shows "vpost (resolveAccess path allowMissing follow) v Q"
  unfolding resolveAccess_def Let_def
  apply (rule vpost_bind)
  apply (rule vpost_weaken [where Q' = "\<lambda>p w. w = v \<and> dotted_or_canonical p \<and> (\<not> hasDotSegments path \<longrightarrow> canonical p)"])
  subgoal by (rule vpost_lift) (auto split: if_splits dest: resolution_path_kind normalize_canonical)
  apply (elim conjE, hypsubst)
  apply (rule vpost_bind, rule vpost_silent, rule silent_simple)
  apply (rule vpost_bind)
  apply (rule vpost_weaken [where Q' = "\<lambda>a w. w = v \<and> canonical (a_path a) \<and>
    (a_row a = None \<or> a_row a = entry_at (a_path a) (v_entries v))"])
  subgoal by (intro vpost_if vpost_bind vpost_resolveEntry vpost_return) auto
  apply (elim conjE, hypsubst)
  apply (rule vpost_bind)
  apply (rule vpost_weaken [where Q' = "\<lambda>a w. w = v \<and> canonical (a_path a) \<and>
    (a_row a = None \<or> a_row a = entry_at (a_path a) (v_entries v))"])
  subgoal by (intro vpost_if vpost_bind vpost_oneEntry vpost_return) auto
  apply (elim conjE, hypsubst)
  apply (auto intro!: vpost_return vpost_throw assms split: option.splits)
  done

definition plan_facts :: "Config \<Rightarrow> jstring \<Rightarrow> WriteGuard \<Rightarrow> WriteOptions \<Rightarrow> EntryRow option \<Rightarrow> View \<Rightarrow> InlineWritePlan \<Rightarrow> bool" where
  "plan_facts cfg path guard options snapshot v plan \<longleftrightarrow>
     (case snapshot of
        None \<Rightarrow> canonical (p_path plan) \<and> p_capturedEntry plan = entry_at (p_path plan) (v_entries v) \<and>
          p_capturedToken plan = token_at cfg v (p_path plan)
      | Some e \<Rightarrow> p_path plan = e_path e \<and> p_capturedEntry plan = Some e) \<and>
     p_conditional plan = map_option e_version snapshot \<and> p_skipIfUnchanged plan = wo_skipIfUnchanged options \<and>
     p_guard plan = wg_ifMutationToken guard \<and> p_written plan = path"

lemma vpost_planInlineWrite:
  assumes "\<And>plan. plan_facts cfg path guard options snapshot v plan \<Longrightarrow> Q plan v"
  shows "vpost (planInlineWrite cfg path guard options posix snapshot) v Q"
proof -
  let ?state = "\<lambda>access before captured. case snapshot of
      None \<Rightarrow> canonical (a_path access) \<and> before = entry_at (a_path access) (v_entries v) \<and>
        captured = token_at cfg v (a_path access)
    | Some e \<Rightarrow> a_path access = e_path e \<and> before = Some e"
  show ?thesis
    unfolding planInlineWrite_def Let_def
    apply (rule vpost_bind)
    apply (rule vpost_weaken [where Q' = "\<lambda>a w. w = v \<and> (case snapshot of
        None \<Rightarrow> canonical (a_path a) \<and> (a_row a = None \<or> a_row a = entry_at (a_path a) (v_entries v))
      | Some e \<Rightarrow> a_path a = e_path e \<and> a_row a = Some e)"])
    subgoal by (intro vpost_option vpost_resolveAccess vpost_return) auto
    apply (elim conjE, hypsubst)
    subgoal for access w
      apply (rule vpost_bind)
      apply (rule vpost_weaken [where Q' = "\<lambda>x w. w = v \<and> ?state access (fst x) (snd x)"])
      subgoal
        apply (rule vpost_option)
        subgoal by (rule vpost_pathState_token) (auto split: option.splits)
        subgoal for e by (rule vpost_return) (cases snapshot; auto simp: token_at_def dest: sym [of "Some e"])
        done
      apply (elim conjE, hypsubst)
      apply (rule vpost_pair)
      apply (rule vpost_bind, rule vpost_silent)
      subgoal by (intro silent_intros)
      apply (intro vpost_if vpost_throw)
      apply (rule vpost_bind, rule vpost_silent)
      subgoal by (intro silent_intros)
      apply (rule vpost_return, rule assms)
      apply (auto simp: plan_facts_def split: option.splits)
      done
    done
qed

section \<open>Bodies\<close>

definition lease_of :: "byte list \<Rightarrow> BufferedChunksLease \<Rightarrow> bool" where
  "lease_of bytes lease \<longleftrightarrow> (\<exists>w. 0 < w \<and> slabs_of w bytes (l_chunks lease)) \<and> l_size lease = length bytes"

lemma slabs_concat: "slabs_of w bytes cs \<Longrightarrow> concat cs = bytes"
  by (simp add: slabs_of_def)

lemma lease_body:
  "lease_of bytes lease \<Longrightarrow> digest \<in> {None, Some (sha256Hex cfg bytes)} \<Longrightarrow>
   body_given cfg (l_chunks lease) (l_size lease) digest \<and> concat (l_chunks lease) = bytes"
  by (auto simp: lease_of_def body_given_def dest: slabs_concat)

text \<open>A collection that succeeds holds the body, and its release restores the budget.\<close>

lemma sync_lease:
  assumes "collectInlineBytesSync body maximum width' held b = (Inr lease, b')"
  shows "lease_of (encodeUtf8 body) lease" "release (l_accounted lease) b' = b"
  using assms slices_ok [of width' "encodeUtf8 body"]
  by (auto simp: collectInlineBytesSync_def lease_of_def Let_def acquire_def release_def split: if_splits sum.splits)

lemma stream_lease:
  assumes "collectInlineBytes body maximum width' held b = (Inr lease, b')"
  shows "lease_of (body_bytes body) lease" "release (l_accounted lease) b' = b"
proof -
  have "0 < width'"
    using assms by (auto simp: collectInlineBytes_def collect_with_def collectRechunkedBytes_def bindr_def
        validateChunkBytes_def split: if_splits sum.splits prod.splits)
  with collect_slabs [OF assms] show "lease_of (body_bytes body) lease" by (auto simp: lease_of_def)
  show "release (l_accounted lease) b' = b"
    using in_flight.collect_success assms by (simp add: collectInlineBytes_def)
qed

text \<open>Only the budget and the events differ.\<close>

definition but_budget :: "Vfs \<Rightarrow> Vfs \<Rightarrow> bool" where
  "but_budget s t \<longleftrightarrow> (\<exists>b es due. t = s\<lparr>inFlight := b, emitted := es, alarm := due\<rparr>)"

lemma but_budgetI: "t = s\<lparr>inFlight := b, emitted := es, alarm := due\<rparr> \<Longrightarrow> but_budget s t"
  by (auto simp: but_budget_def)

lemma but_budget_refl: "but_budget s s"
  by (rule but_budgetI [where b = "inFlight s" and es = "emitted s" and due = "alarm s"]) simp

lemma but_budget_view: "but_budget s t \<Longrightarrow> view t = view s \<and> usage_ok t = usage_ok s \<and> lastInlineRead t = lastInlineRead s \<and>
    transactionDepth t = transactionDepth s"
  unfolding but_budget_def by (auto simp: view_def usage_ok_def charge_def split: option.splits)

lemma collecting_but_budget: "collecting_op cfg collect s = (r, t) \<Longrightarrow> but_budget s t"
  by (rule but_budgetI [where b = "inFlight t" and es = "emitted t" and due = "alarm s"])
     (auto simp: collecting_op_def split: prod.splits sum.splits)

lemma collectInlineSync_ok:
  assumes "collectInlineSync cfg body held s = (Inr lease, t)"
  shows "but_budget s t" "lease_of (encodeUtf8 body) lease" "release (l_accounted lease) (inFlight t) = inFlight s"
  using collecting_but_budget assms sync_lease
  by (auto simp: collectInlineSync_def collecting_op_def split: prod.splits sum.splits)

lemma released: "\<exists>b. foldl (\<lambda>s l. release_op (l_accounted l) s) s ls = s\<lparr>inFlight := b\<rparr>"
proof (induction ls arbitrary: s)
  case (Cons l ls)
  from Cons [of "release_op (l_accounted l) s"] show ?case by (auto simp: release_op_def)
next
  case Nil
  show ?case by (rule exI [of _ "inFlight s"]) simp
qed

lemma useBufferedE:
  assumes "useBuffered leases body s = (r, t)"
  obtains u where "body s = (r, u)" "but_budget u t"
proof -
  obtain r' u where u: "body s = (r', u)" by force
  obtain b where b: "foldl (\<lambda>s l. release_op (l_accounted l) s) u leases = u\<lparr>inFlight := b\<rparr>" using released by blast
  have "but_budget u (u\<lparr>inFlight := b\<rparr>)"
    by (rule but_budgetI [where es = "emitted u" and due = "alarm u"]) simp
  with that u b assms show thesis by (simp add: useBuffered_def)
qed

lemma scheduled: "scheduleGarbageAlarm cfg s = (r, t) \<Longrightarrow> r = Inr () \<and> but_budget s t"
proof -
  assume run: "scheduleGarbageAlarm cfg s = (r, t)"
  have "\<exists>due. t = s\<lparr>alarm := due\<rparr>"
  proof (cases "t = s")
    case True
    then show ?thesis by (intro exI [of _ "alarm s"]) simp
  next
    case False
    with run show ?thesis
      by (auto simp: scheduleGarbageAlarm_def modify_op_def Let_def split: list.splits option.splits if_splits)
  qed
  then obtain due where "t = s\<lparr>inFlight := inFlight s, emitted := emitted s, alarm := due\<rparr>" by auto
  then have "but_budget s t" by (rule but_budgetI)
  moreover have "r = Inr ()" using run by (simp add: scheduleGarbageAlarm_def modify_op_def)
  ultimately show ?thesis by simp
qed

section \<open>Committing a write\<close>

text \<open>The end of the transaction leaves the file alone.\<close>

lemma committed_flushed:
  assumes "committed cfg path bytes v result w" "all_touched (v_entries w) es"
  shows "committed cfg path bytes v result (w\<lparr>v_entries := es\<rparr>)"
proof -
  note c = assms(1) [unfolded committed_def]
  have "fs w path = Some (Data bytes)" using c by (simp add: abs_write_def)
  then obtain e where e: "entry_at path (v_entries w) = Some e" "\<not> is_directory e"
  proof -
    obtain e where "entry_at path (v_entries w) = Some e" "node_of (v_chunks w) e = Data bytes"
      using \<open>fs w path = Some (Data bytes)\<close> by (auto simp: fs_def)
    moreover then have "\<not> is_directory e" by (auto simp: node_of_def is_directory_def)
    ultimately show thesis using that by blast
  qed
  with touched_entry_at [OF assms(2), of path] have "entry_at path es = Some e"
    by (auto simp: touched_def elim: option.rel_cases)
  with e have "token_at cfg (w\<lparr>v_entries := es\<rparr>) path = token_at cfg w path" by (simp add: token_at_def)
  with c flushed_ok [OF assms(2)] evolves_trans show ?thesis
    by (auto simp: committed_def)
qed

text \<open>The state between operations.\<close>

definition read_ok :: "Vfs \<Rightarrow> bool" where
  "read_ok s \<longleftrightarrow> (\<forall>e. lastInlineRead s = Some e \<longrightarrow> is_inline e \<and> canonical (e_path e) \<and> e_id e < nextIno s \<and>
     (\<forall>r \<in> set (entries (tables s)). e_id r = e_id e \<longrightarrow> e_version e < e_version r \<or> same_row e r))"

definition vfs_ok :: "Config \<Rightarrow> Vfs \<Rightarrow> bool" where
  "vfs_ok cfg s \<longleftrightarrow> sound cfg (view s) \<and> usage_ok s \<and> read_ok s \<and> transactionDepth s = 0"

lemma read_ok_evolves:
  assumes "read_ok s" "evolves (view s) (view t)" "lastInlineRead t = lastInlineRead s"
  shows "read_ok t"
  unfolding read_ok_def
proof (intro allI impI conjI ballI)
  fix e assume e: "lastInlineRead t = Some e"
  with assms(1,3) have old: "is_inline e" "canonical (e_path e)" "e_id e < nextIno s"
    "\<And>r. r \<in> set (entries (tables s)) \<Longrightarrow> e_id r = e_id e \<Longrightarrow> e_version e < e_version r \<or> same_row e r"
    by (auto simp: read_ok_def)
  then show "is_inline e" "canonical (e_path e)" by simp_all
  show "e_id e < nextIno t" using old(3) assms(2) by (simp add: evolves_def)
  fix r' assume r': "r' \<in> set (entries (tables t))" "e_id r' = e_id e"
  with assms(2) old(3) obtain r where "r \<in> set (entries (tables s))" "e_id r' = e_id r"
    "e_version r < e_version r' \<or> same_row r r'"
    by (auto simp: evolves_def)
  with old(4) [of r] r'(2) show "e_version e < e_version r' \<or> same_row e r'"
    using same_rowD(1) same_row_trans less_trans by metis
qed

lemma vfs_ok_step:
  assumes "vfs_ok cfg s" "sound cfg (view t)" "evolves (view s) (view t)" "usage_ok t"
    "lastInlineRead t = lastInlineRead s" "transactionDepth t = transactionDepth s"
  shows "vfs_ok cfg t"
  using assms read_ok_evolves by (auto simp: vfs_ok_def)

lemma but_budget_ok: "but_budget s t \<Longrightarrow> vfs_ok cfg t = vfs_ok cfg s"
  using but_budget_view [of s t] by (auto simp: vfs_ok_def read_ok_def but_budget_def)

text \<open>A successful commit, from a plan and a lease.\<close>

lemma writeFile_commit_ok:
  assumes run: "writeFile_commit cfg plan lease digest posix revalidate s = (Inr result, t)"
    and s: "sound cfg (view s)" "usage_ok s" "canonical (p_path plan)"
    and body: "lease_of bytes lease" "digest \<in> {None, Some (sha256Hex cfg bytes)}"
    and skip: "p_skipIfUnchanged plan \<longrightarrow> no_collision cfg (view s) (p_path plan) bytes"
    and current: "\<not> revalidate \<Longrightarrow> cur_ok (view s) plan (p_capturedEntry plan) \<and> \<not> p_skipIfUnchanged plan"
  shows "committed cfg (p_path plan) bytes (view s) result (view t)"
    "revalidate \<longrightarrow> p_capturedToken plan = token_at cfg (view s) (p_path plan)"
    "within cfg (view s) \<longrightarrow> within cfg (view t)"
    "usage_ok t" "lastInlineRead t = lastInlineRead s" "transactionDepth t = transactionDepth s"
proof -
  let ?body = "bind_op (gets_op clock) (\<lambda>now.
        commitInlineWrite cfg plan (l_chunks lease) (l_size lease) digest now posix False revalidate)"
  from run obtain queued u where u: "useBuffered [lease] (transaction cfg ?body) s = (Inr (result, queued), u)"
    "but_budget u t"
    unfolding writeFile_commit_def
    by (auto simp: when_op_Inr but_budget_refl dest!: scheduled split: if_splits)
  from u(1) obtain r where r: "transaction cfg ?body s = (Inr (result, queued), r)" "but_budget r u"
    by (rule useBufferedE)
  let ?Q = "\<lambda>(result, queued) w. committed cfg (p_path plan) bytes (view s) result w \<and>
      (revalidate \<longrightarrow> p_capturedToken plan = token_at cfg (view s) (p_path plan)) \<and> (within cfg (view s) \<longrightarrow> within cfg w)"
  have given: "body_given cfg (l_chunks lease) (l_size lease) digest" "concat (l_chunks lease) = bytes"
    using lease_body [OF body] by simp_all
  have "vpost (transaction cfg ?body) (view s) ?Q"
  proof (rule vpost_transaction, rule vpost_bind, rule vpost_silent)
    fix now
    show "vpost (commitInlineWrite cfg plan (l_chunks lease) (l_size lease) digest now posix False revalidate) (view s)
      (\<lambda>x w. \<forall>es. all_touched (v_entries w) es \<longrightarrow> ?Q x (w\<lparr>v_entries := es\<rparr>))"
      by (rule vpost_commitInlineWrite [OF s(1,3) given(1)])
         (use skip current given(2) committed_flushed in \<open>auto simp: within_def\<close>)
  qed (rule silent_simple)
  from vpostD [OF this refl s(2) r(1)] have post: "?Q (result, queued) (view r)" "moved s (view r) r" by blast+
  have same: "view t = view r" "usage_ok t = usage_ok r" "lastInlineRead t = lastInlineRead r"
    "transactionDepth t = transactionDepth r"
    using but_budget_view [OF r(2)] but_budget_view [OF u(2)] by simp_all
  from post(1) show "committed cfg (p_path plan) bytes (view s) result (view t)"
    "revalidate \<longrightarrow> p_capturedToken plan = token_at cfg (view s) (p_path plan)"
    "within cfg (view s) \<longrightarrow> within cfg (view t)"
    unfolding same by simp_all
  show "usage_ok t" "lastInlineRead t = lastInlineRead s" "transactionDepth t = transactionDepth s"
    using post(2) s(2) unfolding same by (simp_all add: moved_def ambient_def)
qed

section \<open>Whole writes\<close>

lemma read_snapshot_ok:
  assumes "read_snapshot cfg path guard options posix s = (Inr snapshot, t)"
  shows "like s t" "snapshot = Some e \<Longrightarrow> lastInlineRead s = Some e"
proof -
  show "like s t" using assms silentD silent_plans(5) by blast
  show "snapshot = Some e \<Longrightarrow> lastInlineRead s = Some e"
    using assms by (auto simp: read_snapshot_def split: option.splits if_splits)
qed

lemma snapshot_current:
  assumes "read_ok s" "lastInlineRead s = Some e" "plan_facts cfg path guard options (Some e) v plan"
    "\<not> wo_skipIfUnchanged options" "v_entries v = entries (tables s)"
  shows "cur_ok v plan (p_capturedEntry plan)" "canonical (p_path plan)"
proof -
  have e: "is_inline e" "canonical (e_path e)"
    "\<And>r. r \<in> set (entries (tables s)) \<Longrightarrow> e_id r = e_id e \<Longrightarrow> e_version e < e_version r \<or> same_row e r"
    using assms(1,2) by (auto simp: read_ok_def)
  with assms(3-5) show "cur_ok v plan (p_capturedEntry plan)" "canonical (p_path plan)"
    by (auto simp: cur_ok_def plan_facts_def) (metis nat_neq_iff)
qed

lemma writeFile_text_ok:
  assumes s: "vfs_ok cfg s" and skip: "\<not> wo_skipIfUnchanged options"
    and run: "writeFile_text cfg path body guard options posix s = (Inr result, t)"
  shows "vfs_ok cfg t" "committed cfg (wr_path result) (encodeUtf8 body) (view s) result (view t)"
    "within cfg (view s) \<longrightarrow> within cfg (view t)"
proof -
  from run obtain snapshot s1 plan s2 lease s3 where
    s1: "read_snapshot cfg path guard options posix s = (Inr snapshot, s1)" and
    s2: "planInlineWrite cfg path guard options posix snapshot s1 = (Inr plan, s2)" and
    s3: "collectInlineSync cfg body 0 s2 = (Inr lease, s3)" and
    t: "writeFile_commit cfg plan lease None posix False s3 = (Inr result, t)"
    unfolding writeFile_text_def by (elim bind_op_InrE)
  have sound: "sound cfg (view s)" "usage_ok s" "read_ok s" "transactionDepth s = 0" using s by (simp_all add: vfs_ok_def)
  note l1 = read_snapshot_ok(1) [OF s1]
  have l2: "like s1 s2" using silentD [OF silent_plans(1) s2] .
  note l3 = collectInlineSync_ok [OF s3]
  have v1: "view s1 = view s" "usage_ok s1" using l1 sound(2) by (simp_all add: like_def)
  have v3: "view s3 = view s" "usage_ok s3" "lastInlineRead s3 = lastInlineRead s" "transactionDepth s3 = transactionDepth s"
    using l1 l2 but_budget_view [OF l3(1)] sound(2) by (simp_all add: like_def ambient_def)
  have "vpost (planInlineWrite cfg path guard options posix snapshot) (view s) (\<lambda>plan w. plan_facts cfg path guard options snapshot (view s) plan)"
    by (rule vpost_planInlineWrite)
  from vpostD [OF this v1 s2] have facts: "plan_facts cfg path guard options snapshot (view s) plan" by simp
  have current: "cur_ok (view s) plan (p_capturedEntry plan) \<and> canonical (p_path plan) \<and> \<not> p_skipIfUnchanged plan"
  proof (cases snapshot)
    case None
    with facts skip entry_at_SomeD [of "p_path plan" "entries (tables s)"] show ?thesis
      by (auto simp: plan_facts_def cur_ok_def split: option.splits intro: same_row_refl)
  next
    case (Some e)
    from snapshot_current [OF sound(3) read_snapshot_ok(2) [OF s1 Some] facts [unfolded Some] skip] facts skip
    show ?thesis by (simp add: plan_facts_def)
  qed
  note c = writeFile_commit_ok [OF t, unfolded v3(1), OF sound(1) v3(2) _ l3(2)]
  have path: "wr_path result = p_path plan" using c(1) current by (simp add: committed_def)
  show committed: "committed cfg (wr_path result) (encodeUtf8 body) (view s) result (view t)"
    unfolding path using c(1) current by simp
  show "within cfg (view s) \<longrightarrow> within cfg (view t)" using c(3) current by simp
  show "vfs_ok cfg t"
    by (rule vfs_ok_step [OF s]) (use c(4-6) committed current v3 in \<open>simp_all add: committed_def\<close>)
qed

lemma writeFile_streamed_ok:
  assumes s: "vfs_ok cfg s" and plan: "canonical (p_path plan)" "p_skipIfUnchanged plan = wo_skipIfUnchanged options"
    and body: "lease_of bytes lease"
    and skip: "wo_skipIfUnchanged options \<longrightarrow> no_collision cfg (view s) (p_path plan) bytes"
    and run: "writeFile_streamed cfg plan lease options posix s = (Inr result, t)"
  shows "vfs_ok cfg t" "committed cfg (p_path plan) bytes (view s) result (view t)"
    "p_capturedToken plan = token_at cfg (view s) (p_path plan)" "within cfg (view s) \<longrightarrow> within cfg (view t)"
proof -
  have sound: "sound cfg (view s)" "usage_ok s" using s by (simp_all add: vfs_ok_def)
  have digest: "incomingDigest cfg options lease \<in> {None, Some (sha256Hex cfg bytes)}"
    using lease_body [OF body, of None] by (auto simp: incomingDigest_def)
  note c = writeFile_commit_ok [OF run [unfolded writeFile_streamed_def] sound plan(1) body digest]
  show committed: "committed cfg (p_path plan) bytes (view s) result (view t)"
    "p_capturedToken plan = token_at cfg (view s) (p_path plan)" "within cfg (view s) \<longrightarrow> within cfg (view t)"
    using c(1-3) skip plan(2) by simp_all
  show "vfs_ok cfg t"
    by (rule vfs_ok_step [OF s]) (use c(4-6) committed(1) skip plan(2) in \<open>simp_all add: committed_def\<close>)
qed

section \<open>Failed writes\<close>

text \<open>Nothing has changed but the next identity and what was announced.\<close>

definition unchanged :: "Vfs \<Rightarrow> Vfs \<Rightarrow> bool" where
  "unchanged s t \<longleftrightarrow> view t = (view s)\<lparr>v_nextIno := nextIno t\<rparr> \<and> nextIno s \<le> nextIno t \<and> usage_ok t \<and>
     lastInlineRead t = lastInlineRead s \<and> transactionDepth t = transactionDepth s"

lemma unchanged_evolves:
  assumes "unchanged s t"
  shows "evolves (view s) (view t)" "v_charge (view t) = v_charge (view s)"
proof -
  have v: "view t = (view s)\<lparr>v_nextIno := nextIno t\<rparr>" and n: "nextIno s \<le> nextIno t"
    using assms by (simp_all add: unchanged_def)
  have same: "fs ((view s)\<lparr>v_nextIno := nextIno t\<rparr>) = fs (view s)" by (simp add: fs_def fun_eq_iff)
  have "path_version ((view s)\<lparr>v_nextIno := nextIno t\<rparr>) p = path_version (view s) p" for p
    by (cases "entry_at p (entries (tables s))") (simp_all add: path_version_def)
  then have "ages (view s) (view t)" by (simp add: v ages_def same)
  then show "evolves (view s) (view t)" using n unfolding v evolves_def by auto
  show "v_charge (view t) = v_charge (view s)" unfolding v by simp
qed

lemma unchanged_ok:
  assumes "vfs_ok cfg s" "unchanged s t"
  shows "vfs_ok cfg t"
proof (rule vfs_ok_step [OF assms(1)])
  have v: "view t = (view s)\<lparr>v_nextIno := nextIno t\<rparr>" and n: "nextIno s \<le> nextIno t"
    using assms(2) by (simp_all add: unchanged_def)
  show "sound cfg (view t)"
    using assms(1) n unfolding v vfs_ok_def sound_def by fastforce
qed (use assms(2) unchanged_evolves in \<open>auto simp: unchanged_def\<close>)

lemma like_unchanged: "like s t \<Longrightarrow> usage_ok s \<Longrightarrow> unchanged s t \<and> inFlight t = inFlight s"
proof -
  assume "like s t" "usage_ok s"
  then have "view t = view s" "usage_ok t" "ambient t = ambient s" by (simp_all add: like_def)
  then show ?thesis by (auto simp: unchanged_def ambient_def view_def)
qed

lemma but_budget_unchanged: "but_budget s t \<Longrightarrow> usage_ok s \<Longrightarrow> unchanged s t"
  using but_budget_view [of s t] by (auto simp: unchanged_def but_budget_def view_def)

lemma unchanged_trans: "unchanged s t \<Longrightarrow> unchanged t u \<Longrightarrow> unchanged s u"
  by (auto simp: unchanged_def)

lemma like_trans_unchanged: "like s t \<Longrightarrow> usage_ok s \<Longrightarrow> unchanged t u \<Longrightarrow> unchanged s u"
  using like_unchanged unchanged_trans by blast

lemma failed_transaction:
  assumes "stays body" "transaction cfg body s = (Inl e, t)" "transactionDepth s = 0" "usage_ok s"
  shows "unchanged s t" "inFlight t = inFlight s"
proof -
  note o' = transaction_outcome [OF assms(1,2)]
  have "deferredUsage s = None" using assms(3,4) by (simp add: usage_ok_def)
  then have "deferredUsage t = None" using o'(1) by (simp add: ambient_def)
  with o'(3) [OF refl assms(3)] o'(1,2) \<open>deferredUsage s = None\<close> show "unchanged s t"
    by (auto simp: unchanged_def view_def charge_def usage_ok_def ambient_def)
  show "inFlight t = inFlight s" using o'(1) by (simp add: ambient_def)
qed

text \<open>The lease is given back in either outcome, and a failure changes nothing.\<close>

lemma useBuffered_outcome:
  assumes "stays body" "useBuffered [lease] (transaction cfg body) s = (r, t)"
  shows "inFlight t = release (l_accounted lease) (inFlight s)"
    "r = Inl e \<Longrightarrow> transactionDepth s = 0 \<Longrightarrow> usage_ok s \<Longrightarrow> unchanged s t"
proof -
  obtain u where u: "transaction cfg body s = (r, u)" "t = release_op (l_accounted lease) u"
    using assms(2) by (auto simp: useBuffered_def Let_def split: prod.splits)
  have "inFlight u = inFlight s" using transaction_outcome(1) [OF assms(1) u(1)] by (simp add: ambient_def)
  with u(2) show "inFlight t = release (l_accounted lease) (inFlight s)" by (simp add: release_op_def)
  assume "r = Inl e" "transactionDepth s = 0" "usage_ok s"
  from failed_transaction(1) [OF assms(1) u(1) [unfolded this(1)] this(2,3)] have "unchanged s u" .
  moreover have "but_budget u t"
    unfolding u(2) release_op_def
    by (rule but_budgetI [where b = "release (l_accounted lease) (inFlight u)" and es = "emitted u" and due = "alarm u"]) simp
  ultimately show "unchanged s t"
    using but_budget_unchanged unchanged_trans by (metis unchanged_def)
qed

lemma writeFile_commit_outcome:
  assumes "writeFile_commit cfg plan lease digest posix revalidate s = (r, t)"
  shows "inFlight t = release (l_accounted lease) (inFlight s)"
    "r = Inl e \<Longrightarrow> transactionDepth s = 0 \<Longrightarrow> usage_ok s \<Longrightarrow> unchanged s t"
proof -
  let ?body = "bind_op (gets_op clock) (\<lambda>now.
        commitInlineWrite cfg plan (l_chunks lease) (l_size lease) digest now posix False revalidate)"
  have stays: "stays ?body" by (intro stays_intros)
  obtain r1 u where u: "useBuffered [lease] (transaction cfg ?body) s = (r1, u)" by force
  note o' = useBuffered_outcome [OF stays u]
  have alarm: "inFlight (snd (scheduleGarbageAlarm cfg u)) = inFlight u" "fst (scheduleGarbageAlarm cfg u) = Inr ()"
    by (auto simp: scheduleGarbageAlarm_def modify_op_def Let_def split: list.splits option.splits)
  show "inFlight t = release (l_accounted lease) (inFlight s)"
    using assms u o'(1) alarm
    by (auto simp: writeFile_commit_def bind_op_def when_op_def return_op_def split: sum.splits prod.splits if_splits)
  assume "r = Inl e" "transactionDepth s = 0" "usage_ok s"
  moreover with assms u alarm(2) have "r1 = Inl e" "t = u"
    by (auto simp: writeFile_commit_def bind_op_def when_op_def return_op_def split: sum.splits prod.splits if_splits)
  ultimately show "unchanged s t" using o'(2) by blast
qed

lemma bind_op_InlE:
  assumes "bind_op m f s = (Inl e, t)"
  obtains "m s = (Inl e, t)" | x u where "m s = (Inr x, u)" "f x u = (Inl e, t)"
  using assms by (auto simp: bind_op_def split: prod.splits sum.splits)

lemma collectInlineSync_failed:
  "collectInlineSync cfg body held s = (Inl e, t) \<Longrightarrow> but_budget s t \<and> inFlight t = inFlight s"
  using collecting_but_budget [of cfg _ s "Inl e" t]
  by (auto simp: collectInlineSync_def collecting_op_def collectInlineBytesSync_def Let_def acquire_def release_def
      split: prod.splits sum.splits if_splits)

lemma writeFile_text_failed:
  assumes s: "vfs_ok cfg s" and run: "writeFile_text cfg path body guard options posix s = (Inl e, t)"
  shows "unchanged s t" "inFlight t = inFlight s"
proof -
  have ok: "usage_ok s" "transactionDepth s = 0" using s by (simp_all add: vfs_ok_def)
  from run [unfolded writeFile_text_def] have "unchanged s t \<and> inFlight t = inFlight s"
  proof (cases rule: bind_op_InlE)
    case 1
    then show ?thesis using silentD [OF silent_plans(5)] like_unchanged ok by blast
  next
    case (2 snapshot s1)
    have l1: "like s s1" using silentD [OF silent_plans(5) 2(1)] .
    from 2(2) show ?thesis
    proof (cases rule: bind_op_InlE)
      case 1
      then show ?thesis using silentD [OF silent_plans(1)] like_unchanged ok l1 like_trans by blast
    next
      case (2 plan s2)
      have l2: "like s s2" using silentD [OF silent_plans(1) 2(1)] l1 like_trans by blast
      then have s2: "usage_ok s2" "transactionDepth s2 = 0" "inFlight s2 = inFlight s"
        using ok by (simp_all add: like_def ambient_def)
      from 2(2) show ?thesis
      proof (cases rule: bind_op_InlE)
        case 1
        with collectInlineSync_failed [OF 1] show ?thesis
          using but_budget_unchanged s2 like_trans_unchanged [OF l2 ok(1)] by simp
      next
        case (2 lease s3)
        note c = collectInlineSync_ok [OF 2(1)]
        have "unchanged s2 s3" "usage_ok s3" "transactionDepth s3 = 0"
          using but_budget_unchanged [OF c(1) s2(1)] but_budget_view [OF c(1)] s2 by simp_all
        with writeFile_commit_outcome [OF 2(2)] c(3) s2(3) like_trans_unchanged [OF l2 ok(1)] unchanged_trans
        show ?thesis by metis
      qed
    qed
  qed
  then show "unchanged s t" "inFlight t = inFlight s" by simp_all
qed

end
