(* ===== verification/Vfs_Appends.thy ===== *)
theory Vfs_Appends
  imports Vfs_Writes
begin

text \<open>
  Appends (\<open>commitAppend\<close> of \<open>src/vfs/sql-write-base.ts\<close>). A plan of chunks continues the
  slabs that are stored, whatever width they were written with, so the body becomes the old
  body and the suffix.
\<close>

section \<open>Slabs that are continued\<close>

lemma vpost_check: "silent m \<Longrightarrow> (\<And>x. vpost (f x) v Q) \<Longrightarrow> vpost (bind_op m f) v Q"
  by (rule vpost_bind, rule vpost_silent) auto

lemma slabs_snoc:
  "slabs_of w bytes (bs @ [t]) \<longleftrightarrow> concat bs @ t = bytes \<and> (\<forall>c \<in> set bs. length c = w) \<and> t \<noteq> [] \<and> length t \<le> w"
  by (auto simp: slabs_of_def)

lemma full_slabs_length: "\<forall>c \<in> set bs. length c = w \<Longrightarrow> length (concat bs) = length bs * w"
  by (induction bs) auto

text \<open>The last chunk is where slabs of this width would have put it.\<close>

lemma matches_slabs:
  assumes "slabs_of w bytes (bs @ [t])" "0 < width'"
  shows "matchesChunkTail (length bytes) width' (length bs) (length t) \<longleftrightarrow> slabs_of width' bytes (bs @ [t])"
proof -
  have s: "concat bs @ t = bytes" "\<forall>c \<in> set bs. length c = w" "t \<noteq> []" "length t \<le> w"
    using assms(1) by (simp_all add: slabs_snoc)
  have size: "length bytes = length bs * w + length t" using s(1,2) full_slabs_length by (metis length_append)
  have t: "0 < length t" using s(3) by simp
  show ?thesis
  proof
    assume m: "matchesChunkTail (length bytes) width' (length bs) (length t)"
    then have index: "length bs = (length bytes - 1) div width'" and tail: "length t = length bytes - length bs * width'"
      by (simp_all add: matchesChunkTail_def Let_def)
    have "length bs * width' \<le> length bytes - 1" unfolding index by (rule div_times_less_eq_dividend)
    with size t tail have "length bs * width' = length bs * w" by linarith
    then have "bs = [] \<or> width' = w" by auto
    moreover have "length t \<le> width'" if "bs = []"
    proof -
      have "(length t - 1) div width' = 0" using index that size by simp
      with assms(2) show ?thesis by (simp add: div_eq_0_iff)
    qed
    ultimately show "slabs_of width' bytes (bs @ [t])" using s by (auto simp: slabs_snoc)
  next
    assume "slabs_of width' bytes (bs @ [t])"
    then have w': "\<forall>c \<in> set bs. length c = width'" "length t \<le> width'" by (simp_all add: slabs_snoc)
    then have size': "length bytes = length bs * width' + length t" using s(1) full_slabs_length by (metis length_append)
    obtain x where x: "length t = Suc x" using t by (cases "length t") auto
    have "length bytes - 1 = x + length bs * width'" using size' x by simp
    moreover have "x < width'" using x w'(2) by simp
    ultimately have "(length bytes - 1) div width' = length bs" by simp
    with size' t show "matchesChunkTail (length bytes) width' (length bs) (length t)"
      by (simp add: matchesChunkTail_def Let_def)
  qed
qed

lemma slabs_append_full:
  assumes "slabs_of w a (bs @ [t])" "length t = w" "slabs_of w b cs"
  shows "slabs_of w (a @ b) (bs @ [t] @ cs)"
  using assms by (cases cs rule: rev_cases) (auto simp: slabs_snoc slabs_of_def butlast_append split: if_splits)

lemma slabs_append_tail:
  assumes "slabs_of w a (bs @ [t])" "slabs_of w (t @ b) cs"
  shows "slabs_of w (a @ b) (bs @ cs)"
  using assms by (cases cs rule: rev_cases) (auto simp: slabs_snoc slabs_of_def butlast_append split: if_splits)

section \<open>The plan of an append\<close>

definition appended_bodies :: "byte list list \<Rightarrow> AppendPlan \<Rightarrow> byte list list" where
  "appended_bodies bodies plan = (case ap_tailSuffix plan of
     Some suffix' \<Rightarrow> bodies[ap_first plan := bodies ! ap_first plan @ suffix']
   | None \<Rightarrow> take (ap_first plan) bodies @ ap_chunks plan)"

definition continues :: "byte list list \<Rightarrow> byte list \<Rightarrow> AppendPlan \<Rightarrow> bool" where
  "continues bodies bytes plan \<longleftrightarrow> (\<exists>w. 0 < w \<and> slabs_of w (concat bodies @ bytes) (appended_bodies bodies plan)) \<and>
     (case ap_tailSuffix plan of Some _ \<Rightarrow> ap_first plan < length bodies
      | None \<Rightarrow> ap_first plan \<le> length bodies \<and> length bodies \<le> ap_first plan + length (ap_chunks plan))"

lemma vpost_stored_rows:
  assumes "distinct_chunks (v_chunks v)" "layout i (v_chunks v) bodies"
    "\<And>rows. map c_body rows = bodies \<Longrightarrow> map c_index rows = [0..<length bodies] \<Longrightarrow> Q rows v"
  shows "vpost (gets_op (\<lambda>s. stored_chunks i (tables s))) v Q"
proof (rule vpost_gets)
  fix s assume "view s = v"
  then have "chunks (tables s) = v_chunks v" by auto
  with stored_layout [of "tables s" i bodies] assms show "Q (stored_chunks i (tables s)) v" by simp
qed

lemma vpost_storedChunkBytes:
  assumes "distinct_chunks (v_chunks v)" "layout (e_id e) (v_chunks v) bodies"
    "\<And>b bs. bodies = b # bs \<Longrightarrow> b \<noteq> [] \<Longrightarrow> Q (length b) v"
  shows "vpost (storedChunkBytes e path) v Q"
  unfolding storedChunkBytes_def
  apply (rule vpost_bind, rule vpost_stored_rows [OF assms(1,2)])
  subgoal for rows using assms(3) by (cases rows) (auto intro!: vpost_throw vpost_return split: if_splits)
  done

lemma vpost_last_chunk:
  assumes "distinct_chunks (v_chunks v)" "layout i (v_chunks v) bodies"
    "bodies = [] \<Longrightarrow> Q None v"
    "\<And>(row :: ChunkRow) bs. bodies = bs @ [c_body row] \<Longrightarrow> c_index row = length bs \<Longrightarrow> Q (Some row) v"
  shows "vpost (gets_op (\<lambda>s. last_chunk i (tables s))) v Q"
proof (rule vpost_gets)
  fix s assume "view s = v"
  then have "chunks (tables s) = v_chunks v" by auto
  with stored_layout [of "tables s" i bodies] assms(1,2)
  have rows: "map c_body (stored_chunks i (tables s)) = bodies" "map c_index (stored_chunks i (tables s)) = [0..<length bodies]"
    by simp_all
  show "Q (last_chunk i (tables s)) v"
  proof (cases "stored_chunks i (tables s)" rule: rev_cases)
    case Nil
    with rows(1) assms(3) show ?thesis by (simp add: last_chunk_def)
  next
    case (snoc rs row)
    have "bodies = map c_body rs @ [c_body row]" using rows(1) snoc by simp
    moreover from this have "c_index row = length (map c_body rs)" using rows(2) snoc by simp
    moreover have "last_chunk i (tables s) = Some row" using snoc by (cases rs) (simp_all add: last_chunk_def)
    ultimately show ?thesis using assms(4) by simp
  qed
qed

lemma vpost_appendTail:
  assumes "distinct_chunks (v_chunks v)" "layout (e_id e) (v_chunks v) (bs @ [c_body row])" "c_index row = length bs"
    "0 < w" "slabs_of w (concat bs @ c_body row) (bs @ [c_body row])" "e_size e = length (concat bs @ c_body row)"
    "0 < chunkBytes cfg" "slabs_of (chunkBytes cfg) bytes suffixChunks" "bytes \<noteq> []"
    "\<And>plan. continues (bs @ [c_body row]) bytes plan \<Longrightarrow> Q plan v"
  shows "vpost (appendTail cfg e path suffixChunks row) v Q"
proof -
  let ?t = "c_body row" and ?a = "concat bs @ c_body row"
  have finish: "vpost (if length ?t = width' then
        bind_op (if width' = chunkBytes cfg then return_op suffixChunks
                 else lift_op (rechunk suffixChunks width')) (\<lambda>bodies.
        return_op \<lparr>ap_first = length bs + 1, ap_chunks = bodies, ap_tailSuffix = None\<rparr>)
      else
        bind_op (lift_op (rechunk (?t # suffixChunks) width')) (\<lambda>bodies.
        return_op \<lparr>ap_first = length bs, ap_chunks = bodies, ap_tailSuffix = None\<rparr>)) v Q"
    if w': "0 < width'" and s: "slabs_of width' ?a (bs @ [?t])" for width'
  proof (intro vpost_if vpost_bind)
    assume full: "length ?t = width'"
    have "slabs_of width' (?a @ bytes) (bs @ [?t] @ cs)" if "slabs_of width' bytes cs" for cs
      using slabs_append_full [OF s full that] .
    then have Q: "vpost (return_op \<lparr>ap_first = length bs + 1, ap_chunks = cs, ap_tailSuffix = None\<rparr>) v Q"
      if "slabs_of width' bytes cs" for cs
      using w' that by (intro vpost_return assms(10)) (auto simp: continues_def appended_bodies_def)
    show "vpost (return_op suffixChunks) v (\<lambda>bodies w. vpost (return_op
        \<lparr>ap_first = length bs + 1, ap_chunks = bodies, ap_tailSuffix = None\<rparr>) w Q)" if "width' = chunkBytes cfg"
      by (rule vpost_return) (use Q assms(8) that in simp)
    show "vpost (lift_op (rechunk suffixChunks width')) v (\<lambda>bodies w. vpost (return_op
        \<lparr>ap_first = length bs + 1, ap_chunks = bodies, ap_tailSuffix = None\<rparr>) w Q)"
      using Q slices_ok [OF w'] assms(8)
      by (intro vpost_lift) (auto simp: rechunk_slices slabs_of_def split: if_splits)
  next
    show "vpost (lift_op (rechunk (?t # suffixChunks) width')) v (\<lambda>bodies w. vpost (return_op
        \<lparr>ap_first = length bs, ap_chunks = bodies, ap_tailSuffix = None\<rparr>) w Q)"
    proof (rule vpost_lift)
      fix cs assume "rechunk (?t # suffixChunks) width' = Inr cs"
      with assms(8) have "cs = slices width' (?t @ bytes)"
        by (auto simp: rechunk_slices slabs_of_def split: if_splits)
      with slices_ok [OF w'] have cs: "slabs_of width' (?t @ bytes) cs" by simp
      then have "cs \<noteq> []" using assms(9) by (auto simp: slabs_of_def)
      with slabs_append_tail [OF s cs] w' show "vpost (return_op
          \<lparr>ap_first = length bs, ap_chunks = cs, ap_tailSuffix = None\<rparr>) v Q"
        by (auto intro!: vpost_return assms(10) simp: continues_def appended_bodies_def Suc_le_eq)
    qed
  qed
  have matched: "slabs_of width' ?a (bs @ [?t])" if "0 < width'"
    "matchesChunkTail (e_size e) width' (length bs) (length ?t)" for width'
    using matches_slabs [OF assms(5) that(1)] that(2) assms(6) by simp
  show ?thesis
    unfolding appendTail_def Let_def assms(3)
    apply (rule vpost_bind, intro vpost_if)
    subgoal by (rule vpost_return) (rule finish, use assms(7) matched in auto)
    apply (rule vpost_bind, rule vpost_storedChunkBytes [OF assms(1,2)])
    apply (rule vpost_if, rule vpost_return, rule finish)
    subgoal by simp
    subgoal using matched by simp
    subgoal by (rule vpost_throw)
    done
qed

lemma vpost_appendChunkPlan:
  assumes "distinct_chunks (v_chunks v)" "layout (e_id e) (v_chunks v) bodies" "0 < w" "slabs_of w (concat bodies) bodies"
    "e_size e = length (concat bodies)"
    "0 < chunkBytes cfg" "slabs_of (chunkBytes cfg) bytes suffixChunks" "bytes \<noteq> []"
    "\<And>plan. continues bodies bytes plan \<Longrightarrow> Q plan v"
  shows "vpost (appendChunkPlan cfg e path suffixChunks) v Q"
  unfolding appendChunkPlan_def Let_def
proof (rule vpost_bind, rule vpost_last_chunk [OF assms(1,2)])
  assume "bodies = []"
  with assms show "vpost (case None of None \<Rightarrow> if e_size e \<noteq> 0 then fail_op EIO path
      else return_op \<lparr>ap_first = 0, ap_chunks = suffixChunks, ap_tailSuffix = None\<rparr>
      | Some row \<Rightarrow> f row) v Q" for f
    by (auto intro!: vpost_return assms(9) simp: continues_def appended_bodies_def)
next
  fix row :: ChunkRow and bs assume row: "bodies = bs @ [c_body row]" "c_index row = length bs"
  have compact: "continues bodies bytes \<lparr>ap_first = 0, ap_chunks = [], ap_tailSuffix = Some (suffixChunks ! 0)\<rparr>"
    if c: "length suffixChunks = 1" "e_size e + length (suffixChunks ! 0) \<le> chunkBytes cfg" "length bs = 0"
  proof -
    obtain b where "suffixChunks = [b]" using c(1) by (cases suffixChunks) auto
    then have "bytes = b" "suffixChunks ! 0 = b" using assms(7) by (auto simp: slabs_of_def)
    with c row assms(5,6,8) show ?thesis
      by (auto simp: continues_def appended_bodies_def slabs_of_def intro!: exI [of _ "chunkBytes cfg"])
  qed
  have tail: "vpost (appendTail cfg e path suffixChunks row) v Q"
    by (rule vpost_appendTail) (use assms row in auto)
  show "vpost (case Some row of None \<Rightarrow> m | Some row \<Rightarrow>
      if (e_size e > 0 \<and> length suffixChunks = 1 \<and> e_size e + length (suffixChunks ! 0) \<le> chunkBytes cfg) \<and>
        c_index row = 0 \<and> length (c_body row) = e_size e
      then return_op \<lparr>ap_first = 0, ap_chunks = [], ap_tailSuffix = Some (suffixChunks ! 0)\<rparr>
      else appendTail cfg e path suffixChunks row) v Q" for m
    using compact tail row(2) by (auto intro!: vpost_return assms(9))
qed

section \<open>The table of chunks after an append\<close>

lemma continued_table:
  assumes "distinct_chunks cs" "layout i cs bodies" "continues bodies bytes plan"
    "cs' = (case ap_tailSuffix plan of
       Some suffix' \<Rightarrow> map (\<lambda>c. if c_entry c = i \<and> c_index c = ap_first plan then c\<lparr>c_body := c_body c @ suffix'\<rparr> else c) cs
     | None \<Rightarrow> put_chunks i (ap_first plan) (ap_chunks plan) cs)"
  shows "rebodied i (appended_bodies bodies plan) cs cs'"
proof (cases "ap_tailSuffix plan")
  case None
  with assms(3) have n: "ap_first plan \<le> length bodies" "length bodies \<le> ap_first plan + length (ap_chunks plan)"
    by (simp_all add: continues_def)
  have cs': "cs' = put_chunks i (ap_first plan) (ap_chunks plan) cs" using None assms(4) by simp
  have "layout i cs' (appended_bodies bodies plan)"
    using assms(2) n unfolding cs' layout_def put_chunks_at
    by (auto simp: appended_bodies_def None nth_append)
  moreover have "c_entry ` set cs' \<subseteq> c_entry ` set cs" if "appended_bodies bodies plan = []"
    using that None cs' by (simp add: appended_bodies_def)
  ultimately show ?thesis
    using put_chunks_ok(1) [OF assms(1), of i "ap_first plan" "ap_chunks plan"]
      put_chunks_ok(2) [of i "ap_first plan" "ap_chunks plan" cs]
    by (auto simp: rebodied_def cs' put_chunks_at)
next
  case (Some suffix')
  let ?f = "\<lambda>c. if c_entry c = i \<and> c_index c = ap_first plan then c\<lparr>c_body := c_body c @ suffix'\<rparr> else c"
  have n: "ap_first plan < length bodies" using Some assms(3) by (simp add: continues_def)
  have cs': "cs' = map ?f cs" using Some assms(4) by simp
  have key: "chunk_key (?f c) = chunk_key c" for c by (simp add: chunk_key_def)
  have at: "chunk_at cs' j m = (if j = i \<and> m = ap_first plan then map_option (\<lambda>b. b @ suffix') (chunk_at cs j m)
      else chunk_at cs j m)" for j m
    unfolding cs' by (rule append_chunk_at)
  have "layout i cs' (appended_bodies bodies plan)"
    using assms(2) n unfolding layout_def at by (auto simp: appended_bodies_def Some)
  moreover have "distinct_chunks cs'" "c_entry ` set cs' = c_entry ` set cs"
    unfolding cs' using map_chunks_ok [of ?f cs, OF key] assms(1) by simp_all
  ultimately show ?thesis by (auto simp: rebodied_def at)
qed

lemma append_to_chunk_table:
  "append_to_chunk i n suffix' = (\<lambda>t. t\<lparr>chunks :=
     map (\<lambda>c. if c_entry c = i \<and> c_index c = n then c\<lparr>c_body := c_body c @ suffix'\<rparr> else c) (chunks t)\<rparr>)"
  by (simp add: append_to_chunk_def fun_eq_iff)

section \<open>The append of a file that is there\<close>

definition grown_row :: "nat \<Rightarrow> nat \<Rightarrow> nat \<Rightarrow> EntryRow \<Rightarrow> EntryRow" where
  "grown_row size' now version' e = e\<lparr>e_size := size', e_modified := now, e_changed := now,
     e_revision := e_revision e + 1, e_version := version'\<rparr>"

lemma grown_committed:
  assumes "sound cfg v" "e \<in> set (v_entries v)" "is_inline e" "layout (e_id e) (v_chunks v) bodies"
    "continues bodies bytes plan" "rebodied (e_id e) (appended_bodies bodies plan) (v_chunks v) cs"
    and r'_def: "r' = grown_row (e_size e + length bytes) now (e_version e + 1) e"
  shows "committed cfg (e_path e) (body_of (e_id e) (v_chunks v) @ bytes) v
    \<lparr>wr_path = e_path e, wr_revision = n, wr_token = formatMutationToken (mutationEpoch cfg) (e_version e + 1),
     wr_size = e_size e + length bytes, wr_created = c\<rparr> (overwritten e r' cs (v_objects v) v)"
proof -
  let ?w = "overwritten e r' cs (v_objects v) v"
  have tree: "tree_ok (v_entries v)" and chunks: "distinct_chunks (v_chunks v)" "stored e (v_chunks v)"
    using assms(1-3) by (auto simp: sound_def bodies_ok_def)
  obtain w where w: "0 < w" "slabs_of w (concat bodies @ bytes) (appended_bodies bodies plan)"
    using assms(5) by (auto simp: continues_def)
  then have body: "concat (appended_bodies bodies plan) = concat bodies @ bytes" by (simp add: slabs_of_def)
  have old: "body_of (e_id e) (v_chunks v) = concat bodies" using layout_body chunks(1) assms(4) .
  have size: "e_size e = length (concat bodies)"
    using chunks old layout_body by (auto simp: stored_def)
  have row: "content_row e (e_size e + length bytes) r'"
    using assms(3) by (simp add: content_row_def r'_def grown_row_def is_inline_def)
  have digest: "digest_ok cfg cs r'"
    using assms(1,2) by (auto simp: sound_def digest_ok_def r'_def grown_row_def is_inline_def)
  have dir: "\<not> is_directory e" using assms(3) by (simp add: is_inline_def is_directory_def)
  have objs: "\<forall>x \<in> set (v_entries v) - {e}. object_ok (v_objects v) x" using assms(1) by (simp add: sound_def)
  note over = overwritten_ok [OF assms(1,2) dir row assms(6) w(1) _ _ digest objs]
  have over: "sound cfg ?w" "fs ?w = (fs v)(e_path e \<mapsto> Data (concat bodies @ bytes))" "evolves v ?w"
    using over w(2) body size by simp_all
  have "r' \<in> set (v_entries ?w)"
    using assms(2) by (auto simp: overwritten_def charged_def replace_row_def r'_def grown_row_def image_iff)
  moreover have "e_path r' = e_path e" "e_version r' = e_version e + 1" by (simp_all add: r'_def grown_row_def)
  moreover have "tree_ok (v_entries ?w)" using over(1) by (simp add: sound_def)
  ultimately have "token_at cfg ?w (e_path e) = formatMutationToken (mutationEpoch cfg) (e_version e + 1)"
    using tree_entry [of "v_entries ?w" "e_path e" r'] by (simp add: token_at_def mutationToken_def)
  moreover have "mkdirs (e_path e) (fs v) = fs v" using mkdirs_existing [OF assms(1,2)] by simp
  ultimately show ?thesis
    using over size by (auto simp: committed_def abs_write_def old)
qed

lemma vpost_appendContent:
  assumes "sound cfg v" "e \<in> set (v_entries v)" "is_inline e"
    "0 < chunkBytes cfg" "slabs_of (chunkBytes cfg) bytes suffixChunks" "bytes \<noteq> []" "n = length bytes"
    "\<And>result w. committed cfg (e_path e) (body_of (e_id e) (v_chunks v) @ bytes) v (result\<lparr>wr_path := e_path e\<rparr>) w \<Longrightarrow>
       wr_path result = path \<Longrightarrow> \<not> wr_created result \<Longrightarrow> (within cfg v \<longrightarrow> within cfg w) \<Longrightarrow> Q result w"
  shows "vpost (appendContent cfg e path suffixChunks n conditional) v Q"
proof -
  have tree: "tree_ok (v_entries v)" and bodies: "bodies_ok (v_entries v) (v_chunks v)" and solitary: "solitary e"
    using assms(1,2) by (auto simp: sound_def)
  obtain k bs where k: "0 < k" "layout (e_id e) (v_chunks v) bs" "slabs_of k (concat bs) bs" "e_size e = length (concat bs)"
    using bodies assms(2,3) by (auto simp: bodies_ok_def stored_def)
  have chunks: "distinct_chunks (v_chunks v)" using bodies by (simp add: bodies_ok_def)
  have link: "e_linkCount e = 1" using solitary assms(3) by (auto simp: solitary_def is_inline_def is_directory_def)
  have append: "vpost (bind_op (case ap_tailSuffix plan of
          Some suffix' \<Rightarrow> exec_op (append_to_chunk (e_id e) (ap_first plan) suffix')
        | None \<Rightarrow> writeChunks (e_id e) (ap_first plan) (ap_chunks plan) False) (\<lambda>_.
      bind_op (publishToken cfg path (e_version e + 1) True MWrite (Some (e_linkIdentity e))) (\<lambda>tok.
      bind_op (updateUsage cfg (int n * int (e_linkCount e)) 0) (\<lambda>_.
      return_op \<lparr>wr_path = path, wr_revision = e_revision e + 1, wr_token = tok,
                 wr_size = e_size e + n, wr_created = False\<rparr>))))
      (v\<lparr>v_entries := replace_row (grown_row (e_size e + n) now (e_version e + 1) e) (v_entries v)\<rparr>) Q"
    if plan: "continues bs bytes plan" and fits: "fits cfg (v_charge v) (int n * int (e_linkCount e)) 0" for plan now
  proof -
    let ?r = "grown_row (e_size e + n) now (e_version e + 1) e"
    have done': "vpost (bind_op (publishToken cfg path (e_version e + 1) True MWrite (Some (e_linkIdentity e))) (\<lambda>tok.
        bind_op (updateUsage cfg (int n * int (e_linkCount e)) 0) (\<lambda>_.
        return_op \<lparr>wr_path = path, wr_revision = e_revision e + 1, wr_token = tok,
                   wr_size = e_size e + n, wr_created = False\<rparr>)))
        (v\<lparr>v_entries := replace_row ?r (v_entries v), v_chunks := cs\<rparr>) Q"
      if "rebodied (e_id e) (appended_bodies bs plan) (v_chunks v) cs" for cs
    proof (intro vpost_intros assms(8))
      let ?w = "charged (int n * int (e_linkCount e)) 0 (v\<lparr>v_entries := replace_row ?r (v_entries v), v_chunks := cs\<rparr>)"
      have w: "?w = overwritten e ?r cs (v_objects v) v"
        using link assms(3) by (simp add: overwritten_def charged_def old_size_def grown_row_def)
      show "committed cfg (e_path e) (body_of (e_id e) (v_chunks v) @ bytes) v
          (\<lparr>wr_path = path, wr_revision = e_revision e + 1,
            wr_token = formatMutationToken (mutationEpoch cfg) (e_version e + 1), wr_size = e_size e + n,
            wr_created = False\<rparr>\<lparr>wr_path := e_path e\<rparr>) ?w"
        unfolding w using grown_committed [OF assms(1-3) k(2) plan that refl] by (simp add: assms(7))
      show "within cfg v \<longrightarrow> within cfg ?w"
        using within_fits [OF _ fits] by (simp add: charged_def)
    qed simp_all
    note table = done' [OF continued_table [OF chunks k(2) plan refl]]
    show ?thesis
      unfolding append_to_chunk_table
    proof (rule vpost_bind, rule vpost_option)
      fix suffix' assume tail: "ap_tailSuffix plan = Some suffix'"
      show "vpost (exec_op (\<lambda>t. t\<lparr>chunks := map (\<lambda>c. if c_entry c = e_id e \<and> c_index c = ap_first plan
            then c\<lparr>c_body := c_body c @ suffix'\<rparr> else c) (chunks t)\<rparr>))
          (v\<lparr>v_entries := replace_row (grown_row (e_size e + n) now (e_version e + 1) e) (v_entries v)\<rparr>)
          (\<lambda>_ w. vpost (bind_op (publishToken cfg path (e_version e + 1) True MWrite (Some (e_linkIdentity e))) (\<lambda>tok.
            bind_op (updateUsage cfg (int n * int (e_linkCount e)) 0) (\<lambda>_.
            return_op \<lparr>wr_path = path, wr_revision = e_revision e + 1, wr_token = tok,
                       wr_size = e_size e + n, wr_created = False\<rparr>))) w Q)"
        by (rule vpost_exec_table) (use table tail in simp)
    qed (rule vpost_writeChunks, use table in simp)
  qed
  show ?thesis
    unfolding appendContent_def Let_def
    apply (rule vpost_bind, rule vpost_silent)
    subgoal by (intro silent_intros)
    apply (rule vpost_bind, rule vpost_assertCapacity)
    apply (rule vpost_bind, rule vpost_appendChunkPlan [OF chunks k(2,1,3,4) assms(4-6)])
    apply (rule vpost_bind, rule vpost_silent)
    subgoal by (rule silent_simple)
    apply (rule vpost_bind, rule vpost_silent)
    subgoal by (rule silent_simple)
    apply (rule vpost_if, rule vpost_throw)
    apply (rule vpost_bind, unfold update_entry_def [abs_def], rule vpost_exec_table)
    subgoal premises p for u0 plan now matched t
    proof -
      have "e_id (grown_row (e_size e + n) now (e_version e + 1) e) = e_id e" by (simp add: grown_row_def)
      note update_replaces [OF tree assms(2), of "grown_row (e_size e + n) now (e_version e + 1)", OF this]
      with append [OF p(2,1), where now = now] show ?thesis
        unfolding p(4) grown_row_def [symmetric] by (simp only:)
    qed
    done
qed

section \<open>Whole appends\<close>

text \<open>The entry a path names when a body is appended: links are followed.\<close>

definition names :: "Vfs \<Rightarrow> jstring \<Rightarrow> EntryRow \<Rightarrow> bool" where
  "names s path e \<longleftrightarrow> fst (requireEntry path True s) = Inr e"

lemma resolve_cong:
  assumes "entries t = entries t'"
  shows "resolve_entry n t input path follow followed hops = resolve_entry n t' input path follow followed hops"
    "resolve_segments n t segments path follow followed hops = resolve_segments n t' segments path follow followed hops"
proof -
  have at: "find_entry p t = find_entry p t'" for p using assms by (simp add: find_entry_def)
  have missing: "missingAncestorLink t p = missingAncestorLink t' p" for p
    unfolding missingAncestorLink_def links_def linkAncestor_def assms ..
  have "(\<forall>input path follow followed hops.
      resolve_entry n t input path follow followed hops = resolve_entry n t' input path follow followed hops) \<and>
    (\<forall>segments path follow followed hops.
      resolve_segments n t segments path follow followed hops = resolve_segments n t' segments path follow followed hops)"
  proof (induction n)
    case (Suc n)
    then have eq: "resolve_entry n t = resolve_entry n t'" "resolve_segments n t = resolve_segments n t'"
      by (simp_all add: fun_eq_iff)
    have "resolve_segments (Suc n) t segments path follow followed hops =
        resolve_segments (Suc n) t' segments path follow followed hops" for segments path follow followed hops
      by (cases segments) (simp_all only: resolve_segments.simps eq)
    moreover have "resolve_entry (Suc n) t input path follow followed hops =
        resolve_entry (Suc n) t' input path follow followed hops" for input path follow followed hops
      by (simp only: resolve_entry.simps eq at missing)
    ultimately show ?case by blast
  qed simp
  then show "resolve_entry n t input path follow followed hops = resolve_entry n t' input path follow followed hops"
    "resolve_segments n t segments path follow followed hops = resolve_segments n t' segments path follow followed hops"
    by blast+
qed

lemma names_cong: "view s = view s' \<Longrightarrow> names s path e \<longleftrightarrow> names s' path e"
proof -
  assume "view s = view s'"
  then have es: "entries (tables s) = entries (tables s')" by (simp add: view_simps)
  then have "links (tables s) = links (tables s')" "find_entry p (tables s) = find_entry p (tables s')" for p
    by (simp_all add: links_def find_entry_def)
  then show ?thesis
    using resolve_cong(1) [OF es]
    by (simp add: names_def requireEntry_def oneResolved_def resolveEntry_op_def resolveEntry_def oneEntry_def
        bind_op_def gets_op_def return_op_def throw_op_def split: sum.splits option.splits prod.splits)
qed

lemma names_found: "find_entry path (tables s) = Some e \<Longrightarrow> \<not> is_symlink e \<Longrightarrow> \<not> hasDotSegments path \<Longrightarrow> names s path e"
proof -
  assume e: "find_entry path (tables s) = Some e" "\<not> is_symlink e" "\<not> hasDotSegments path"
  obtain n where n: "resolve_fuel = Suc n" using resolve_fuel_Suc by blast
  from e have "resolveEntry (tables s) path True = Inr \<lparr>r_path = path, r_row = Some e, r_followed = [], r_hops = 0\<rparr>"
    unfolding resolveEntry_def n by (simp add: followsTerminalLink_def)
  with e show ?thesis
    by (simp add: names_def requireEntry_def oneResolved_def resolveEntry_op_def oneEntry_def
        bind_op_def gets_op_def return_op_def)
qed

lemma names_unique: "names s path e \<Longrightarrow> names s path e' \<Longrightarrow> e = e'"
  by (simp add: names_def)

lemma vpost_requireEntry:
  assumes "\<And>e. e \<in> set (v_entries v) \<Longrightarrow> (\<forall>s. view s = v \<longrightarrow> names s path e) \<Longrightarrow> Q e v"
  shows "vpost (requireEntry path True) v Q"
proof (rule vpostI)
  fix s e t assume s: "view s = v" "usage_ok s" "requireEntry path True s = (Inr e, t)"
  have like: "like s t" by (rule silentD [OF silent_lookups(7) s(3)])
  from s(3) have "names s path e" by (simp add: names_def)
  then have named: "\<forall>s'. view s' = v \<longrightarrow> names s' path e" using names_cong s(1) by blast
  have "e \<in> set (entries (tables s))"
    using s(3) resolveEntry_found(1) [of "tables s" path True]
    by (auto simp: requireEntry_def oneResolved_def resolveEntry_op_def oneEntry_def find_entry_at
        dest!: sym [of "Some e"] entry_at_SomeD split: if_splits option.splits)
  with assms [of e] named s(1) have "Q e v" by auto
  moreover have "view t = v" "moved s (view t) t" using like s(1,2) by (simp_all add: like_def moved_def)
  ultimately show "Q e (view t) \<and> moved s (view t) t" by simp
qed

lemma vpost_requireInline:
  assumes "\<And>e. e \<in> set (v_entries v) \<Longrightarrow> is_inline e \<Longrightarrow> (\<forall>s. view s = v \<longrightarrow> names s path e) \<Longrightarrow> Q e v"
  shows "vpost (requireInline path None) v Q"
  unfolding requireInline_def or_require_def option.case
  by (rule vpost_bind, rule vpost_requireEntry, intro vpost_if vpost_throw vpost_return assms) simp_all

text \<open>What an append does to the file it found, or, with no bytes, that it does nothing.\<close>

definition append_result :: "Config \<Rightarrow> jstring \<Rightarrow> EntryRow \<Rightarrow> byte list \<Rightarrow> View \<Rightarrow> WriteResult \<Rightarrow> View \<Rightarrow> bool" where
  "append_result cfg path e bytes v result w \<longleftrightarrow>
     committed cfg (e_path e) (body_of (e_id e) (v_chunks v) @ bytes) v (result\<lparr>wr_path := e_path e\<rparr>) w \<and>
     wr_path result = path \<and> \<not> wr_created result \<and> (within cfg v \<longrightarrow> within cfg w)"

definition suffix_given :: "Config \<Rightarrow> byte list \<Rightarrow> BufferedChunksLease \<Rightarrow> bool" where
  "suffix_given cfg bytes lease \<longleftrightarrow> 0 < chunkBytes cfg \<and> slabs_of (chunkBytes cfg) bytes (l_chunks lease) \<and>
     l_size lease = length bytes"

lemma empty_append:
  assumes "sound cfg v" "e \<in> set (v_entries v)" "is_inline e"
  shows "append_result cfg path e [] v \<lparr>wr_path = path, wr_revision = n, wr_token = mutationToken cfg e,
    wr_size = e_size e, wr_created = False\<rparr> v"
proof -
  have tree: "tree_ok (v_entries v)" and chunks: "distinct_chunks (v_chunks v)" "stored e (v_chunks v)"
    using assms(1-3) by (auto simp: sound_def bodies_ok_def)
  have at: "entry_at (e_path e) (v_entries v) = Some e" using tree_entry [OF tree] assms(2) by simp
  have "mkdirs (e_path e) (fs v) = fs v" using mkdirs_existing [OF assms(1,2)] by simp
  moreover have "fs v (e_path e) = Some (Data (body_of (e_id e) (v_chunks v)))"
    using at assms(3) by (simp add: fs_def node_of_def is_inline_def)
  moreover have "e_size e = length (body_of (e_id e) (v_chunks v))"
    using chunks layout_body by (auto simp: stored_def)
  ultimately show ?thesis
    using assms(1) at by (auto simp: append_result_def committed_def abs_write_def token_at_def)
qed

lemma append_flushed:
  "append_result cfg path e bytes v result w \<Longrightarrow> all_touched (v_entries w) es \<Longrightarrow>
   append_result cfg path e bytes v result (w\<lparr>v_entries := es\<rparr>)"
  using committed_flushed by (auto simp: append_result_def within_def)

lemma vpost_commitAppend:
  assumes "sound cfg v" "suffix_given cfg bytes lease"
    "\<And>e. snapshot = Some e \<Longrightarrow> e \<in> set (v_entries v) \<and> is_inline e \<and> (\<forall>s. view s = v \<longrightarrow> names s path e)"
    "\<And>e result w. append_result cfg path e bytes v result w \<Longrightarrow> (\<forall>s. view s = v \<longrightarrow> names s path e) \<Longrightarrow>
       e \<in> set (v_entries v) \<Longrightarrow> is_inline e \<Longrightarrow> captured = mutationToken cfg e \<Longrightarrow> Q result w"
  shows "vpost (commitAppend cfg path written followed captured (l_chunks lease) (l_size lease) tok posix snapshot) v Q"
proof -
  have tree: "tree_ok (v_entries v)" using assms(1) by (simp add: sound_def)
  have given: "0 < chunkBytes cfg" "slabs_of (chunkBytes cfg) bytes (l_chunks lease)" "l_size lease = length bytes"
    using assms(2) by (simp_all add: suffix_given_def)
  have finish: "vpost (if mutationToken cfg e \<noteq> captured then fail_op EREVISION path
        else
        bind_op (validateGuard cfg path (Some e) tok (Some written)) (\<lambda>_.
        bind_op (assertTraverse path followed posix) (\<lambda>_.
        bind_op (assertPermission e posix WRITE_PERMISSION path) (\<lambda>_.
        if l_size lease = 0 then
          return_op \<lparr>wr_path = path, wr_revision = e_revision e, wr_token = captured,
                     wr_size = e_size e, wr_created = False\<rparr>
        else appendContent cfg e path (l_chunks lease) (l_size lease) (snapshot \<noteq> None))))) v
      (\<lambda>x w. \<forall>es. all_touched (v_entries w) es \<longrightarrow> Q x (w\<lparr>v_entries := es\<rparr>))"
    if e: "e \<in> set (v_entries v)" "is_inline e" "\<forall>s. view s = v \<longrightarrow> names s path e" for e
  proof (intro vpost_if vpost_throw)
    assume captured: "\<not> mutationToken cfg e \<noteq> captured"
    have done': "\<forall>es. all_touched (v_entries w) es \<longrightarrow> Q x (w\<lparr>v_entries := es\<rparr>)"
      if "append_result cfg path e bytes v x w" for x w
      using append_flushed [OF that] e captured by (auto intro!: assms(4))
    show "vpost (bind_op (validateGuard cfg path (Some e) tok (Some written)) (\<lambda>_.
        bind_op (assertTraverse path followed posix) (\<lambda>_.
        bind_op (assertPermission e posix WRITE_PERMISSION path) (\<lambda>_.
        if l_size lease = 0 then
          return_op \<lparr>wr_path = path, wr_revision = e_revision e, wr_token = captured,
                     wr_size = e_size e, wr_created = False\<rparr>
        else appendContent cfg e path (l_chunks lease) (l_size lease) (snapshot \<noteq> None))))) v
      (\<lambda>x w. \<forall>es. all_touched (v_entries w) es \<longrightarrow> Q x (w\<lparr>v_entries := es\<rparr>))"
    proof (intro vpost_check silent_intros vpost_if)
      assume "l_size lease = 0"
      with given(3) have "bytes = []" by simp
      with done' empty_append [OF assms(1) e(1,2)] captured
      show "vpost (return_op \<lparr>wr_path = path, wr_revision = e_revision e, wr_token = captured,
          wr_size = e_size e, wr_created = False\<rparr>) v
          (\<lambda>x w. \<forall>es. all_touched (v_entries w) es \<longrightarrow> Q x (w\<lparr>v_entries := es\<rparr>))"
        by (intro vpost_return) simp
    next
      assume "l_size lease \<noteq> 0"
      with given(3) have "bytes \<noteq> []" by auto
      show "vpost (appendContent cfg e path (l_chunks lease) (l_size lease) (snapshot \<noteq> None)) v
          (\<lambda>x w. \<forall>es. all_touched (v_entries w) es \<longrightarrow> Q x (w\<lparr>v_entries := es\<rparr>))"
        by (rule vpost_appendContent [OF assms(1) e(1,2) given(1,2) \<open>bytes \<noteq> []\<close> given(3)])
           (rule done', simp add: append_result_def)
    qed
  qed
  show ?thesis
    unfolding commitAppend_def
    apply (rule vpost_transaction, rule vpost_bind)
    apply (rule vpost_option)
    subgoal by (rule vpost_requireInline, rule finish)
    subgoal for e
      apply (rule vpost_if)
      subgoal by (rule vpost_requireInline, rule finish)
      subgoal by (rule vpost_return, rule finish) (use assms(3) in auto)
      done
    done
qed

lemma vpost_appendFile_begin:
  assumes "\<And>access e. e \<in> set (v_entries v) \<Longrightarrow> is_inline e \<Longrightarrow> (\<forall>s. view s = v \<longrightarrow> names s (a_path access) e) \<Longrightarrow>
    Q (access, e) v"
  shows "vpost (appendFile_begin cfg path tok posix) v Q"
  unfolding appendFile_begin_def Let_def
  apply (rule vpost_bind, rule vpost_resolveAccess)
  subgoal premises access for a
  proof -
    let ?found = "\<lambda>e w. w = v \<and> e \<in> set (v_entries v) \<and> is_inline e \<and> (\<forall>s. view s = v \<longrightarrow> names s (a_path a) e)"
    have "vpost (requireInline (a_path a) (a_row a)) v ?found"
    proof (cases "a_row a")
      case None
      then show ?thesis by (auto intro: vpost_requireInline)
    next
      case (Some e)
      with access(2) have at: "entry_at (a_path a) (v_entries v) = Some e" by simp
      have "names s (a_path a) e" if "view s = v" "is_inline e" for s
        by (rule names_found) (use at that canonical_no_dots [OF access(1)] in
            \<open>auto simp: find_entry_at is_symlink_def is_inline_def\<close>)
      with entry_at_SomeD [OF at] show ?thesis
        by (auto simp: requireInline_def or_require_def Some intro!: vpost_bind vpost_return vpost_if vpost_throw)
    qed
    moreover have "vpost (bind_op (assertPermission e posix WRITE_PERMISSION (a_path a)) (\<lambda>_.
        bind_op (validateGuard cfg (a_path a) (Some e) tok (Some path)) (\<lambda>_. return_op (a, e)))) w Q"
      if "?found e w" for e w
      using that assms [of e a]
      apply (elim conjE, hypsubst)
      by (intro vpost_check silent_intros vpost_return) blast
    ultimately have "vpost (bind_op (requireInline (a_path a) (a_row a)) (\<lambda>before.
        bind_op (assertPermission before posix WRITE_PERMISSION (a_path a)) (\<lambda>_.
        bind_op (validateGuard cfg (a_path a) (Some before) tok (Some path)) (\<lambda>_. return_op (a, before))))) v Q"
      by (intro vpost_bind) (rule vpost_weaken)
    then show ?thesis
      by (rule vpost_check [rotated]) (intro silent_intros)
  qed
  done

lemma commitAppend_ok:
  assumes s: "sound cfg (view s)" "usage_ok s" and lease: "suffix_given cfg bytes lease"
    and snapshot: "\<And>e. snapshot = Some e \<Longrightarrow> e \<in> set (entries (tables s)) \<and> is_inline e \<and> names s path e"
    and run: "useBuffered [lease] (commitAppend cfg path written followed captured (l_chunks lease) (l_size lease) tok posix
      snapshot) s = (Inr result, t)"
  shows "\<exists>e \<in> set (entries (tables s)). is_inline e \<and> names s path e \<and> captured = mutationToken cfg e \<and>
      append_result cfg path e bytes (view s) result (view t)"
    "usage_ok t" "lastInlineRead t = lastInlineRead s" "transactionDepth t = transactionDepth s"
proof -
  let ?m = "commitAppend cfg path written followed captured (l_chunks lease) (l_size lease) tok posix snapshot"
  obtain u where u: "?m s = (Inr result, u)" "but_budget u t" using run by (rule useBufferedE)
  let ?Q = "\<lambda>result w. \<exists>e \<in> set (entries (tables s)). is_inline e \<and> names s path e \<and> captured = mutationToken cfg e \<and>
      append_result cfg path e bytes (view s) result w"
  have "vpost ?m (view s) ?Q"
  proof (rule vpost_commitAppend [OF s(1) lease])
    fix e assume "snapshot = Some e"
    from snapshot [OF this] show "e \<in> set (v_entries (view s)) \<and> is_inline e \<and> (\<forall>s'. view s' = view s \<longrightarrow> names s' path e)"
      by (metis names_cong view_fields(1))
  next
    fix e result w
    assume "append_result cfg path e bytes (view s) result w" "\<forall>s'. view s' = view s \<longrightarrow> names s' path e"
      "e \<in> set (v_entries (view s))" "is_inline e" "captured = mutationToken cfg e"
    then show "?Q result w" by (metis view_fields(1))
  qed
  from vpostD [OF this refl s(2) u(1)] have post: "?Q result (view u)" "moved s (view u) u" by blast+
  have same: "view t = view u" "usage_ok t = usage_ok u" "lastInlineRead t = lastInlineRead u"
    "transactionDepth t = transactionDepth u"
    using but_budget_view [OF u(2)] by simp_all
  from post(1) show "\<exists>e \<in> set (entries (tables s)). is_inline e \<and> names s path e \<and> captured = mutationToken cfg e \<and>
      append_result cfg path e bytes (view s) result (view t)"
    unfolding same .
  show "usage_ok t" "lastInlineRead t = lastInlineRead s" "transactionDepth t = transactionDepth s"
    using post(2) s(2) unfolding same by (simp_all add: moved_def ambient_def)
qed

text \<open>An append of a text runs at once; one of a stream ends after other operations have run.\<close>

definition appended :: "Config \<Rightarrow> byte list \<Rightarrow> Vfs \<Rightarrow> WriteResult \<Rightarrow> EntryRow \<Rightarrow> Vfs \<Rightarrow> bool" where
  "appended cfg bytes s result e t \<longleftrightarrow> e \<in> set (entries (tables s)) \<and> is_inline e \<and> names s (wr_path result) e \<and>
     append_result cfg (wr_path result) e bytes (view s) result (view t)"

lemma appended_ok:
  assumes "vfs_ok cfg s" "appended cfg bytes s result e t" "usage_ok t" "lastInlineRead t = lastInlineRead s"
    "transactionDepth t = transactionDepth s"
  shows "vfs_ok cfg t"
  by (rule vfs_ok_step [OF assms(1) _ _ assms(3-5)])
     (use assms(2) in \<open>simp_all add: appended_def append_result_def committed_def\<close>)

lemma sync_suffix:
  assumes "collectInlineSync cfg body held s = (Inr lease, t)"
  shows "suffix_given cfg (encodeUtf8 body) lease"
  using assms slices_ok [of "chunkBytes cfg" "encodeUtf8 body"]
  by (auto simp: collectInlineSync_def collecting_op_def collectInlineBytesSync_def suffix_given_def Let_def acquire_def
      split: if_splits sum.splits prod.splits)

lemma stream_suffix:
  assumes "collectInline cfg body held s = (Inr lease, t)"
  shows "suffix_given cfg (body_bytes body) lease"
proof -
  obtain b' where c: "collectInlineBytes body (maxInlineFileBytes cfg) (chunkBytes cfg) held (inFlight s) = (Inr lease, b')"
    using assms by (auto simp: collectInline_def collecting_op_def split: sum.splits prod.splits)
  then have "0 < chunkBytes cfg"
    by (auto simp: collectInlineBytes_def collect_with_def collectRechunkedBytes_def bindr_def
        validateChunkBytes_def split: if_splits sum.splits prod.splits)
  with collect_slabs [OF c] show ?thesis by (simp add: suffix_given_def)
qed

lemma appendFile_text_ok:
  assumes s: "vfs_ok cfg s" and run: "appendFile_text cfg path body tok posix s = (Inr result, t)"
  shows "vfs_ok cfg t" "\<exists>e. appended cfg (encodeUtf8 body) s result e t"
proof -
  from run obtain access before s1 lease s2 where
    s1: "appendFile_begin cfg path tok posix s = (Inr (access, before), s1)" and
    s2: "collectInlineSync cfg body 0 s1 = (Inr lease, s2)" and
    t: "useBuffered [lease] (commitAppend cfg (a_path access) path (a_followed access) (mutationToken cfg before)
       (l_chunks lease) (l_size lease) tok posix (Some before)) s2 = (Inr result, t)"
    unfolding appendFile_text_def by (auto elim!: bind_op_InrE)
  have ok: "sound cfg (view s)" "usage_ok s" using s by (simp_all add: vfs_ok_def)
  have l1: "like s s1" using silentD [OF silent_append_plans(3) s1] .
  note l2 = collectInlineSync_ok(1) [OF s2]
  have v2: "view s2 = view s" "usage_ok s2" "lastInlineRead s2 = lastInlineRead s" "transactionDepth s2 = transactionDepth s"
    using l1 but_budget_view [OF l2] ok(2) by (simp_all add: like_def ambient_def)
  have "vpost (appendFile_begin cfg path tok posix) (view s)
      (\<lambda>(a, e) w. e \<in> set (entries (tables s)) \<and> is_inline e \<and> (\<forall>s'. view s' = view s \<longrightarrow> names s' (a_path a) e))"
    by (rule vpost_appendFile_begin) simp
  from vpostD [OF this refl ok(2) s1]
  have e: "before \<in> set (entries (tables s))" "is_inline before" "names s2 (a_path access) before"
    using v2(1) by auto
  have es: "entries (tables s2) = entries (tables s)" using v2(1) by (simp add: view_simps)
  have sound2: "sound cfg (view s2)" using ok(1) v2(1) by simp
  have "\<And>e. Some before = Some e \<Longrightarrow> e \<in> set (entries (tables s2)) \<and> is_inline e \<and> names s2 (a_path access) e"
    using e es by simp
  note c = commitAppend_ok [OF sound2 v2(2) sync_suffix [OF s2] this t]
  from c(1) obtain e where e: "e \<in> set (entries (tables s2))" "is_inline e" "names s2 (a_path access) e"
    "append_result cfg (a_path access) e (encodeUtf8 body) (view s2) result (view t)" by blast
  have "wr_path result = a_path access" using e(4) by (simp add: append_result_def)
  with e es names_cong [OF v2(1)] have app: "appended cfg (encodeUtf8 body) s result e t"
    unfolding v2(1) by (simp add: appended_def)
  then show "\<exists>e. appended cfg (encodeUtf8 body) s result e t" by blast
  show "vfs_ok cfg t" by (rule appended_ok [OF s app]) (use c(2-4) v2 in simp_all)
qed

lemma appendFile_streamed_ok:
  assumes s: "vfs_ok cfg s" and body: "suffix_given cfg bytes lease"
    and run: "appendFile_streamed cfg path access before lease tok posix s = (Inr result, t)"
  shows "vfs_ok cfg t" "\<exists>e. appended cfg bytes s result e t \<and> wr_path result = a_path access \<and>
    mutationToken cfg before = mutationToken cfg e"
proof -
  have ok: "sound cfg (view s)" "usage_ok s" using s by (simp_all add: vfs_ok_def)
  note c = commitAppend_ok [OF ok body _ run [unfolded appendFile_streamed_def]]
  from c(1) obtain e where e: "e \<in> set (entries (tables s))" "is_inline e" "names s (a_path access) e"
    "mutationToken cfg before = mutationToken cfg e"
    "append_result cfg (a_path access) e bytes (view s) result (view t)" by blast
  have path: "wr_path result = a_path access" using e(5) by (simp add: append_result_def)
  with e have app: "appended cfg bytes s result e t" by (simp add: appended_def)
  with path e(4) show "\<exists>e. appended cfg bytes s result e t \<and> wr_path result = a_path access \<and>
    mutationToken cfg before = mutationToken cfg e" by blast
  show "vfs_ok cfg t" by (rule appended_ok [OF s app]) (use c(2-4) in simp_all)
qed

lemma stays_requireInline [stays_intros]: "stays (requireInline path resolved)"
  by (intro silent_stays silent_intros)

lemma commitAppend_failed:
  assumes "useBuffered [lease] (commitAppend cfg path written followed captured bodies n tok posix snapshot) s = (r, t)"
  shows "inFlight t = release (l_accounted lease) (inFlight s)"
    "r = Inl e \<Longrightarrow> transactionDepth s = 0 \<Longrightarrow> usage_ok s \<Longrightarrow> unchanged s t"
proof -
  have "stays (bind_op (case snapshot of
            None \<Rightarrow> requireInline path None
          | Some e \<Rightarrow> if n = 0 then requireInline path None else return_op e) (\<lambda>current.
        if mutationToken cfg current \<noteq> captured then fail_op EREVISION path
        else
        bind_op (validateGuard cfg path (Some current) tok (Some written)) (\<lambda>_.
        bind_op (assertTraverse path followed posix) (\<lambda>_.
        bind_op (assertPermission current posix WRITE_PERMISSION path) (\<lambda>_.
        if n = 0 then
          return_op \<lparr>wr_path = path, wr_revision = e_revision current, wr_token = captured,
                     wr_size = e_size current, wr_created = False\<rparr>
        else appendContent cfg current path bodies n (snapshot \<noteq> None))))))"
    by (intro stays_intros; intro silent_stays silent_intros)
  from useBuffered_outcome [OF this assms [unfolded commitAppend_def]]
  show "inFlight t = release (l_accounted lease) (inFlight s)"
    "r = Inl e \<Longrightarrow> transactionDepth s = 0 \<Longrightarrow> usage_ok s \<Longrightarrow> unchanged s t" by blast+
qed

end
