(* ===== verification/Vfs_Read.thy ===== *)
theory Vfs_Read
  imports Vfs_Appends
begin

text \<open>
  Reading an inline file: \<open>src/vfs/sql-read-base.ts\<close>. A body is read whole, in one statement
  when its path is plain, or by the chunks that overlap a range, cut by the statement itself.
  The bytes stay charged to the budget until the stream of the result is finished.
\<close>

section \<open>What is read\<close>

datatype stat_kind = DirectoryStat | SymlinkStat jstring | InlineStat | OpaqueStat

record VfsStat =
  st_path :: jstring
  st_parentPath :: jstring
  st_name :: jstring
  st_ino :: nat
  st_nlink :: "nat option"
  st_sizeBytes :: nat
  st_mode :: mode
  st_uid :: nat
  st_gid :: nat
  st_createdAtMs :: nat
  st_modifiedAtMs :: nat
  st_changedAtMs :: nat
  st_revision :: nat
  st_mutationToken :: jstring
  st_kind :: stat_kind

definition rowToStat :: "Config \<Rightarrow> EntryRow \<Rightarrow> VfsStat" where
  "rowToStat cfg row =
     \<lparr>st_path = e_path row, st_parentPath = e_parent row, st_name = e_name row,
      st_ino = (case e_linkIdentity row of None \<Rightarrow> e_id row | Some i \<Rightarrow> i), st_nlink = Some (e_linkCount row),
      st_sizeBytes = e_size row, st_mode = e_mode row, st_uid = e_uid row, st_gid = e_gid row,
      st_createdAtMs = e_created row, st_modifiedAtMs = e_modified row, st_changedAtMs = e_changed row,
      st_revision = e_revision row, st_mutationToken = mutationToken cfg row,
      st_kind = (case e_kind row of Directory \<Rightarrow> DirectoryStat | Symlink target \<Rightarrow> SymlinkStat target
        | Inline \<Rightarrow> InlineStat | Opaque _ \<Rightarrow> OpaqueStat)\<rparr>"

definition MIN_INLINE_SQL_RANGE_BYTES :: nat where
  "MIN_INLINE_SQL_RANGE_BYTES = 16 * 1024"

text \<open>The loop of \<open>sliceChunkSequence\<close>, with what is left to skip and to take.\<close>

fun sliceChunkSequence :: "byte list list \<Rightarrow> nat \<Rightarrow> nat \<Rightarrow> byte list list" where
  "sliceChunkSequence [] skip remaining = []"
| "sliceChunkSequence (chunk # rest) skip remaining =
     (if skip \<ge> length chunk then sliceChunkSequence rest (skip - length chunk) remaining
      else
        let n = min remaining (length chunk - skip) in
        take n (drop skip chunk) #
        (if remaining - n = 0 then [] else sliceChunkSequence rest 0 (remaining - n)))"

text \<open>
  \<open>substr(body, first, n)\<close> of SQLite for a position that is at least one: a negative count
  takes the bytes before the position.
\<close>

definition sql_substr :: "byte list \<Rightarrow> int \<Rightarrow> int \<Rightarrow> byte list" where
  "sql_substr body first n =
     (let skip = nat (first - 1) in
      if n \<ge> 0 then take (nat n) (drop skip body) else drop (skip - nat (- n)) (take skip body))"

definition first_body :: "Config \<Rightarrow> EntryRow \<Rightarrow> Tables \<Rightarrow> byte list option" where
  "first_body cfg e t =
     (if is_inline e \<and> 1 \<le> e_size e \<and> e_size e \<le> chunkBytes cfg \<and>
         \<not> (\<exists>c \<in> set (chunks t). c_entry c = e_id e \<and> c_index c > 0)
      then map_option c_body (find_chunk (e_id e) 0 t) else None)"

definition directRead :: "Config \<Rightarrow> jstring \<Rightarrow> (Access \<times> byte list option) op" where
  "directRead cfg path =
     bind_op (lift_op (normalizeRoot path)) (\<lambda>normalized.
     bind_op (gets_op tables) (\<lambda>t.
     case find_entry normalized t of
       None \<Rightarrow> fail_op ENOENT normalized
     | Some e \<Rightarrow> return_op (\<lparr>a_path = normalized, a_row = Some e, a_followed = []\<rparr>, first_body cfg e t)))"

definition range_row :: "nat \<Rightarrow> nat \<Rightarrow> nat \<Rightarrow> ChunkRow \<Rightarrow> byte list" where
  "range_row offset len width' row =
     (let start = int offset - int (c_index row * width'); stop = int (offset + len) - int (c_index row * width') in
      sql_substr (c_body row) (max 0 start + 1) (min (int (length (c_body row))) stop - max 0 start))"

definition readInlineRows :: "EntryRow \<Rightarrow> nat \<Rightarrow> nat \<Rightarrow> bool \<Rightarrow> jstring \<Rightarrow> byte list list op" where
  "readInlineRows entry offset len readWholeBody path =
     (if len = 0 then return_op []
      else if readWholeBody then gets_op (\<lambda>s. map c_body (stored_chunks (e_id entry) (tables s)))
      else
        bind_op (storedChunkBytes entry path) (\<lambda>width'.
        gets_op (\<lambda>s. map (range_row offset len width')
          (filter (\<lambda>row. offset div width' \<le> c_index row \<and> c_index row \<le> (offset + len - 1) div width')
             (stored_chunks (e_id entry) (tables s))))))"

definition acquire_op :: "Config \<Rightarrow> nat \<Rightarrow> unit op" where
  "acquire_op cfg n s =
     (case acquire n 0 (inFlight s) of
        Inr b \<Rightarrow> (Inr (), s\<lparr>inFlight := b\<rparr>)
      | Inl e \<Rightarrow>
          (Inl e, if observed cfg then s\<lparr>emitted := emitted s @ [Quota maxInFlightBufferedBytesLimit]\<rparr> else s))"

record InlineRead =
  ir_stat :: VfsStat
  ir_chunks :: "byte list list"
  ir_held :: nat

text \<open>The rows that are read, and the chunks of the stream.\<close>

definition read_materialized ::
  "Config \<Rightarrow> EntryRow \<Rightarrow> byte list option \<Rightarrow> ByteRange option \<Rightarrow> jstring \<Rightarrow> (byte list list \<times> byte list list) op" where
  "read_materialized cfg entry body range' path =
     bind_op (lift_op (byteRangeBounds range' (e_size entry) (Some path))) (\<lambda>(offset, len).
     let readWholeBody = (range' = None \<or> (offset = 0 \<and> len = e_size entry) \<or>
           (e_size entry \<le> MIN_INLINE_SQL_RANGE_BYTES \<and> e_size entry \<le> chunkBytes cfg)) in
     bind_op (case body of
         Some b \<Rightarrow> if length b = e_size entry then return_op [b]
                    else readInlineRows entry offset len readWholeBody path
       | None \<Rightarrow> readInlineRows entry offset len readWholeBody path) (\<lambda>materialized.
     return_op (materialized,
       if readWholeBody \<and> range' \<noteq> None \<and> len < e_size entry
       then sliceChunkSequence materialized offset len else materialized)))"

definition read_access ::
  "Config \<Rightarrow> jstring \<Rightarrow> ByteRange option \<Rightarrow> PosixAccessContext option \<Rightarrow> (Access \<times> byte list option) op" where
  "read_access cfg path range' posix =
     bind_op (gets_op (\<lambda>s. links (tables s))) (\<lambda>n.
     if posix = None \<and> range' = None \<and> \<not> pathRequiresDirectory path \<and> \<not> hasDotSegments path \<and> n = 0
     then directRead cfg path
     else bind_op (resolveAccess path False True) (\<lambda>access. return_op (access, None)))"

definition readFile :: "Config \<Rightarrow> jstring \<Rightarrow> ByteRange option \<Rightarrow> PosixAccessContext option \<Rightarrow> InlineRead op" where
  "readFile cfg path range' posix =
     bind_op (read_access cfg path range' posix) (\<lambda>(access, body).
     let normalized = a_path access in
     bind_op (assertTraverse normalized (a_followed access) posix) (\<lambda>_.
     bind_op (or_require (a_row access) (requireEntry normalized True)) (\<lambda>entry.
     if is_directory entry then fail_op EISDIR normalized
     else
     bind_op (assertPermission entry posix READ_PERMISSION normalized) (\<lambda>_.
     if \<not> is_inline entry then fail_op ENOTSUP normalized
     else
     bind_op (read_materialized cfg entry body range' normalized) (\<lambda>(materialized, selected).
     let total = sum_list (map length materialized) in
     bind_op (acquire_op cfg total) (\<lambda>_.
     bind_op (when_op (a_followed access = []) (modify_op (\<lambda>s. s\<lparr>lastInlineRead := Some entry\<rparr>))) (\<lambda>_.
     return_op \<lparr>ir_stat = rowToStat cfg entry, ir_chunks = selected, ir_held = total\<rparr>)))))))"

text \<open>The stream of a result is read to its end or cancelled.\<close>

definition finishRead :: "InlineRead \<Rightarrow> Vfs \<Rightarrow> Vfs" where
  "finishRead r = release_op (ir_held r)"

section \<open>Slices\<close>

lemma concat_slice: "concat (sliceChunkSequence cs skip n) = take n (drop skip (concat cs))"
  by (induction cs skip n rule: sliceChunkSequence.induct) (auto simp: Let_def min_def)

lemma sql_substr_slice:
  assumes "0 \<le> n"
  shows "sql_substr body (int k + 1) n = take (nat n) (drop k body)"
  using assms by (simp add: sql_substr_def)

text \<open>What a statement cuts out of the rows of a range is the range.\<close>

lemma cut_step:
  assumes "length b = w \<or> rest = []"
  shows "drop p (take q b) @ drop (p - w) (take (q - w) rest) = drop p (take q (b @ rest))"
proof (cases "rest = []")
  case False
  with assms have "length b = w" by simp
  then show ?thesis by (cases "w \<le> q") (auto simp: min_def)
qed simp

lemma cut_slabs:
  assumes "\<forall>b \<in> set (butlast bs). length b = w"
  shows "concat (map (\<lambda>(k, b). drop (p - k * w) (take (q - k * w) b)) (enumerate m bs)) =
    drop (p - m * w) (take (q - m * w) (concat bs))"
  using assms
proof (induction bs arbitrary: m)
  case (Cons b bs)
  have "length b = w \<or> concat bs = []" using Cons.prems by (cases bs) auto
  from cut_step [OF this, of "p - m * w" "q - m * w"] Cons show ?case
    by (simp add: diff_diff_left add.commute split: if_splits)
qed simp

lemma range_row_cut:
  assumes "length body \<le> w" "0 < w" "offset < offset + len" "offset div w \<le> k" "k \<le> (offset + len - 1) div w"
    "offset - k * w \<le> length body" "c_index row = k" "c_body row = body"
  shows "range_row offset len w row = drop (offset - k * w) (take (offset + len - k * w) body)"
proof -
  have "k * w < offset + len"
  proof -
    have "k * w \<le> (offset + len - 1) div w * w" using assms(5) by simp
    also have "\<dots> \<le> offset + len - 1" by (rule div_times_less_eq_dividend)
    finally show ?thesis using assms(3) by simp
  qed
  then have n: "max 0 (int offset - int (k * w)) = int (offset - k * w)"
    "int (offset + len) - int (k * w) = int (offset + len - k * w)"
    by linarith+
  have "int (offset - k * w) \<le> min (int (length body)) (int (offset + len - k * w))" using assms(6) by simp
  then show ?thesis
    unfolding range_row_def Let_def assms(7,8) n
    by (subst sql_substr_slice) (auto simp: min_def take_drop nat_diff_distrib)
qed

section \<open>The rows of a body\<close>

lemma stored_body:
  assumes "sound cfg (view s)" "e \<in> set (entries (tables s))" "is_inline e"
  obtains w bodies where "0 < w" "distinct_chunks (chunks (tables s))" "layout (e_id e) (chunks (tables s)) bodies"
    "slabs_of w (body_of (e_id e) (chunks (tables s))) bodies" "e_size e = length (body_of (e_id e) (chunks (tables s)))"
proof -
  have d: "distinct_chunks (chunks (tables s))" "stored e (chunks (tables s))"
    using assms by (simp_all add: sound_def bodies_ok_def)
  then obtain w bodies where b: "0 < w" "layout (e_id e) (chunks (tables s)) bodies" "slabs_of w (concat bodies) bodies"
    "length (concat bodies) = e_size e" by (auto simp: stored_def)
  with layout_body [OF d(1) b(2)] d(1) show thesis by (intro that [of w bodies]) simp_all
qed

lemma first_slab:
  assumes "slabs_of w bytes (b # bs)"
  shows "slabs_of (length b) bytes (b # bs)" "b \<noteq> []" "length b \<le> length bytes"
proof -
  show "b \<noteq> []" "length b \<le> length bytes" using assms by (auto simp: slabs_of_def)
  show "slabs_of (length b) bytes (b # bs)"
  proof (cases bs)
    case Nil
    with assms show ?thesis by (auto simp: slabs_of_def)
  next
    case (Cons c cs)
    with assms have "length b = w" by (simp add: slabs_of_def)
    with assms show ?thesis by simp
  qed
qed

lemma stored_width:
  assumes "distinct_chunks (chunks (tables s))" "layout (e_id e) (chunks (tables s)) (b # bs)" "b \<noteq> []"
  shows "storedChunkBytes e path s = (Inr (length b), s)"
proof -
  have "map c_body (stored_chunks (e_id e) (tables s)) = b # bs"
    using stored_layout [of "tables s" "e_id e" "b # bs"] assms(1,2) by simp
  then obtain row rows where "stored_chunks (e_id e) (tables s) = row # rows" "c_body row = b" by (auto simp: map_eq_Cons_conv)
  with assms(3) show ?thesis by (simp add: storedChunkBytes_def op_simps)
qed

lemma concat_filter_map: "(\<And>x. x \<in> set xs \<Longrightarrow> \<not> P x \<Longrightarrow> f x = []) \<Longrightarrow> concat (map f (filter P xs)) = concat (map f xs)"
  by (induction xs) auto

lemma slab_sizes:
  assumes "slabs_of w bytes bs" "k < length bs"
  shows "length (bs ! k) \<le> w" "Suc k < length bs \<Longrightarrow> length (bs ! k) = w" "length bytes \<le> k * w + length (bs ! k) \<or> Suc k < length bs"
proof -
  show "length (bs ! k) \<le> w" using assms by (simp add: slabs_of_def)
  show full: "length (bs ! k) = w" if "Suc k < length bs"
  proof -
    have "bs ! k \<in> set (butlast bs)" using that by (metis in_set_conv_nth length_butlast less_diff_conv nth_butlast Suc_eq_plus1)
    with assms(1) show ?thesis by (simp add: slabs_of_def)
  qed
  show "length bytes \<le> k * w + length (bs ! k) \<or> Suc k < length bs"
  proof (cases "Suc k < length bs")
    case False
    with assms(2) have k: "k = length bs - 1" by simp
    then have "bs = take k bs @ [bs ! k]" by (metis assms(2) Suc_diff_1 Suc_lessD gr_implies_not0 length_greater_0_conv list.size(3) take_Suc_conv_app_nth take_all_iff le_refl Suc_diff_Suc diff_Suc_1 not_less_eq)
    then have "bytes = concat (take k bs) @ bs ! k" using assms(1) by (metis concat.simps concat_append append_Nil2 slabs_of_def)
    moreover have "length (concat (take k bs)) = k * w"
      using assms k full_slabs_length [of "take k bs" w] by (auto simp: slabs_of_def butlast_conv_take)
    ultimately show ?thesis by simp
  qed simp
qed

text \<open>The rows a ranged statement selects hold exactly the range.\<close>

lemma range_rows:
  assumes "slabs_of w bytes bs" "0 < w" "0 < len" "offset + len \<le> length bytes"
    "map c_body rows = bs" "map c_index rows = [0..<length bs]"
  shows "concat (map (range_row offset len w)
      (filter (\<lambda>row. offset div w \<le> c_index row \<and> c_index row \<le> (offset + len - 1) div w) rows)) = take len (drop offset bytes)"
proof -
  let ?cut = "\<lambda>row. drop (offset - c_index row * w) (take (offset + len - c_index row * w) (c_body row))"
  let ?P = "\<lambda>row. offset div w \<le> c_index row \<and> c_index row \<le> (offset + len - 1) div w"
  have len: "length rows = length bs" using arg_cong [OF assms(5), of length] by simp
  have nth: "c_index (rows ! k) = k \<and> c_body (rows ! k) = bs ! k" if "k < length rows" for k
    using that arg_cong [OF assms(6), of "\<lambda>xs. xs ! k"] arg_cong [OF assms(5), of "\<lambda>xs. xs ! k"] len by simp
  then have row: "c_index row < length bs \<and> c_body row = bs ! c_index row" if "row \<in> set rows" for row
    using that len by (auto simp: in_set_conv_nth)
  have "range_row offset len w row = ?cut row" if "row \<in> set rows" "?P row" for row
  proof -
    let ?k = "c_index row"
    note k = slab_sizes [OF assms(1), of ?k]
    have body: "?k < length bs" "c_body row = bs ! ?k" using row that(1) by auto
    have "offset < (?k + 1) * w" using that(2) assms(2)
      by (metis Suc_eq_plus1 div_less_iff_less_mult less_Suc_eq_le)
    then have "offset - ?k * w \<le> length (c_body row)" using k body assms(3,4) by (auto simp: algebra_simps)
    then show ?thesis by (intro range_row_cut) (use that assms(2,3) k(1) body in auto)
  qed
  then have "concat (map (range_row offset len w) (filter ?P rows)) = concat (map ?cut (filter ?P rows))"
    by (auto intro!: arg_cong [where f = concat])
  also have "\<dots> = concat (map ?cut rows)"
  proof (rule concat_filter_map)
    fix row assume r: "row \<in> set rows" "\<not> ?P row"
    show "?cut row = []"
    proof (cases "offset div w \<le> c_index row")
      case True
      with r(2) have "(offset + len - 1) div w < c_index row" by simp
      then have "offset + len - 1 < c_index row * w" using assms(2) by (simp add: div_less_iff_less_mult)
      then show ?thesis by simp
    next
      case False
      then have "Suc (c_index row) * w \<le> offset" using assms(2) by (metis less_eq_div_iff_mult_less_eq not_le Suc_leI)
      moreover have "length (c_body row) \<le> w" using row [OF r(1)] slab_sizes(1) [OF assms(1)] by auto
      ultimately show ?thesis by simp
    qed
  qed
  also have "map ?cut rows = map (\<lambda>(k, b). drop (offset - k * w) (take (offset + len - k * w) b)) (enumerate 0 bs)"
    by (rule nth_equalityI) (use len nth in \<open>auto simp: nth_enumerate_eq\<close>)
  also have "concat \<dots> = drop offset (take (offset + len) (concat bs))"
    using cut_slabs [of bs w offset "offset + len" 0] assms(1) by (simp add: slabs_of_def)
  finally show ?thesis using assms(1) by (simp add: slabs_of_def take_drop add.commute)
qed

lemma read_inline_rows:
  assumes "sound cfg (view s)" "e \<in> set (entries (tables s))" "is_inline e" "offset + len \<le> e_size e"
  shows "\<exists>rows. readInlineRows e offset len whole path s = (Inr rows, s) \<and> concat rows =
    (if len = 0 then [] else if whole then body_of (e_id e) (chunks (tables s))
     else take len (drop offset (body_of (e_id e) (chunks (tables s)))))"
proof -
  let ?data = "body_of (e_id e) (chunks (tables s))"
  obtain w bodies where b: "0 < w" "distinct_chunks (chunks (tables s))" "layout (e_id e) (chunks (tables s)) bodies"
    "slabs_of w ?data bodies" "e_size e = length ?data"
    using stored_body [OF assms(1-3)] .
  note rows = stored_layout [OF b(2,3)]
  show ?thesis
  proof (cases "len = 0 \<or> whole")
    case True
    then show ?thesis using rows b(4) by (auto simp: readInlineRows_def op_simps slabs_of_def)
  next
    case False
    with assms(4) b(4,5) obtain c cs where cs: "bodies = c # cs" by (cases bodies) (auto simp: slabs_of_def)
    note first = first_slab [OF b(4) [unfolded cs]]
    from stored_width [OF b(2) b(3) [unfolded cs] first(2)] False
    have "readInlineRows e offset len whole path s = (Inr (map (range_row offset len (length c))
        (filter (\<lambda>row. offset div length c \<le> c_index row \<and> c_index row \<le> (offset + len - 1) div length c)
           (stored_chunks (e_id e) (tables s)))), s)"
      by (simp add: readInlineRows_def op_simps)
    moreover have "0 < length c" using first(2) by simp
    note range_rows [OF first(1) this, of len offset "stored_chunks (e_id e) (tables s)"]
    ultimately show ?thesis using False rows assms(4) b(5) cs by simp
  qed
qed

text \<open>A body that came with its entry is the whole of it.\<close>

lemma first_body_whole:
  assumes "sound cfg (view s)" "e \<in> set (entries (tables s))" "first_body cfg' e (tables s) = Some b"
  shows "b = body_of (e_id e) (chunks (tables s))"
proof -
  from assms(3) have e: "is_inline e" "map_option c_body (find_chunk (e_id e) 0 (tables s)) = Some b"
    "\<forall>c \<in> set (chunks (tables s)). c_entry c = e_id e \<longrightarrow> c_index c = 0"
    by (auto simp: first_body_def split: if_splits)
  obtain w bodies where bodies: "distinct_chunks (chunks (tables s))" "layout (e_id e) (chunks (tables s)) bodies"
    using stored_body [OF assms(1,2) e(1)] by metis
  have "chunk_at (chunks (tables s)) (e_id e) 1 = None"
    unfolding chunk_at_None using e(3) by (auto simp: chunk_key_def)
  moreover have "chunk_at (chunks (tables s)) (e_id e) 0 = Some b" using e(2) by (simp add: find_chunk_at)
  ultimately have "bodies = [b]" using bodies(2) by (cases bodies; cases "tl bodies") (auto simp: layout_def split: if_splits)
  with layout_body [OF bodies] show ?thesis by simp
qed

section \<open>Reading a file\<close>

text \<open>
  A read that succeeds, from the state \<open>s\<close>: the path leads to an inline file, whose entry is
  reported, and the bytes of the stream are those of the range.
\<close>

definition read_bytes :: "Config \<Rightarrow> Vfs \<Rightarrow> jstring \<Rightarrow> ByteRange option \<Rightarrow> Access \<Rightarrow> EntryRow \<Rightarrow> InlineRead \<Rightarrow> bool" where
  "read_bytes cfg s path range' access e r \<longleftrightarrow>
     fst (resolveAccess path False True s) = Inr access \<and> names s (a_path access) e \<and>
     e \<in> set (entries (tables s)) \<and> is_inline e \<and> ir_stat r = rowToStat cfg e \<and>
     (\<exists>offset len. byteRangeBounds range' (e_size e) (Some (a_path access)) = Inr (offset, len) \<and>
        concat (ir_chunks r) = take len (drop offset (body_of (e_id e) (chunks (tables s)))))"

definition after_read :: "Vfs \<Rightarrow> EntryRow \<Rightarrow> nat \<Rightarrow> Vfs \<Rightarrow> bool" where
  "after_read s e n t \<longleftrightarrow> view t = view s \<and> (usage_ok s \<longrightarrow> usage_ok t) \<and> transactionDepth t = transactionDepth s \<and>
     inFlight t = (inFlight s)\<lparr>usedBytes := usedBytes (inFlight s) + int n\<rparr> \<and>
     lastInlineRead t \<in> {lastInlineRead s, Some e}"

lemma after_read_ok:
  assumes "vfs_ok cfg s" "after_read s e n t" "e \<in> set (entries (tables s))" "is_inline e"
  shows "vfs_ok cfg t"
proof -
  have "canonical (e_path e)" "e_id e < nextIno s" "\<forall>r \<in> set (entries (tables s)). e_id r = e_id e \<longrightarrow> r = e"
    using assms(1,3) by (auto simp: vfs_ok_def sound_def tree_ok_def parent_ok_def distinct_map inj_on_def)
  moreover have t: "view t = view s" "usage_ok t" "transactionDepth t = 0" "lastInlineRead t \<in> {lastInlineRead s, Some e}"
    "read_ok s" using assms(1,2) by (simp_all add: vfs_ok_def after_read_def)
  moreover have "entries (tables t) = entries (tables s)" "nextIno t = nextIno s" using t(1) by (simp_all add: view_simps)
  ultimately have "read_ok t" using assms(4) unfolding read_ok_def by (metis same_row_def insert_iff option.inject singletonD)
  with assms(1) t show ?thesis by (simp add: vfs_ok_def)
qed

text \<open>Where the entry and its body come from.\<close>

lemma read_located:
  assumes ok: "sound cfg (view s)" "usage_ok s"
    and run: "read_access cfg path range' posix s = (Inr (access, body), u)"
  shows "like s u" "canonical (a_path access)"
    "\<exists>row. fst (resolveAccess path False True s) = Inr (access\<lparr>a_row := row\<rparr>)"
    "a_row access = None \<or> a_row access = entry_at (a_path access) (entries (tables s))"
    "body \<noteq> None \<Longrightarrow> range' = None \<and> (\<exists>e. a_row access = Some e \<and> body = first_body cfg e (tables s))"
proof -
  let ?directly = "posix = None \<and> range' = None \<and> \<not> pathRequiresDirectory path \<and> \<not> hasDotSegments path \<and> links (tables s) = 0"
  have "like s u \<and> canonical (a_path access) \<and> (\<exists>row. fst (resolveAccess path False True s) = Inr (access\<lparr>a_row := row\<rparr>)) \<and>
    (a_row access = None \<or> a_row access = entry_at (a_path access) (entries (tables s))) \<and>
    (body \<noteq> None \<longrightarrow> range' = None \<and> (\<exists>e. a_row access = Some e \<and> body = first_body cfg e (tables s)))"
  proof (cases ?directly)
    case True
    with run obtain p e where e: "normalizeRoot path = Inr p" "entry_at p (entries (tables s)) = Some e"
      "access = \<lparr>a_path = p, a_row = Some e, a_followed = []\<rparr>" "body = first_body cfg e (tables s)" "u = s"
      by (auto simp: read_access_def directRead_def find_entry_at split: option.splits)
    have "fst (resolveAccess path False True s) = Inr (access\<lparr>a_row := None\<rparr>)"
      using True by (simp add: resolveAccess_def Let_def op_simps e(1,3))
    with e normalize_canonical [OF e(1)] True show ?thesis by auto
  next
    case False
    with run have r: "resolveAccess path False True s = (Inr access, u)" "body = None"
      by (auto simp: read_access_def return_op_def gets_op_def)
    have "vpost (resolveAccess path False True) (view s) (\<lambda>a w. canonical (a_path a) \<and>
        (a_row a = None \<or> a_row a = entry_at (a_path a) (v_entries (view s))))"
      by (rule vpost_resolveAccess) simp
    from vpostD [OF this refl ok(2) r(1)] silentD [OF silent_lookups(10) r(1)] r show ?thesis
      by (auto intro!: exI [of _ "a_row access"])
  qed
  then show "like s u" "canonical (a_path access)"
    "\<exists>row. fst (resolveAccess path False True s) = Inr (access\<lparr>a_row := row\<rparr>)"
    "a_row access = None \<or> a_row access = entry_at (a_path access) (entries (tables s))"
    "body \<noteq> None \<Longrightarrow> range' = None \<and> (\<exists>e. a_row access = Some e \<and> body = first_body cfg e (tables s))"
    by blast+
qed

lemma acquire_opE:
  assumes "acquire_op cfg n s = (Inr x, t)"
  shows "t = s\<lparr>inFlight := (inFlight s)\<lparr>usedBytes := usedBytes (inFlight s) + int n\<rparr>\<rparr>"
    "usedBytes (inFlight s) + int n \<le> int (maximumBytes (inFlight s))"
  using assms by (auto simp: acquire_op_def acquire_def split: sum.splits if_splits)

text \<open>The chunks of the result, from the rows that were read.\<close>

lemma selected_bytes:
  assumes "byteRangeBounds range' (length data) path = Inr (offset, len)"
    "concat rows = (if len = 0 then [] else if whole then data else take len (drop offset data))"
    "range' = None \<longrightarrow> whole"
  shows "concat (if whole \<and> range' \<noteq> None \<and> len < length data then sliceChunkSequence rows offset len else rows) =
    take len (drop offset data)"
proof -
  have "offset + len \<le> length data" "range' = None \<Longrightarrow> offset = 0 \<and> len = length data"
    using assms(1) by (auto simp: byteRangeBounds_def Let_def bindr_def split: option.splits if_splits sum.splits)
  moreover from this(1) have "offset = 0" if "\<not> len < length data" using that by linarith
  ultimately show ?thesis using assms(2,3)
    by (cases "range' = None"; cases "len < length data") (auto simp: concat_slice split: if_splits)
qed

lemma read_rows:
  assumes "sound cfg (view s)" "e \<in> set (entries (tables s))" "is_inline e" "like s u"
    "byteRangeBounds range' (e_size e) (Some path) = Inr (offset, len)"
    "body \<noteq> None \<Longrightarrow> range' = None \<and> body = first_body cfg e (tables s)"
  shows "\<exists>rows selected. read_materialized cfg e body range' path u = (Inr (rows, selected), u) \<and>
    concat selected = take len (drop offset (body_of (e_id e) (chunks (tables s))))"
proof -
  let ?data = "body_of (e_id e) (chunks (tables s))"
  let ?whole = "range' = None \<or> (offset = 0 \<and> len = e_size e) \<or> (e_size e \<le> MIN_INLINE_SQL_RANGE_BYTES \<and> e_size e \<le> chunkBytes cfg)"
  have size: "e_size e = length ?data" using stored_body [OF assms(1-3)] by metis
  have v: "view u = view s" using assms(4) by (simp add: like_def)
  have bounds: "offset + len \<le> e_size e" "range' = None \<Longrightarrow> offset = 0 \<and> len = e_size e"
    using assms(5) by (auto simp: byteRangeBounds_def Let_def bindr_def split: option.splits if_splits sum.splits)
  have u: "sound cfg (view u)" "e \<in> set (entries (tables u))" "chunks (tables u) = chunks (tables s)"
    using v assms(1,2) by (simp_all add: view_simps) (simp add: v)
  from read_inline_rows [OF u(1,2) assms(3) bounds(1), of ?whole path] obtain rows
    where rows: "readInlineRows e offset len ?whole path u = (Inr rows, u)"
      "concat rows = (if len = 0 then [] else if ?whole then ?data else take len (drop offset ?data))"
    unfolding u(3) by metis
  note selected = selected_bytes [OF assms(5) [unfolded size] rows(2), folded size]
  show ?thesis
  proof (cases "\<exists>b. body = Some b \<and> length b = e_size e")
    case True
    then obtain b where b: "body = Some b" "length b = e_size e" by blast
    with assms(6) have range': "range' = None" and "first_body cfg e (tables s) = Some b" by auto
    with first_body_whole [OF assms(1,2)] have "b = ?data" by blast
    with b bounds(2) [OF range'] size assms(5) show ?thesis
      by (simp add: read_materialized_def op_simps range')
  next
    case False
    with rows(1) have "(case body of
        Some b \<Rightarrow> if length b = e_size e then return_op [b] else readInlineRows e offset len ?whole path
      | None \<Rightarrow> readInlineRows e offset len ?whole path) u = (Inr rows, u)" by (auto split: option.splits)
    with selected assms(5) show ?thesis by (simp add: read_materialized_def Let_def op_simps)
  qed
qed

text \<open>The entry that is read.\<close>

lemma entry_read:
  assumes "sound cfg (view s)" "usage_ok s" "like s u" "canonical p" "row = None \<or> row = entry_at p (entries (tables s))"
    "or_require row (requireEntry p True) u = (Inr e, u')" "is_inline e"
  shows "like s u'" "e \<in> set (entries (tables s))" "names s p e"
proof -
  have v: "view u = view s" "usage_ok u" using assms(2,3) by (simp_all add: like_def)
  from silentD [OF silent_or_require [OF silent_lookups(7)] assms(6)] assms(3) show "like s u'"
    using like_trans by blast
  have "e \<in> set (entries (tables s)) \<and> names s p e"
  proof (cases row)
    case None
    with assms(6,7) have "requireInline p None u = (Inr e, u')"
      by (simp add: requireInline_def or_require_def op_simps is_directory_def is_inline_def)
    from vpostD [OF vpost_requireInline [where Q = "\<lambda>e w. e \<in> set (v_entries (view u)) \<and> names u p e"] refl v(2) this] v(1)
    have "e \<in> set (v_entries (view u))" "names u p e" by auto
    with v(1) names_cong [OF v(1)] show ?thesis by (simp add: view_simps)
  next
    case (Some e')
    with assms(6) have "e' = e" by (simp add: or_require_def)
    with Some assms(5) have at: "entry_at p (entries (tables s)) = Some e" by simp
    from names_found [of p s e] this assms(7) canonical_no_dots [OF assms(4)] entry_at_SomeD [OF at] show ?thesis
      by (auto simp: find_entry_at is_symlink_def is_inline_def)
  qed
  then show "e \<in> set (entries (tables s))" "names s p e" by blast+
qed

lemma readFile_ok:
  assumes s: "vfs_ok cfg s" and run: "readFile cfg path range' posix s = (Inr r, t)"
  shows "\<exists>access e. read_bytes cfg s path range' access e r \<and> after_read s e (ir_held r) t"
proof -
  have ok: "sound cfg (view s)" "usage_ok s" using s by (simp_all add: vfs_ok_def)
  from run obtain access body e u1 u2 u3 u4 u5 u6 rows selected where
    steps: "read_access cfg path range' posix s = (Inr (access, body), u1)"
      "assertTraverse (a_path access) (a_followed access) posix u1 = (Inr (), u2)"
      "or_require (a_row access) (requireEntry (a_path access) True) u2 = (Inr e, u3)" "is_inline e"
      "assertPermission e posix READ_PERMISSION (a_path access) u3 = (Inr (), u4)"
      "read_materialized cfg e body range' (a_path access) u4 = (Inr (rows, selected), u5)"
      "acquire_op cfg (sum_list (map length rows)) u5 = (Inr (), u6)"
    and t: "t = (if a_followed access = [] then u6\<lparr>lastInlineRead := Some e\<rparr> else u6)"
    and r: "r = \<lparr>ir_stat = rowToStat cfg e, ir_chunks = selected, ir_held = sum_list (map length rows)\<rparr>"
    unfolding readFile_def by (auto simp: Let_def when_op_Inr split: if_splits)
  note a = read_located [OF ok steps(1)]
  have u2: "like s u2" using a(1) silentD [OF silent_traversal(1) steps(2)] like_trans by blast
  note e = entry_read [OF ok u2 a(2,4) steps(3,4)]
  have u4: "like s u4" using e(1) silentD [OF silent_checks(1) steps(5)] like_trans by blast
  obtain offset len where range': "byteRangeBounds range' (e_size e) (Some (a_path access)) = Inr (offset, len)"
    using steps(6) by (auto simp: read_materialized_def)
  have "body \<noteq> None \<Longrightarrow> range' = None \<and> body = first_body cfg e (tables s)"
    using a(5) steps(3) by (auto simp: or_require_def)
  from read_rows [OF ok(1) e(2) steps(4) u4 range' this] steps(6)
  have rows: "u5 = u4" "concat selected = take len (drop offset (body_of (e_id e) (chunks (tables s))))" by auto
  obtain row where "fst (resolveAccess path False True s) = Inr (access\<lparr>a_row := row\<rparr>)" using a(3) by blast
  with e(2,3) steps(4) range' rows(2) have "read_bytes cfg s path range' (access\<lparr>a_row := row\<rparr>) e r"
    by (auto simp: read_bytes_def r)
  moreover have "after_read s e (ir_held r) t"
    using u4 acquire_opE [OF steps(7)] rows(1)
    by (auto simp: after_read_def t r like_def ambient_def view_def charge_def usage_ok_def split: option.splits)
  ultimately show ?thesis by blast
qed

text \<open>A read that fails leaves everything but the announcements as it was.\<close>

definition fails_like :: "'a op \<Rightarrow> bool" where
  "fails_like m \<longleftrightarrow> (\<forall>s e t. m s = (Inl e, t) \<longrightarrow> like s t)"

lemma fails_silent: "silent m \<Longrightarrow> fails_like m"
  using silentD by (auto simp: fails_like_def)

lemma fails_bind:
  assumes "silent m" "\<And>x. fails_like (f x)"
  shows "fails_like (bind_op m f)"
  unfolding fails_like_def
proof (intro allI impI)
  fix s e t assume run: "bind_op m f s = (Inl e, t)"
  obtain r u where u: "m s = (r, u)" by force
  with silentD [OF assms(1) u] run assms(2) like_trans show "like s t"
    by (cases r) (auto simp: bind_op_def fails_like_def)
qed

lemma fails_if: "fails_like m \<Longrightarrow> fails_like n \<Longrightarrow> fails_like (if b then m else n)"
  by simp

lemma fails_acquire: "fails_like (bind_op (acquire_op cfg n) (\<lambda>_. bind_op (when_op b (modify_op h)) (\<lambda>_. return_op x)))"
  by (auto simp: fails_like_def bind_op_def acquire_op_def when_op_def modify_op_def return_op_def silent_defs
      split: sum.splits if_splits prod.splits option.splits)

lemma silent_reads [silent_intros]:
  "silent (directRead cfg path)" "silent (read_access cfg path range' posix)"
  "silent (readInlineRows e offset len whole path)" "silent (read_materialized cfg e body range' path)"
  unfolding directRead_def read_access_def readInlineRows_def read_materialized_def Let_def
  by (intro silent_intros)+

lemma readFile_failed:
  assumes "readFile cfg path range' posix s = (Inl e, t)"
  shows "like s t"
proof -
  have "fails_like (readFile cfg path range' posix)"
    unfolding readFile_def Let_def
    by (rule fails_bind, (intro silent_intros)[], simp only: split_beta,
        (rule fails_bind fails_if fails_silent [OF silent_simple(2)] fails_acquire | (intro silent_intros)[] | simp only: split_beta)+)
  with assms show ?thesis by (simp add: fails_like_def)
qed

end
