(* ===== verification/Vfs_Names.thy ===== *)
theory Vfs_Names
  imports Vfs_Read
begin

text \<open>
  Making directories and links and removing entries: \<open>mkdir\<close> and \<open>symlink\<close> of
  \<open>src/vfs/sql-metadata-base.ts\<close> and \<open>remove\<close> of \<open>src/vfs/sql-move-base.ts\<close>. A subtree goes in
  a few statements over its range of paths. Inodes that are held open are not modelled.
\<close>

section \<open>Directories and links\<close>

definition mkdir ::
  "Config \<Rightarrow> jstring \<Rightarrow> bool \<Rightarrow> mode \<Rightarrow> PosixAccessContext option \<Rightarrow> VfsStat op" where
  "mkdir cfg path recursive mode' posix =
     bind_op (resolveAccess path True False) (\<lambda>access.
     let normalized = a_path access in
     bind_op (case a_row access of Some e \<Rightarrow> return_op (Some e) | None \<Rightarrow> oneEntry normalized) (\<lambda>existing.
     case existing of
       Some e \<Rightarrow>
         bind_op (assertTraverse normalized (a_followed access) posix) (\<lambda>_.
         if recursive \<and> is_directory e then
           bind_op (assertPermission e posix EXECUTE_PERMISSION normalized) (\<lambda>_. return_op (rowToStat cfg e))
         else fail_op EEXIST normalized)
     | None \<Rightarrow>
         transaction cfg
           (bind_op (gets_op clock) (\<lambda>now.
            bind_op (prepareParents cfg normalized recursive now (a_followed access) posix) (\<lambda>parent.
            bind_op (assertCapacity cfg 0 1 (Some normalized)) (\<lambda>_.
            bind_op (createDirectory cfg normalized now mode' posix False (Some parent)) (\<lambda>row.
            return_op (rowToStat cfg row))))))))"

definition MAX_SYMLINK_TARGET_BYTES :: nat where
  "MAX_SYMLINK_TARGET_BYTES = 4096"

record SymlinkOptions =
  so_createParents :: bool
  so_replace :: bool
  so_ifMutationToken :: "jstring option"

definition commitSymlink ::
  "Config \<Rightarrow> jstring \<Rightarrow> jstring \<Rightarrow> jstring \<Rightarrow> jstring \<Rightarrow> nat \<Rightarrow> SymlinkOptions \<Rightarrow> PosixAccessContext option \<Rightarrow>
   jstring list \<Rightarrow> EntryRow option \<Rightarrow> VfsStat op" where
  "commitSymlink cfg path parentPath name' target bytes options posix followed resolved =
     bind_op (case resolved of Some e \<Rightarrow> return_op (Some e) | None \<Rightarrow> oneEntry path) (\<lambda>existing.
     if existing \<noteq> None \<and> \<not> so_replace options then fail_op EEXIST path
     else if (case existing of None \<Rightarrow> False | Some e \<Rightarrow> is_directory e) then fail_op EISDIR path
     else
     bind_op (validateGuard cfg path existing (so_ifMutationToken options) None) (\<lambda>_.
     bind_op (gets_op clock) (\<lambda>now.
     bind_op (prepareParents cfg path (so_createParents options) now followed posix) (\<lambda>parent.
     bind_op (case existing of
         Some e \<Rightarrow> if posix \<noteq> None then assertStickyRemoval parent e posix path else return_op ()
       | None \<Rightarrow> return_op ()) (\<lambda>_.
     bind_op (if existing \<noteq> None then removeExact cfg path now False None else return_op False) (\<lambda>_.
     let owner = (if posix = None then (0, 0) else creationOwner parent posix);
         revision = (case existing of None \<Rightarrow> 0 | Some e \<Rightarrow> e_revision e) + 1 in
     bind_op (nextEntryVersion path (case existing of None \<Rightarrow> 0 | Some e \<Rightarrow> e_version e)) (\<lambda>mutationVersion.
     bind_op (assertCapacity cfg 0 1 (Some path)) (\<lambda>_.
     bind_op (allocateIno 1) (\<lambda>ino.
     let row = \<lparr>e_id = ino, e_path = path, e_parent = parentPath, e_name = name', e_kind = Symlink target,
                e_size = bytes, e_mode = SYMLINK_MODE, e_uid = fst owner, e_gid = snd owner,
                e_created = now, e_modified = now, e_changed = now, e_linkIdentity = None, e_linkCount = 1,
                e_revision = revision, e_version = mutationVersion, e_digest = None, e_digest_revision = 0\<rparr> in
     bind_op (insert_entry row) (\<lambda>_.
     bind_op (updateUsage cfg 0 1) (\<lambda>_.
     bind_op (publishToken cfg path mutationVersion True (if existing = None then MCreate else MWrite) None) (\<lambda>_.
     return_op (rowToStat cfg row)))))))))))))"

definition symlink ::
  "Config \<Rightarrow> jstring \<Rightarrow> jstring \<Rightarrow> SymlinkOptions \<Rightarrow> PosixAccessContext option \<Rightarrow> VfsStat op" where
  "symlink cfg path target options posix =
     bind_op (resolveAccess path False False) (\<lambda>access.
     let normalized = a_path access in
     bind_op (lift_op (dirname normalized)) (\<lambda>parentPath.
     bind_op (lift_op (basename normalized)) (\<lambda>name'.
     if normalized = [SLASH] then fail_op EEXIST normalized
     else if length target = 0 then fail_op EINVAL normalized
     else
       let bytes = utf8ByteLength target in
       if bytes > MAX_SYMLINK_TARGET_BYTES then fail_op ENAMETOOLONG normalized
       else transaction cfg
         (commitSymlink cfg normalized parentPath name' target bytes options posix (a_followed access)
            (a_row access)))))"

section \<open>Removal\<close>

record RemoveResult =
  rm_removed :: nat
  rm_queued :: nat

definition removeSingle :: "Config \<Rightarrow> jstring \<Rightarrow> EntryRow \<Rightarrow> RemoveResult op" where
  "removeSingle cfg path root =
     bind_op (gets_op clock) (\<lambda>now.
     bind_op (removeExact cfg path now True (Some root)) (\<lambda>queued.
     bind_op (recordPathChange cfg path False None) (\<lambda>_.
     bind_op (recordMutation cfg (plain_mutation MRemove path None)) (\<lambda>_.
     return_op \<lparr>rm_removed = 1, rm_queued = (if queued then 1 else 0)\<rparr>))))"

definition linkedIdentities :: "jstring \<Rightarrow> jstring \<times> jstring \<Rightarrow> nat list op" where
  "linkedIdentities path bounds =
     gets_op (\<lambda>s. if \<not> sharedInodes s then []
       else remdups (List.map_filter e_linkIdentity (filter (\<lambda>e. in_tree path bounds (e_path e)) (entries (tables s)))))"

definition markUnlinking :: "jstring \<Rightarrow> jstring \<times> jstring \<Rightarrow> nat \<Rightarrow> unit op" where
  "markUnlinking path bounds now =
     bind_op (gets_op sharedInodes) (\<lambda>shared.
     when_op shared (exec_op (\<lambda>t. t\<lparr>entries := map (\<lambda>e.
       if e_linkIdentity e \<noteq> None \<and> in_tree path bounds (e_path e)
       then e\<lparr>e_changed := now, e_revision := e_revision e + 1, e_version := e_version e + 1\<rparr> else e) (entries t)\<rparr>)))"

text \<open>The objects that only the subtree refers to; the result is how many rows of the queue change.\<close>

definition queueRemovedObjects :: "jstring \<Rightarrow> jstring \<times> jstring \<Rightarrow> nat \<Rightarrow> nat op" where
  "queueRemovedObjects path bounds now =
     bind_op (gets_op (\<lambda>s. filter (\<lambda>ob.
         (\<exists>e \<in> set (entries (tables s)). in_tree path bounds (e_path e) \<and> references (o_id ob) e) \<and>
         \<not> (\<exists>e \<in> set (entries (tables s)). \<not> in_tree path bounds (e_path e) \<and> references (o_id ob) e))
       (objects (tables s)))) (\<lambda>removed.
     bind_op (exec_op (\<lambda>t. t\<lparr>garbage :=
         fold (\<lambda>ob. put_garbage (o_key ob) (max now (o_retainUntil ob))) removed (garbage t)\<rparr>)) (\<lambda>_.
     return_op (length removed)))"

definition deleteSubtree :: "jstring \<Rightarrow> jstring \<times> jstring \<Rightarrow> unit op" where
  "deleteSubtree path bounds =
     bind_op (exec_op (\<lambda>t. t\<lparr>chunks := filter (\<lambda>c.
         \<not> (\<exists>e \<in> set (entries t). e_id e = c_entry c \<and> in_tree path bounds (e_path e))) (chunks t)\<rparr>)) (\<lambda>_.
     exec_op (\<lambda>t. t\<lparr>entries := filter (\<lambda>e. \<not> in_tree path bounds (e_path e)) (entries t)\<rparr>))"

definition deleteQueuedObjects :: "unit op" where
  "deleteQueuedObjects =
     exec_op (\<lambda>t. t\<lparr>objects := filter (\<lambda>ob.
       \<not> (\<not> (\<exists>e \<in> set (entries t). references (o_id ob) e) \<and> (\<exists>g \<in> set (garbage t). g_key g = o_key ob))) (objects t)\<rparr>)"

definition removeSubtree :: "Config \<Rightarrow> jstring \<Rightarrow> EntryRow \<Rightarrow> RemoveResult op" where
  "removeSubtree cfg path root =
     bind_op (descendantRange_op path) (\<lambda>bounds.
     bind_op (aggregateSubtree path False) (\<lambda>summary.
     bind_op (gets_op clock) (\<lambda>now.
     bind_op (linkedIdentities path bounds) (\<lambda>identities.
     bind_op (markUnlinking path bounds now) (\<lambda>_.
     bind_op (publishSubtreeRemoval cfg path None False) (\<lambda>_.
     bind_op (queueRemovedObjects path bounds now) (\<lambda>queued.
     bind_op (deleteSubtree path bounds) (\<lambda>_.
     bind_op (publishLinkedMetadata cfg identities) (\<lambda>_.
     bind_op deleteQueuedObjects (\<lambda>_.
     bind_op (updateUsage cfg (- int (sum_inlineBytes summary)) (- int (sum_entries summary))) (\<lambda>_.
     bind_op (noteDirectoryChange root) (\<lambda>_.
     bind_op (recordMutation cfg
         (if sum_entries summary > 1
          then \<lparr>m_op = MRemove, m_path = path, m_token = None, m_subtree = Some (path, None)\<rparr>
          else plain_mutation MRemove path None)) (\<lambda>_.
     return_op \<lparr>rm_removed = sum_entries summary, rm_queued = queued\<rparr>)))))))))))))"

definition commitRemove ::
  "Config \<Rightarrow> jstring \<Rightarrow> EntryRow \<Rightarrow> jstring list \<Rightarrow> bool \<Rightarrow> PosixAccessContext option \<Rightarrow> RemoveResult op" where
  "commitRemove cfg path root followed recursive posix =
     bind_op (assertTraverse path followed posix) (\<lambda>_.
     bind_op (if posix = None then return_op ()
       else
         bind_op (lift_op (dirname path)) (\<lambda>up.
         bind_op (requireDirectory up None) (\<lambda>parent.
         bind_op (assertPermission parent posix (WRITE_PERMISSION OR EXECUTE_PERMISSION) path) (\<lambda>_.
         assertStickyRemoval parent root posix path)))) (\<lambda>_.
     if \<not> is_directory root then removeSingle cfg path root
     else if \<not> recursive then
       bind_op (descendantRange_op path) (\<lambda>bounds.
       bind_op (gets_op (\<lambda>s. \<exists>e \<in> set (entries (tables s)). in_range bounds (e_path e))) (\<lambda>hasDescendants.
       if hasDescendants then fail_op ENOTEMPTY path else removeSingle cfg path root))
     else
       bind_op (assertSubtreePermissions path posix 0 (WRITE_PERMISSION OR EXECUTE_PERMISSION)) (\<lambda>_.
       bind_op (assertSubtreeSticky path posix) (\<lambda>_.
       removeSubtree cfg path root))))"

definition remove :: "Config \<Rightarrow> jstring \<Rightarrow> bool \<Rightarrow> PosixAccessContext option \<Rightarrow> RemoveResult op" where
  "remove cfg path recursive posix =
     bind_op (resolveAccess path False False) (\<lambda>access.
     let normalized = a_path access in
     if normalized = [SLASH] then fail_op EINVAL normalized
     else
     bind_op (or_require (a_row access) (requireEntry normalized False)) (\<lambda>root.
     bind_op (transaction cfg (commitRemove cfg normalized root (a_followed access) recursive posix)) (\<lambda>result.
     bind_op (when_op (rm_queued result > 0) (scheduleGarbageAlarm cfg)) (\<lambda>_.
     return_op result))))"

end
