(* ===== verification/Vfs_Removal.thy ===== *)
theory Vfs_Removal
  imports Vfs_Names
begin

text \<open>
  What \<open>src/vfs/sql-move-base.ts\<close> and \<open>src/vfs/sql-metadata-base.ts\<close> do to the tree: a
  removal takes a path and what is below it out of the contents, a directory or a link is put
  in, and everything else stays. A path that is taken out leaves its version behind, so
  whatever comes to the path later has a higher one.
\<close>

section \<open>Taking entries out\<close>

definition pruned :: "(jstring \<Rightarrow> bool) \<Rightarrow> OpaqueObjectRow list \<Rightarrow> (jstring \<times> nat) list \<Rightarrow> View \<Rightarrow> View" where
  "pruned P obs ts v =
     (let gone = filter (\<lambda>e. P (e_path e)) (v_entries v) in
      charged (- inline_total gone) (- int (length gone))
        (v\<lparr>v_entries := filter (\<lambda>e. \<not> P (e_path e)) (v_entries v),
           v_chunks := filter (\<lambda>c. c_entry c \<notin> e_id ` set gone) (v_chunks v), v_tombstones := ts, v_objects := obs\<rparr>))"

text \<open>What may be taken out: never the root, and a directory only with what is below it.\<close>

definition prunable :: "(jstring \<Rightarrow> bool) \<Rightarrow> EntryRow list \<Rightarrow> bool" where
  "prunable P es \<longleftrightarrow> \<not> P [SLASH] \<and> (\<forall>e \<in> set es. e_path e \<noteq> [SLASH] \<longrightarrow> P (e_parent e) \<longrightarrow> P (e_path e))"

lemma entry_at_filter: "entry_at p (filter (\<lambda>e. \<not> P (e_path e)) es) = (if P p then None else entry_at p es)"
  by (induction es) (auto simp: entry_at_def)

lemma inline_total_filter:
  "inline_total es = inline_total (filter P es) + inline_total (filter (\<lambda>e. \<not> P e) es)"
  by (induction es) auto

lemma length_filter_split: "length es = length (filter P es) + length (filter (\<lambda>e. \<not> P e) es)"
  by (induction es) auto

lemma pruned_fields:
  "v_entries (pruned P obs ts v) = filter (\<lambda>e. \<not> P (e_path e)) (v_entries v)"
  "v_chunks (pruned P obs ts v) = filter (\<lambda>c. c_entry c \<notin> e_id ` {e \<in> set (v_entries v). P (e_path e)}) (v_chunks v)"
  "v_tombstones (pruned P obs ts v) = ts" "v_objects (pruned P obs ts v) = obs" "v_nextIno (pruned P obs ts v) = v_nextIno v"
  "v_charge (pruned P obs ts v) = (fst (v_charge v) - inline_total (filter (\<lambda>e. P (e_path e)) (v_entries v)),
     snd (v_charge v) - int (length (filter (\<lambda>e. P (e_path e)) (v_entries v))))"
  by (simp_all add: pruned_def charged_def Let_def)

text \<open>An entry that stays keeps its body.\<close>

lemma pruned_body:
  assumes "tree_ok (v_entries v)" "e \<in> set (v_entries v)" "\<not> P (e_path e)"
  shows "chunk_at (v_chunks (pruned P obs ts v)) (e_id e) n = chunk_at (v_chunks v) (e_id e) n"
    "body_of (e_id e) (v_chunks (pruned P obs ts v)) = body_of (e_id e) (v_chunks v)"
proof -
  have "\<not> P (e_path f)" if "f \<in> set (v_entries v)" "e_id f = e_id e" for f
    using tree_id [OF assms(1) that(1) assms(2) that(2)] assms(3) by simp
  then have kept: "e_id e \<notin> e_id ` {e \<in> set (v_entries v). P (e_path e)}" by (auto simp: eq_commute)
  show "chunk_at (v_chunks (pruned P obs ts v)) (e_id e) n = chunk_at (v_chunks v) (e_id e) n"
    unfolding pruned_fields
    by (subst filter_chunks(1) [where Q = "\<lambda>i n. i \<notin> e_id ` {e \<in> set (v_entries v). P (e_path e)}"]) (use kept in auto)
  show "body_of (e_id e) (v_chunks (pruned P obs ts v)) = body_of (e_id e) (v_chunks v)"
  proof -
    have "filter (\<lambda>c. c_entry c = i) (filter (\<lambda>c. c_entry c \<notin> X) cs) = filter (\<lambda>c. c_entry c = i) cs" if "i \<notin> X" for i X cs
      using that by (auto intro!: filter_cong)
    from this [OF kept] show ?thesis unfolding pruned_fields by (rule body_of_cong)
  qed
qed

lemma pruned_ok:
  assumes "sound cfg v" "prunable P (v_entries v)" "distinct (map fst ts)"
    "fst ` set ts \<subseteq> fst ` set (v_tombstones v) \<union> {p. P p}" "\<forall>e \<in> set (v_entries v). \<not> P (e_path e) \<longrightarrow> object_ok obs e"
  shows "sound cfg (pruned P obs ts v)" "fs (pruned P obs ts v) = (\<lambda>q. if P q then None else fs v q)"
proof -
  let ?w = "pruned P obs ts v"
  have tree: "tree_ok (v_entries v)" and bodies: "bodies_ok (v_entries v) (v_chunks v)" using assms(1) by (simp_all add: sound_def)
  have kept: "e \<in> set (v_entries ?w) \<longleftrightarrow> e \<in> set (v_entries v) \<and> \<not> P (e_path e)" for e by (auto simp: pruned_fields)
  have "parent_ok (v_entries ?w) e" if "e \<in> set (v_entries ?w)" for e
  proof -
    have e: "e \<in> set (v_entries v)" "\<not> P (e_path e)" "parent_ok (v_entries v) e" using that tree kept by (auto simp: tree_ok_def)
    with assms(2) have "e_path e \<noteq> [SLASH] \<Longrightarrow> \<not> P (e_parent e)" by (auto simp: prunable_def)
    with e(3) show ?thesis by (auto simp: parent_ok_def kept)
  qed
  moreover have "\<exists>d \<in> set (v_entries ?w). e_path d = [SLASH] \<and> is_directory d"
    using tree assms(2) by (auto simp: tree_ok_def prunable_def kept)
  moreover have "distinct (map e_path (v_entries ?w))" "distinct (map e_id (v_entries ?w))"
    using tree distinct_map_filter unfolding tree_ok_def pruned_fields by blast+
  ultimately have tree': "tree_ok (v_entries ?w)" by (simp add: tree_ok_def)
  have "stored e (v_chunks ?w)" if "e \<in> set (v_entries ?w)" "is_inline e" for e
    using that bodies pruned_body(1) [OF tree] by (auto simp: kept bodies_ok_def stored_def layout_def)
  moreover have "c_entry ` set (v_chunks ?w) \<subseteq> e_id ` {e \<in> set (v_entries ?w). is_inline e}"
  proof
    fix i assume "i \<in> c_entry ` set (v_chunks ?w)"
    then have "i \<in> c_entry ` set (v_chunks v)" "i \<notin> e_id ` {e \<in> set (v_entries v). P (e_path e)}" by (auto simp: pruned_fields)
    with bodies obtain e where "e \<in> set (v_entries v)" "is_inline e" "e_id e = i" by (auto simp: bodies_ok_def)
    with \<open>i \<notin> _\<close> show "i \<in> e_id ` {e \<in> set (v_entries ?w). is_inline e}" by (auto simp: kept)
  qed
  moreover have "distinct_chunks (v_chunks ?w)"
    unfolding pruned_fields
    by (rule filter_chunks(2) [where Q = "\<lambda>i n. i \<notin> e_id ` {e \<in> set (v_entries v). P (e_path e)}"])
       (use bodies in \<open>auto simp: bodies_ok_def\<close>)
  ultimately have "bodies_ok (v_entries ?w) (v_chunks ?w)" by (auto simp: bodies_ok_def)
  moreover have "digest_ok cfg (v_chunks ?w) e" "e_id e < v_nextIno v" "solitary e"
    if "e \<in> set (v_entries ?w)" for e
    using that assms(1) pruned_body(2) [OF tree] by (auto simp: sound_def kept digest_ok_def)
  moreover have "e_path e \<notin> fst ` set ts" if "e \<in> set (v_entries ?w)" for e
  proof -
    have "e_path e \<notin> fst ` set (v_tombstones v)" "\<not> P (e_path e)" using that assms(1) by (simp_all add: kept sound_def)
    with assms(4) show ?thesis by blast
  qed
  moreover have "v_charge v = (inline_total (v_entries v), int (length (v_entries v)))" using assms(1) by (simp add: sound_def)
  moreover note inline_total_filter [of "v_entries v" "\<lambda>e. P (e_path e)"] length_filter_split [of "v_entries v" "\<lambda>e. P (e_path e)"]
  ultimately show "sound cfg ?w"
    using tree' assms(3,5) by (auto simp: sound_def kept pruned_fields(3-6)) (simp_all add: pruned_fields)
  show "fs ?w = (\<lambda>q. if P q then None else fs v q)"
  proof
    fix q
    have "node_of (v_chunks ?w) e = node_of (v_chunks v) e" if "entry_at q (v_entries v) = Some e" "\<not> P q" for e
      using that pruned_body(2) [OF tree, of e] tree_entry [OF tree] by (auto simp: node_of_def split: entry_kind.splits)
    then show "fs ?w q = (if P q then None else fs v q)"
      by (cases "entry_at q (v_entries v)") (auto simp: fs_def pruned_fields(1) entry_at_filter)
  qed
qed

text \<open>
  Versions. A path that is taken out remembers at least the version it had; with one more, the
  whole is an ageing of the tables.
\<close>

definition remembered :: "nat \<Rightarrow> (jstring \<Rightarrow> bool) \<Rightarrow> View \<Rightarrow> (jstring \<times> nat) list \<Rightarrow> bool" where
  "remembered n P v ts \<longleftrightarrow> (\<forall>p. case entry_at p (v_entries v) of
     Some e \<Rightarrow> P p \<longrightarrow> (\<exists>k. map_of ts p = Some k \<and> e_version e + n \<le> k)
   | None \<Rightarrow> map_of ts p = map_of (v_tombstones v) p)"

lemma pruned_version:
  assumes "remembered n P v ts"
  shows "path_version v p + (if P p \<and> entry_at p (v_entries v) \<noteq> None then n else 0) \<le> path_version (pruned P obs ts v) p"
  using spec [OF assms [unfolded remembered_def], of p]
  by (cases "entry_at p (v_entries v)") (auto simp: path_version_def pruned_fields entry_at_filter)

lemma pruned_evolves:
  assumes "remembered 1 P v ts" "fs (pruned P obs ts v) = (\<lambda>q. if P q then None else fs v q)"
  shows "evolves v (pruned P obs ts v)"
proof -
  have "fs v p \<noteq> fs (pruned P obs ts v) p \<Longrightarrow> P p \<and> entry_at p (v_entries v) \<noteq> None" for p
    unfolding assms(2) by (auto simp: fs_def split: if_splits)
  then have "path_version v p \<le> path_version (pruned P obs ts v) p \<and>
      (fs v p \<noteq> fs (pruned P obs ts v) p \<longrightarrow> path_version v p < path_version (pruned P obs ts v) p)" for p
    using pruned_version [OF assms(1), of p obs] by (cases "P p \<and> entry_at p (v_entries v) \<noteq> None") force+
  then have "ages v (pruned P obs ts v)" unfolding ages_def by blast
  then show ?thesis by (auto simp: evolves_def pruned_fields)
qed

section \<open>Tombstones\<close>

lemma map_of_upsert: "map_of (upsert k n f xs) p =
    (if p = k then Some (case map_of xs k of None \<Rightarrow> n | Some m \<Rightarrow> f m) else map_of xs p)"
  by (induction xs) auto

lemma upsert_keys: "fst ` set (upsert k n f xs) = insert k (fst ` set xs)"
  by (induction xs) force+

lemma upsert_distinct: "distinct (map fst xs) \<Longrightarrow> distinct (map fst (upsert k n f xs))"
proof (induction xs)
  case (Cons x xs)
  then show ?case using upsert_keys [of k n f xs] by (cases x) (auto simp flip: image_set)
qed simp

lemma map_of_upsert_tombstone: "map_of (upsert_tombstone k n ts) p =
    (if p = k then Some (max n (case map_of ts k of None \<Rightarrow> n | Some m \<Rightarrow> m)) else map_of ts p)"
  by (auto simp: upsert_tombstone_def map_of_upsert split: option.splits)

lemma upsert_tombstone_keys:
  "fst ` set (upsert_tombstone k n ts) = insert k (fst ` set ts)"
  "distinct (map fst ts) \<Longrightarrow> distinct (map fst (upsert_tombstone k n ts))"
  by (simp_all add: upsert_tombstone_def upsert_keys upsert_distinct)

definition bury :: "EntryRow list \<Rightarrow> (jstring \<times> nat) list \<Rightarrow> (jstring \<times> nat) list" where
  "bury es ts = fold (\<lambda>e. upsert_tombstone (e_path e) (e_version e + 1)) es ts"

lemma bury_simps [simp]:
  "bury [] ts = ts" "bury (e # es) ts = bury es (upsert_tombstone (e_path e) (e_version e + 1) ts)"
  by (simp_all add: bury_def)

lemma bury_keys:
  "fst ` set (bury es ts) = fst ` set ts \<union> e_path ` set es"
  "distinct (map fst ts) \<Longrightarrow> distinct (map fst (bury es ts))"
  by (induction es arbitrary: ts) (auto simp: upsert_tombstone_keys)

lemma bury_other: "p \<notin> e_path ` set es \<Longrightarrow> map_of (bury es ts) p = map_of ts p"
  by (induction es arbitrary: ts) (auto simp: map_of_upsert_tombstone)

lemma bury_grows: "map_of ts p = Some m \<Longrightarrow> \<exists>k. map_of (bury es ts) p = Some k \<and> m \<le> k"
proof (induction es arbitrary: ts m)
  case (Cons e es)
  have "\<exists>k. map_of (upsert_tombstone (e_path e) (e_version e + 1) ts) p = Some k \<and> m \<le> k"
    using Cons.prems by (auto simp: map_of_upsert_tombstone)
  then obtain j where j: "map_of (upsert_tombstone (e_path e) (e_version e + 1) ts) p = Some j" "m \<le> j" by blast
  from Cons.IH [OF j(1)] j(2) show ?case by auto
qed simp

lemma bury_at: "e \<in> set es \<Longrightarrow> \<exists>k. map_of (bury es ts) (e_path e) = Some k \<and> e_version e + 1 \<le> k"
proof (induction es arbitrary: ts)
  case (Cons a es)
  show ?case
  proof (cases "e = a")
    case True
    have "\<exists>k. map_of (upsert_tombstone (e_path a) (e_version a + 1) ts) (e_path a) = Some k \<and> e_version a + 1 \<le> k"
      by (auto simp: map_of_upsert_tombstone)
    then obtain j where j: "map_of (upsert_tombstone (e_path a) (e_version a + 1) ts) (e_path a) = Some j" "e_version a + 1 \<le> j"
      by blast
    from bury_grows [OF j(1), of es] j(2) True show ?thesis by auto
  qed (use Cons in auto)
qed simp

lemma bury_remembered:
  assumes "tree_ok (v_entries v)" "\<And>e. e \<in> set es \<longleftrightarrow> e \<in> set (v_entries v) \<and> P (e_path e)"
  shows "remembered 1 P v (bury es (v_tombstones v))"
  unfolding remembered_def
proof
  fix p
  show "case entry_at p (v_entries v) of
      Some e \<Rightarrow> P p \<longrightarrow> (\<exists>k. map_of (bury es (v_tombstones v)) p = Some k \<and> e_version e + 1 \<le> k)
    | None \<Rightarrow> map_of (bury es (v_tombstones v)) p = map_of (v_tombstones v) p"
  proof (cases "entry_at p (v_entries v)")
    case None
    then have "p \<notin> e_path ` set es" using assms(2) by (auto simp: entry_at_None)
    with None show ?thesis by (simp add: bury_other)
  next
    case (Some e)
    then have "e \<in> set (v_entries v)" "e_path e = p" using tree_entry [OF assms(1)] by auto
    with assms(2) [of e] bury_at [of e es "v_tombstones v"] Some show ?thesis by auto
  qed
qed

end
