(* ===== verification/Vfs_Removed.thy ===== *)
theory Vfs_Removed
  imports Vfs_Removal
begin

section \<open>One entry\<close>

lemma filter_one: "distinct (map f xs) \<Longrightarrow> x \<in> set xs \<Longrightarrow> filter (\<lambda>y. f y = f x) xs = [x]"
proof (induction xs)
  case (Cons a xs)
  show ?case
  proof (cases "a = x")
    case True
    with Cons.prems have "f y \<noteq> f x" if "y \<in> set xs" for y using that by (metis distinct.simps(2) imageI image_set list.map(2))
    with True show ?thesis by (simp add: filter_empty_conv)
  qed (use Cons in force)
qed simp

text \<open>The chunks of an entry that is not inline: there are none.\<close>

lemma no_chunks:
  assumes "bodies_ok es cs" "tree_ok es" "e \<in> set es" "\<not> is_inline e"
  shows "filter (\<lambda>c. c_entry c \<noteq> e_id e) cs = cs"
proof -
  have "c_entry c \<noteq> e_id e" if "c \<in> set cs" for c
  proof
    assume "c_entry c = e_id e"
    with that assms(1) obtain f where "f \<in> set es" "is_inline f" "e_id f = e_id e" by (force simp: bodies_ok_def)
    with assms(2-4) tree_id show False by blast
  qed
  then show ?thesis by simp
qed

lemma pruned_one:
  assumes "sound cfg v" "e \<in> set (v_entries v)"
  shows "pruned ((=) (e_path e)) obs ts v = charged (if is_inline e then - int (e_size e) else 0) (-1)
    (v\<lparr>v_entries := filter (\<lambda>f. e_id f \<noteq> e_id e) (v_entries v),
       v_chunks := (if is_inline e then filter (\<lambda>c. c_entry c \<noteq> e_id e) (v_chunks v) else v_chunks v),
       v_tombstones := ts, v_objects := obs\<rparr>)"
proof -
  have tree: "tree_ok (v_entries v)" and bodies: "bodies_ok (v_entries v) (v_chunks v)" using assms(1) by (simp_all add: sound_def)
  then have "distinct (map e_path (v_entries v))" by (simp add: tree_ok_def)
  from filter_one [OF this assms(2)] have gone: "filter (\<lambda>f. e_path e = e_path f) (v_entries v) = [e]"
    by (simp add: eq_commute [of "e_path e"])
  have "filter (\<lambda>f. e_path e \<noteq> e_path f) (v_entries v) = filter (\<lambda>f. e_id f \<noteq> e_id e) (v_entries v)"
    by (rule filter_cong) (use assms(2) tree_id [OF tree] tree_path [OF tree] in metis)+
  with no_chunks [OF bodies tree assms(2)] show ?thesis
    by (simp add: pruned_def Let_def gone)
qed

definition may_drop :: "View \<Rightarrow> (jstring \<Rightarrow> bool) \<Rightarrow> OpaqueObjectRow list \<Rightarrow> bool" where
  "may_drop v P obs \<longleftrightarrow> (\<forall>e \<in> set (v_entries v). \<not> P (e_path e) \<longrightarrow> object_ok obs e)"

lemma vpost_queueKind:
  assumes "\<And>x. Q x u" "\<And>i. \<forall>f \<in> set (v_entries u). \<not> references i f \<Longrightarrow> Q True (without_object i u)"
  shows "vpost (case kind of Opaque i \<Rightarrow> queueObjectIfUnreferenced i now | _ \<Rightarrow> return_op False) u Q"
  using assms by (cases kind) (simp_all add: vpost_return vpost_queueObject)

lemma vpost_removeExact:
  assumes "sound cfg v" "e \<in> set (v_entries v)" "e_path e = path"
    "resolved = Some e \<or> resolved = None \<and> entry_at path (v_entries v) = Some e"
    "\<And>x obs. may_drop v ((=) path) obs \<Longrightarrow>
       Q x (pruned ((=) path) obs (upsert_tombstone path (e_version e + (if advance then 1 else 0)) (v_tombstones v)) v)"
  shows "vpost (removeExact cfg path now advance resolved) v Q"
proof -
  let ?ts = "upsert_tombstone path (e_version e + (if advance then 1 else 0)) (v_tombstones v)"
  let ?w = "\<lambda>obs. charged (if is_inline e then - int (e_size e) else 0) (-1)
    (v\<lparr>v_entries := filter (\<lambda>f. e_id f \<noteq> e_id e) (v_entries v),
       v_chunks := (if is_inline e then filter (\<lambda>c. c_entry c \<noteq> e_id e) (v_chunks v) else v_chunks v),
       v_tombstones := ?ts, v_objects := obs\<rparr>)"
  have w: "pruned ((=) path) obs ?ts v = ?w obs" for obs
    using pruned_one [OF assms(1,2)] assms(3) by simp
  have sound: "object_ok (v_objects v) f" if "f \<in> set (v_entries v)" for f using assms(1) that by (simp add: sound_def)
  then have keep: "may_drop v ((=) path) (v_objects v)" by (simp add: may_drop_def)
  have drop: "may_drop v ((=) path) (filter (\<lambda>ob. o_id ob \<noteq> i) (v_objects v))"
    if "\<forall>f \<in> set (filter (\<lambda>f. e_id f \<noteq> e_id e) (v_entries v)). \<not> references i f" for i
    unfolding may_drop_def
  proof (intro ballI impI)
    fix f assume f: "f \<in> set (v_entries v)" "path \<noteq> e_path f"
    have "e_id f \<noteq> e_id e" using f assms(1-3) tree_id [of "v_entries v" f e] by (auto simp: sound_def)
    with that f(1) have "\<not> references i f" by simp
    with sound [OF f(1)] show "object_ok (filter (\<lambda>ob. o_id ob \<noteq> i) (v_objects v)) f"
      by (auto simp: object_ok_def references_def split: entry_kind.splits)
  qed
  have step: "vpost (case e_kind e of Opaque i \<Rightarrow> queueObjectIfUnreferenced i now | _ \<Rightarrow> return_op False) u Q"
    if u: "u = ?w (v_objects v)" for u
  proof (rule vpost_queueKind)
    show "Q x u" for x using assms(5) [OF keep] unfolding w u by blast
    fix i assume "\<forall>f \<in> set (v_entries u). \<not> references i f"
    then have "may_drop v ((=) path) (filter (\<lambda>ob. o_id ob \<noteq> i) (v_objects v))" by (intro drop) (simp add: u charged_def)
    from assms(5) [OF this] show "Q True (without_object i u)"
      unfolding w by (rule view_eqI) (simp add: u charged_def without_object_def)
  qed
  have found: "vpost (case resolved of Some e \<Rightarrow> return_op (Some e) | None \<Rightarrow> oneEntry path) v (\<lambda>f w. f = Some e \<and> w = v)"
    using assms(4) by (auto intro!: vpost_return vpost_oneEntry)
  show ?thesis
    unfolding removeExact_def
    apply (rule vpost_bind, rule vpost_weaken [OF found], elim conjE, hypsubst, simp only: option.case)
    apply (rule vpost_bind, rule vpost_weaken [where Q' = "\<lambda>_ w. w = v"])
    subgoal by (intro vpost_when vpost_silent silent_notes) simp_all
    apply hypsubst
    apply (rule vpost_bind, rule vpost_weaken [where Q' = "\<lambda>_ w. w =
      v\<lparr>v_chunks := (if is_inline e then filter (\<lambda>c. c_entry c \<noteq> e_id e) (v_chunks v) else v_chunks v)\<rparr>"])
    subgoal by (intro vpost_intros) simp_all
    apply hypsubst
    apply (rule vpost_bind, rule vpost_exec_table(1), rule vpost_bind, rule vpost_exec_table(3), rule vpost_bind, rule vpost_updateUsage)
    subgoal by (rule step) (auto simp: charged_def)
    done
qed

section \<open>What a removal leaves\<close>

definition abs_remove :: "jstring \<Rightarrow> (jstring \<Rightarrow> node option) \<Rightarrow> jstring \<Rightarrow> node option" where
  "abs_remove path f q = (if q = path \<or> below path q then None else f q)"

text \<open>A row that nothing is below: one that is no directory, or an empty directory.\<close>

definition childless :: "EntryRow list \<Rightarrow> EntryRow \<Rightarrow> bool" where
  "childless es e \<longleftrightarrow> (\<forall>f \<in> set es. \<not> below (e_path e) (e_path f))"

lemma file_childless:
  assumes "tree_ok es" "e \<in> set es" "\<not> is_directory e"
  shows "childless es e"
  unfolding childless_def
proof (intro ballI notI)
  fix f assume f: "f \<in> set es" "below (e_path e) (e_path f)"
  have "canonical (e_path e)" using assms(1,2) by (simp add: tree_ok_def parent_ok_def)
  from tree_above [OF assms(1) f(1) this f(2)] obtain a where "a \<in> set es" "e_path a = e_path e" "is_directory a" by blast
  with assms tree_path show False by metis
qed

lemma parent_below:
  assumes "tree_ok es" "f \<in> set es" "e_path f \<noteq> [SLASH]"
  shows "below (e_parent f) (e_path f)"
proof -
  have f: "canonical (e_path f)" "dirname (e_path f) = Inr (e_parent f)"
    using assms by (simp_all add: tree_ok_def parent_ok_def)
  from dirname_canonical [OF f(1) assms(3)] f(2) show ?thesis by (metis Inr_inject)
qed

lemma prunable_leaf:
  assumes "tree_ok es" "e \<in> set es" "e_path e \<noteq> [SLASH]" "childless es e"
  shows "prunable ((=) (e_path e)) es"
  unfolding prunable_def using assms parent_below [OF assms(1)] by (auto simp: childless_def)

lemma prunable_subtree:
  assumes "tree_ok es" "canonical path" "path \<noteq> [SLASH]"
  shows "prunable (\<lambda>q. q = path \<or> below path q) es"
  unfolding prunable_def
proof (intro conjI ballI impI)
  show "\<not> ([SLASH] = path \<or> below path [SLASH])" using assms(3) nothing_below_root [OF assms(2)] by simp
  fix e assume e: "e \<in> set es" "e_path e \<noteq> [SLASH]" "e_parent e = path \<or> below path (e_parent e)"
  from parent_below [OF assms(1) e(1,2)] e(3) show "e_path e = path \<or> below path (e_path e)"
    using below_trans by metis
qed

lemma abs_remove_leaf:
  assumes "tree_ok (v_entries v)" "e \<in> set (v_entries v)" "childless (v_entries v) e"
  shows "(\<lambda>q. if e_path e = q then None else fs v q) = abs_remove (e_path e) (fs v)"
proof
  fix q
  have "fs v q = None" if "below (e_path e) q"
    using that assms(3) by (cases "entry_at q (v_entries v)") (auto simp: fs_def childless_def dest!: entry_at_SomeD)
  then show "(if e_path e = q then None else fs v q) = abs_remove (e_path e) (fs v) q" by (auto simp: abs_remove_def)
qed

text \<open>The result of a removal, before and after the end of the transaction.\<close>

definition taken_out :: "Config \<Rightarrow> jstring \<Rightarrow> nat \<Rightarrow> View \<Rightarrow> View \<Rightarrow> bool" where
  "taken_out cfg path n v w \<longleftrightarrow> sound cfg w \<and> evolves v w \<and> fs w = abs_remove path (fs v) \<and> fs v path \<noteq> None \<and>
     n = card {q. fs v q \<noteq> None \<and> (q = path \<or> below path q)} \<and> (within cfg v \<longrightarrow> within cfg w)"

lemma taken_out_flushed:
  assumes "taken_out cfg path n v w" "all_touched (v_entries w) es"
  shows "taken_out cfg path n v (w\<lparr>v_entries := es\<rparr>)"
  using assms(1) flushed_ok [OF assms(2)] evolves_trans by (auto simp: taken_out_def within_def)

lemma removed_count:
  assumes "tree_ok (v_entries v)"
  shows "card {q. fs v q \<noteq> None \<and> P q} = length (filter (\<lambda>e. P (e_path e)) (v_entries v))"
proof -
  have "fs v q \<noteq> None \<longleftrightarrow> q \<in> e_path ` set (v_entries v)" for q
    using entry_at_None [of q "v_entries v"] by (simp add: fs_def)
  then have "{q. fs v q \<noteq> None \<and> P q} = set (map e_path (filter (\<lambda>e. P (e_path e)) (v_entries v)))" by auto
  moreover have "distinct (map e_path (filter (\<lambda>e. P (e_path e)) (v_entries v)))"
    using assms distinct_map_filter unfolding tree_ok_def by blast
  ultimately show ?thesis using distinct_card [of "map e_path (filter (\<lambda>e. P (e_path e)) (v_entries v))"] by simp
qed

lemma inline_total_nonneg: "0 \<le> inline_total es"
  by (induction es) auto

lemma pruned_taken_out:
  assumes "sound cfg v" "prunable P (v_entries v)" "may_drop v P obs" "remembered 1 P v ts" "distinct (map fst ts)"
    "fst ` set ts \<subseteq> fst ` set (v_tombstones v) \<union> {p. P p}" "fs v path \<noteq> None"
    "(\<lambda>q. if P q then None else fs v q) = abs_remove path (fs v)" "P path"
    "\<And>e. e \<in> set (v_entries v) \<Longrightarrow> P (e_path e) \<longleftrightarrow> e_path e = path \<or> below path (e_path e)"
  shows "taken_out cfg path (length (filter (\<lambda>e. P (e_path e)) (v_entries v))) v (pruned P obs ts v)"
proof -
  have tree: "tree_ok (v_entries v)" using assms(1) by (simp add: sound_def)
  note ok = pruned_ok [OF assms(1,2,5,6) assms(3) [unfolded may_drop_def]]
  have "filter (\<lambda>e. P (e_path e)) (v_entries v) = filter (\<lambda>e. e_path e = path \<or> below path (e_path e)) (v_entries v)"
    by (rule filter_cong) (use assms(10) in auto)
  with removed_count [OF tree, of "\<lambda>q. q = path \<or> below path q"]
  have "length (filter (\<lambda>e. P (e_path e)) (v_entries v)) = card {q. fs v q \<noteq> None \<and> (q = path \<or> below path q)}" by simp
  moreover have "within cfg v \<longrightarrow> within cfg (pruned P obs ts v)"
    using inline_total_nonneg [of "filter (\<lambda>e. P (e_path e)) (v_entries v)"] by (auto simp: within_def pruned_fields)
  ultimately show ?thesis
    using ok assms(7,8) pruned_evolves [OF assms(4) ok(2)] by (simp add: taken_out_def)
qed

section \<open>Removing one entry\<close>

lemma leaf_taken_out:
  assumes "sound cfg v" "e \<in> set (v_entries v)" "e_path e \<noteq> [SLASH]" "childless (v_entries v) e" "may_drop v ((=) (e_path e)) obs"
  shows "taken_out cfg (e_path e) 1 v
    (pruned ((=) (e_path e)) obs (upsert_tombstone (e_path e) (e_version e + 1) (v_tombstones v)) v)"
proof -
  have tree: "tree_ok (v_entries v)" and d: "distinct (map fst (v_tombstones v))" using assms(1) by (simp_all add: sound_def)
  let ?ts = "upsert_tombstone (e_path e) (e_version e + 1) (v_tombstones v)"
  have "remembered 1 ((=) (e_path e)) v (bury [e] (v_tombstones v))"
    by (rule bury_remembered [OF tree]) (use assms(2) tree_path [OF tree assms(2)] in auto)
  moreover have "entry_at (e_path e) (v_entries v) = Some e" using tree_entry [OF tree] assms(2) by blast
  then have "fs v (e_path e) \<noteq> None" by (simp add: fs_def)
  moreover have "e_path e = e_path f \<longleftrightarrow> e_path f = e_path e \<or> below (e_path e) (e_path f)" if "f \<in> set (v_entries v)" for f
    using that assms(4) by (auto simp: childless_def)
  moreover have "filter (\<lambda>f. e_path e = e_path f) (v_entries v) = [e]"
    using filter_one [of e_path "v_entries v" e] tree assms(2) by (simp add: tree_ok_def eq_commute [of "e_path e"])
  ultimately show ?thesis
    using pruned_taken_out [OF assms(1) prunable_leaf [OF tree assms(2-4)] assms(5), where ts = ?ts and path = "e_path e"]
      upsert_tombstone_keys [where k = "e_path e" and n = "e_version e + 1" and ts = "v_tombstones v"] d abs_remove_leaf [OF tree assms(2,4)]
    by auto
qed

lemma vpost_removeSingle:
  assumes "sound cfg v" "e \<in> set (v_entries v)" "e_path e = path" "path \<noteq> [SLASH]" "childless (v_entries v) e"
    "\<And>r w. taken_out cfg path (rm_removed r) v w \<Longrightarrow> Q r w"
  shows "vpost (removeSingle cfg path e) v Q"
  unfolding removeSingle_def
  apply (rule vpost_bind, rule vpost_silent, rule silent_simple)
  apply (rule vpost_bind, rule vpost_removeExact [OF assms(1-3)])
  subgoal by simp
  apply (rule vpost_bind, rule vpost_silent, rule silent_notes)
  apply (rule vpost_bind, rule vpost_silent, rule silent_notes)
  apply (rule vpost_return, rule assms(6))
  using leaf_taken_out [OF assms(1,2)] assms(3-5) by auto

section \<open>Removing a subtree\<close>

text \<open>SQLite holds text as UTF-8, so a path has no lone surrogates.\<close>

definition utf8_paths :: "EntryRow list \<Rightarrow> bool" where
  "utf8_paths es \<longleftrightarrow> (\<forall>e \<in> set es. well_formed (e_path e))"

lemma in_tree_below:
  assumes "tree_ok es" "utf8_paths es" "e \<in> set es" "f \<in> set es" "descendantRange (e_path e) = Inr bounds"
  shows "in_tree (e_path e) bounds (e_path f) \<longleftrightarrow> e_path f = e_path e \<or> below (e_path e) (e_path f)"
proof -
  have "canonical (e_path e)" "canonical (e_path f)" "well_formed (e_path e)" "well_formed (e_path f)"
    using assms(1-4) by (simp_all add: tree_ok_def parent_ok_def utf8_paths_def)
  from descendantRange_below [OF this, of "fst bounds" "snd bounds"] assms(5) show ?thesis
    by (simp add: in_tree_def in_range_def)
qed

lemma vpost_markUnlinking:
  assumes "\<forall>e \<in> set (v_entries v). e_linkIdentity e = None" "Q () v"
  shows "vpost (markUnlinking path bounds now) v Q"
  unfolding markUnlinking_def
proof (rule vpost_bind, rule vpost_gets, rule vpost_when)
  show "vpost (exec_op (\<lambda>t. t\<lparr>entries := map (\<lambda>e. if e_linkIdentity e \<noteq> None \<and> in_tree path bounds (e_path e)
      then e\<lparr>e_changed := now, e_revision := e_revision e + 1, e_version := e_version e + 1\<rparr> else e) (entries t)\<rparr>)) v Q"
  proof (rule vpost_exec_table(1))
    fix t :: Tables assume t: "entries t = v_entries v"
    have "map (\<lambda>e. if e_linkIdentity e \<noteq> None \<and> in_tree path bounds (e_path e)
      then e\<lparr>e_changed := now, e_revision := e_revision e + 1, e_version := e_version e + 1\<rparr> else e) (entries t) = v_entries v"
      unfolding t by (rule map_idI) (use assms(1) in auto)
    then show "Q () (v\<lparr>v_entries := map (\<lambda>e. if e_linkIdentity e \<noteq> None \<and> in_tree path bounds (e_path e)
      then e\<lparr>e_changed := now, e_revision := e_revision e + 1, e_version := e_version e + 1\<rparr> else e) (entries t)\<rparr>)"
      using assms(2) by simp
  qed
qed (rule assms(2))

lemma vpost_linkedIdentities:
  assumes "\<forall>e \<in> set (v_entries v). e_linkIdentity e = None" "Q [] v"
  shows "vpost (linkedIdentities path bounds) v Q"
  unfolding linkedIdentities_def
proof (rule vpost_gets)
  fix s assume "view s = v"
  then have "\<forall>e \<in> set (entries (tables s)). e_linkIdentity e = None" using assms(1) by auto
  then have "List.map_filter e_linkIdentity (filter (\<lambda>e. in_tree path bounds (e_path e)) (entries (tables s))) = []"
    by (auto simp: List.map_filter_def filter_empty_conv)
  with assms(2) show "Q (if \<not> sharedInodes s then [] else remdups (List.map_filter e_linkIdentity
      (filter (\<lambda>e. in_tree path bounds (e_path e)) (entries (tables s))))) v" by simp
qed

lemma silent_queueRemoved [silent_intros]: "silent (queueRemovedObjects path bounds now)"
  unfolding queueRemovedObjects_def exec_op_def
  by (intro silent_intros silent_modify) (auto simp: silent_defs split: option.splits)

lemma vpost_deleteQueued:
  assumes "\<And>obs. \<forall>e \<in> set (v_entries v). object_ok (v_objects v) e \<longrightarrow> object_ok obs e \<Longrightarrow> Q () (v\<lparr>v_objects := obs\<rparr>)"
  shows "vpost deleteQueuedObjects v Q"
  unfolding deleteQueuedObjects_def
proof (rule vpost_exec)
  fix t :: Tables assume t: "entries t = v_entries v" "chunks t = v_chunks v" "tombstones t = v_tombstones v" "objects t = v_objects v"
  let ?obs = "filter (\<lambda>ob. \<not> (\<not> (\<exists>e \<in> set (entries t). references (o_id ob) e) \<and>
    (\<exists>g \<in> set (garbage t). g_key g = o_key ob))) (objects t)"
  have "object_ok ?obs e" if "e \<in> set (v_entries v)" "object_ok (v_objects v) e" for e
  proof (cases "\<exists>i. e_kind e = Opaque i")
    case True
    then obtain i where i: "e_kind e = Opaque i" by blast
    with that(2) obtain ob where ob: "ob \<in> set (objects t)" "o_id ob = i" by (auto simp: object_ok_def t)
    moreover have "references (o_id ob) e" using i ob(2) by (simp add: references_def)
    ultimately have "ob \<in> set ?obs" using that(1) by (auto simp: t)
    with ob(2) i show ?thesis by (auto simp: object_ok_def)
  qed (auto simp: object_ok_def split: entry_kind.splits)
  then have "Q () (v\<lparr>v_objects := ?obs\<rparr>)" by (intro assms) blast
  with t show "Q () (v\<lparr>v_entries := entries (t\<lparr>objects := ?obs\<rparr>), v_chunks := chunks (t\<lparr>objects := ?obs\<rparr>),
      v_tombstones := tombstones (t\<lparr>objects := ?obs\<rparr>), v_objects := objects (t\<lparr>objects := ?obs\<rparr>)\<rparr>)" by simp
qed simp

lemma vpost_aggregate:
  assumes "\<And>bounds. descendantRange path = Inr bounds \<Longrightarrow>
    Q (summarize (filter (\<lambda>e. in_tree path bounds (e_path e)) (v_entries v))) v"
  shows "vpost (aggregateSubtree path False) v Q"
  unfolding aggregateSubtree_def descendantRange_op_def
  by (intro vpost_bind vpost_lift vpost_gets) (use assms in \<open>auto simp: selected_def\<close>)

lemma vpost_publishRemoval:
  assumes "\<And>bounds. descendantRange path = Inr bounds \<Longrightarrow>
    Q () (v\<lparr>v_tombstones := bury (filter (\<lambda>e. in_tree path bounds (e_path e)) (v_entries v)) (v_tombstones v)\<rparr>)"
  shows "vpost (publishSubtreeRemoval cfg path None False) v Q"
  unfolding publishSubtreeRemoval_def descendantRange_op_def selected_def bury_def [symmetric] if_False
  apply (rule vpost_bind, rule vpost_silent)
  subgoal by (intro silent_intros)
  apply (rule vpost_bind, rule vpost_lift, rule vpost_bind, rule vpost_exec)
  subgoal by simp
  apply (rule vpost_silent)
  subgoal by (intro silent_intros)
  using assms by simp

lemma summary_totals:
  "sum_entries (summarize es) = length es" "int (sum_inlineBytes (summarize es)) = inline_total es"
proof -
  show "sum_entries (summarize es) = length es" by (simp add: summarize_def)
  show "int (sum_inlineBytes (summarize es)) = inline_total es" by (induction es) (simp_all add: summarize_def)
qed

lemma subtree_out:
  assumes "sound cfg v" "e \<in> set (v_entries v)" "e_path e = path" "path \<noteq> [SLASH]" "utf8_paths (v_entries v)"
    "descendantRange path = Inr bounds"
  defines "gone \<equiv> filter (\<lambda>e. in_tree path bounds (e_path e)) (v_entries v)"
    and "stay \<equiv> filter (\<lambda>e. \<not> in_tree path bounds (e_path e)) (v_entries v)"
  assumes "\<forall>e \<in> set stay. object_ok (v_objects v) e \<longrightarrow> object_ok obs e"
  shows "taken_out cfg path (length gone) v (charged (- inline_total gone) (- int (length gone))
    (v\<lparr>v_chunks := filter (\<lambda>c. \<not> (\<exists>e \<in> set (v_entries v). e_id e = c_entry c \<and> in_tree path bounds (e_path e))) (v_chunks v),
       v_tombstones := bury gone (v_tombstones v), v_entries := stay, v_objects := obs\<rparr>))"
proof -
  let ?P = "\<lambda>q. q = path \<or> below path q"
  have tree: "tree_ok (v_entries v)" and d: "distinct (map fst (v_tombstones v))"
    and objs: "\<forall>e \<in> set (v_entries v). object_ok (v_objects v) e"
    using assms(1) by (auto simp: sound_def)
  have at: "entry_at path (v_entries v) = Some e" using tree_entry [OF tree] assms(2,3) by blast
  have path: "canonical path" using tree assms(2,3) by (auto simp: tree_ok_def parent_ok_def)
  have in': "in_tree path bounds (e_path f) \<longleftrightarrow> ?P (e_path f)" if "f \<in> set (v_entries v)" for f
    using in_tree_below [OF tree assms(5,2) that] assms(3,6) by simp
  then have gone: "gone = filter (\<lambda>e. ?P (e_path e)) (v_entries v)" unfolding gone_def by (intro filter_cong) auto
  have stay: "stay = filter (\<lambda>e. \<not> ?P (e_path e)) (v_entries v)" unfolding stay_def using in' by (intro filter_cong) auto
  have chunk: "filter (\<lambda>c. \<not> (\<exists>e \<in> set (v_entries v). e_id e = c_entry c \<and> in_tree path bounds (e_path e))) (v_chunks v) =
      filter (\<lambda>c. c_entry c \<notin> e_id ` set gone) (v_chunks v)"
  proof -
    have "(\<exists>e \<in> set (v_entries v). e_id e = c_entry c \<and> in_tree path bounds (e_path e)) \<longleftrightarrow> c_entry c \<in> e_id ` set gone"
      for c :: ChunkRow
      by (auto simp: gone_def intro: rev_image_eqI)
    then show ?thesis by simp
  qed
  have drop: "may_drop v ?P obs" using assms(9) objs by (auto simp: may_drop_def stay)
  have "taken_out cfg path (length gone) v (pruned ?P obs (bury gone (v_tombstones v)) v)"
    unfolding gone
  proof (rule pruned_taken_out [OF assms(1) prunable_subtree [OF tree path assms(4)] drop])
    show "remembered 1 ?P v (bury (filter (\<lambda>e. ?P (e_path e)) (v_entries v)) (v_tombstones v))"
      by (rule bury_remembered [OF tree]) auto
    show "fs v path \<noteq> None" by (simp add: fs_def at)
  qed (use d bury_keys in \<open>auto simp: abs_remove_def\<close>)
  then show ?thesis
    unfolding pruned_def Let_def gone [symmetric] stay [symmetric] chunk by (cases v) simp
qed

lemma vpost_removeSubtree:
  assumes "sound cfg v" "e \<in> set (v_entries v)" "e_path e = path" "path \<noteq> [SLASH]" "utf8_paths (v_entries v)"
    "\<And>r w. taken_out cfg path (rm_removed r) v w \<Longrightarrow> Q r w"
  shows "vpost (removeSubtree cfg path root) v Q"
proof -
  have lone: "\<forall>e \<in> set (v_entries v). e_linkIdentity e = None" using assms(1) by (auto simp: sound_def solitary_def)
  note out = subtree_out [OF assms(1-5)]
  show ?thesis
    unfolding removeSubtree_def descendantRange_op_def deleteSubtree_def
    apply (rule vpost_bind, rule vpost_lift, rule vpost_bind, rule vpost_aggregate)
    apply (rule vpost_bind, rule vpost_silent, rule silent_simple)
    apply (rule vpost_bind, rule vpost_linkedIdentities [OF lone], rule vpost_bind, rule vpost_markUnlinking [OF lone])
    apply (rule vpost_bind, rule vpost_publishRemoval, rule vpost_bind, rule vpost_silent, rule silent_queueRemoved)
    apply (rule vpost_bind, rule vpost_bind, rule vpost_exec)
    subgoal by simp
    apply (rule vpost_exec_table(1))
    apply (rule vpost_bind, rule vpost_silent, rule silent_publish)
    apply (rule vpost_bind, rule vpost_deleteQueued, rule vpost_bind, rule vpost_updateUsage)
    apply (rule vpost_bind, rule vpost_silent, rule silent_notes)
    apply (rule vpost_bind, rule vpost_silent, rule silent_notes)
    apply (rule vpost_return, rule assms(6))
    subgoal premises p for bounds bounds'
      using out [of bounds] p by (simp add: summary_totals)
    done
qed

section \<open>Removing\<close>

text \<open>The entry that is removed is the one at the path: what was not found is not found elsewhere.\<close>

lemma access_settled:
  assumes "resolveAccess path missing follow s = (Inr a, u)" "a_row a = None" "links (tables s) \<noteq> 0"
  shows "fst (requireEntry (a_path a) False s) \<noteq> Inr e"
proof -
  from assms obtain p r where r: "resolveEntry (tables s) p (follow \<or> pathRequiresDirectory path) = Inr r" "r_row r = None"
    "a_path a = r_path r"
    by (auto simp: resolveAccess_def Let_def resolveEntry_op_def oneEntry_def split: if_splits option.splits)
  have "r_row r' = None" if "resolveEntry (tables s) (r_path r) False = Inr r'" for r'
    using resolution_settles [OF r(1,2) that] .
  then show ?thesis
    using assms(3)
    by (cases "resolveEntry (tables s) (r_path r) False")
       (simp_all add: requireEntry_def oneResolved_def resolveEntry_op_def op_simps bind_op_def r(3))
qed

lemma access_entry:
  assumes "sound cfg (view s)" "usage_ok s" "resolveAccess path missing follow s = (Inr a, u)"
    "or_require (a_row a) (requireEntry (a_path a) False) u = (Inr e, u')"
  shows "canonical (a_path a)" "e \<in> set (entries (tables s))" "e_path e = a_path a"
proof -
  have "vpost (resolveAccess path missing follow) (view s) (\<lambda>a w. canonical (a_path a) \<and>
      (a_row a = None \<or> a_row a = entry_at (a_path a) (v_entries (view s))))"
    by (rule vpost_resolveAccess) simp
  from vpostD [OF this refl assms(2,3)] have a: "canonical (a_path a)"
    "a_row a = None \<or> a_row a = entry_at (a_path a) (entries (tables s))" by auto
  have v: "entries (tables u) = entries (tables s)"
    using silentD [OF silent_lookups(10) assms(3)] by (simp add: like_def view_simps)
  have "e \<in> set (entries (tables s)) \<and> e_path e = a_path a"
  proof (cases "a_row a")
    case None
    then have run: "requireEntry (a_path a) False u = (Inr e, u')" using assms(4) by (simp add: or_require_def)
    have "links (tables s) = 0"
    proof (rule ccontr)
      assume "links (tables s) \<noteq> 0"
      from access_settled [OF assms(3) None this] have "fst (requireEntry (a_path a) False s) \<noteq> Inr e" .
      moreover have "fst (requireEntry (a_path a) False s) = fst (requireEntry (a_path a) False u)"
        using v by (auto simp: requireEntry_def oneResolved_def resolveEntry_op_def oneEntry_def op_simps bind_op_def links_def
            find_entry_def resolveEntry_def resolve_cong [OF v] split: sum.splits option.splits)
      ultimately show False using run by simp
    qed
    then have "links (tables u) = 0" using v by (simp add: links_def)
    with run canonical_no_dots [OF a(1)] have "find_entry (a_path a) (tables u) = Some e"
      by (auto simp: requireEntry_def oneEntry_def split: option.splits)
    with entry_at_SomeD [of "a_path a" "entries (tables s)" e] v show ?thesis by (simp add: find_entry_at)
  next
    case (Some e')
    with assms(4) have "e' = e" by (simp add: or_require_def)
    with a(2) Some entry_at_SomeD [of "a_path a" "entries (tables s)" e] show ?thesis by simp
  qed
  then show "canonical (a_path a)" "e \<in> set (entries (tables s))" "e_path e = a_path a" using a(1) by blast+
qed

lemma vpost_commitRemove:
  assumes "sound cfg v" "e \<in> set (v_entries v)" "e_path e = path" "path \<noteq> [SLASH]" "utf8_paths (v_entries v)"
    "\<And>r w. taken_out cfg path (rm_removed r) v w \<Longrightarrow> Q r w"
  shows "vpost (commitRemove cfg path e followed recursive posix) v Q"
proof -
  have tree: "tree_ok (v_entries v)" using assms(1) by (simp add: sound_def)
  have empty: "childless (v_entries v) e" if "descendantRange path = Inr bounds"
    "\<not> (\<exists>f \<in> set (v_entries v). in_range bounds (e_path f))" for bounds
    unfolding childless_def
  proof (intro ballI notI)
    fix f assume f: "f \<in> set (v_entries v)" "below (e_path e) (e_path f)"
    with in_tree_below [OF tree assms(5,2) f(1), of bounds] that assms(3) have "e_path f = e_path e"
      by (auto simp: in_tree_def)
    with f(2) show False by (simp add: below_def)
  qed
  show ?thesis
    unfolding commitRemove_def
    apply (rule vpost_bind, rule vpost_silent, rule silent_traversal)
    apply (rule vpost_bind, rule vpost_silent)
    subgoal by (intro silent_intros)
    apply (rule vpost_if)
    subgoal by (rule vpost_removeSingle [OF assms(1-4) file_childless [OF tree assms(2)] assms(6)])
    apply (rule vpost_if)
    subgoal
      unfolding descendantRange_op_def
      apply (rule vpost_bind, rule vpost_lift, rule vpost_bind, rule vpost_gets, rule vpost_if, rule vpost_throw)
      subgoal by (rule vpost_removeSingle [OF assms(1-4) empty assms(6)]) auto
      done
    apply (rule vpost_bind, rule vpost_silent, rule silent_traversal)
    apply (rule vpost_bind, rule vpost_silent, rule silent_traversal)
    by (rule vpost_removeSubtree [OF assms])
qed

text \<open>A whole removal, and one that fails.\<close>

lemma stays_more [stays_intros]:
  "stays (assertStickyRemoval parent e access path)" "stays (descendantRange_op path)"
  "stays (assertSubtreePermissions path access m n)" "stays (assertSubtreeSticky path access)"
  "stays (aggregateSubtree path single)" "stays (recordSubtreeChange cfg path present seq single)"
  "stays (publishLinkedMetadata cfg identities)" "stays (requireEntry path follow)" "stays (gets_op g)"
  "stays (queueRemovedObjects path bounds now)"
  by (intro silent_stays silent_intros)+

lemma stays_subtree [stays_intros]:
  "stays (linkedIdentities path bounds)" "stays (markUnlinking path bounds now)"
  "stays (deleteSubtree path bounds)" "stays deleteQueuedObjects" "stays (publishSubtreeRemoval cfg path seq single)"
  unfolding linkedIdentities_def markUnlinking_def deleteSubtree_def deleteQueuedObjects_def publishSubtreeRemoval_def
  by (intro stays_intros)+

lemma stays_removal [stays_intros]:
  "stays (removeSingle cfg path e)" "stays (removeSubtree cfg path e)"
  unfolding removeSingle_def removeSubtree_def by (intro stays_intros)+

lemma stays_commitRemove [stays_intros]: "stays (commitRemove cfg path e followed recursive posix)"
  unfolding commitRemove_def by (intro stays_intros)

lemma alarm_only:
  assumes "when_op b (scheduleGarbageAlarm cfg) s = (r, t)"
  shows "r = Inr () \<and> but_budget s t \<and> inFlight t = inFlight s"
proof (cases b)
  case True
  with assms have run: "scheduleGarbageAlarm cfg s = (r, t)" by (simp add: when_op_def)
  from scheduled [OF run] run show ?thesis
    by (auto simp: scheduleGarbageAlarm_def modify_op_def Let_def split: list.splits option.splits)
qed (use assms in \<open>simp add: when_op_def return_op_def but_budget_refl\<close>)

lemma remove_ok:
  assumes s: "vfs_ok cfg s" and paths: "utf8_paths (entries (tables s))" and run: "remove cfg path recursive posix s = (Inr r, t)"
  shows "\<exists>a. fst (resolveAccess path False False s) = Inr a \<and> taken_out cfg (a_path a) (rm_removed r) (view s) (view t)"
    "vfs_ok cfg t" "inFlight t = inFlight s"
proof -
  have ok: "sound cfg (view s)" "usage_ok s" using s by (simp_all add: vfs_ok_def)
  from run obtain a u e u' w where steps: "resolveAccess path False False s = (Inr a, u)" "a_path a \<noteq> [SLASH]"
    "or_require (a_row a) (requireEntry (a_path a) False) u = (Inr e, u')"
    "transaction cfg (commitRemove cfg (a_path a) e (a_followed a) recursive posix) u' = (Inr r, w)" "but_budget w t \<and> inFlight t = inFlight w"
    unfolding remove_def Let_def by (auto split: if_splits dest!: alarm_only)
  note e = access_entry [OF ok steps(1,3)]
  have "like s u" by (rule silentD [OF silent_lookups(10) steps(1)])
  then have like: "like s u'"
    using silentD [OF silent_or_require [OF silent_lookups(7)] steps(3)] like_trans by blast
  then have v: "view u' = view s" "usage_ok u'" using ok(2) by (simp_all add: like_def)
  have "vpost (transaction cfg (commitRemove cfg (a_path a) e (a_followed a) recursive posix)) (view s)
      (\<lambda>r w. taken_out cfg (a_path a) (rm_removed r) (view s) w)"
    by (rule vpost_transaction, rule vpost_commitRemove [OF ok(1)])
       (use e(2,3) steps(2) paths taken_out_flushed in auto)
  from vpostD [OF this v steps(4)] have w: "taken_out cfg (a_path a) (rm_removed r) (view s) (view w)" "moved u' (view w) w" by blast+
  have same: "view t = view w" "usage_ok t = usage_ok w" "lastInlineRead t = lastInlineRead w" "transactionDepth t = transactionDepth w"
    using but_budget_view steps(5) by blast+
  have t: "lastInlineRead t = lastInlineRead s" "transactionDepth t = transactionDepth s" "usage_ok t" "inFlight t = inFlight s"
    using like w(2) v(2) steps(5) by (simp_all add: same like_def moved_def ambient_def)
  show "\<exists>a. fst (resolveAccess path False False s) = Inr a \<and> taken_out cfg (a_path a) (rm_removed r) (view s) (view t)"
    using steps(1) w(1) by (auto simp: same)
  show "vfs_ok cfg t"
    by (rule vfs_ok_step [OF s]) (use w(1) t in \<open>simp_all add: same taken_out_def\<close>)
  show "inFlight t = inFlight s" by (rule t(4))
qed

text \<open>
  An operation that reads and then runs one transaction: it keeps the budget, and when it
  fails, nothing has happened.
\<close>

definition calm :: "'a op \<Rightarrow> bool" where
  "calm m \<longleftrightarrow> (\<forall>s r t. usage_ok s \<longrightarrow> transactionDepth s = 0 \<longrightarrow> m s = (r, t) \<longrightarrow>
     inFlight t = inFlight s \<and> (\<forall>e. r = Inl e \<longrightarrow> unchanged s t))"

definition unfailing :: "'a op \<Rightarrow> bool" where
  "unfailing m \<longleftrightarrow> (\<forall>s r t. m s = (r, t) \<longrightarrow> inFlight t = inFlight s \<and> (\<exists>x. r = Inr x))"

named_theorems calm_intros \<open>rules for operations that happen as a whole\<close>

lemma calmD: "calm m \<Longrightarrow> vfs_ok cfg s \<Longrightarrow> m s = (r, t) \<Longrightarrow> inFlight t = inFlight s \<and> (\<forall>e. r = Inl e \<longrightarrow> unchanged s t)"
  by (simp add: calm_def vfs_ok_def)

lemma calm_bind [calm_intros]:
  assumes "silent m" "\<And>x. calm (f x)"
  shows "calm (bind_op m f)"
  unfolding calm_def
proof (intro allI impI)
  fix s r t assume s: "usage_ok s" "transactionDepth s = 0" "bind_op m f s = (r, t)"
  obtain r1 u where m: "m s = (r1, u)" by fastforce
  from silentD [OF assms(1) m] have like: "like s u" .
  then have u: "usage_ok u" "transactionDepth u = 0" "inFlight u = inFlight s" using s(1,2) by (simp_all add: like_def ambient_def)
  show "inFlight t = inFlight s \<and> (\<forall>e. r = Inl e \<longrightarrow> unchanged s t)"
  proof (cases r1)
    case (Inl e)
    with m s(3) like_unchanged [OF like s(1)] show ?thesis by (simp add: bind_op_def)
  next
    case (Inr x)
    with m s(3) have "f x u = (r, t)" by (simp add: bind_op_def)
    with assms(2) [of x] u like_trans_unchanged [OF like s(1)] show ?thesis unfolding calm_def by metis
  qed
qed

lemma calm_finish:
  assumes "calm m" "\<And>x. unfailing (f x)"
  shows "calm (bind_op m f)"
  unfolding calm_def
proof (intro allI impI)
  fix s r t assume s: "usage_ok s" "transactionDepth s = 0" "bind_op m f s = (r, t)"
  obtain r1 u where m: "m s = (r1, u)" by fastforce
  from assms(1) s(1,2) m have u: "inFlight u = inFlight s" "\<forall>e. r1 = Inl e \<longrightarrow> unchanged s u" unfolding calm_def by blast+
  with s(3) m assms(2) show "inFlight t = inFlight s \<and> (\<forall>e. r = Inl e \<longrightarrow> unchanged s t)"
    unfolding bind_op_def unfailing_def by (cases r1) fastforce+
qed

lemma calm_transaction [calm_intros]:
  assumes "stays body"
  shows "calm (transaction cfg body)"
  unfolding calm_def
  using transaction_outcome(1) [OF assms] failed_transaction [OF assms] by (simp add: ambient_def) blast

lemma calm_control [calm_intros]:
  "silent m \<Longrightarrow> calm m" "calm m \<Longrightarrow> calm n \<Longrightarrow> calm (if b then m else n)"
  "calm m \<Longrightarrow> (\<And>x. calm (f x)) \<Longrightarrow> calm (case v of None \<Rightarrow> m | Some x \<Rightarrow> f x)"
  "(\<And>x. calm (f x)) \<Longrightarrow> calm (let x = w in f x)"
  using silentD like_unchanged by (auto simp: calm_def Let_def split: option.split) blast+

lemma unfailing_alarm: "unfailing (bind_op (when_op b (scheduleGarbageAlarm cfg)) (\<lambda>_. return_op x))"
  unfolding unfailing_def bind_op_def using alarm_only by (fastforce split: prod.splits simp: return_op_def)

lemma calm_remove: "calm (remove cfg path recursive posix)"
  unfolding remove_def by (intro calm_intros calm_finish unfailing_alarm stays_intros silent_intros)

lemma remove_failed:
  "vfs_ok cfg s \<Longrightarrow> remove cfg path recursive posix s = (Inl e, t) \<Longrightarrow> unchanged s t \<and> inFlight t = inFlight s"
  using calmD [OF calm_remove] by blast

end
