(* ===== verification/Vfs_Placing.thy ===== *)
theory Vfs_Placing
  imports Vfs_Removed
begin

text \<open>
  What \<open>mkdir\<close> and \<open>symlink\<close> of \<open>src/vfs/sql-metadata-base.ts\<close> put into the contents: a
  directory or a link at its path, the directories above it where they are asked for, and
  nothing else. A link that replaces a file takes a version past the file's.
\<close>

definition abs_place :: "jstring \<Rightarrow> node \<Rightarrow> (jstring \<Rightarrow> node option) \<Rightarrow> jstring \<Rightarrow> node option" where
  "abs_place path n f = (mkdirs path f)(path \<mapsto> n)"

definition placed :: "Config \<Rightarrow> jstring \<Rightarrow> node \<Rightarrow> View \<Rightarrow> View \<Rightarrow> bool" where
  "placed cfg path n v w \<longleftrightarrow> sound cfg w \<and> evolves v w \<and> fs w = abs_place path n (fs v) \<and> (within cfg v \<longrightarrow> within cfg w)"

lemma placed_flushed:
  assumes "placed cfg path n v w" "all_touched (v_entries w) es"
  shows "placed cfg path n v (w\<lparr>v_entries := es\<rparr>)"
  using assms(1) flushed_ok [OF assms(2)] evolves_trans by (auto simp: placed_def within_def)

section \<open>Directories\<close>

lemma vpost_mkdir_body:
  assumes "sound cfg v" "canonical path" "path \<noteq> [SLASH]" "\<And>x w. placed cfg path Dir v w \<Longrightarrow> Q x w"
  shows "vpost (bind_op (gets_op clock) (\<lambda>now.
      bind_op (prepareParents cfg path recursive now followed posix) (\<lambda>parent.
      bind_op (assertCapacity cfg 0 1 (Some path)) (\<lambda>_.
      bind_op (createDirectory cfg path now mode' posix False (Some parent)) (\<lambda>row.
      return_op (rowToStat cfg row)))))) v Q"
  apply (rule vpost_bind, rule vpost_silent, rule silent_simple)
  apply (rule vpost_bind, rule vpost_prepareParents [OF assms(1-3)])
  apply (rule vpost_bind, rule vpost_assertCapacity)
  apply (rule vpost_bind, rule vpost_createDirectory, rule vpost_return, rule assms(4))
  subgoal premises p for now parent w row
  proof -
    note ok = with_directory_ok [OF p(1,9) assms(2) p(3,5,4)]
    have "within cfg w \<Longrightarrow> within cfg (with_directory row w)"
      by (rule within_fits [OF _ p(8)]) (simp_all add: with_directory_def charged_def)
    with ok p(2,6,7) evolves_trans show ?thesis by (auto simp: placed_def abs_place_def)
  qed
  done

section \<open>Links\<close>

definition new_link :: "jstring \<Rightarrow> jstring \<Rightarrow> nat \<Rightarrow> EntryRow \<Rightarrow> View \<Rightarrow> bool" where
  "new_link path target previous row v \<longleftrightarrow> e_path row = path \<and> dirname path = Inr (e_parent row) \<and>
     e_kind row = Symlink target \<and> e_id row = v_nextIno v \<and> e_linkIdentity row = None \<and> e_linkCount row = 1 \<and>
     e_version row = next_version path previous (v_tombstones v) \<and> fresh_row row (v_entries v)"

definition with_link :: "EntryRow \<Rightarrow> View \<Rightarrow> View" where
  "with_link row v = charged 0 1 (v\<lparr>v_entries := v_entries v @ [row],
     v_tombstones := drop_tombstone (e_path row) (v_tombstones v), v_nextIno := v_nextIno v + 1\<rparr>)"

lemma with_link_ok:
  assumes "sound cfg v" "new_link path target previous row v" "canonical path" "d \<in> set (v_entries v)"
    "dirname path = Inr (e_path d)" "is_directory d"
  shows "sound cfg (with_link row v)" "fs (with_link row v) = (fs v)(path \<mapsto> Link target)" "evolves v (with_link row v)"
    "path_version v path < path_version (with_link row v) path"
proof -
  from assms(2) have row: "e_path row = path" "dirname path = Inr (e_parent row)" "e_kind row = Symlink target"
    "e_id row = v_nextIno v" "e_linkIdentity row = None" "e_linkCount row = 1" "fresh_row row (v_entries v)"
    "e_version row = next_version path previous (v_tombstones v)"
    by (simp_all add: new_link_def)
  have kind: "\<not> is_inline row" "\<not> is_directory row" using row(3) by (simp_all add: is_inline_def is_directory_def)
  have tree: "tree_ok (v_entries v @ [row])"
    by (rule tree_insert [where d = d]) (use assms row in \<open>auto simp: sound_def\<close>)
  have bodies: "bodies_ok (v_entries v @ [row]) (v_chunks v)"
    using assms(1) kind by (auto simp: sound_def bodies_ok_def)
  from assms(1) row kind tree bodies show "sound cfg (with_link row v)"
    by (auto simp: sound_def with_link_def charged_def drop_tombstone_ok solitary_def object_ok_def digest_ok_def less_Suc_eq)
  show fs: "fs (with_link row v) = (fs v)(path \<mapsto> Link target)"
    by (subst fs_snoc [OF row(7)]) (use row in \<open>auto simp: with_link_def charged_def node_of_def\<close>)
  have new: "entry_at path (v_entries v) = None" using row(1,7) by (simp add: fresh_row_def entry_at_None)
  show grows: "path_version v path < path_version (with_link row v) path"
    using new row(1,8) by (auto simp: path_version_def with_link_def charged_def entry_at_snoc next_version_def split: option.splits)
  have "path_version (with_link row v) p = path_version v p" if "p \<noteq> path" for p
    using that row(1) by (auto simp: path_version_def with_link_def charged_def entry_at_snoc drop_tombstone_ok(3) split: option.splits)
  with grows have "ages v (with_link row v)" unfolding ages_def fs by (metis fun_upd_other less_imp_le order_refl)
  then show "evolves v (with_link row v)" using row(4) by (auto simp: evolves_def with_link_def charged_def)
qed

text \<open>A row is taken out and another one comes to its path.\<close>

lemma replaced_evolves:
  assumes "remembered 0 ((=) path) v ts" "fs (pruned ((=) path) obs ts v) = (\<lambda>q. if path = q then None else fs v q)"
    "evolves (pruned ((=) path) obs ts v) w" "path_version (pruned ((=) path) obs ts v) path < path_version w path"
    "fs w = (fs (pruned ((=) path) obs ts v))(path \<mapsto> n)"
  shows "evolves v w"
proof -
  let ?u = "pruned ((=) path) obs ts v"
  have u: "path_version v p \<le> path_version ?u p" for p using pruned_version [OF assms(1), of p obs] by simp
  have w: "path_version ?u p \<le> path_version w p" for p using assms(3) by (simp add: evolves_def ages_def)
  have "fs w p = fs v p" if "p \<noteq> path" for p using that by (simp add: assms(2,5))
  moreover have "path_version v p \<le> path_version w p" for p using u w le_trans by blast
  moreover have "path_version v path < path_version w path" using u [of path] assms(4) by simp
  ultimately have "ages v w" unfolding ages_def by metis
  moreover have "v_nextIno v \<le> v_nextIno w" "\<forall>e' \<in> set (v_entries w). v_nextIno v \<le> e_id e' \<or>
      (\<exists>e \<in> set (v_entries v). e_id e' = e_id e \<and> (e_version e < e_version e' \<or> same_row e e'))"
    using assms(3) by (auto simp: evolves_def pruned_fields)
  ultimately show ?thesis by (simp add: evolves_def)
qed

text \<open>The row that is taken out first, when there is one.\<close>

definition cleared :: "Config \<Rightarrow> jstring \<Rightarrow> View \<Rightarrow> View \<Rightarrow> bool" where
  "cleared cfg path v u \<longleftrightarrow> sound cfg u \<and> (within cfg v \<longrightarrow> within cfg u) \<and>
     (\<forall>e \<in> set (v_entries v). e_path e \<noteq> path \<longrightarrow> e \<in> set (v_entries u)) \<and>
     (\<forall>w n. evolves u w \<longrightarrow> path_version u path < path_version w path \<longrightarrow> fs w = (fs u)(path \<mapsto> n) \<longrightarrow>
        evolves v w \<and> fs w = (fs v)(path \<mapsto> n))"

lemma cleared_refl: "sound cfg v \<Longrightarrow> cleared cfg path v v"
  by (simp add: cleared_def)

lemma cleared_leaf:
  assumes "sound cfg v" "e \<in> set (v_entries v)" "e_path e = path" "path \<noteq> [SLASH]" "\<not> is_directory e"
    "may_drop v ((=) path) obs"
  shows "cleared cfg path v (pruned ((=) path) obs (upsert_tombstone path (e_version e + 0) (v_tombstones v)) v)"
proof -
  let ?ts = "upsert_tombstone path (e_version e + 0) (v_tombstones v)"
  have tree: "tree_ok (v_entries v)" and d: "distinct (map fst (v_tombstones v))" using assms(1) by (simp_all add: sound_def)
  have prunable: "prunable ((=) path) (v_entries v)"
    using prunable_leaf [OF tree assms(2) _ file_childless [OF tree assms(2,5)]] assms(3,4) by simp
  have ok: "sound cfg (pruned ((=) path) obs ?ts v)" "fs (pruned ((=) path) obs ?ts v) = (\<lambda>q. if path = q then None else fs v q)"
    using pruned_ok [OF assms(1) prunable, where ts = ?ts and obs = obs] assms(6) d
    by (auto simp: upsert_tombstone_keys may_drop_def)
  have "entry_at path (v_entries v) = Some e" using tree_entry [OF tree] assms(2,3) by blast
  then have remembered: "remembered 0 ((=) path) v ?ts"
    by (auto simp: remembered_def map_of_upsert_tombstone split: option.splits)
  have "within cfg v \<longrightarrow> within cfg (pruned ((=) path) obs ?ts v)"
    using inline_total_nonneg [of "filter (\<lambda>e. path = e_path e) (v_entries v)"] by (auto simp: within_def pruned_fields)
  moreover have "evolves v w" if "evolves (pruned ((=) path) obs ?ts v) w"
    "path_version (pruned ((=) path) obs ?ts v) path < path_version w path"
    "fs w = (fs (pruned ((=) path) obs ?ts v))(path \<mapsto> n)" for w n
    by (rule replaced_evolves [OF remembered ok(2) that])
  ultimately show ?thesis using ok by (auto simp: cleared_def pruned_fields)
qed

lemma vpost_clear:
  assumes "sound cfg v" "path \<noteq> [SLASH]" "replace \<Longrightarrow> \<exists>n. fs v path = Some n \<and> n \<noteq> Dir"
    "\<And>x u. cleared cfg path v u \<Longrightarrow> Q x u"
  shows "vpost (if replace then removeExact cfg path now False None else return_op False) v Q"
proof (cases replace)
  case True
  with assms(3) obtain e where e: "entry_at path (v_entries v) = Some e" "node_of (v_chunks v) e \<noteq> Dir"
    by (auto simp: fs_def)
  then have at: "e \<in> set (v_entries v)" "e_path e = path" "\<not> is_directory e"
    by (auto simp: node_of_def is_directory_def dest: entry_at_SomeD)
  show ?thesis
    unfolding if_P [OF True]
    by (rule vpost_removeExact [OF assms(1) at(1,2), where resolved = None])
       (use e(1) assms(4) cleared_leaf [OF assms(1) at(1,2) assms(2) at(3)] in auto)
qed (simp add: vpost_return assms(4) cleared_refl assms(1))

lemma vpost_commitSymlink:
  assumes "sound cfg v" "canonical path" "path \<noteq> [SLASH]" "dirname path = Inr parentPath"
    "resolved = None \<or> resolved = entry_at path (v_entries v)"
    "\<And>x w. placed cfg path (Link target) v w \<Longrightarrow> Q x w"
  shows "vpost (commitSymlink cfg path parentPath name' target bytes options posix followed resolved) v Q"
  unfolding commitSymlink_def
  apply (rule vpost_bind, rule vpost_weaken [where Q' = "\<lambda>e w. e = entry_at path (v_entries v) \<and> w = v"])
  subgoal using assms(5) by (auto intro!: vpost_return vpost_oneEntry split: option.split)
  apply (elim conjE, hypsubst, rule vpost_if, rule vpost_throw, rule vpost_if, rule vpost_throw)
  apply (rule vpost_bind, rule vpost_silent, rule silent_lookups, rule vpost_bind, rule vpost_silent, rule silent_simple)
  apply (rule vpost_bind, rule vpost_prepareParents [OF assms(1-3)])
  apply (rule vpost_bind, rule vpost_silent)
  subgoal by (intro silent_intros)
  apply (rule vpost_bind)
  subgoal premises p for found same ok now parent w
  proof -
    have "\<exists>n. fs w path = Some n \<and> n \<noteq> Dir" if "entry_at path (v_entries v) \<noteq> None"
    proof -
      from that p(2) obtain e where e: "entry_at path (v_entries v) = Some e" "\<not> is_directory e" by auto
      then have "fs w path = Some (node_of (v_chunks v) e)" by (simp add: p(8) mkdirs_def fs_def)
      moreover have "node_of (v_chunks v) e \<noteq> Dir" using e(2) by (auto simp: node_of_def is_directory_def split: entry_kind.splits)
      ultimately show ?thesis by blast
    qed
    then show ?thesis
    proof (rule vpost_clear [OF p(3) assms(3)])
      fix x u assume u: "cleared cfg path w u"
      moreover have "e_path parent \<noteq> path"
        using dirname_canonical [OF assms(2,3)] p(7) by (metis Inr_inject below_irrefl)
      ultimately have "parent \<in> set (v_entries u)" using p(5) by (simp add: cleared_def)
      note link = with_link_ok [OF _ _ assms(2) this p(7,6)]
      have done': "Q (rowToStat cfg row) (with_link row u)"
        if row: "new_link path target previous row u" "fits cfg (v_charge u) 0 1" for row previous
      proof -
        have u': "sound cfg u" using u by (simp add: cleared_def)
        note l = link [OF u' row(1)]
        have "within cfg u \<Longrightarrow> within cfg (with_link row u)"
          by (rule within_fits [OF _ row(2)]) (simp_all add: with_link_def charged_def)
        with u l p(4,8,9) show ?thesis
          by (intro assms(6)) (auto simp: placed_def cleared_def abs_place_def intro: evolves_trans)
      qed
      show "vpost (let owner = (if posix = None then (0, 0) else creationOwner parent posix);
          revision = (case entry_at path (v_entries v) of None \<Rightarrow> 0 | Some e \<Rightarrow> e_revision e) + 1 in
        bind_op (nextEntryVersion path (case entry_at path (v_entries v) of None \<Rightarrow> 0 | Some e \<Rightarrow> e_version e)) (\<lambda>mutationVersion.
        bind_op (assertCapacity cfg 0 1 (Some path)) (\<lambda>_.
        bind_op (allocateIno 1) (\<lambda>ino.
        let row = \<lparr>e_id = ino, e_path = path, e_parent = parentPath, e_name = name', e_kind = Symlink target,
                e_size = bytes, e_mode = SYMLINK_MODE, e_uid = fst owner, e_gid = snd owner,
                e_created = now, e_modified = now, e_changed = now, e_linkIdentity = None, e_linkCount = 1,
                e_revision = revision, e_version = mutationVersion, e_digest = None, e_digest_revision = 0\<rparr> in
        bind_op (insert_entry row) (\<lambda>_.
        bind_op (updateUsage cfg 0 1) (\<lambda>_.
        bind_op (publishToken cfg path mutationVersion True (if entry_at path (v_entries v) = None then MCreate else MWrite) None) (\<lambda>_.
        return_op (rowToStat cfg row)))))))) u Q"
        unfolding Let_def
        apply (rule vpost_bind, rule vpost_nextEntryVersion, rule vpost_bind, rule vpost_assertCapacity, rule vpost_bind, rule vpost_allocateIno)
        apply (rule vpost_bind, rule vpost_insert_entry, rule vpost_bind, rule vpost_updateUsage, rule vpost_bind, rule vpost_publishToken, rule vpost_return)
        apply (rule view_eqI [where Q = Q], rule done')
        by (auto simp: new_link_def assms(4) with_link_def charged_def fresh_row_def)
    qed
  qed
  done

section \<open>The operations\<close>

text \<open>An operation that resolves a path and goes on with it, from a sound state.\<close>

lemma resolved_op:
  assumes s: "vfs_ok cfg s" and run: "bind_op (resolveAccess path missing follow) k s = (Inr x, t)"
    and post: "\<And>a. canonical (a_path a) \<Longrightarrow> a_row a = None \<or> a_row a = entry_at (a_path a) (v_entries (view s)) \<Longrightarrow>
      vpost (k a) (view s) (\<lambda>x w. Q a x w)" and sound: "\<And>a w. Q a x w \<Longrightarrow> sound cfg w \<and> evolves (view s) w"
  shows "\<exists>a. fst (resolveAccess path missing follow s) = Inr a \<and> Q a x (view t)" "vfs_ok cfg t"
proof -
  have ok: "usage_ok s" using s by (simp add: vfs_ok_def)
  from run obtain a u where a: "resolveAccess path missing follow s = (Inr a, u)" and k: "k a u = (Inr x, t)" by auto
  have "vpost (resolveAccess path missing follow) (view s) (\<lambda>a w. vpost (k a) w (Q a))"
    by (rule vpost_resolveAccess) (rule post)
  from vpostD [OF this refl ok a] have k': "vpost (k a) (view u) (Q a)" by blast
  have "like s u" by (rule silentD [OF silent_lookups(10) a])
  then have u: "view u = view s" "usage_ok u" "ambient u = ambient s" using ok by (simp_all add: like_def)
  from vpostD [OF k' refl u(2) k] have q: "Q a x (view t)" "moved u (view t) t" by blast+
  from q(1) a show "\<exists>a. fst (resolveAccess path missing follow s) = Inr a \<and> Q a x (view t)" by auto
  show "vfs_ok cfg t"
    by (rule vfs_ok_step [OF s]) (use sound [OF q(1)] q(2) u in \<open>simp_all add: moved_def ambient_def\<close>)
qed

lemma root_stands: "sound cfg v \<Longrightarrow> entry_at [SLASH] (v_entries v) \<noteq> None"
  unfolding entry_at_None by (force simp: sound_def tree_ok_def)

lemma mkdir_ok:
  assumes s: "vfs_ok cfg s" and run: "mkdir cfg path recursive mode' posix s = (Inr st, t)"
  shows "\<exists>a. fst (resolveAccess path True False s) = Inr a \<and> (placed cfg (a_path a) Dir (view s) (view t) \<or>
      recursive \<and> fs (view s) (a_path a) = Some Dir \<and> view t = view s)" "vfs_ok cfg t"
proof -
  have sound: "sound cfg (view s)" using s by (simp add: vfs_ok_def)
  let ?Q = "\<lambda>a st w. placed cfg (a_path a) Dir (view s) w \<or> recursive \<and> fs (view s) (a_path a) = Some Dir \<and> w = view s"
  have post: "vpost (let normalized = a_path a in
     bind_op (case a_row a of Some e \<Rightarrow> return_op (Some e) | None \<Rightarrow> oneEntry normalized) (\<lambda>existing.
     case existing of
       Some e \<Rightarrow>
         bind_op (assertTraverse normalized (a_followed a) posix) (\<lambda>_.
         if recursive \<and> is_directory e then
           bind_op (assertPermission e posix EXECUTE_PERMISSION normalized) (\<lambda>_. return_op (rowToStat cfg e))
         else fail_op EEXIST normalized)
     | None \<Rightarrow>
         transaction cfg
           (bind_op (gets_op clock) (\<lambda>now.
            bind_op (prepareParents cfg normalized recursive now (a_followed a) posix) (\<lambda>parent.
            bind_op (assertCapacity cfg 0 1 (Some normalized)) (\<lambda>_.
            bind_op (createDirectory cfg normalized now mode' posix False (Some parent)) (\<lambda>row.
            return_op (rowToStat cfg row)))))))) (view s) (?Q a)"
    if a: "canonical (a_path a)" "a_row a = None \<or> a_row a = entry_at (a_path a) (v_entries (view s))" for a
    unfolding Let_def
    apply (rule vpost_bind, rule vpost_weaken [where Q' = "\<lambda>e w. e = entry_at (a_path a) (v_entries (view s)) \<and> w = view s"])
    subgoal using a(2) by (auto intro!: vpost_return vpost_oneEntry split: option.split)
    apply (elim conjE, hypsubst)
    apply (cases "entry_at (a_path a) (v_entries (view s))"; simp only: option.case)
    subgoal
      by (rule vpost_transaction, rule vpost_mkdir_body [OF sound a(1)])
         (use root_stands [OF sound] placed_flushed in auto)
    apply (rule vpost_bind, rule vpost_silent, rule silent_traversal, rule vpost_if, rule vpost_bind, rule vpost_silent)
    by (auto intro!: vpost_return vpost_throw silent_intros simp: fs_def node_of_def is_directory_def)
  note r = resolved_op [OF s run [unfolded mkdir_def], where Q = ?Q]
  show "\<exists>a. fst (resolveAccess path True False s) = Inr a \<and> (placed cfg (a_path a) Dir (view s) (view t) \<or>
      recursive \<and> fs (view s) (a_path a) = Some Dir \<and> view t = view s)"
    by (rule r(1)) (use post sound evolves_refl in \<open>auto simp: placed_def\<close>)
  show "vfs_ok cfg t"
    by (rule r(2)) (use post sound evolves_refl in \<open>auto simp: placed_def\<close>)
qed

lemma symlink_ok:
  assumes s: "vfs_ok cfg s" and run: "symlink cfg path target options posix s = (Inr st, t)"
  shows "\<exists>a. fst (resolveAccess path False False s) = Inr a \<and> placed cfg (a_path a) (Link target) (view s) (view t)" "vfs_ok cfg t"
proof -
  have sound: "sound cfg (view s)" using s by (simp add: vfs_ok_def)
  let ?Q = "\<lambda>a st w. placed cfg (a_path a) (Link target) (view s) w"
  have post: "vpost (let normalized = a_path a in
     bind_op (lift_op (dirname normalized)) (\<lambda>parentPath.
     bind_op (lift_op (basename normalized)) (\<lambda>name'.
     if normalized = [SLASH] then fail_op EEXIST normalized
     else if length target = 0 then fail_op EINVAL normalized
     else
       let bytes = utf8ByteLength target in
       if bytes > MAX_SYMLINK_TARGET_BYTES then fail_op ENAMETOOLONG normalized
       else transaction cfg
         (commitSymlink cfg normalized parentPath name' target bytes options posix (a_followed a) (a_row a))))) (view s) (?Q a)"
    if a: "canonical (a_path a)" "a_row a = None \<or> a_row a = entry_at (a_path a) (v_entries (view s))" for a
    unfolding Let_def
    apply (rule vpost_bind, rule vpost_lift, rule vpost_bind, rule vpost_lift)
    apply (rule vpost_if, rule vpost_throw, rule vpost_if, rule vpost_throw, rule vpost_if, rule vpost_throw)
    by (rule vpost_transaction, rule vpost_commitSymlink [OF sound a(1) _ _ a(2)]) (simp_all add: placed_flushed)
  note r = resolved_op [OF s run [unfolded symlink_def], where Q = ?Q]
  show "\<exists>a. fst (resolveAccess path False False s) = Inr a \<and> placed cfg (a_path a) (Link target) (view s) (view t)"
    by (rule r(1)) (use post in \<open>auto simp: placed_def\<close>)
  show "vfs_ok cfg t"
    by (rule r(2)) (use post in \<open>auto simp: placed_def\<close>)
qed

text \<open>Both keep the budget, and a failure changes nothing.\<close>

lemma stays_parents [stays_intros]: "stays (removeExact cfg path now advance resolved)"
  unfolding removeExact_def by (intro stays_intros)

lemma stays_commitSymlink [stays_intros]:
  "stays (commitSymlink cfg path parentPath name' target bytes options posix followed resolved)"
  unfolding commitSymlink_def by (intro stays_intros silent_stays silent_lookups)

lemma calm_mkdir: "calm (mkdir cfg path recursive mode' posix)"
  unfolding mkdir_def by (intro calm_intros stays_intros silent_intros)

lemma calm_symlink: "calm (symlink cfg path target options posix)"
  unfolding symlink_def by (intro calm_intros stays_intros silent_intros)

end
