(* ===== verification/Vfs_Metadata.thy ===== *)
theory Vfs_Metadata
  imports Vfs_Placing
begin

text \<open>
  Changing what an entry says of itself: \<open>setMetadata\<close>, \<open>setOwnership\<close> and \<open>touch\<close> of
  \<open>src/vfs/sql-metadata-base.ts\<close>. Only the owner or root changes a mode, only root an owner; a new
  version makes the change visible to guards, and no contents move.
\<close>

section \<open>Modes and times\<close>

record MetadataUpdateOptions =
  mu_ifMutationToken :: "jstring option"
  mu_mode :: "mode option"
  mu_modifiedAtMs :: "nat option"

text \<open>The row that the statement writes.\<close>

definition metadata_row :: "'a MetadataUpdateOptions_scheme \<Rightarrow> nat \<Rightarrow> EntryRow \<Rightarrow> EntryRow" where
  "metadata_row options now entry = entry\<lparr>
     e_mode := (case mu_mode options of None \<Rightarrow> e_mode entry | Some m \<Rightarrow> m),
     e_modified := (case mu_modifiedAtMs options of Some at' \<Rightarrow> at'
       | None \<Rightarrow> if mu_mode options = None then now else e_modified entry),
     e_changed := now, e_revision := e_revision entry + 1, e_version := e_version entry + 1\<rparr>"

definition setMetadata ::
  "Config \<Rightarrow> jstring \<Rightarrow> 'a MetadataUpdateOptions_scheme \<Rightarrow> PosixAccessContext option \<Rightarrow> jstring list \<Rightarrow> jstring \<Rightarrow>
   VfsStat op" where
  "setMetadata cfg path options posix writtenFollowed written =
     bind_op (resolveAccess path False True) (\<lambda>access.
     let normalized = a_path access;
         followed = (if length writtenFollowed = 0 then a_followed access else writtenFollowed @ a_followed access) in
     bind_op (assertTraverse normalized followed posix) (\<lambda>_.
     transaction cfg
       (bind_op (requireEntry normalized True) (\<lambda>entry.
        bind_op (assertTraverse normalized followed posix) (\<lambda>_.
        bind_op (if mu_mode options \<noteq> None then assertOwner entry posix normalized
                 else when_op (case posix of None \<Rightarrow> False | Some ctx \<Rightarrow> cr_uid ctx \<noteq> e_uid entry)
                   (assertPermission entry posix WRITE_PERMISSION normalized)) (\<lambda>_.
        bind_op (validateGuard cfg normalized (Some entry) (mu_ifMutationToken options) (Some written)) (\<lambda>_.
        bind_op (gets_op clock) (\<lambda>changedAtMs.
        bind_op (exec_op (update_entry (e_id entry) (metadata_row options changedAtMs))) (\<lambda>_.
        bind_op (publishToken cfg normalized (e_version entry + 1) True MMetadata (Some (e_linkIdentity entry))) (\<lambda>_.
        return_op (rowToStat cfg (metadata_row options changedAtMs entry))))))))))))"

section \<open>Owners\<close>

record OwnershipUpdateOptions =
  ou_ifMutationToken :: "jstring option"
  ou_uid :: "nat option"
  ou_gid :: "nat option"

definition ownership_row ::
  "nat option \<Rightarrow> nat option \<Rightarrow> PosixAccessContext option \<Rightarrow> nat \<Rightarrow> EntryRow \<Rightarrow> EntryRow" where
  "ownership_row uid' gid' posix now entry = entry\<lparr>
     e_uid := (case uid' of None \<Rightarrow> e_uid entry | Some u \<Rightarrow> u),
     e_gid := (case gid' of None \<Rightarrow> e_gid entry | Some g \<Rightarrow> g),
     e_mode := (if (case posix of None \<Rightarrow> False | Some ctx \<Rightarrow> cr_uid ctx \<noteq> 0) \<and> (uid' \<noteq> None \<or> gid' \<noteq> None)
       then e_mode entry AND NOT 0xc00 else e_mode entry),
     e_changed := now, e_revision := e_revision entry + 1, e_version := e_version entry + 1\<rparr>"

definition commitOwnership ::
  "Config \<Rightarrow> jstring \<Rightarrow> jstring list \<Rightarrow> OwnershipUpdateOptions \<Rightarrow> nat option \<Rightarrow> nat option \<Rightarrow> PosixAccessContext option \<Rightarrow>
   jstring \<Rightarrow> VfsStat op" where
  "commitOwnership cfg path followed options uid' gid' posix written =
     bind_op (requireEntry path True) (\<lambda>entry.
     bind_op (assertTraverse path followed posix) (\<lambda>_.
     bind_op (case posix of None \<Rightarrow> return_op ()
       | Some ctx \<Rightarrow> when_op (cr_uid ctx \<noteq> 0)
           (bind_op (require_op (uid' = None \<or> uid' = Some (e_uid entry)) EPERM path) (\<lambda>_.
            bind_op (assertOwner entry posix path) (\<lambda>_.
            require_op (case gid' of None \<Rightarrow> True | Some g \<Rightarrow> g \<in> set (cr_groups ctx)) EPERM path)))) (\<lambda>_.
     bind_op (validateGuard cfg path (Some entry) (ou_ifMutationToken options) (Some written)) (\<lambda>_.
     bind_op (gets_op clock) (\<lambda>changedAtMs.
     bind_op (exec_op (update_entry (e_id entry) (ownership_row uid' gid' posix changedAtMs))) (\<lambda>_.
     bind_op (publishToken cfg path (e_version entry + 1) True MMetadata (Some (e_linkIdentity entry))) (\<lambda>_.
     return_op (rowToStat cfg (ownership_row uid' gid' posix changedAtMs entry)))))))))"

definition posix_id_option :: "nat option \<Rightarrow> nat option result" where
  "posix_id_option given = (case given of None \<Rightarrow> Inr None | Some n \<Rightarrow> bindr (posixId n) (\<lambda>i. Inr (Some i)))"

definition setOwnership ::
  "Config \<Rightarrow> jstring \<Rightarrow> OwnershipUpdateOptions \<Rightarrow> PosixAccessContext option \<Rightarrow> VfsStat op" where
  "setOwnership cfg path options posix =
     bind_op (resolveAccess path False True) (\<lambda>access.
     let normalized = a_path access in
     bind_op (assertTraverse normalized (a_followed access) posix) (\<lambda>_.
     if ou_uid options = None \<and> ou_gid options = None then fail_op EINVAL normalized
     else
     bind_op (lift_op (posix_id_option (ou_uid options))) (\<lambda>uid'.
     bind_op (lift_op (posix_id_option (ou_gid options))) (\<lambda>gid'.
     transaction cfg (commitOwnership cfg normalized (a_followed access) options uid' gid' posix path)))))"

section \<open>Touching\<close>

record TouchOptions = MetadataUpdateOptions +
  to_create :: bool
  to_createParents :: bool

definition createTouchedFile ::
  "Config \<Rightarrow> jstring \<Rightarrow> jstring list \<Rightarrow> TouchOptions \<Rightarrow> PosixAccessContext option \<Rightarrow> jstring \<Rightarrow> VfsStat op" where
  "createTouchedFile cfg path followed options posix written =
     bind_op (if posix = None then return_op None
       else bind_op (creationParents path (to_createParents options)) (\<lambda>parents. return_op (Some parents))) (\<lambda>parents.
     bind_op (case parents of None \<Rightarrow> return_op ()
       | Some ps \<Rightarrow> assertCreationAccess path followed posix (fst ps)) (\<lambda>_.
     bind_op (validateGuard cfg path None (mu_ifMutationToken options) (Some written)) (\<lambda>_.
     bind_op (gets_op clock) (\<lambda>now.
     bind_op (case parents of
         None \<Rightarrow> prepareParents cfg path (to_createParents options) now followed posix
       | Some ps \<Rightarrow> createMissingParents cfg path now posix ps) (\<lambda>parent.
     let owner = (if posix = None then (0, 0) else creationOwner parent posix);
         wanted = (case mu_mode options of None \<Rightarrow> FILE_MODE | Some m \<Rightarrow> m);
         mode' = (if posix = None then wanted else creationMode wanted posix parent False False) in
     bind_op (assertCapacity cfg 0 1 (Some path)) (\<lambda>_.
     bind_op (nextEntryVersion path 0) (\<lambda>mutationVersion.
     bind_op (allocateIno 1) (\<lambda>ino.
     bind_op (lift_op (dirname path)) (\<lambda>parentPath.
     bind_op (lift_op (basename path)) (\<lambda>name'.
     let row = \<lparr>e_id = ino, e_path = path, e_parent = parentPath, e_name = name', e_kind = Inline,
                e_size = 0, e_mode = mode', e_uid = fst owner, e_gid = snd owner, e_created = now,
                e_modified = (case mu_modifiedAtMs options of None \<Rightarrow> now | Some at' \<Rightarrow> at'), e_changed = now,
                e_linkIdentity = None, e_linkCount = 1, e_revision = 1, e_version = mutationVersion,
                e_digest = None, e_digest_revision = 0\<rparr> in
     bind_op (insert_entry row) (\<lambda>_.
     bind_op (publishToken cfg path mutationVersion True MCreate None) (\<lambda>_.
     bind_op (updateUsage cfg 0 1) (\<lambda>_.
     return_op ((rowToStat cfg row)\<lparr>st_nlink := None\<rparr>))))))))))))))"

definition touch :: "Config \<Rightarrow> jstring \<Rightarrow> TouchOptions \<Rightarrow> PosixAccessContext option \<Rightarrow> VfsStat op" where
  "touch cfg path options posix =
     bind_op (resolveAccess path False True) (\<lambda>access.
     let normalized = a_path access in
     bind_op (case a_row access of Some e \<Rightarrow> return_op (Some e) | None \<Rightarrow> oneEntry normalized) (\<lambda>existing.
     if existing \<noteq> None then setMetadata cfg normalized options posix (a_followed access) path
     else if \<not> to_create options then fail_op ENOENT normalized
     else transaction cfg (createTouchedFile cfg normalized (a_followed access) options posix path)))"

section \<open>Rows that are amended\<close>

text \<open>A row that keeps its place, its kind and its body, with a new version.\<close>

definition amends :: "(EntryRow \<Rightarrow> EntryRow) \<Rightarrow> bool" where
  "amends f \<longleftrightarrow> (\<forall>e. alike e (f e) \<and> e_version (f e) = e_version e + 1 \<and> e_revision (f e) = e_revision e + 1 \<and>
     e_digest_revision (f e) = e_digest_revision e)"

definition amended :: "(EntryRow \<Rightarrow> EntryRow) \<Rightarrow> nat \<Rightarrow> View \<Rightarrow> View" where
  "amended f i v = v\<lparr>v_entries := map (\<lambda>e. if e_id e = i then f e else e) (v_entries v)\<rparr>"

lemma amends_rows [simp]: "amends (metadata_row options now)" "amends (ownership_row uid' gid' posix now)"
  by (simp_all add: amends_def alike_def metadata_row_def ownership_row_def solitary_def is_directory_def)

lemma vpost_update_entry: "Q () (amended f i v) \<Longrightarrow> vpost (exec_op (update_entry i f)) v Q"
  unfolding update_entry_def [abs_def] by (rule vpost_exec_table) (simp add: amended_def)

lemma amended_ok:
  assumes "amends f" "sound cfg v"
  shows "sound cfg (amended f i v)" "fs (amended f i v) = fs v" "evolves v (amended f i v)"
proof -
  let ?es = "map (\<lambda>e. if e_id e = i then f e else e) (v_entries v)"
  have alike_refl: "alike e e" for e by (simp add: alike_def)
  have f: "alike e (f e)" "e_version e < e_version (f e)" "e_revision (f e) = Suc (e_revision e)"
    "e_digest_revision (f e) = e_digest_revision e" for e
    using assms(1) by (simp_all add: amends_def)
  have alike: "list_all2 alike (v_entries v) ?es" using f(1) alike_refl by (simp add: list_all2_map2 list_all2_same)
  then show "fs (amended f i v) = fs v" unfolding amended_def by (rule alike_fs)
  have digest: "digest_ok cfg cs (f e)" if "digest_ok cfg cs e" for cs e
    using that unfolding digest_ok_def alike_is(2) [OF f(1)] f(3,4) by (metis Suc_n_not_le_n le_SucI)
  have old: "\<forall>e \<in> set (v_entries v). digest_ok cfg (v_chunks v) e" using assms(2) by (simp add: sound_def)
  show "sound cfg (amended f i v)"
    unfolding amended_def by (rule alike_sound [OF alike assms(2)]) (use old digest in auto)
  show "evolves v (amended f i v)"
    unfolding amended_def
    by (rule older_evolves) (use f(1,2) alike_refl in \<open>simp add: list_all2_map2 list_all2_same older_def\<close>)
qed

text \<open>What an operation that amends one row leaves, after the end of its transaction.\<close>

definition restated :: "Config \<Rightarrow> (EntryRow \<Rightarrow> EntryRow) \<Rightarrow> EntryRow \<Rightarrow> View \<Rightarrow> View \<Rightarrow> bool" where
  "restated cfg f e v w \<longleftrightarrow> sound cfg w \<and> fs w = fs v \<and> evolves v w \<and> v_charge w = v_charge v \<and>
     list_all2 (\<lambda>d d'. touched (if e_id d = e_id e then f d else d) d') (v_entries v) (v_entries w)"

lemma restated_amended:
  assumes "amends f" "sound cfg v" "all_touched (v_entries (amended f (e_id e) v)) es"
  shows "restated cfg f e v ((amended f (e_id e) v)\<lparr>v_entries := es\<rparr>)"
proof -
  have "list_all2 (\<lambda>d d'. touched (if e_id d = e_id e then f d else d) d') (v_entries v) es"
    using assms(3) by (simp add: amended_def list_all2_map1)
  then show ?thesis
    using flushed_ok [OF assms(3)] amended_ok [OF assms(1,2), of "e_id e"]
      evolves_trans [OF amended_ok(3) [OF assms(1,2)] flushed_ok(3) [OF assms(3)]]
    by (simp add: restated_def) (simp add: amended_def)
qed

section \<open>What the operations do\<close>

text \<open>Who may change a row: without credentials, everybody.\<close>

definition owns :: "PosixAccessContext option \<Rightarrow> EntryRow \<Rightarrow> bool" where
  "owns posix e \<longleftrightarrow> (case posix of None \<Rightarrow> True | Some ctx \<Rightarrow> cr_uid ctx = 0 \<or> cr_uid ctx = e_uid e)"

definition may_restamp :: "PosixAccessContext option \<Rightarrow> EntryRow \<Rightarrow> bool" where
  "may_restamp posix e \<longleftrightarrow> owns posix e \<or> (case posix of None \<Rightarrow> True | Some ctx \<Rightarrow> permitted e ctx WRITE_PERMISSION)"

definition may_amend :: "mode option \<Rightarrow> PosixAccessContext option \<Rightarrow> EntryRow \<Rightarrow> bool" where
  "may_amend mode' posix e \<longleftrightarrow> (if mode' = None then may_restamp posix e else owns posix e)"

lemma vpost_assertOwner: "(owns posix e \<Longrightarrow> Q () v) \<Longrightarrow> vpost (assertOwner e posix path) v Q"
  unfolding assertOwner_def by (intro vpost_option vpost_return vpost_require) (auto simp: owns_def)

lemma vpost_writable:
  "(may_restamp posix e \<Longrightarrow> Q () v) \<Longrightarrow>
   vpost (when_op (case posix of None \<Rightarrow> False | Some ctx \<Rightarrow> cr_uid ctx \<noteq> e_uid e)
     (assertPermission e posix WRITE_PERMISSION path)) v Q"
  unfolding assertPermission_def
  by (intro vpost_when vpost_option vpost_if vpost_return vpost_require)
     (auto simp: may_restamp_def owns_def WRITE_PERMISSION_def split: option.splits)

text \<open>The entry that a written path leads to.\<close>

definition leads :: "Vfs \<Rightarrow> jstring \<Rightarrow> EntryRow \<Rightarrow> bool" where
  "leads s path e \<longleftrightarrow> (\<exists>a. fst (resolveAccess path False True s) = Inr a \<and> names s (a_path a) e)"

text \<open>Lookups whose result depends on the tables only.\<close>

definition determined :: "'a op \<Rightarrow> bool" where
  "determined m \<longleftrightarrow> (\<forall>s s'. view s = view s' \<longrightarrow> fst (m s) = fst (m s') \<and> view (snd (m s)) = view s)"

lemma determined_bind: "determined m \<Longrightarrow> (\<And>x. determined (f x)) \<Longrightarrow> determined (bind_op m f)"
  unfolding determined_def bind_op_def
  by (intro allI impI) (smt (verit) fst_conv prod.case_eq_if snd_conv sum.case_eq_if)

lemma determined_parts:
  "determined (return_op x)" "determined (throw_op e)" "determined (lift_op r)" "determined (fail_op code path)"
  "determined m \<Longrightarrow> determined n \<Longrightarrow> determined (if b then m else n)"
  "determined m \<Longrightarrow> (\<And>x. determined (f x)) \<Longrightarrow> determined (case opt of None \<Rightarrow> m | Some x \<Rightarrow> f x)"
  "determined (gets_op (\<lambda>s. links (tables s)))" "determined (oneEntry path)" "determined (resolveEntry_op path follow)"
proof -
  show "determined (return_op x)" "determined (throw_op e)" "determined (lift_op r)" "determined (fail_op code path)"
    by (simp_all add: determined_def return_op_def throw_op_def lift_op_def)
  show "determined m \<Longrightarrow> determined n \<Longrightarrow> determined (if b then m else n)" by (cases b) simp_all
  show "determined m \<Longrightarrow> (\<And>x. determined (f x)) \<Longrightarrow> determined (case opt of None \<Rightarrow> m | Some x \<Rightarrow> f x)"
    by (cases opt) simp_all
  have es: "view s = view s' \<Longrightarrow> entries (tables s) = entries (tables s')" for s s' using view_fields(1) by metis
  show "determined (gets_op (\<lambda>s. links (tables s)))" "determined (oneEntry path)"
    unfolding determined_def oneEntry_def gets_op_def find_entry_at links_def fst_conv snd_conv using es by metis+
  have "view s = view s' \<Longrightarrow> resolveEntry (tables s) path follow = resolveEntry (tables s') path follow" for s s'
    unfolding resolveEntry_def using resolve_cong(1) [OF es] by metis
  then show "determined (resolveEntry_op path follow)"
    unfolding determined_def resolveEntry_op_def fst_conv snd_conv by blast
qed

lemma access_cong: "view s = view s' \<Longrightarrow> fst (resolveAccess path missing follow s) = fst (resolveAccess path missing follow s')"
proof -
  have "determined (resolveAccess path missing follow)"
    unfolding resolveAccess_def Let_def by (intro determined_bind determined_parts)
  then show "view s = view s' \<Longrightarrow> fst (resolveAccess path missing follow s) = fst (resolveAccess path missing follow s')"
    unfolding determined_def by blast
qed

lemma vpost_resolve:
  assumes "\<And>a. canonical (a_path a) \<Longrightarrow> a_row a = None \<or> a_row a = entry_at (a_path a) (v_entries v) \<Longrightarrow>
    (\<And>s. view s = v \<Longrightarrow> fst (resolveAccess path missing follow s) = Inr a) \<Longrightarrow> Q a v"
  shows "vpost (resolveAccess path missing follow) v Q"
proof (rule vpostI)
  fix s a t assume s: "view s = v" "usage_ok s" "resolveAccess path missing follow s = (Inr a, t)"
  have here: "fst (resolveAccess path missing follow s') = Inr a" if "view s' = v" for s'
    using access_cong [of s' s path missing follow] that s(1,3) by simp
  have "vpost (resolveAccess path missing follow) v (\<lambda>a w. w = v \<and> canonical (a_path a) \<and>
      (a_row a = None \<or> a_row a = entry_at (a_path a) (v_entries v)))"
    by (rule vpost_resolveAccess) simp
  from vpostD [OF this s] assms [OF _ _ here] show "Q a (view t) \<and> moved s (view t) t" by blast
qed

lemma vpost_setMetadata:
  assumes "sound cfg v"
    and post: "\<And>e now w. \<lbrakk>\<And>s. view s = v \<Longrightarrow> leads s path e; e \<in> set (v_entries v);
       may_amend (mu_mode options) posix e;
       restated cfg (metadata_row options now) e v w\<rbrakk> \<Longrightarrow> Q (rowToStat cfg (metadata_row options now e)) w"
  shows "vpost (setMetadata cfg path options posix writtenFollowed written) v Q"
  unfolding setMetadata_def Let_def
  apply (rule vpost_bind, rule vpost_resolve, rule vpost_bind, rule vpost_silent)
  subgoal by (intro silent_intros)
  apply (rule vpost_transaction, rule vpost_bind, rule vpost_requireEntry, rule vpost_bind, rule vpost_silent)
  subgoal by (intro silent_intros)
  subgoal premises p for a _ e
    apply (rule vpost_bind)
    apply (rule vpost_weaken [where Q' = "\<lambda>_ w. w = v \<and> may_amend (mu_mode options) posix e"])
    subgoal by (intro vpost_if vpost_assertOwner vpost_writable) (simp_all add: may_amend_def, auto)
    apply (elim conjE, hypsubst, rule vpost_bind, rule vpost_silent)
    subgoal by (intro silent_intros)
    apply (rule vpost_bind, rule vpost_silent, rule silent_simple, rule vpost_bind, rule vpost_update_entry)
    apply (rule vpost_bind, rule vpost_publishToken, rule vpost_return)
    apply (intro allI impI, rule post)
    using p restated_amended [OF amends_rows(1) assms(1)] by (auto simp: leads_def)
  done

text \<open>Root may do as it likes; an owner keeps the owner and chooses among its own groups.\<close>

definition may_chown :: "nat option \<Rightarrow> nat option \<Rightarrow> PosixAccessContext option \<Rightarrow> EntryRow \<Rightarrow> bool" where
  "may_chown uid' gid' posix e \<longleftrightarrow> (case posix of None \<Rightarrow> True
     | Some ctx \<Rightarrow> cr_uid ctx = 0 \<or> cr_uid ctx = e_uid e \<and> (uid' = None \<or> uid' = Some (e_uid e)) \<and>
         (\<forall>g. gid' = Some g \<longrightarrow> g \<in> set (cr_groups ctx)))"

lemma posix_id_option_same: "posix_id_option given = Inr x \<Longrightarrow> x = given"
  by (auto simp: posix_id_option_def posixId_def split: option.splits if_splits)

lemma vpost_chown_checks:
  "(may_chown uid' gid' posix e \<Longrightarrow> Q () v) \<Longrightarrow>
   vpost (case posix of None \<Rightarrow> return_op ()
       | Some ctx \<Rightarrow> when_op (cr_uid ctx \<noteq> 0)
           (bind_op (require_op (uid' = None \<or> uid' = Some (e_uid e)) EPERM path) (\<lambda>_.
            bind_op (assertOwner e posix path) (\<lambda>_.
            require_op (case gid' of None \<Rightarrow> True | Some g \<Rightarrow> g \<in> set (cr_groups ctx)) EPERM path)))) v Q"
  by (intro vpost_option vpost_return vpost_when vpost_bind vpost_require vpost_assertOwner)
     (auto simp: may_chown_def owns_def split: option.splits)

lemma vpost_setOwnership:
  assumes "sound cfg v"
    and post: "\<And>e now w. \<lbrakk>\<And>s. view s = v \<Longrightarrow> leads s path e; e \<in> set (v_entries v);
       may_chown (ou_uid options) (ou_gid options) posix e; ou_uid options \<noteq> None \<or> ou_gid options \<noteq> None;
       restated cfg (ownership_row (ou_uid options) (ou_gid options) posix now) e v w\<rbrakk> \<Longrightarrow>
       Q (rowToStat cfg (ownership_row (ou_uid options) (ou_gid options) posix now e)) w"
  shows "vpost (setOwnership cfg path options posix) v Q"
  unfolding setOwnership_def Let_def
  apply (rule vpost_bind, rule vpost_resolve, rule vpost_bind, rule vpost_silent)
  subgoal by (intro silent_intros)
  apply (rule vpost_if, rule vpost_throw, rule vpost_bind, rule vpost_lift, rule vpost_bind, rule vpost_lift)
  apply (drule posix_id_option_same, drule posix_id_option_same, hypsubst)
  unfolding commitOwnership_def
  apply (rule vpost_transaction, rule vpost_bind, rule vpost_requireEntry, rule vpost_bind, rule vpost_silent)
  subgoal by (intro silent_intros)
  subgoal premises p for a e
    apply (rule vpost_bind, rule vpost_chown_checks, rule vpost_bind, rule vpost_silent)
    subgoal by (intro silent_intros)
    apply (rule vpost_bind, rule vpost_silent, rule silent_simple, rule vpost_bind, rule vpost_update_entry)
    apply (rule vpost_bind, rule vpost_publishToken, rule vpost_return)
    apply (intro allI impI, rule post)
    using p restated_amended [OF amends_rows(2) assms(1)] by (auto simp: leads_def)
  done

text \<open>A file that a touch creates is empty.\<close>

lemma vpost_createTouchedFile:
  assumes "sound cfg v" "canonical path" "path \<noteq> [SLASH]" "\<And>x w. placed cfg path (Data []) v w \<Longrightarrow> Q x w"
  shows "vpost (createTouchedFile cfg path followed options posix written) v Q"
proof -
  let ?parent = "\<lambda>parent w. sound cfg w \<and> evolves v w \<and> parent \<in> set (v_entries w) \<and> is_directory parent \<and>
    dirname path = Inr (e_path parent) \<and> fs w = mkdirs path (fs v) \<and> (within cfg v \<longrightarrow> within cfg w)"
  let ?known = "\<lambda>parents. posix \<noteq> None \<longrightarrow> (\<exists>up row cs. parents = Some (row, cs) \<and> dirname path = Inr up \<and>
    row \<in> set (v_entries v) \<and> is_directory row \<and> chain (e_path row) cs up)"
  show ?thesis
    unfolding createTouchedFile_def Let_def
    apply (rule vpost_bind, rule vpost_weaken [where Q' = "\<lambda>parents w. w = v \<and> (posix = None \<longrightarrow> parents = None) \<and> ?known parents"])
    subgoal by (intro vpost_if vpost_bind vpost_creationParents vpost_return) auto
    apply (elim conjE, hypsubst)
    apply (rule vpost_bind, rule vpost_silent)
    subgoal by (intro silent_intros)
    apply (rule vpost_bind, rule vpost_silent, rule silent_lookups, rule vpost_bind, rule vpost_silent, rule silent_simple)
    subgoal premises p for parents w _ _ now
      apply (rule vpost_bind, rule vpost_weaken [where Q' = ?parent])
      subgoal
        by (rule vpost_option, rule vpost_prepareParents [OF assms(1-3)], blast)
           (use p in \<open>auto intro!: vpost_createMissingParents [OF assms(1-3)]\<close>)
      subgoal premises q for parent w
      proof -
        have done': "Q ((rowToStat cfg row)\<lparr>st_nlink := None\<rparr>) (with_file row (v_chunks w) w)" if "new_file path 0 row w" "e_digest row = None" "e_digest_revision row = 0"
          "e_revision row = 1" "fits cfg (v_charge w) 0 1" for row
        proof (rule assms(4))
          have sound: "sound cfg w" using q by simp
          have "e_id row \<notin> c_entry ` set (v_chunks w)"
            using sound that(1) by (force simp: sound_def bodies_ok_def new_file_def)
          then have "rebodied (e_id row) [] (v_chunks w) (v_chunks w)"
            using sound by (auto simp: rebodied_def layout_def chunk_at_def find_None_iff chunk_key_def sound_def bodies_ok_def)
              (metis image_eqI)
          moreover have "digest_ok cfg (v_chunks w) row" using that(3,4) by (simp add: digest_ok_def)
          moreover have "slabs_of 1 (concat []) []" by (simp add: slabs_of_def)
          ultimately have f: "sound cfg (with_file row (v_chunks w) w)" "fs (with_file row (v_chunks w) w) = (fs w)(path \<mapsto> Data [])"
            "evolves w (with_file row (v_chunks w) w)"
            using with_file_ok [OF sound that(1) assms(2), of parent "[]" "v_chunks w" 1] q by auto
          have "within cfg w \<Longrightarrow> within cfg (with_file row (v_chunks w) w)"
            by (rule within_fits [OF _ that(5)]) (use that(1) in \<open>simp_all add: with_file_def charged_def new_file_def\<close>)
          with f q show "placed cfg path (Data []) v (with_file row (v_chunks w) w)"
            by (auto simp: placed_def abs_place_def intro: evolves_trans)
        qed
        show ?thesis
          apply (rule vpost_bind, rule vpost_assertCapacity, rule vpost_bind, rule vpost_nextEntryVersion, rule vpost_bind, rule vpost_allocateIno)
          apply (rule vpost_bind, rule vpost_lift, rule vpost_bind, rule vpost_lift)
          apply (rule vpost_bind, rule vpost_insert_entry, rule vpost_bind, rule vpost_publishToken, rule vpost_bind, rule vpost_updateUsage, rule vpost_return)
          apply (rule view_eqI [where Q = Q], rule done')
          by (auto simp: new_file_def with_file_def charged_def fresh_row_def)
      qed
      done
    done
qed

section \<open>The operations\<close>

text \<open>Any operation with such a rule, run from a sound state.\<close>

lemma vpost_run:
  assumes "vfs_ok cfg s" "m s = (Inr x, t)" "vpost m (view s) Q" "\<And>x w. Q x w \<Longrightarrow> sound cfg w \<and> evolves (view s) w"
  shows "Q x (view t)" "vfs_ok cfg t"
proof -
  have ok: "usage_ok s" using assms(1) by (simp add: vfs_ok_def)
  from vpostD [OF assms(3) refl ok assms(2)] have q: "Q x (view t)" "moved s (view t) t" by blast+
  show "Q x (view t)" by (rule q(1))
  show "vfs_ok cfg t"
    by (rule vfs_ok_step [OF assms(1)]) (use assms(4) [OF q(1)] q(2) ok in \<open>simp_all add: moved_def ambient_def\<close>)
qed

lemma restated_sound: "restated cfg f e v w \<Longrightarrow> sound cfg w \<and> evolves v w \<and> (within cfg v \<longrightarrow> within cfg w)"
  by (simp add: restated_def within_def)

lemma setMetadata_ok:
  assumes s: "vfs_ok cfg s" and run: "setMetadata cfg path options posix writtenFollowed written s = (Inr st, t)"
  shows "\<exists>e now. leads s path e \<and> e \<in> set (entries (tables s)) \<and>
      may_amend (mu_mode options) posix e \<and>
      restated cfg (metadata_row options now) e (view s) (view t) \<and> st = rowToStat cfg (metadata_row options now e)"
    (is "?R st (view t)") "vfs_ok cfg t"
proof -
  have "sound cfg (view s)" using s by (simp add: vfs_ok_def)
  then have "vpost (setMetadata cfg path options posix writtenFollowed written) (view s) ?R"
    by (rule vpost_setMetadata) auto
  from vpost_run [OF s run this] restated_sound show "?R st (view t)" "vfs_ok cfg t" by blast+
qed

lemma setOwnership_ok:
  assumes s: "vfs_ok cfg s" and run: "setOwnership cfg path options posix s = (Inr st, t)"
  shows "\<exists>e now. leads s path e \<and> e \<in> set (entries (tables s)) \<and>
      may_chown (ou_uid options) (ou_gid options) posix e \<and> (ou_uid options \<noteq> None \<or> ou_gid options \<noteq> None) \<and>
      restated cfg (ownership_row (ou_uid options) (ou_gid options) posix now) e (view s) (view t) \<and>
      st = rowToStat cfg (ownership_row (ou_uid options) (ou_gid options) posix now e)"
    (is "?R st (view t)") "vfs_ok cfg t"
proof -
  have "sound cfg (view s)" using s by (simp add: vfs_ok_def)
  then have "vpost (setOwnership cfg path options posix) (view s) ?R"
    apply (rule vpost_setOwnership)
    subgoal premises p for e now w
      by (rule exI [of _ e], rule exI [of _ now]) (use p(2) in \<open>intro conjI p refl; simp\<close>)
    done
  from vpost_run [OF s run this] restated_sound show "?R st (view t)" "vfs_ok cfg t" by blast+
qed

lemma touch_ok:
  assumes s: "vfs_ok cfg s" and run: "touch cfg path options posix s = (Inr st, t)"
  shows "\<exists>a. fst (resolveAccess path False True s) = Inr a \<and>
      (if fs (view s) (a_path a) = None then placed cfg (a_path a) (Data []) (view s) (view t)
       else \<exists>e now. leads s (a_path a) e \<and> may_amend (mu_mode options) posix e \<and>
         restated cfg (metadata_row options now) e (view s) (view t))"
    (is "?R st (view t)") "vfs_ok cfg t"
proof -
  have sound: "sound cfg (view s)" using s by (simp add: vfs_ok_def)
  have post: "vpost (touch cfg path options posix) (view s) ?R"
    unfolding touch_def Let_def
    apply (rule vpost_bind, rule vpost_resolve)
    subgoal premises p for a
      apply (rule vpost_bind, rule vpost_weaken [where Q' = "\<lambda>e w. e = entry_at (a_path a) (v_entries (view s)) \<and> w = view s"])
      subgoal using p(2) by (auto intro!: vpost_return vpost_oneEntry split: option.split)
      apply (elim conjE, hypsubst, rule vpost_if)
      subgoal by (rule vpost_setMetadata [OF sound]) (use p in \<open>auto simp: fs_def\<close>)
      apply (rule vpost_if, rule vpost_throw, rule vpost_transaction, rule vpost_createTouchedFile [OF sound p(1)])
      using root_stands [OF sound] p(3) placed_flushed by (auto simp: fs_def)
    done
  have ok: "?R x w \<Longrightarrow> sound cfg w \<and> evolves (view s) w" for x w
    by (auto simp: placed_def dest!: restated_sound split: if_splits)
  show "?R st (view t)" "vfs_ok cfg t" using vpost_run [OF s run post ok] by blast+
qed

lemma stays_metadata [stays_intros]:
  "stays (exec_op (update_entry i f))" "stays (createTouchedFile cfg path followed options posix written)"
  "stays (createMissingParents cfg path now access parents)" "stays (creationParents path recursive)"
  unfolding createTouchedFile_def createMissingParents_def creationParents_def update_entry_def [abs_def]
  by (intro stays_intros silent_stays silent_intros)+

lemma calm_setMetadata: "calm (setMetadata cfg path options posix writtenFollowed written)"
  unfolding setMetadata_def by (intro calm_intros stays_intros silent_stays silent_intros)

lemma calm_setOwnership: "calm (setOwnership cfg path options posix)"
  unfolding setOwnership_def commitOwnership_def by (intro calm_intros stays_intros silent_stays silent_intros)

lemma calm_touch: "calm (touch cfg path options posix)"
  unfolding touch_def by (intro calm_intros calm_setMetadata stays_intros silent_stays silent_intros)

end
