(* ===== verification/Vfs_Session.thy ===== *)
theory Vfs_Session
  imports Vfs_Metadata
begin

text \<open>
  A filesystem and those who use it. Plans, bodies that have been collected, appends that have
  begun and results that are being read wait while other operations run, so a session is a step
  relation: what is reachable from a new database (\<open>src/vfs/sql-migrate.ts\<close>) is sound, keeps the
  quota, counts exactly the bytes that are held, and every plan was made at a state it has evolved
  from.
\<close>

section \<open>Tokens\<close>

lemma js_nat_inject [simp]: "js_nat m = js_nat n \<longleftrightarrow> m = n"
  using digits_value_js_nat by metis

lemma formatted_token_inject [simp]: "formatMutationToken epoch m = formatMutationToken epoch n \<longleftrightarrow> m = n"
  by (simp add: formatMutationToken_def)

lemma never_mutated_token [simp]: "formatMutationToken epoch n \<noteq> NEVER_MUTATED_TOKEN"
proof
  assume eq: "formatMutationToken epoch n = NEVER_MUTATED_TOKEN"
  have "last (formatMutationToken epoch n) \<in> set (js_nat n)" by (simp add: formatMutationToken_def)
  then have "is_digit (last NEVER_MUTATED_TOKEN)" using js_nat_digits eq by metis
  then show False by (simp add: NEVER_MUTATED_TOKEN_def is_digit_def js_def)
qed

text \<open>Equal tokens of a path mean equal versions, and so equal contents.\<close>

lemma token_version:
  "token_at cfg v p = token_at cfg w p \<Longrightarrow> path_version v p = path_version w p"
  by (auto simp: token_at_def path_version_def mutationToken_def dest: sym split: option.splits)

lemma token_content:
  "evolves v w \<Longrightarrow> token_at cfg v p = token_at cfg w p \<Longrightarrow> fs w p = fs v p"
  using token_version [of cfg v p w] by (auto simp: evolves_def ages_def) (metis less_irrefl)

section \<open>A new database\<close>

text \<open>The root directory, as the migrations leave it.\<close>

definition root_row :: EntryRow where
  "root_row = \<lparr>e_id = 1, e_path = [SLASH], e_parent = [SLASH], e_name = [SLASH], e_kind = Directory, e_size = 0,
     e_mode = DIRECTORY_MODE, e_uid = 0, e_gid = 0, e_created = 0, e_modified = 0, e_changed = 0,
     e_linkIdentity = None, e_linkCount = 2, e_revision = 1, e_version = 1, e_digest = None, e_digest_revision = 0\<rparr>"

definition new_tables :: Tables where
  "new_tables = \<lparr>entries = [root_row], chunks = [], tombstones = [], path_changes = [], objects = [], garbage = [],
     uploads = [], usage_bytes = 0, usage_entries = 1, next_ino = 2\<rparr>"

text \<open>An instance that is opened on these tables.\<close>

definition opened :: "nat \<Rightarrow> nat \<Rightarrow> Tables \<Rightarrow> Vfs" where
  "opened now maxInFlight t = \<lparr>tables = t, clock = now, nextIno = next_ino t, transactionDepth = 0,
     transactionUsage = None, deferredUsage = None, pendingUsage = None, pendingMutations = [], pendingParents = None,
     directoryParentsChanged = False, directoryParentDeltas = None,
     sharedInodes = (\<exists>e \<in> set (entries t). e_linkIdentity e \<noteq> None), lastChangeSeq = None, lastInlineRead = None,
     emitted = [], inFlight = \<lparr>usedBytes = 0, maximumBytes = maxInFlight\<rparr>, alarm = None\<rparr>"

lemma new_vfs_ok: "vfs_ok cfg (opened now maxInFlight new_tables)"
proof -
  have root: "is_directory root_row" "\<not> is_inline root_row" "e_path root_row = [SLASH]" "e_id root_row = 1"
    "solitary root_row" "object_ok obs root_row" "digest_ok cfg cs root_row" for obs cs
    by (simp_all add: root_row_def is_directory_def is_inline_def solitary_def object_ok_def digest_ok_def)
  have fields: "entries new_tables = [root_row]" "chunks new_tables = []" "tombstones new_tables = []"
    "usage_bytes new_tables = 0" "usage_entries new_tables = 1" "next_ino new_tables = 2"
    by (simp_all add: new_tables_def)
  let ?s = "opened now maxInFlight new_tables"
  have s: "tables ?s = new_tables" "nextIno ?s = 2" "transactionDepth ?s = 0" "transactionUsage ?s = None"
    "deferredUsage ?s = None" "lastInlineRead ?s = None"
    by (simp_all add: opened_def fields)
  have "tree_ok [root_row]" by (simp add: tree_ok_def parent_ok_def root)
  moreover have "bodies_ok [root_row] []" by (simp add: bodies_ok_def distinct_chunks_def root)
  moreover have "charge ?s = (inline_total [root_row], 1)" by (simp add: charge_def s fields inline_total_def root)
  ultimately have "sound cfg (view ?s)"
    by (simp add: sound_def s fields root)
  then show ?thesis by (simp add: vfs_ok_def usage_ok_def read_ok_def s)
qed

section \<open>Steps\<close>

text \<open>What every operation does: the tables stay sound, age, and keep the quota.\<close>

definition advances :: "Config \<Rightarrow> Vfs \<Rightarrow> Vfs \<Rightarrow> bool" where
  "advances cfg s t \<longleftrightarrow> vfs_ok cfg t \<and> evolves (view s) (view t) \<and> (within cfg (view s) \<longrightarrow> within cfg (view t))"

lemma unchanged_advances: "vfs_ok cfg s \<Longrightarrow> unchanged s t \<Longrightarrow> advances cfg s t"
  using unchanged_ok unchanged_evolves by (auto simp: advances_def within_def)

lemma like_advances: "vfs_ok cfg s \<Longrightarrow> like s t \<Longrightarrow> advances cfg s t \<and> view t = view s \<and> inFlight t = inFlight s"
proof -
  assume s: "vfs_ok cfg s" and l: "like s t"
  have "unchanged s t \<and> inFlight t = inFlight s" using like_unchanged [OF l] s by (simp add: vfs_ok_def)
  with unchanged_advances [OF s] l show ?thesis by (simp add: like_def)
qed

lemma but_budget_advances: "vfs_ok cfg s \<Longrightarrow> but_budget s t \<Longrightarrow> advances cfg s t"
  using unchanged_advances but_budget_unchanged by (simp add: vfs_ok_def)

lemma committed_advances:
  "vfs_ok cfg t \<Longrightarrow> committed cfg p bytes (view s) result (view t) \<Longrightarrow> (within cfg (view s) \<longrightarrow> within cfg (view t)) \<Longrightarrow>
   advances cfg s t"
  by (simp add: advances_def committed_def)

text \<open>
  A session: the filesystem, the plans of streamed writes and the appends that have begun, each
  with the state it was made at, the bodies that have been collected, and the results of reads
  whose streams are not finished. A removal compares paths the way SQLite does, which holds them
  as UTF-8.
\<close>

record Session =
  se_vfs :: Vfs
  se_plans :: "(InlineWritePlan \<times> WriteOptions \<times> View) list"
  se_appends :: "(Access \<times> EntryRow \<times> View) list"
  se_leases :: "(byte list \<times> BufferedChunksLease) list"
  se_reads :: "InlineRead list"

inductive session_step :: "Config \<Rightarrow> Session \<Rightarrow> Session \<Rightarrow> bool" for cfg where
  write_text: "writeFile_text cfg path body guard options posix (se_vfs S) = (r, t) \<Longrightarrow>
    \<not> wo_skipIfUnchanged options \<Longrightarrow> session_step cfg S (S\<lparr>se_vfs := t\<rparr>)"
| plan_made: "writeFile_plan cfg path guard options posix (se_vfs S) = (Inr plan, t) \<Longrightarrow>
    session_step cfg S (S\<lparr>se_vfs := t, se_plans := (plan, options, view (se_vfs S)) # se_plans S\<rparr>)"
| plan_refused: "writeFile_plan cfg path guard options posix (se_vfs S) = (Inl e, t) \<Longrightarrow>
    session_step cfg S (S\<lparr>se_vfs := t\<rparr>)"
| collected: "collectInline cfg body held (se_vfs S) = (Inr lease, t) \<Longrightarrow>
    session_step cfg S (S\<lparr>se_vfs := t, se_leases := (body_bytes body, lease) # se_leases S\<rparr>)"
| collect_refused: "collectInline cfg body held (se_vfs S) = (Inl e, t) \<Longrightarrow> session_step cfg S (S\<lparr>se_vfs := t\<rparr>)"
| write_streamed: "(plan, options, v) \<in> set (se_plans S) \<Longrightarrow> (bytes, lease) \<in> set (se_leases S) \<Longrightarrow>
    (wo_skipIfUnchanged options \<longrightarrow> no_collision cfg (view (se_vfs S)) (p_path plan) bytes) \<Longrightarrow>
    writeFile_streamed cfg plan lease options posix (se_vfs S) = (r, t) \<Longrightarrow>
    session_step cfg S (S\<lparr>se_vfs := t, se_plans := remove1 (plan, options, v) (se_plans S),
      se_leases := remove1 (bytes, lease) (se_leases S)\<rparr>)"
| append_text: "appendFile_text cfg path body tok posix (se_vfs S) = (r, t) \<Longrightarrow> session_step cfg S (S\<lparr>se_vfs := t\<rparr>)"
| append_begun: "appendFile_begin cfg path tok posix (se_vfs S) = (Inr (access, before), t) \<Longrightarrow>
    session_step cfg S (S\<lparr>se_vfs := t, se_appends := (access, before, view (se_vfs S)) # se_appends S\<rparr>)"
| append_refused: "appendFile_begin cfg path tok posix (se_vfs S) = (Inl e, t) \<Longrightarrow>
    session_step cfg S (S\<lparr>se_vfs := t\<rparr>)"
| append_streamed: "(access, before, v) \<in> set (se_appends S) \<Longrightarrow> (bytes, lease) \<in> set (se_leases S) \<Longrightarrow>
    appendFile_streamed cfg path access before lease tok posix (se_vfs S) = (r, t) \<Longrightarrow>
    session_step cfg S (S\<lparr>se_vfs := t, se_appends := remove1 (access, before, v) (se_appends S),
      se_leases := remove1 (bytes, lease) (se_leases S)\<rparr>)"
| read_started: "readFile cfg path range' posix (se_vfs S) = (Inr res, t) \<Longrightarrow>
    session_step cfg S (S\<lparr>se_vfs := t, se_reads := res # se_reads S\<rparr>)"
| read_refused: "readFile cfg path range' posix (se_vfs S) = (Inl e, t) \<Longrightarrow> session_step cfg S (S\<lparr>se_vfs := t\<rparr>)"
| read_finished: "res \<in> set (se_reads S) \<Longrightarrow>
    session_step cfg S (S\<lparr>se_vfs := finishRead res (se_vfs S), se_reads := remove1 res (se_reads S)\<rparr>)"
| made_directory: "mkdir cfg path recursive mode' posix (se_vfs S) = (x, t) \<Longrightarrow> session_step cfg S (S\<lparr>se_vfs := t\<rparr>)"
| linked: "symlink cfg path target link_options posix (se_vfs S) = (x, t) \<Longrightarrow> session_step cfg S (S\<lparr>se_vfs := t\<rparr>)"
| removed: "remove cfg path recursive posix (se_vfs S) = (y, t) \<Longrightarrow> utf8_paths (entries (tables (se_vfs S))) \<Longrightarrow>
    session_step cfg S (S\<lparr>se_vfs := t\<rparr>)"
| restamped: "setMetadata cfg path (metadata :: MetadataUpdateOptions) posix [] path (se_vfs S) = (x, t) \<Longrightarrow> session_step cfg S (S\<lparr>se_vfs := t\<rparr>)"
| chowned: "setOwnership cfg path ownership posix (se_vfs S) = (x, t) \<Longrightarrow> session_step cfg S (S\<lparr>se_vfs := t\<rparr>)"
| was_touched: "touch cfg path touching posix (se_vfs S) = (x, t) \<Longrightarrow> session_step cfg S (S\<lparr>se_vfs := t\<rparr>)"
| time_passed: "session_step cfg S (S\<lparr>se_vfs := (se_vfs S)\<lparr>clock := now\<rparr>\<rparr>)"

definition new_session :: "nat \<Rightarrow> nat \<Rightarrow> Session" where
  "new_session now maxInFlight =
     \<lparr>se_vfs = opened now maxInFlight new_tables, se_plans = [], se_appends = [], se_leases = [], se_reads = []\<rparr>"

section \<open>What every step keeps\<close>

definition leased :: "Session \<Rightarrow> int" where
  "leased S = (\<Sum>(bytes, lease) \<leftarrow> se_leases S. int (l_accounted lease)) + (\<Sum>res \<leftarrow> se_reads S. int (ir_held res))"

definition plan_ok :: "Config \<Rightarrow> View \<Rightarrow> InlineWritePlan \<times> WriteOptions \<times> View \<Rightarrow> bool" where
  "plan_ok cfg w = (\<lambda>(plan, options, v). canonical (p_path plan) \<and> p_skipIfUnchanged plan = wo_skipIfUnchanged options \<and>
     p_capturedToken plan = token_at cfg v (p_path plan) \<and> evolves v w)"

definition session_ok :: "Config \<Rightarrow> Session \<Rightarrow> bool" where
  "session_ok cfg S \<longleftrightarrow> vfs_ok cfg (se_vfs S) \<and> (\<forall>x \<in> set (se_plans S). plan_ok cfg (view (se_vfs S)) x) \<and>
     (\<forall>(bytes, lease) \<in> set (se_leases S). lease_of bytes lease \<and> suffix_given cfg bytes lease) \<and>
     usedBytes (inFlight (se_vfs S)) = leased S"

text \<open>The budget after an operation that ran at once, and the failures of an append.\<close>

lemma writeFile_text_budget:
  assumes s: "vfs_ok cfg s" and run: "writeFile_text cfg path body guard options posix s = (Inr result, t)"
  shows "inFlight t = inFlight s"
proof -
  from run obtain snapshot s1 plan s2 lease s3 where
    s1: "read_snapshot cfg path guard options posix s = (Inr snapshot, s1)" and
    s2: "planInlineWrite cfg path guard options posix snapshot s1 = (Inr plan, s2)" and
    s3: "collectInlineSync cfg body 0 s2 = (Inr lease, s3)" and
    t: "writeFile_commit cfg plan lease None posix False s3 = (Inr result, t)"
    unfolding writeFile_text_def by (elim bind_op_InrE)
  have "inFlight s2 = inFlight s"
    using silentD [OF silent_plans(5) s1] silentD [OF silent_plans(1) s2] by (simp add: like_def ambient_def)
  then show ?thesis using writeFile_commit_outcome(1) [OF t] collectInlineSync_ok(3) [OF s3] by simp
qed

lemma append_text_parts:
  assumes run: "appendFile_text cfg path body tok posix s = (r, t)" and s: "vfs_ok cfg s"
  shows "inFlight t = inFlight s \<and> (\<forall>e. r = Inl e \<longrightarrow> unchanged s t)"
proof (cases "appendFile_begin cfg path tok posix s")
  case (Pair r1 s1)
  have l1: "like s s1" using silentD [OF silent_append_plans(3) Pair] .
  note u1 = like_unchanged [OF l1]
  have ok: "usage_ok s" "transactionDepth s = 0" using s by (simp_all add: vfs_ok_def)
  then have ok1: "usage_ok s1" "transactionDepth s1 = 0" using l1 by (simp_all add: like_def ambient_def)
  show ?thesis
  proof (cases r1)
    case (Inl e)
    with run Pair have "r = Inl e" "t = s1" by (simp_all add: appendFile_text_def bind_op_def)
    with u1 ok show ?thesis by simp
  next
    case (Inr ab)
    obtain access before where ab: "ab = (access, before)" by force
    obtain r2 s2 where c: "collectInlineSync cfg body 0 s1 = (r2, s2)" by force
    show ?thesis
    proof (cases r2)
      case (Inl e)
      with c collectInlineSync_failed [of cfg body 0 s1 e s2] have b: "but_budget s1 s2" "inFlight s2 = inFlight s1" by simp_all
      have "r = Inl e" "t = s2" using run Pair Inr ab c Inl by (simp_all add: appendFile_text_def bind_op_def)
      moreover have "unchanged s s2"
        using unchanged_trans [OF _ but_budget_unchanged [OF b(1) ok1(1)]] u1 ok(1) by simp
      ultimately show ?thesis using b(2) u1 ok(1) by simp
    next
      case (Inr lease)
      note c' = collectInlineSync_ok [OF c [unfolded Inr]]
      have t: "useBuffered [lease] (commitAppend cfg (a_path access) path (a_followed access) (mutationToken cfg before)
          (l_chunks lease) (l_size lease) tok posix (Some before)) s2 = (r, t)"
        using run Pair \<open>r1 = Inr ab\<close> ab c Inr by (simp add: appendFile_text_def bind_op_def)
      note o' = commitAppend_failed [OF t]
      have s2: "unchanged s1 s2" "usage_ok s2" "transactionDepth s2 = 0"
        using but_budget_unchanged [OF c'(1) ok1(1)] but_budget_view [OF c'(1)] ok1 by simp_all
      have "inFlight t = inFlight s" using o'(1) c'(3) u1 ok by simp
      moreover have "unchanged s t" if "r = Inl e" for e
        using unchanged_trans [OF _ unchanged_trans [OF s2(1) o'(2) [OF that s2(3,2)]]] u1 ok(1) by simp
      ultimately show ?thesis by blast
    qed
  qed
qed

section \<open>Preservation\<close>

lemma plans_advance: "plan_ok cfg v x \<Longrightarrow> evolves v w \<Longrightarrow> plan_ok cfg w x"
  using evolves_trans by (auto simp: plan_ok_def)

lemma session_keeps:
  assumes "session_ok cfg S" "advances cfg (se_vfs S) t"
    "\<And>x. x \<in> set ps \<Longrightarrow> x \<in> set (se_plans S) \<or> plan_ok cfg (view t) x"
    "\<And>bytes lease. (bytes, lease) \<in> set ls \<Longrightarrow>
      (bytes, lease) \<in> set (se_leases S) \<or> lease_of bytes lease \<and> suffix_given cfg bytes lease"
    "usedBytes (inFlight t) = (\<Sum>(bytes, lease) \<leftarrow> ls. int (l_accounted lease)) + (\<Sum>res \<leftarrow> rs. int (ir_held res))"
  shows "session_ok cfg (S\<lparr>se_vfs := t, se_plans := ps, se_appends := as, se_leases := ls, se_reads := rs\<rparr>) \<and>
    evolves (view (se_vfs S)) (view t) \<and> (within cfg (view (se_vfs S)) \<longrightarrow> within cfg (view t))"
proof -
  have a: "vfs_ok cfg t" "evolves (view (se_vfs S)) (view t)" "within cfg (view (se_vfs S)) \<longrightarrow> within cfg (view t)"
    using assms(2) by (simp_all add: advances_def)
  have "plan_ok cfg (view t) x" if "x \<in> set ps" for x
    using assms(3) [OF that] plans_advance [OF _ a(2), of cfg x] assms(1) by (metis session_ok_def)
  moreover have "lease_of bytes lease \<and> suffix_given cfg bytes lease" if "(bytes, lease) \<in> set ls" for bytes lease
    using assms(1) assms(4) [OF that] by (auto simp: session_ok_def)
  ultimately show ?thesis using a assms(5) by (auto simp: session_ok_def leased_def)
qed

lemma sum_remove1:
  "x \<in> set xs \<Longrightarrow> (\<Sum>y \<leftarrow> remove1 x xs. (f y :: int)) = (\<Sum>y \<leftarrow> xs. f y) - f x"
  by (induction xs) auto

lemma plan_made_ok:
  assumes "vfs_ok cfg s" "writeFile_plan cfg path guard options posix s = (Inr plan, t)"
  shows "plan_ok cfg (view s) (plan, options, view s)"
proof -
  have "vpost (planInlineWrite cfg path guard options posix None) (view s)
      (\<lambda>plan w. plan_facts cfg path guard options None (view s) plan)"
    by (rule vpost_planInlineWrite)
  from vpostD [OF this refl _ assms(2) [unfolded writeFile_plan_def]] assms(1)
  show ?thesis by (simp add: vfs_ok_def plan_facts_def plan_ok_def)
qed

lemma collect_outcome:
  assumes "collectInline cfg body held s = (r, t)"
  shows "but_budget s t"
    "r = Inl e \<Longrightarrow> inFlight t = inFlight s"
    "r = Inr lease \<Longrightarrow> lease_of (body_bytes body) lease \<and> suffix_given cfg (body_bytes body) lease \<and>
       usedBytes (inFlight t) = int (l_accounted lease) + usedBytes (inFlight s)"
proof -
  show "but_budget s t" using assms collecting_but_budget by (simp add: collectInline_def)
  show "inFlight t = inFlight s" if "r = Inl e"
    using assms that in_flight.collect_failure
    by (auto simp: collectInline_def collecting_op_def collectInlineBytes_def split: prod.splits sum.splits)
  assume r: "r = Inr lease"
  then obtain b' where c: "collectInlineBytes body (maxInlineFileBytes cfg) (chunkBytes cfg) held (inFlight s) = (Inr lease, b')"
    and t: "inFlight t = b'"
    using assms by (auto simp: collectInline_def collecting_op_def split: prod.splits sum.splits)
  have "usedBytes b' = int (l_accounted lease) + usedBytes (inFlight s)"
    using arg_cong [OF stream_lease(2) [OF c], of usedBytes] by (simp add: release_def)
  with stream_lease(1) [OF c] stream_suffix [OF assms [unfolded r]] t
  show "lease_of (body_bytes body) lease \<and> suffix_given cfg (body_bytes body) lease \<and>
       usedBytes (inFlight t) = int (l_accounted lease) + usedBytes (inFlight s)" by simp
qed

text \<open>The outcomes of the two streamed operations, successful or not.\<close>

lemma writeFile_streamed_outcome:
  assumes s: "vfs_ok cfg s" and plan: "canonical (p_path plan)" "p_skipIfUnchanged plan = wo_skipIfUnchanged options"
    and body: "lease_of bytes lease" "wo_skipIfUnchanged options \<longrightarrow> no_collision cfg (view s) (p_path plan) bytes"
    and run: "writeFile_streamed cfg plan lease options posix s = (r, t)"
  shows "advances cfg s t" "inFlight t = release (l_accounted lease) (inFlight s)"
proof -
  show "inFlight t = release (l_accounted lease) (inFlight s)"
    using writeFile_commit_outcome(1) [OF run [unfolded writeFile_streamed_def]] .
  show "advances cfg s t"
  proof (cases r)
    case (Inl e)
    with writeFile_commit_outcome(2) [OF run [unfolded writeFile_streamed_def]] s
    have "unchanged s t" by (simp add: vfs_ok_def)
    with s show ?thesis by (rule unchanged_advances)
  next
    case (Inr result)
    note c = writeFile_streamed_ok [OF s plan body run [unfolded Inr]]
    from committed_advances [OF c(1,2,4)] show ?thesis .
  qed
qed

lemma appended_advances: "vfs_ok cfg t \<Longrightarrow> appended cfg bytes s result e t \<Longrightarrow> advances cfg s t"
  by (simp add: advances_def appended_def append_result_def committed_def)

lemma appendFile_streamed_outcome:
  assumes s: "vfs_ok cfg s" and body: "suffix_given cfg bytes lease"
    and run: "appendFile_streamed cfg path access before lease tok posix s = (r, t)"
  shows "advances cfg s t" "inFlight t = release (l_accounted lease) (inFlight s)"
proof -
  note o' = commitAppend_failed [OF run [unfolded appendFile_streamed_def]]
  show "inFlight t = release (l_accounted lease) (inFlight s)" by (rule o'(1))
  show "advances cfg s t"
  proof (cases r)
    case (Inl e)
    with o'(2) s have "unchanged s t" by (simp add: vfs_ok_def)
    with s show ?thesis by (rule unchanged_advances)
  next
    case (Inr result)
    from appendFile_streamed_ok [OF s body run [unfolded Inr]] appended_advances show ?thesis by blast
  qed
qed

lemma writeFile_text_outcome:
  assumes s: "vfs_ok cfg s" "\<not> wo_skipIfUnchanged options"
    and run: "writeFile_text cfg path body guard options posix s = (r, t)"
  shows "advances cfg s t" "inFlight t = inFlight s"
proof -
  have "advances cfg s t \<and> inFlight t = inFlight s"
  proof (cases r)
    case (Inl e)
    from writeFile_text_failed [OF s(1) run [unfolded Inl]] unchanged_advances [OF s(1)] show ?thesis by blast
  next
    case (Inr result)
    note c = writeFile_text_ok [OF s run [unfolded Inr]]
    from committed_advances [OF c] writeFile_text_budget [OF s(1) run [unfolded Inr]] show ?thesis by blast
  qed
  then show "advances cfg s t" "inFlight t = inFlight s" by simp_all
qed

lemma appendFile_text_outcome:
  assumes s: "vfs_ok cfg s" and run: "appendFile_text cfg path body tok posix s = (r, t)"
  shows "advances cfg s t" "inFlight t = inFlight s"
proof -
  note o' = append_text_parts [OF run s]
  show "inFlight t = inFlight s" using o' by blast
  show "advances cfg s t"
  proof (cases r)
    case (Inl e)
    with o' unchanged_advances [OF s] show ?thesis by blast
  next
    case (Inr result)
    from appendFile_text_ok [OF s run [unfolded Inr]] appended_advances show ?thesis by blast
  qed
qed

text \<open>Reads, and the operations on names.\<close>

lemma readFile_outcome:
  assumes s: "vfs_ok cfg s" and run: "readFile cfg path range' posix s = (Inr res, t)"
  shows "advances cfg s t" "usedBytes (inFlight t) = usedBytes (inFlight s) + int (ir_held res)"
proof -
  from readFile_ok [OF s run] obtain access e where
    e: "e \<in> set (entries (tables s))" "is_inline e" "after_read s e (ir_held res) t" by (auto simp: read_bytes_def)
  have "view t = view s" "sound cfg (view s)" using e(3) s by (simp_all add: after_read_def vfs_ok_def)
  with after_read_ok [OF s e(3,1,2)] evolves_refl show "advances cfg s t" by (simp add: advances_def)
  show "usedBytes (inFlight t) = usedBytes (inFlight s) + int (ir_held res)" using e(3) by (simp add: after_read_def)
qed

lemma calm_outcome:
  assumes "calm m" "vfs_ok cfg s" "m s = (r, t)" "\<And>x. r = Inr x \<Longrightarrow> advances cfg s t"
  shows "advances cfg s t" "inFlight t = inFlight s"
proof -
  note c = calmD [OF assms(1-3)]
  show "inFlight t = inFlight s" using c by blast
  show "advances cfg s t" using c assms(4) unchanged_advances [OF assms(2)] by (cases r) blast+
qed

lemma mkdir_advances:
  assumes "vfs_ok cfg s" "mkdir cfg path recursive mode' posix s = (Inr st, t)"
  shows "advances cfg s t"
  using mkdir_ok [OF assms] evolves_refl by (auto simp: advances_def placed_def simp del: view_fields)

lemma symlink_advances:
  assumes "vfs_ok cfg s" "symlink cfg path target options posix s = (Inr st, t)"
  shows "advances cfg s t"
  using symlink_ok [OF assms] by (auto simp: advances_def placed_def simp del: view_fields)

lemma remove_advances:
  assumes "vfs_ok cfg s" "utf8_paths (entries (tables s))" "remove cfg path recursive posix s = (Inr y, t)"
  shows "advances cfg s t"
  using remove_ok [OF assms] by (auto simp: advances_def taken_out_def simp del: view_fields)

lemma metadata_advances:
  assumes s: "vfs_ok cfg s"
  shows "setMetadata cfg path options posix fol written s = (Inr st, t) \<Longrightarrow> advances cfg s t"
    "setOwnership cfg path ownership posix s = (Inr st, t) \<Longrightarrow> advances cfg s t"
    "touch cfg path touching posix s = (Inr st, t) \<Longrightarrow> advances cfg s t"
proof -
  show "setMetadata cfg path options posix fol written s = (Inr st, t) \<Longrightarrow> advances cfg s t"
    using setMetadata_ok [OF s] restated_sound unfolding advances_def by blast
  show "setOwnership cfg path ownership posix s = (Inr st, t) \<Longrightarrow> advances cfg s t"
    using setOwnership_ok [OF s] restated_sound unfolding advances_def by blast
  assume run: "touch cfg path touching posix s = (Inr st, t)"
  from touch_ok(1) [OF s run] have "evolves (view s) (view t) \<and> (within cfg (view s) \<longrightarrow> within cfg (view t))"
    by (auto simp: placed_def dest!: restated_sound split: if_splits simp del: view_fields)
  with touch_ok(2) [OF s run] show "advances cfg s t" by (simp add: advances_def)
qed

lemma session_step_ok:
  assumes "session_step cfg S S'" "session_ok cfg S"
  shows "session_ok cfg S' \<and> evolves (view (se_vfs S)) (view (se_vfs S')) \<and>
    (within cfg (view (se_vfs S)) \<longrightarrow> within cfg (view (se_vfs S')))"
proof -
  have s: "vfs_ok cfg (se_vfs S)" and used: "usedBytes (inFlight (se_vfs S)) = leased S"
    and plans: "\<And>x. x \<in> set (se_plans S) \<Longrightarrow> plan_ok cfg (view (se_vfs S)) x"
    and leases: "\<And>bytes lease. (bytes, lease) \<in> set (se_leases S) \<Longrightarrow> lease_of bytes lease \<and> suffix_given cfg bytes lease"
    using assms(2) by (auto simp: session_ok_def)
  have kept: ?thesis
    if t: "advances cfg (se_vfs S) t"
      "S' = S\<lparr>se_vfs := t, se_plans := ps, se_appends := as, se_leases := ls, se_reads := rs\<rparr>"
      "\<And>x. x \<in> set ps \<Longrightarrow> x \<in> set (se_plans S) \<or> plan_ok cfg (view t) x"
      "\<And>bytes lease. (bytes, lease) \<in> set ls \<Longrightarrow>
        (bytes, lease) \<in> set (se_leases S) \<or> lease_of bytes lease \<and> suffix_given cfg bytes lease"
      "usedBytes (inFlight t) = (\<Sum>(bytes, lease) \<leftarrow> ls. int (l_accounted lease)) + (\<Sum>res \<leftarrow> rs. int (ir_held res))" for t ps as ls rs
    using session_keeps [OF assms(2) t(1,3-5), where as = as] by (simp add: t(2))
  have at_once: ?thesis if t: "advances cfg (se_vfs S) t" "inFlight t = inFlight (se_vfs S)" "S' = S\<lparr>se_vfs := t\<rparr>" for t
    by (rule kept [OF t(1), where ps = "se_plans S" and as = "se_appends S" and ls = "se_leases S" and rs = "se_reads S"]) (use t(2,3) used in \<open>simp_all add: leased_def\<close>)
  have consumed: ?thesis
    if t: "(bytes, lease) \<in> set (se_leases S)" "advances cfg (se_vfs S) t"
      "inFlight t = release (l_accounted lease) (inFlight (se_vfs S))"
      "S' = S\<lparr>se_vfs := t, se_plans := ps, se_appends := as, se_leases := remove1 (bytes, lease) (se_leases S)\<rparr>"
      "set ps \<subseteq> set (se_plans S)" for bytes lease t ps as
  proof (rule kept [OF t(2), where ps = ps and as = as and rs = "se_reads S"])
    show "S' = S\<lparr>se_vfs := t, se_plans := ps, se_appends := as, se_leases := remove1 (bytes, lease) (se_leases S),
        se_reads := se_reads S\<rparr>" by (simp add: t(4))
    show "x \<in> set (se_plans S) \<or> plan_ok cfg (view t) x" if "x \<in> set ps" for x using that t(5) by blast
    show "(bytes', lease') \<in> set (se_leases S) \<or> lease_of bytes' lease' \<and> suffix_given cfg bytes' lease'"
      if "(bytes', lease') \<in> set (remove1 (bytes, lease) (se_leases S))" for bytes' lease'
      using that set_remove1_subset by fastforce
    show "usedBytes (inFlight t) = (\<Sum>(bytes, lease) \<leftarrow> remove1 (bytes, lease) (se_leases S). int (l_accounted lease)) +
        (\<Sum>res \<leftarrow> se_reads S. int (ir_held res))"
      using sum_remove1 [OF t(1), of "\<lambda>(bytes, lease). int (l_accounted lease)"] used t(3)
      by (simp add: leased_def release_def)
  qed
  from assms(1) show ?thesis
  proof cases
    case (write_text path body guard options posix r t)
    show ?thesis by (rule at_once [OF writeFile_text_outcome [OF s write_text(3,2)] write_text(1)])
  next
    case (plan_made path guard options posix plan t)
    have like: "like (se_vfs S) t" using silentD [OF silent_plans(1)] plan_made(2) by (simp add: writeFile_plan_def)
    note l = like_advances [OF s like]
    show ?thesis
      by (rule kept [OF conjunct1 [OF l], where ps = "(plan, options, view (se_vfs S)) # se_plans S" and as = "se_appends S" and ls = "se_leases S" and rs = "se_reads S"])
         (use plan_made_ok [OF s plan_made(2)] l used plan_made(1) in \<open>auto simp: leased_def simp del: view_fields\<close>)
  next
    case (plan_refused path guard options posix e t)
    have "like (se_vfs S) t" using silentD [OF silent_plans(1)] plan_refused(2) by (simp add: writeFile_plan_def)
    note l = like_advances [OF s this]
    show ?thesis by (rule at_once [OF _ _ plan_refused(1)]) (use l in blast)+
  next
    case (collected body held lease t)
    note o' = collect_outcome [OF collected(2)]
    show ?thesis
      by (rule kept [OF but_budget_advances [OF s o'(1)], where ps = "se_plans S" and as = "se_appends S" and ls = "(body_bytes body, lease) # se_leases S" and rs = "se_reads S"])
         (use o'(3) [OF refl] used collected(1) in \<open>auto simp: leased_def\<close>)
  next
    case (collect_refused body held e t)
    note o' = collect_outcome [OF collect_refused(2)]
    from at_once [OF but_budget_advances [OF s o'(1)] o'(2) [OF refl] collect_refused(1)] show ?thesis .
  next
    case (write_streamed plan options v bytes lease posix r t)
    from plans [OF write_streamed(2)] have p: "canonical (p_path plan)" "p_skipIfUnchanged plan = wo_skipIfUnchanged options"
      by (simp_all add: plan_ok_def)
    note o' = writeFile_streamed_outcome [OF s p conjunct1 [OF leases [OF write_streamed(3)]] write_streamed(4,5)]
    show ?thesis
      by (rule consumed [OF write_streamed(3) o', where ps = "remove1 (plan, options, v) (se_plans S)" and as = "se_appends S"])
         (simp_all add: write_streamed(1) set_remove1_subset)
  next
    case (append_text path body tok posix r t)
    show ?thesis by (rule at_once [OF appendFile_text_outcome [OF s append_text(2)] append_text(1)])
  next
    case (append_begun path tok posix access before t)
    have "like (se_vfs S) t" using silentD [OF silent_append_plans(3)] append_begun(2) by blast
    note l = like_advances [OF s this]
    show ?thesis
      by (rule kept [OF conjunct1 [OF l], where ps = "se_plans S" and as = "(access, before, view (se_vfs S)) # se_appends S" and ls = "se_leases S" and rs = "se_reads S"])
         (use l used append_begun(1) in \<open>auto simp: leased_def\<close>)
  next
    case (append_refused path tok posix e t)
    have "like (se_vfs S) t" using silentD [OF silent_append_plans(3)] append_refused(2) by blast
    note l = like_advances [OF s this]
    show ?thesis by (rule at_once [OF _ _ append_refused(1)]) (use l in blast)+
  next
    case (append_streamed access before v bytes lease path tok posix r t)
    note o' = appendFile_streamed_outcome [OF s conjunct2 [OF leases [OF append_streamed(3)]] append_streamed(4)]
    show ?thesis
      by (rule consumed [OF append_streamed(3) o', where ps = "se_plans S" and as = "remove1 (access, before, v) (se_appends S)"])
         (simp_all add: append_streamed(1))
  next
    case (read_started path range' posix res t)
    note o' = readFile_outcome [OF s read_started(2)]
    show ?thesis
      by (rule kept [OF o'(1), where ps = "se_plans S" and as = "se_appends S" and ls = "se_leases S" and rs = "res # se_reads S"])
         (use o'(2) used read_started(1) in \<open>auto simp: leased_def\<close>)
  next
    case (read_refused path range' posix e t)
    note l = like_advances [OF s readFile_failed [OF read_refused(2)]]
    show ?thesis by (rule at_once [OF _ _ read_refused(1)]) (use l in blast)+
  next
    case (read_finished res)
    have b: "but_budget (se_vfs S) (finishRead res (se_vfs S))"
      unfolding finishRead_def release_op_def
      by (rule but_budgetI [where es = "emitted (se_vfs S)" and due = "alarm (se_vfs S)"]) simp
    have "usedBytes (inFlight (finishRead res (se_vfs S))) = usedBytes (inFlight (se_vfs S)) - int (ir_held res)"
      by (simp add: finishRead_def release_op_def release_def)
    then show ?thesis
      using kept [OF but_budget_advances [OF s b], where ps = "se_plans S" and as = "se_appends S" and ls = "se_leases S" and rs = "remove1 res (se_reads S)"]
        sum_remove1 [OF read_finished(2), of "\<lambda>res. int (ir_held res)"] used read_finished(1)
      by (simp add: leased_def)
  next
    case (made_directory path recursive mode' posix x t)
    note o' = calm_outcome [OF calm_mkdir s made_directory(2) mkdir_advances [OF s]]
    show ?thesis by (rule at_once [OF o' made_directory(1)]) (use made_directory(2) in simp_all)
  next
    case (linked path target link_options posix x t)
    note o' = calm_outcome [OF calm_symlink s linked(2) symlink_advances [OF s]]
    show ?thesis by (rule at_once [OF o' linked(1)]) (use linked(2) in simp_all)
  next
    case (removed path recursive posix y t)
    note o' = calm_outcome [OF calm_remove s removed(2) remove_advances [OF s removed(3)]]
    show ?thesis by (rule at_once [OF o' removed(1)]) (use removed(2) in simp_all)
  next
    case (restamped path metadata posix x t)
    note o' = calm_outcome [OF calm_setMetadata s restamped(2) metadata_advances(1) [OF s]]
    show ?thesis by (rule at_once [OF o' restamped(1)]) (use restamped(2) in simp_all)
  next
    case (chowned path ownership posix x t)
    note o' = calm_outcome [OF calm_setOwnership s chowned(2) metadata_advances(2) [OF s]]
    show ?thesis by (rule at_once [OF o' chowned(1)]) (use chowned(2) in simp_all)
  next
    case (was_touched path touching posix x t)
    note o' = calm_outcome [OF calm_touch s was_touched(2) metadata_advances(3) [OF s]]
    show ?thesis by (rule at_once [OF o' was_touched(1)]) (use was_touched(2) in simp_all)
  next
    case (time_passed now)
    define t where "t = (se_vfs S)\<lparr>clock := now\<rparr>"
    have t: "view t = view (se_vfs S)" "usage_ok t = usage_ok (se_vfs S)" "lastInlineRead t = lastInlineRead (se_vfs S)"
      "transactionDepth t = transactionDepth (se_vfs S)" "inFlight t = inFlight (se_vfs S)"
      by (cases "transactionUsage (se_vfs S)"; simp add: t_def view_def usage_ok_def charge_def)+
    then have "unchanged (se_vfs S) t"
      using s by (simp add: unchanged_def vfs_ok_def view_simps)
    from unchanged_advances [OF s this] have "advances cfg (se_vfs S) t" .
    from at_once [OF this t(5)] time_passed show ?thesis by (simp add: t_def)
  qed
qed

section \<open>What is reachable\<close>

lemma new_session_ok: "session_ok cfg (new_session now maxInFlight)"
  by (simp add: session_ok_def new_session_def new_vfs_ok leased_def) (simp add: opened_def)

lemma session_run_ok:
  assumes "(session_step cfg)\<^sup>*\<^sup>* S S'" "session_ok cfg S"
  shows "session_ok cfg S' \<and> evolves (view (se_vfs S)) (view (se_vfs S')) \<and>
    (within cfg (view (se_vfs S)) \<longrightarrow> within cfg (view (se_vfs S')))"
  using assms
proof (induction rule: rtranclp_induct)
  case (step S' S'')
  then show ?case using session_step_ok [OF step(2)] evolves_trans by blast
qed simp

end
