(* ===== verification/Vfs_Promises.thy ===== *)
theory Vfs_Promises
  imports Vfs_Session
begin

text \<open>
  What the writes of \<open>src/vfs/sql-write-base.ts\<close> promise, over the contents of a filesystem:
  a path to a directory, bytes, a link or an object. The last part is about names that have come
  to mean another file while a body was streaming.
\<close>

section \<open>An example\<close>

definition small_config :: Config where
  "small_config = \<lparr>chunkBytes = 4, maxInlineFileBytes = 64, maxInlineLogicalBytes = 100, maxEntries = 10,
     maxDatabaseBytes = 1000, minDatabaseHeadroomBytes = 0, recordChanges = False, observed = False,
     mutationEpoch = js ''e'', sha256Hex = (\<lambda>_. []), uploadSettlementGraceMs = 0, hasOpaqueStore = False,
     databaseSize = (\<lambda>_. 0)\<rparr>"

definition plain_options :: WriteOptions where
  "plain_options = \<lparr>wo_createParents = False, wo_disposition = Upsert, wo_skipIfUnchanged = False\<rparr>"

definition no_guard :: WriteGuard where
  "no_guard = \<lparr>wg_ifMutationToken = None, wg_mode = None\<rparr>"

definition file_a :: jstring where
  "file_a = path_of [js ''a'']"

definition new_vfs :: Vfs where
  "new_vfs = opened 5 100 new_tables"

lemma file_a_facts:
  "canonical file_a" "normalizePath file_a [SLASH] = Inr file_a" "\<not> pathRequiresDirectory file_a"
  "\<not> hasDotSegments file_a" "file_a \<noteq> [SLASH]" "[SLASH] \<noteq> file_a"
proof -
  show a: "canonical file_a" "normalizePath file_a [SLASH] = Inr file_a" using example_paths(1) by (simp_all add: file_a_def)
  show "\<not> hasDotSegments file_a" using canonical_no_dots [OF a(1)] .
  show "file_a \<noteq> [SLASH]" "[SLASH] \<noteq> file_a" "\<not> pathRequiresDirectory file_a"
    by (simp_all add: file_a_def path_of_def pathRequiresDirectory_def ends_with_char_Cons SLASH_def)
qed

lemma new_vfs_facts:
  "tables new_vfs = new_tables" "links new_tables = 0" "find_entry file_a new_tables = None"
  "find_tombstone file_a new_tables = None" "inFlight new_vfs = \<lparr>usedBytes = 0, maximumBytes = 100\<rparr>"
  by (simp_all add: new_vfs_def opened_def new_tables_def links_def root_row_def is_symlink_def find_entry_def
      file_a_facts find_tombstone_def)

definition plan_a :: InlineWritePlan where
  "plan_a = \<lparr>p_written = file_a, p_path = file_a, p_followed = [], p_createParents = False, p_disposition = Upsert,
     p_skipIfUnchanged = False, p_mode = None, p_guard = None, p_capturedToken = NEVER_MUTATED_TOKEN,
     p_capturedEntry = None, p_conditional = None\<rparr>"

lemma plan_a_made: "writeFile_plan small_config file_a no_guard plain_options None new_vfs = (Inr plan_a, new_vfs)"
  by (simp add: writeFile_plan_def planInlineWrite_def resolveAccess_def Let_def op_simps file_a_facts pathState_def
      new_vfs_facts assertWriteAccess_def validateGuard_def no_guard_def plain_options_def plan_a_def)

definition lease_a :: BufferedChunksLease where
  "lease_a = \<lparr>l_chunks = [[1, 2]], l_size = 2, l_accounted = 2\<rparr>"

lemma lease_a_collected:
  "collectInline small_config (Bytes [1, 2]) 0 new_vfs =
     (Inr lease_a, new_vfs\<lparr>inFlight := \<lparr>usedBytes = 2, maximumBytes = 100\<rparr>\<rparr>)"
proof -
  have "collectMaterialized acquire 0 64 4 [1, 2] (\<lparr>usedBytes = 0, maximumBytes = 100\<rparr>, 0, [], []) =
      Some (Inr (), (\<lparr>usedBytes = 2, maximumBytes = 100\<rparr>, 2, [[1, 2]], []))"
    by (simp add: collectMaterialized_def acquire_def)
  then have "collectInlineBytes (Bytes [1, 2]) 64 4 0 \<lparr>usedBytes = 0, maximumBytes = 100\<rparr> =
      (Inr lease_a, \<lparr>usedBytes = 2, maximumBytes = 100\<rparr>)"
    by (simp add: collectInlineBytes_def collect_with_def collectRechunkedBytes_def bindr_def validateChunkBytes_def
        validateMaximumBytes_def body_chunks_def MAX_SAFE_INTEGER_def Let_def lease_a_def)
  then show ?thesis by (simp add: collectInline_def collecting_op_def new_vfs_facts small_config_def)
qed

definition session_a :: Session where
  "session_a = \<lparr>se_vfs = new_vfs\<lparr>inFlight := \<lparr>usedBytes = 2, maximumBytes = 100\<rparr>\<rparr>,
     se_plans = [(plan_a, plain_options, view new_vfs)], se_appends = [], se_leases = [([1, 2], lease_a)], se_reads = []\<rparr>"

lemma session_a_reachable: "(session_step small_config)\<^sup>*\<^sup>* (new_session 5 100) session_a"
proof -
  let ?S = "new_session 5 100"
  have start: "se_vfs ?S = new_vfs" "se_plans ?S = []" "se_appends ?S = []" "se_leases ?S = []"
    by (simp_all add: new_session_def new_vfs_def)
  let ?S1 = "?S\<lparr>se_vfs := new_vfs, se_plans := (plan_a, plain_options, view (se_vfs ?S)) # se_plans ?S\<rparr>"
  have 1: "session_step small_config ?S ?S1"
    by (rule session_step.plan_made [of _ file_a no_guard _ None]) (simp add: start plan_a_made)
  have 2: "session_step small_config ?S1 (?S1\<lparr>se_vfs := new_vfs\<lparr>inFlight := \<lparr>usedBytes = 2, maximumBytes = 100\<rparr>\<rparr>,
      se_leases := (body_bytes (Bytes [1, 2]), lease_a) # se_leases ?S1\<rparr>)"
    by (rule session_step.collected [of _ _ 0]) (simp add: lease_a_collected)
  have "?S1\<lparr>se_vfs := new_vfs\<lparr>inFlight := \<lparr>usedBytes = 2, maximumBytes = 100\<rparr>\<rparr>,
      se_leases := (body_bytes (Bytes [1, 2]), lease_a) # se_leases ?S1\<rparr> = session_a"
    by (simp add: session_a_def new_session_def new_vfs_def body_bytes_def body_chunks_def)
  with 1 2 show ?thesis by (metis (no_types) converse_rtranclp_into_rtranclp rtranclp.rtrancl_refl)
qed

section \<open>The contents after an append\<close>

lemma appended_contents:
  assumes "vfs_ok cfg s" "appended cfg bytes s result found t"
  shows "\<exists>old. fst (requireEntry (wr_path result) True s) = Inr found \<and> fs (view s) (e_path found) = Some (Data old) \<and>
    fs (view t) = (fs (view s))(e_path found \<mapsto> Data (old @ bytes)) \<and> wr_size result = length old + length bytes \<and>
    wr_token result = token_at cfg (view t) (e_path found)"
proof -
  have found: "found \<in> set (v_entries (view s))" "is_inline found" "names s (wr_path result) found"
    "committed cfg (e_path found) (body_of (e_id found) (chunks (tables s)) @ bytes) (view s) (result\<lparr>wr_path := e_path found\<rparr>) (view t)"
    using assms(2) by (simp_all add: appended_def append_result_def)
  have sound: "sound cfg (view s)" using assms(1) by (simp add: vfs_ok_def)
  then have "entry_at (e_path found) (v_entries (view s)) = Some found"
    using tree_entry [of "v_entries (view s)"] found(1) by (simp add: sound_def)
  then have "fs (view s) (e_path found) = Some (Data (body_of (e_id found) (chunks (tables s))))"
    using found(2) by (simp add: fs_def node_of_def is_inline_def)
  moreover have "mkdirs (e_path found) (fs (view s)) = fs (view s)" using mkdirs_existing [OF sound found(1)] by simp
  ultimately show ?thesis
    using found(3,4) by (auto simp: committed_def abs_write_def names_def)
qed

section \<open>Properties\<close>









text \<open>
  C3. A mutation token names one content of its path for ever. If a path has the same token
  in two states of a session, however far apart, it has the same content in both: a path that is
  changed and changed back has another token.
\<close>

theorem tokens_name_contents:
  assumes "(session_step cfg)\<^sup>*\<^sup>* (new_session now maxInFlight) S" "(session_step cfg)\<^sup>*\<^sup>* S S'"
    "fst (tokenFor cfg path (se_vfs S)) = fst (tokenFor cfg path (se_vfs S'))"
  shows "fs (view (se_vfs S')) path = fs (view (se_vfs S)) path"
proof -
  have "session_ok cfg S" using session_run_ok [OF assms(1) new_session_ok] by simp
  from session_run_ok [OF assms(2) this] have "evolves (view (se_vfs S)) (view (se_vfs S'))" by simp
  moreover have "fst (tokenFor cfg path s) = Inr (token_at cfg (view s) path)" for s
    by (simp add: tokenFor_def gets_op_def token_at_def find_entry_at find_tombstone_def mutationToken_def
        split: option.splits)
  ultimately show ?thesis using token_content assms(3) by fastforce
qed

theorem tokens_name_contents_witness:
  "fs (view (se_vfs session_a)) file_a = fs (view (se_vfs (new_session 5 100))) file_a"
proof (rule tokens_name_contents [of small_config, OF rtranclp.rtrancl_refl session_a_reachable])
  show "fst (tokenFor small_config file_a (se_vfs (new_session 5 100))) = fst (tokenFor small_config file_a (se_vfs session_a))"
    by (simp add: session_a_def new_session_def new_vfs_def [symmetric] tokenFor_def gets_op_def new_vfs_facts(1,3,4))
qed

text \<open>
  C6. Appending a text extends the file the path names by exactly its bytes, whatever width
  its chunks were stored with, and changes nothing else; an append that fails changes no row.
\<close>

theorem text_append_extends:
  assumes "vfs_ok cfg s"
  shows "case appendFile_text cfg path body ifMutationToken posix s of
     (Inr result, t) \<Rightarrow>
       vfs_ok cfg t \<and> inFlight t = inFlight s \<and>
       (\<exists>found old. fst (requireEntry (wr_path result) True s) = Inr found \<and> fs (view s) (e_path found) = Some (Data old) \<and>
          fs (view t) = (fs (view s))(e_path found \<mapsto> Data (old @ encodeUtf8 body)) \<and>
          wr_size result = length old + length (encodeUtf8 body) \<and>
          wr_token result = token_at cfg (view t) (e_path found))
   | (Inl e, t) \<Rightarrow>
       vfs_ok cfg t \<and> inFlight t = inFlight s \<and> view t = (view s)\<lparr>v_nextIno := nextIno t\<rparr>"
proof (cases "appendFile_text cfg path body ifMutationToken posix s")
  case (Pair r t)
  note parts = append_text_parts [OF Pair assms]
  show ?thesis
  proof (cases r)
    case (Inl e)
    with parts unchanged_ok [OF assms] Pair show ?thesis by (auto simp: unchanged_def)
  next
    case (Inr result)
    from appendFile_text_ok [OF assms Pair [unfolded Inr]] obtain found where
      t: "vfs_ok cfg t" and found: "appended cfg (encodeUtf8 body) s result found t" by blast
    from appended_contents [OF assms found] t parts Pair Inr show ?thesis by auto
  qed
qed

theorem text_append_extends_witness:
  "case appendFile_text small_config file_a (js ''hi'') None None new_vfs of
     (Inr result, t) \<Rightarrow>
       vfs_ok small_config t \<and> inFlight t = inFlight new_vfs \<and>
       (\<exists>found old. fst (requireEntry (wr_path result) True new_vfs) = Inr found \<and>
          fs (view new_vfs) (e_path found) = Some (Data old) \<and>
          fs (view t) = (fs (view new_vfs))(e_path found \<mapsto> Data (old @ encodeUtf8 (js ''hi''))) \<and>
          wr_size result = length old + length (encodeUtf8 (js ''hi'')) \<and>
          wr_token result = token_at small_config (view t) (e_path found))
   | (Inl e, t) \<Rightarrow>
       vfs_ok small_config t \<and> inFlight t = inFlight new_vfs \<and> view t = (view new_vfs)\<lparr>v_nextIno := nextIno t\<rparr>"
  by (rule text_append_extends) (simp add: new_vfs_def new_vfs_ok)

section \<open>A path that has become another file\<close>

text \<open>
  Two empty files \<open>/a\<close> and \<open>/b\<close>, and the same tables after \<open>/a\<close> was removed and a link to \<open>/b\<close>
  put in its place, as its third version.
\<close>

definition file_b :: jstring where
  "file_b = path_of [js ''b'']"

definition empty_file :: "nat \<Rightarrow> jstring \<Rightarrow> string \<Rightarrow> EntryRow" where
  "empty_file i path name' = root_row\<lparr>e_id := i, e_path := path, e_name := js name', e_kind := Inline, e_mode := FILE_MODE,
     e_linkCount := 1\<rparr>"

definition link_a :: EntryRow where
  "link_a = root_row\<lparr>e_id := 4, e_path := file_a, e_name := js ''a'', e_kind := Symlink file_b, e_linkCount := 1, e_version := 3\<rparr>"

definition two_files :: Vfs where
  "two_files = opened 5 100 (new_tables\<lparr>entries := [root_row, empty_file 2 file_a ''a'', empty_file 3 file_b ''b''],
     usage_entries := 3, next_ino := 4\<rparr>)"

definition linked_files :: Vfs where
  "linked_files = opened 6 100 (new_tables\<lparr>entries := [root_row, empty_file 3 file_b ''b'', link_a],
     usage_entries := 3, next_ino := 5\<rparr>)"

lemma file_b_facts:
  "canonical file_b" "\<not> hasDotSegments file_b" "file_b \<noteq> [SLASH]" "[SLASH] \<noteq> file_b" "file_a \<noteq> file_b" "file_b \<noteq> file_a"
  "\<not> pathRequiresDirectory file_b"
proof -
  have "valid_segment (js ''b'')" using example_paths(5) by simp
  then show b: "canonical file_b"
    unfolding file_b_def by (intro canonical_path_of) (simp_all add: path_of_def js_consts ascii_length MAX_PATH_BYTES_def)
  show "\<not> hasDotSegments file_b" using canonical_no_dots [OF b] .
  show "file_b \<noteq> [SLASH]" "[SLASH] \<noteq> file_b" "file_a \<noteq> file_b" "file_b \<noteq> file_a" "\<not> pathRequiresDirectory file_b"
    by (simp_all add: file_a_def file_b_def path_of_def pathRequiresDirectory_def ends_with_char_Cons SLASH_def)
qed

lemma link_a_leads: "linkDestination link_a = Inr file_b"
proof -
  have "normalizeResolutionPath file_b cwd = Inr file_b" for cwd
    using file_b_facts(1,2) by (simp add: normalizeResolutionPath_def absolute_path_def) (simp add: file_b_def path_of_def)
  then show ?thesis using file_b_facts(7) by (simp add: linkDestination_def link_a_def Let_def)
qed

lemma linked_a_is_b:
  assumes "entries (tables s) = [root_row, empty_file 3 file_b ''b'', link_a]"
  shows "requireEntry file_a True s = (Inr (empty_file 3 file_b ''b''), s)"
proof -
  obtain n where n: "resolve_fuel = Suc (Suc n)" by (simp add: resolve_fuel_def MAX_PATH_BYTES_def MAX_SYMLINK_HOPS_def) 
  have e: "find_entry file_a (tables s) = Some link_a" "find_entry file_b (tables s) = Some (empty_file 3 file_b ''b'')"
    "is_symlink link_a" "e_path link_a = file_a" "\<not> is_symlink (empty_file 3 file_b ''b'')" "links (tables s) = 1"
    using file_a_facts file_b_facts
    by (simp_all add: find_entry_def assms links_def link_a_def empty_file_def root_row_def is_symlink_def)
  have "resolveEntry (tables s) file_a True = Inr \<lparr>r_path = file_b, r_row = Some (empty_file 3 file_b ''b''),
      r_followed = [file_a], r_hops = 1\<rparr>"
    unfolding resolveEntry_def n
    by (simp add: MAX_SYMLINK_HOPS_def file_a_facts file_b_facts e followsTerminalLink_def link_a_leads)
  then show ?thesis
    by (simp add: requireEntry_def oneResolved_def resolveEntry_op_def op_simps e bind_op_def)
qed

end
