(* ===== verification/Vfs_Success.thy ===== *)
theory Vfs_Success
  imports Vfs_Read
begin

text \<open>
  Operations that return. The rules of \<open>vpost\<close> say what holds if an operation returns; here an
  operation does return, from states where what it checks is so. A write within the limits, by
  the trusted caller and without a guard, is not refused.
\<close>

section \<open>Returning\<close>

definition returns :: "'a op \<Rightarrow> Vfs \<Rightarrow> bool" where
  "returns m s \<longleftrightarrow> (\<exists>x t. m s = (Inr x, t))"

definition total_op :: "'a op \<Rightarrow> bool" where
  "total_op m \<longleftrightarrow> (\<forall>s. returns m s)"

named_theorems total_intros \<open>rules for operations that always return\<close>

lemma returnsI: "m s = (Inr x, t) \<Longrightarrow> returns m s"
  by (auto simp: returns_def)

lemma total_returns: "total_op m \<Longrightarrow> returns m s"
  by (simp add: total_op_def)

lemma returns_bind:
  "returns m s \<Longrightarrow> (\<And>x t. m s = (Inr x, t) \<Longrightarrow> returns (f x) t) \<Longrightarrow> returns (bind_op m f) s"
  by (auto simp: returns_def bind_op_def)

text \<open>The first part returns, and a postcondition says where it leads.\<close>

lemma returns_via:
  assumes "vpost m (view s) Q" "usage_ok s" "returns m s" "\<And>x t. Q x (view t) \<Longrightarrow> usage_ok t \<Longrightarrow> returns (f x) t"
  shows "returns (bind_op m f) s"
proof (rule returns_bind [OF assms(3)])
  fix x t assume "m s = (Inr x, t)"
  from vpostD [OF assms(1) refl assms(2) this] assms(2,4) show "returns (f x) t" by (simp add: moved_def)
qed

lemma returns_silent:
  assumes "silent m" "usage_ok s" "returns m s" "\<And>x t. view t = view s \<Longrightarrow> usage_ok t \<Longrightarrow> returns (f x) t"
  shows "returns (bind_op m f) s"
proof (rule returns_bind [OF assms(3)])
  fix x t assume "m s = (Inr x, t)"
  from silentD [OF assms(1) this] assms(2,4) show "returns (f x) t" by (auto simp: like_def)
qed

lemma total_simple [total_intros]:
  "total_op (return_op x)" "total_op (gets_op g)" "total_op (modify_op h)" "total_op (exec_op k)" "total_op (lift_op (Inr x))"
  by (auto simp: total_op_def returns_def return_op_def gets_op_def modify_op_def exec_op_def lift_op_def)

lemma total_bind [total_intros]: "total_op m \<Longrightarrow> (\<And>x. total_op (f x)) \<Longrightarrow> total_op (bind_op m f)"
  unfolding total_op_def by (blast intro: returns_bind)

lemma total_if [total_intros]: "(b \<Longrightarrow> total_op m) \<Longrightarrow> (\<not> b \<Longrightarrow> total_op n) \<Longrightarrow> total_op (if b then m else n)"
  by simp

lemma total_when [total_intros]: "total_op m \<Longrightarrow> total_op (when_op b m)"
  by (simp add: when_op_def total_simple)

lemma total_option [total_intros]:
  "total_op m \<Longrightarrow> (\<And>x. total_op (f x)) \<Longrightarrow> total_op (case v of None \<Rightarrow> m | Some x \<Rightarrow> f x)"
  by (cases v) auto

lemma total_pair [total_intros]: "(\<And>x y. total_op (f x y)) \<Longrightarrow> total_op (case v of (x, y) \<Rightarrow> f x y)"
  by (cases v) auto

lemma total_let [total_intros]: "(\<And>x. total_op (f x)) \<Longrightarrow> total_op (let x = v in f x)"
  by simp

lemma total_each [total_intros]: "(\<And>x. total_op (f x)) \<Longrightarrow> total_op (each_op f xs)"
  by (induction xs) (auto intro: total_intros)

section \<open>Operations that always return\<close>

lemma total_usage [total_intros]: "total_op usage"
  by (auto simp: total_op_def returns_def usage_def Let_def split: option.splits)

lemma total_notes [total_intros]:
  "total_op (nextChangeSeq cfg)" "total_op (recordPathChange cfg path present changeSeq)" "total_op (emit_op cfg event)"
  "total_op (updateUsage cfg b n)" "total_op (oneEntry path)" "total_op (pathState cfg path)"
  "total_op (nextEntryVersion path v)" "total_op (noteDirectoryDelta parent delta)" "total_op (opaqueObject i)"
  unfolding nextChangeSeq_def recordPathChange_def emit_op_def updateUsage_def oneEntry_def pathState_def writeUsage_def
    nextEntryVersion_def noteDirectoryDelta_def opaqueObject_def
  by (intro total_intros)+

lemma total_recordMutation:
  "m_op m \<notin> {MCreate, MRemove, MMove} \<or> (\<exists>up. dirname (m_path m) = Inr up) \<and> m_subtree m = None \<Longrightarrow>
   total_op (recordMutation cfg m)"
  unfolding recordMutation_def by (auto intro!: total_intros split: option.splits prod.splits)

lemma total_gets_bind: "(\<And>s. total_op (f (g s))) \<Longrightarrow> total_op (bind_op (gets_op g) f)"
  by (auto simp: total_op_def returns_def bind_op_def gets_op_def)

lemma total_aliases: "mop \<in> {MWrite, MMetadata} \<or> rows = [] \<Longrightarrow> total_op (publish_aliases cfg mop rows)"
  unfolding publish_aliases_def
  by (cases "rows = []") (auto intro!: total_intros total_recordMutation simp: plain_mutation_def)

lemma total_publishToken:
  assumes "mop \<in> {MWrite, MMetadata} \<or> mop = MCreate \<and> (\<exists>up. dirname path = Inr up)"
  shows "total_op (publishToken cfg path v present mop identity)"
  unfolding publishToken_def Let_def
  using assms
  by (intro total_bind [OF total_notes(2)] total_bind [OF total_recordMutation] total_gets_bind total_bind [OF total_aliases]
      total_simple) (auto simp: plain_mutation_def)

lemma total_flush [total_intros]: "total_op (flushParentTimes cfg)"
  unfolding flushParentTimes_def by (intro total_intros total_publishToken) simp

lemma returns_transaction:
  assumes "returns body (s\<lparr>transactionDepth := transactionDepth s + 1\<rparr>)"
  shows "returns (transaction cfg body) s"
proof -
  have "returns (bind_op body (\<lambda>x. bind_op (if transactionDepth s = 0 then flushParentTimes cfg else return_op ()) (\<lambda>_. return_op x)))
      (s\<lparr>transactionDepth := transactionDepth s + 1\<rparr>)"
    by (rule returns_bind [OF assms]) (intro total_returns total_intros)
  then obtain x t where "bind_op body (\<lambda>x. bind_op (if transactionDepth s = 0 then flushParentTimes cfg else return_op ())
      (\<lambda>_. return_op x)) (s\<lparr>transactionDepth := transactionDepth s + 1\<rparr>) = (Inr x, t)"
    unfolding returns_def by metis
  then show ?thesis
    unfolding returns_def transaction_def Let_def by (simp only: prod.case sum.case) blast
qed

lemma returns_useBuffered: "returns body s \<Longrightarrow> returns (useBuffered leases body) s"
  by (auto simp: returns_def useBuffered_def)

lemma total_alarm [total_intros]: "total_op (scheduleGarbageAlarm cfg)"
  unfolding scheduleGarbageAlarm_def by (intro total_intros)

section \<open>Capacity\<close>

text \<open>SQLite's own figure stays below the limit with the headroom that is wanted.\<close>

definition roomy :: "Config \<Rightarrow> bool" where
  "roomy cfg \<longleftrightarrow> (\<forall>t. databaseSize cfg t + minDatabaseHeadroomBytes cfg \<le> maxDatabaseBytes cfg)"

lemma total_headroom: "roomy cfg \<Longrightarrow> total_op (assertDatabaseHeadroom cfg path)"
  unfolding assertDatabaseHeadroom_def roomy_def
  by (rule total_gets_bind) (auto intro: total_intros dest: leD)

lemma returns_capacity:
  assumes "roomy cfg" "fits cfg (v_charge (view s)) b n" "usage_ok s"
  shows "returns (assertCapacity cfg b n path) s"
proof -
  have "returns (bind_op usage (\<lambda>u. assertCapacityFrom cfg u b n path)) s"
  proof (rule returns_via [where Q = "\<lambda>u w. u = v_charge (view s)"])
    show "vpost usage (view s) (\<lambda>u w. u = v_charge (view s))" by (rule vpost_usage) simp
    show "returns (assertCapacityFrom cfg u b n path) t" if "u = v_charge (view s)" for u t
      using assms(2) that total_returns [OF total_headroom [OF assms(1)]]
      by (auto simp: assertCapacityFrom_def fits_def)
  qed (use assms(3) in \<open>simp_all add: total_returns total_usage\<close>)
  then show ?thesis
    unfolding assertCapacity_def using total_headroom [OF assms(1)]
    by (auto intro!: total_returns total_intros)
qed

section \<open>Chunks\<close>

lemma returns_writeChunks:
  assumes "bodies = [] \<or> (\<exists>e \<in> set (v_entries (view s)). e_id e = i \<and> is_inline e)"
    "single \<and> length bodies = 1 \<longrightarrow> chunk_at (v_chunks (view s)) i k \<noteq> None"
  shows "returns (writeChunks i k bodies single) s"
proof -
  have "find_chunk i k (tables s) \<noteq> None" if "single" "length bodies = 1"
    using assms(2) that find_chunk_at [of i k "tables s"] by (cases "find_chunk i k (tables s)") auto
  with assms(1) show ?thesis
    unfolding writeChunks_def by (auto simp: returns_def op_simps bind_op_def)
qed

section \<open>Appends that return\<close>

lemma returns_throw_free: "returns (return_op x) s" "returns (gets_op g) s" "returns (exec_op k) s" "returns (modify_op h) s"
  by (intro total_returns total_intros)+

lemma returns_appendTail:
  assumes "distinct_chunks (v_chunks (view s))" "layout (e_id e) (v_chunks (view s)) (bs @ [c_body row])" "c_index row = length bs"
    "0 < w" "slabs_of w (concat bs @ c_body row) (bs @ [c_body row])" "e_size e = length (concat bs @ c_body row)"
    "0 < chunkBytes cfg" "chunkBytes cfg \<le> MAX_SAFE_INTEGER" "e_size e \<le> MAX_SAFE_INTEGER"
  shows "returns (appendTail cfg e path suffixChunks row) s"
proof -
  let ?t = "c_body row" and ?a = "concat bs @ c_body row"
  obtain b bs' where b: "bs @ [?t] = b # bs'" "b \<noteq> []" "length b \<le> e_size e"
    using assms(5,6) by (cases bs) (auto simp: slabs_of_def)
  have "slabs_of (length b) ?a (bs @ [?t])" using first_slab(1) assms(5) unfolding b(1) by blast
  then have first: "matchesChunkTail (e_size e) (length b) (length bs) (length ?t)"
    using matches_slabs [OF assms(5), of "length b"] b(2) assms(6) by simp
  have rechunk: "\<exists>cs'. rechunk cs n = Inr cs'" if "0 < n" "n \<le> MAX_SAFE_INTEGER" for cs n
    using that by (simp add: rechunk_slices)
  have finish: "returns (if length ?t = n then
        bind_op (if n = chunkBytes cfg then return_op suffixChunks else lift_op (rechunk suffixChunks n)) (\<lambda>bodies.
        return_op \<lparr>ap_first = length bs + 1, ap_chunks = bodies, ap_tailSuffix = None\<rparr>)
      else
        bind_op (lift_op (rechunk (?t # suffixChunks) n)) (\<lambda>bodies.
        return_op \<lparr>ap_first = length bs, ap_chunks = bodies, ap_tailSuffix = None\<rparr>)) s"
    if "0 < n" "n \<le> MAX_SAFE_INTEGER" for n
    using rechunk [OF that, of suffixChunks] rechunk [OF that, of "?t # suffixChunks"]
    by (auto intro!: total_returns total_intros)
  have stored: "storedChunkBytes e path s = (Inr (length b), s)"
    using stored_width [of s e b bs' path] assms(1,2) b(1,2) by simp
  show ?thesis
  proof (cases "matchesChunkTail (e_size e) (chunkBytes cfg) (length bs) (length ?t)")
    case True
    with finish [OF assms(7,8)] show ?thesis
      by (simp add: appendTail_def Let_def assms(3) returns_def op_simps)
  next
    case False
    with finish [of "length b"] first b(2,3) assms(9) stored show ?thesis
      by (simp add: appendTail_def Let_def assms(3) returns_def op_simps)
  qed
qed

lemma returns_appendChunkPlan:
  assumes "distinct_chunks (v_chunks (view s))" "layout (e_id e) (v_chunks (view s)) bodies" "0 < w" "slabs_of w (concat bodies) bodies"
    "e_size e = length (concat bodies)"
    "0 < chunkBytes cfg" "chunkBytes cfg \<le> MAX_SAFE_INTEGER" "e_size e \<le> MAX_SAFE_INTEGER" "usage_ok s"
  shows "returns (appendChunkPlan cfg e path suffixChunks) s"
  unfolding appendChunkPlan_def Let_def
proof (rule returns_via [where Q = "\<lambda>last w. w = view s \<and> (case last of None \<Rightarrow> bodies = []
    | Some (row :: ChunkRow) \<Rightarrow> (\<exists>bs. bodies = bs @ [c_body row] \<and> c_index row = length bs))"])
  show "vpost (gets_op (\<lambda>s. last_chunk (e_id e) (tables s))) (view s) (\<lambda>last w. w = view s \<and> (case last of None \<Rightarrow> bodies = []
    | Some (row :: ChunkRow) \<Rightarrow> (\<exists>bs. bodies = bs @ [c_body row] \<and> c_index row = length bs)))"
    by (rule vpost_last_chunk [OF assms(1,2)]) auto
  fix last :: "ChunkRow option" and t
  assume q: "view t = view s \<and> (case last of None \<Rightarrow> bodies = []
    | Some row \<Rightarrow> (\<exists>bs. bodies = bs @ [c_body row] \<and> c_index row = length bs))"
  then have v: "view t = view s" by simp
  show "returns (case last of
        None \<Rightarrow>
          if e_size e \<noteq> 0 then fail_op EIO path
          else return_op \<lparr>ap_first = 0, ap_chunks = suffixChunks, ap_tailSuffix = None\<rparr>
      | Some row \<Rightarrow>
          if (e_size e > 0 \<and> length suffixChunks = 1 \<and> e_size e + length (suffixChunks ! 0) \<le> chunkBytes cfg) \<and>
            c_index row = 0 \<and> length (c_body row) = e_size e
          then return_op \<lparr>ap_first = 0, ap_chunks = [], ap_tailSuffix = Some (suffixChunks ! 0)\<rparr>
          else appendTail cfg e path suffixChunks row) t"
  proof (cases last)
    case None
    with q assms(5) show ?thesis by (simp add: returns_throw_free)
  next
    case (Some row)
    with q obtain bs where "bodies = bs @ [c_body row]" "c_index row = length bs" by auto
    with assms v have "returns (appendTail cfg e path suffixChunks row) t"
      by (intro returns_appendTail [of t e bs row w]) (simp_all del: view_fields)
    with Some show ?thesis by (simp add: returns_throw_free)
  qed
qed (use assms(9) in \<open>simp_all add: returns_throw_free\<close>)

text \<open>An append within the limits to a file that is there.\<close>

definition fits_append :: "Config \<Rightarrow> Vfs \<Rightarrow> EntryRow \<Rightarrow> nat \<Rightarrow> bool" where
  "fits_append cfg s e n \<longleftrightarrow> roomy cfg \<and> 0 < chunkBytes cfg \<and> chunkBytes cfg \<le> MAX_SAFE_INTEGER \<and>
     maxInlineFileBytes cfg \<le> MAX_SAFE_INTEGER \<and> e_size e + n \<le> maxInlineFileBytes cfg \<and>
     fst (charge s) + int n \<le> int (maxInlineLogicalBytes cfg)"

lemma returns_appendContent:
  assumes "sound cfg (view s)" "usage_ok s" "e \<in> set (entries (tables s))" "is_inline e" "fits_append cfg s e n"
    "slabs_of (chunkBytes cfg) bytes suffixChunks" "bytes \<noteq> []" "n = length bytes"
  shows "returns (appendContent cfg e path suffixChunks n False) s"
proof -
  have bodies: "bodies_ok (v_entries (view s)) (v_chunks (view s))" and solitary: "solitary e"
    using assms(1,3) by (auto simp: sound_def)
  obtain k bs where k: "0 < k" "layout (e_id e) (v_chunks (view s)) bs" "slabs_of k (concat bs) bs" "e_size e = length (concat bs)"
    using bodies assms(3,4) by (auto simp: bodies_ok_def stored_def)
  have chunks: "distinct_chunks (v_chunks (view s))" using bodies by (simp add: bodies_ok_def)
  have link: "e_linkCount e = 1" using solitary assms(4) by (auto simp: solitary_def is_inline_def is_directory_def)
  have fit: "roomy cfg" "0 < chunkBytes cfg" "chunkBytes cfg \<le> MAX_SAFE_INTEGER" "e_size e \<le> MAX_SAFE_INTEGER"
    "e_size e + n \<le> maxInlineFileBytes cfg" "fits cfg (v_charge (view s)) (int n * int (e_linkCount e)) 0"
    using assms(5) link by (auto simp: fits_append_def fits_def)
  have finish: "returns (bind_op (exec_op (update_entry (e_id e) f)) (\<lambda>_.
      bind_op (case ap_tailSuffix plan of
          Some suffix' \<Rightarrow> exec_op (append_to_chunk (e_id e) (ap_first plan) suffix')
        | None \<Rightarrow> writeChunks (e_id e) (ap_first plan) (ap_chunks plan) False) (\<lambda>_.
      bind_op (publishToken cfg path version' True MWrite (Some (e_linkIdentity e))) (\<lambda>tok.
      bind_op (updateUsage cfg (int n * int (e_linkCount e)) 0) (\<lambda>_. return_op (g tok)))))) t"
    if "entries (tables t) = entries (tables s)" "\<And>x. e_id (f x) = e_id x \<and> is_inline (f x) = is_inline x"
    for t f g plan version'
  proof (rule returns_bind [OF returns_throw_free(3)], rule returns_bind)
    fix x u assume "exec_op (update_entry (e_id e) f) t = (Inr x, u)"
    then have "entries (tables u) = map (\<lambda>x. if e_id x = e_id e then f x else x) (entries (tables s))"
      using that(1) by (simp add: update_entry_def)
    then have "\<exists>x \<in> set (v_entries (view u)). e_id x = e_id e \<and> is_inline x"
      using assms(3,4) that(2) [of e] by auto
    then show "returns (case ap_tailSuffix plan of
          Some suffix' \<Rightarrow> exec_op (append_to_chunk (e_id e) (ap_first plan) suffix')
        | None \<Rightarrow> writeChunks (e_id e) (ap_first plan) (ap_chunks plan) False) u"
      by (cases "ap_tailSuffix plan") (auto intro: returns_writeChunks returns_throw_free)
  qed (intro total_returns total_intros total_publishToken; simp)
  have size: "returns (assertAppendSize cfg path (e_size e + n)) s"
    using fit(5) by (simp add: assertAppendSize_def returns_throw_free)
  have capacity: "returns (assertCapacity cfg (int n * int (e_linkCount e)) 0 (Some path)) t"
    if "view t = view s" "usage_ok t" for t
    using returns_capacity [OF fit(1) _ that(2)] fit(6) that(1) by simp
  have plan: "returns (appendChunkPlan cfg e path suffixChunks) t" if "view t = view s" "usage_ok t" for t
    by (rule returns_appendChunkPlan) (use chunks k fit that in \<open>simp_all del: view_fields\<close>)
  show ?thesis
    unfolding appendContent_def Let_def
    apply (rule returns_silent [OF _ assms(2) size], (intro silent_intros)[1])
    apply (rule returns_silent [OF _ _ capacity], (intro silent_intros)[1], assumption+)
    apply (rule returns_silent [OF _ _ plan], (intro silent_intros)[1], assumption, simp only:, assumption)
    apply (rule returns_silent [OF _ _ returns_throw_free(2)], (intro silent_intros)[1], assumption)
    apply (rule returns_silent [OF _ _ returns_throw_free(2)], (intro silent_intros)[1], assumption)
    apply (simp only: simp_thms if_False)
    apply (rule finish)
    subgoal by (simp add: view_simps)
    subgoal by (simp add: is_inline_def)
    done
qed

lemma return_then: "bind_op (return_op x) f = f x"
  by (simp add: fun_eq_iff op_simps)

text \<open>
  An append whose body has streamed is not refused within the limits: if the path leads
  to a file with the token that was captured, a trusted append without a guard commits.
\<close>

lemma streamed_append_returns:
  assumes "vfs_ok cfg s" "suffix_given cfg bytes lease"
    "e \<in> set (entries (tables s))" "is_inline e" "names s (a_path access) e" "mutationToken cfg before = mutationToken cfg e"
    "fits_append cfg s e (length bytes)"
  shows "returns (appendFile_streamed cfg path access before lease None None) s"
proof -
  have ok: "sound cfg (view s)" "usage_ok s" using assms(1) by (simp_all add: vfs_ok_def)
  let ?s = "s\<lparr>transactionDepth := transactionDepth s + 1\<rparr>"
  have v: "view ?s = view s" by (simp add: view_def charge_def)
  have u: "usage_ok ?s" using ok(2) by (cases "transactionUsage s") (simp_all add: usage_ok_def charge_def)
  have "names ?s (a_path access) e" using names_cong [OF v] assms(5) by blast
  then obtain t where "requireEntry (a_path access) True ?s = (Inr e, t)" by (cases "requireEntry (a_path access) True ?s") (auto simp: names_def)
  with assms(4) have found: "requireInline (a_path access) None ?s = (Inr e, t)"
    by (simp add: requireInline_def or_require_def op_simps is_directory_def is_inline_def)
  then have "like ?s t" by (rule silentD [OF silent_lookups(9)])
  with v u have t: "view t = view s" "usage_ok t" by (simp_all add: like_def)
  have given: "slabs_of (chunkBytes cfg) bytes (l_chunks lease)" "l_size lease = length bytes"
    using assms(2) by (simp_all add: suffix_given_def)
  have rest: "returns (appendContent cfg e (a_path access) (l_chunks lease) (l_size lease) False) t" if "0 < l_size lease"
  proof -
    have "charge t = charge s" "entries (tables t) = entries (tables s)" using t(1) by (simp_all add: view_simps)
    with assms(3,7) have "e \<in> set (entries (tables t))" "fits_append cfg t e (l_size lease)"
      using given(2) by (simp_all add: fits_append_def)
    with returns_appendContent [of cfg t e "l_size lease" bytes "l_chunks lease"] ok(1) t assms(4) given that
    show ?thesis by simp
  qed
  show ?thesis
    unfolding appendFile_streamed_def commitAppend_def
    apply (intro returns_useBuffered returns_transaction)
    apply (rule returns_bind)
    subgoal using found by (simp add: returns_def)
    using found rest assms(6) by (simp add: validateGuard_def assertTraverse_def assertPermission_def return_then returns_throw_free)
qed

end
