(* ===== verification/Vfs_Liveness.thy ===== *)
theory Vfs_Liveness
  imports Vfs_Success
begin

text \<open>
  Writes and reads that return. A trusted write of a text, to a file that is there or to a new
  name in a directory that is there, is not refused within the limits; nor is a read of a file
  whose bytes fit the budget.
\<close>

section \<open>What is there is found\<close>

lemma runs:
  assumes "returns m s" "vpost m (view s) Q" "usage_ok s"
  obtains x t where "m s = (Inr x, t)" "Q x (view t)" "usage_ok t"
  using assms vpostD [OF assms(2) refl assms(3)] by (auto simp: returns_def moved_def)

lemma returns_run: "m s = (Inr x, t) \<Longrightarrow> returns (f x) t \<Longrightarrow> returns (bind_op m f) s"
  by (simp add: returns_def bind_op_def)

lemma resolve_here:
  assumes "find_entry p t = Some e" "\<not> is_symlink e" "\<not> hasDotSegments p"
  shows "resolveEntry t p follow = Inr \<lparr>r_path = p, r_row = Some e, r_followed = [], r_hops = 0\<rparr>"
proof -
  obtain n where n: "resolve_fuel = Suc n" using resolve_fuel_Suc by blast
  from assms show ?thesis unfolding resolveEntry_def n by (simp add: followsTerminalLink_def)
qed

lemma oneResolved_here:
  assumes "find_entry p (tables s) = Some e" "\<not> is_symlink e" "\<not> hasDotSegments p"
  shows "oneResolved p follow s = (Inr (Some e), s)"
  using resolve_here [OF assms] assms(1)
  by (simp add: oneResolved_def resolveEntry_op_def oneEntry_def op_simps bind_op_def)

lemma prepareParents_here:
  assumes "dirname p = Inr (e_path d)" "find_entry (e_path d) (tables s) = Some d" "is_directory d" "canonical (e_path d)"
  shows "prepareParents cfg p recursive now followed None s = (Inr d, s)"
proof -
  have "\<not> is_symlink d" using assms(3) by (simp add: is_symlink_def is_directory_def)
  with oneResolved_here [OF assms(2) this] canonical_no_dots [OF assms(4)]
  have "oneResolved (e_path d) True s = (Inr (Some d), s)" by simp
  with assms(1,3) show ?thesis
    by (simp add: prepareParents_def creationParents_def requireDirectory_def or_require_def assertCreationAccess_def
        createMissingParents_def op_simps bind_op_def)
qed

lemma find_row:
  assumes "distinct (map e_id es)" "e \<in> set es"
  shows "find (\<lambda>r. e_id r = e_id e \<and> e_version r = e_version e) es = Some e"
  using assms by (induction es) (auto simp: rev_image_eqI)

section \<open>A write that returns\<close>

lemma total_queueObject [total_intros]: "total_op (queueObjectIfUnreferenced i now)"
  unfolding queueObjectIfUnreferenced_def queueGarbage_def by (intro total_intros)

lemma total_kind [total_intros]: "total_op (case kind of Opaque i \<Rightarrow> queueObjectIfUnreferenced i now | _ \<Rightarrow> return_op False)"
  by (cases kind) (auto intro: total_intros)

lemma returns_finish:
  assumes "usage_ok s" "current = None \<Longrightarrow> \<exists>up. dirname (p_path plan) = Inr up"
    "bodies = [] \<or> (\<exists>e \<in> set (entries (tables s)). e_id e = i \<and> is_inline e)"
    "\<And>e. current = Some e \<Longrightarrow> is_inline e \<Longrightarrow> 0 < e_size e \<Longrightarrow> length bodies = 1 \<Longrightarrow> chunk_at (chunks (tables s)) i 0 \<noteq> None"
  shows "returns (finishInlineWrite cfg plan current mutation i revision bodies n now) s"
  unfolding finishInlineWrite_def
proof (rule returns_silent [OF _ assms(1)])
  show "returns (publishToken cfg (p_path plan) (i_version mutation) True (if current = None then MCreate else MWrite)
      (Some (Option.bind current e_linkIdentity))) s"
    using assms(2) by (intro total_returns total_publishToken) auto
  fix tok t assume t: "view t = view s" "usage_ok t"
  let ?single = "case current of None \<Rightarrow> False | Some e \<Rightarrow> is_inline e \<and> e_size e > 0 \<and> e_size e \<le> chunkBytes cfg"
  have "entries (tables t) = entries (tables s)" "chunks (tables t) = chunks (tables s)" using t(1) by (simp_all add: view_simps)
  with assms(3,4) have "returns (writeChunks i 0 bodies ?single) t"
    by (intro returns_writeChunks) (auto split: option.splits)
  then show "returns (bind_op (writeChunks i 0 bodies ?single) (\<lambda>_.
      bind_op (updateUsage cfg (i_inlineDelta mutation) (i_entryDelta mutation)) (\<lambda>_.
      bind_op (case current of
          Some e \<Rightarrow> (case e_kind e of Opaque i \<Rightarrow> queueObjectIfUnreferenced i now | _ \<Rightarrow> return_op False)
        | None \<Rightarrow> return_op False) (\<lambda>queued.
      return_op (\<lparr>wr_path = p_path plan, wr_revision = revision, wr_token = tok, wr_size = n,
                  wr_created = (current = None)\<rparr>, queued))))) t"
    by (rule returns_bind) (intro total_returns total_intros)
qed (intro silent_intros)

text \<open>The limits, for a file that is rewritten and for one that is made.\<close>

definition fits_write :: "Config \<Rightarrow> Vfs \<Rightarrow> jstring \<Rightarrow> nat \<Rightarrow> bool" where
  "fits_write cfg s p n \<longleftrightarrow> roomy cfg \<and> 0 < chunkBytes cfg \<and> chunkBytes cfg \<le> MAX_SAFE_INTEGER \<and> n \<le> maxInlineFileBytes cfg \<and>
     (case entry_at p (entries (tables s)) of
        Some e \<Rightarrow> is_inline e \<and> fst (charge s) + (int n - int (e_size e)) \<le> int (maxInlineLogicalBytes cfg)
      | None \<Rightarrow> fst (charge s) + int n \<le> int (maxInlineLogicalBytes cfg) \<and> snd (charge s) + 1 \<le> int (maxEntries cfg) \<and>
          (\<exists>d \<in> set (entries (tables s)). is_directory d \<and> dirname p = Inr (e_path d)))"

lemma fits_write_cong:
  assumes "entries (tables t) = entries (tables s)" "charge t = charge s"
  shows "fits_write cfg t p n = fits_write cfg s p n"
  unfolding fits_write_def assms ..

lemma plan_runs:
  assumes "sound cfg (view s)" "usage_ok s" "fits_write cfg s (p_path plan) n" "current = entry_at (p_path plan) (entries (tables s))"
  obtains mutation t where "inlineMutationPlan cfg plan current parent n None False s = (Inr mutation, t)" "usage_ok t"
    "entries (tables t) = entries (tables s)" "chunks (tables t) = chunks (tables s)" "nextIno t = nextIno s"
proof -
  let ?before = "case current of Some e \<Rightarrow> if is_inline e then e_size e else 0 | None \<Rightarrow> 0"
  let ?delta = "(int n - int ?before) * int (case current of Some e \<Rightarrow> e_linkCount e | None \<Rightarrow> 1)"
  have "e_linkCount e = 1" if "current = Some e" "is_inline e" for e
    using that assms(1,4) entry_at_SomeD [of "p_path plan" "entries (tables s)" e]
    by (auto simp: sound_def solitary_def is_inline_def is_directory_def)
  then have "fits cfg (v_charge (view s)) ?delta (if current = None then 1 else 0)"
    using assms(3,4) by (auto simp: fits_write_def fits_def split: option.splits)
  then have "returns (assertCapacity cfg ?delta (if current = None then 1 else 0) (Some (p_path plan))) s"
    using assms(2,3) by (intro returns_capacity) (auto simp: fits_write_def)
  then have r: "returns (inlineMutationPlan cfg plan current parent n None False) s"
    unfolding inlineMutationPlan_def inlineWriteMode_def Let_def
    by (cases current) (auto simp: return_then when_op_def intro!: returns_bind [OF _ total_returns] total_intros)
  have v: "vpost (inlineMutationPlan cfg plan current parent n None False) (view s)
      (\<lambda>_ w. v_entries w = v_entries (view s) \<and> v_chunks w = v_chunks (view s) \<and> v_nextIno w = v_nextIno (view s))"
    unfolding inlineMutationPlan_def inlineWriteMode_def Let_def
    by (cases current) (auto simp: return_then when_op_def
        intro!: vpost_bind vpost_assertCapacity vpost_nextEntryVersion vpost_return simp del: view_fields)
  from runs [OF r v assms(2)] obtain mutation t where t: "inlineMutationPlan cfg plan current parent n None False s = (Inr mutation, t)"
    "v_entries (view t) = v_entries (view s) \<and> v_chunks (view t) = v_chunks (view s) \<and> v_nextIno (view t) = v_nextIno (view s)"
    "usage_ok t" by metis
  show ?thesis by (rule that [OF t(1,3)]) (use t(2) in simp_all)
qed

text \<open>The row of the file is there afterwards, and the chunks are as they were.\<close>

lemma rewrite_runs:
  assumes "distinct (map e_id (entries (tables s)))" "e \<in> set (entries (tables s))" "is_inline e"
    "p_conditional plan \<in> {None, Some (e_version e)}"
  obtains revision t where "writeInlineEntry plan (Some e) mutation n digest now s =
      (Inr (Some (e_id e, revision, last_chunk_index (e_id e) (tables s))), t)"
    "\<exists>r \<in> set (entries (tables t)). e_id r = e_id e \<and> is_inline r" "chunks (tables t) = chunks (tables s)" "usage_ok s \<Longrightarrow> usage_ok t"
proof -
  from find_row [OF assms(1,2)] assms(4)
  have found: "find (\<lambda>r. e_id r = e_id e \<and> e_version r = (case p_conditional plan of None \<Rightarrow> e_version e | Some v \<Rightarrow> v))
      (entries (tables s)) = Some e" by auto
  let ?rewrite = "rewritten n (i_mode mutation) now digest (i_version mutation)"
  let ?t = "s\<lparr>tables := update_entry (e_id e) ?rewrite (tables s)\<rparr>"
  have "writeInlineEntry plan (Some e) mutation n digest now s =
      (Inr (Some (e_id e, e_revision e + 1, last_chunk_index (e_id e) (tables s))), ?t)"
    using found assms(3) by (simp add: writeInlineEntry_def Let_def op_simps bind_op_def)
  moreover have "\<exists>r \<in> set (entries (tables ?t)). e_id r = e_id e \<and> is_inline r"
    using assms(2) by (auto simp: update_entry_def rewritten_def is_inline_def intro!: bexI [of _ "?rewrite e"])
  moreover have "chunks (tables ?t) = chunks (tables s)" by (simp add: update_entry_def)
  moreover have "usage_ok s \<Longrightarrow> usage_ok ?t" by (auto simp: usage_ok_def charge_def update_entry_def split: option.splits)
  ultimately show ?thesis by (rule that)
qed

lemma creation_runs:
  assumes "find_entry (p_path plan) (tables s) = None" "\<forall>e \<in> set (entries (tables s)). e_id e < nextIno s"
    "dirname (p_path plan) = Inr up" "basename (p_path plan) = Inr name'"
  obtains i revision t where "writeInlineEntry plan None mutation n digest now s = (Inr (Some (i, revision, None)), t)"
    "\<exists>r \<in> set (entries (tables t)). e_id r = i \<and> is_inline r" "usage_ok s \<Longrightarrow> usage_ok t"
proof -
  define row where "row = \<lparr>e_id = nextIno s, e_path = p_path plan, e_parent = up, e_name = name', e_kind = Inline, e_size = n,
    e_mode = i_mode mutation, e_uid = fst (i_owner mutation), e_gid = snd (i_owner mutation), e_created = now, e_modified = now,
    e_changed = now, e_linkIdentity = None, e_linkCount = 1, e_revision = 1, e_version = i_version mutation, e_digest = digest,
    e_digest_revision = 1\<rparr>"
  let ?s = "s\<lparr>nextIno := nextIno s + 1\<rparr>"
  let ?t = "?s\<lparr>tables := (tables s)\<lparr>entries := entries (tables s) @ [row]\<rparr>\<rparr>"
  have row: "e_id row = nextIno s" "e_path row = p_path plan" "e_kind row = Inline" by (simp_all add: row_def)
  then have "insert_entry row ?s = (Inr (), ?t)" using assms(1,2) by (auto simp: insert_entry_def)
  then have "writeInlineEntry plan None mutation n digest now s = (Inr (Some (nextIno s, 1, None)), ?t)"
    using assms(1,3,4)
    by (simp add: writeInlineEntry_def Let_def bind_op_def allocateIno_def return_op_def oneEntry_def gets_op_def lift_op_def row_def)
  then show ?thesis
    by (rule that) (use row in \<open>auto simp: is_inline_def usage_ok_def charge_def split: option.splits\<close>)
qed

lemma first_chunk_there:
  assumes "bodies_ok es cs" "e \<in> set es" "is_inline e" "0 < e_size e"
  shows "chunk_at cs (e_id e) 0 \<noteq> None"
proof -
  from assms obtain w bodies where "layout (e_id e) cs bodies" "length (concat bodies) = e_size e"
    by (auto simp: bodies_ok_def stored_def)
  with assms(4) show ?thesis by (cases bodies) (auto simp: layout_def)
qed

lemma returns_commitInline:
  assumes "sound cfg (view s)" "usage_ok s" "canonical (p_path plan)" "p_path plan \<noteq> [SLASH]"
    "p_capturedEntry plan = entry_at (p_path plan) (entries (tables s))" "\<not> p_skipIfUnchanged plan"
    "p_conditional plan \<in> {None} \<union> Some ` e_version ` set_option (p_capturedEntry plan)" "fits_write cfg s (p_path plan) n"
  shows "returns (commitInlineWrite cfg plan bodies n digest now None False False) s"
proof -
  obtain up name' where up: "dirname (p_path plan) = Inr up" "basename (p_path plan) = Inr name'" "canonical up"
    using dirname_canonical [OF assms(3,4)] by metis
  let ?current = "entry_at (p_path plan) (entries (tables s))"
  have parents: "\<exists>parent. (if ?current = None \<and> up \<noteq> [SLASH]
        then bind_op (prepareParents cfg (p_path plan) (p_createParents plan) now (p_followed plan) None) (\<lambda>p. return_op (Some p))
        else return_op None) s = (Inr parent, s)"
  proof (cases "?current = None")
    case True
    with assms(8) up(1) obtain d where d: "d \<in> set (entries (tables s))" "is_directory d" "dirname (p_path plan) = Inr (e_path d)"
      by (auto simp: fits_write_def)
    then have "find_entry (e_path d) (tables s) = Some d"
      using tree_entry [of "entries (tables s)"] assms(1) by (simp add: find_entry_at sound_def)
    moreover have "canonical (e_path d)" using d(3) up(1,3) by simp
    ultimately show ?thesis using prepareParents_here [OF d(3) _ d(2)] by (simp add: bind_op_def return_op_def)
  qed (auto simp: return_op_def)
  then obtain parent where parent: "(if ?current = None \<and> up \<noteq> [SLASH]
        then bind_op (prepareParents cfg (p_path plan) (p_createParents plan) now (p_followed plan) None) (\<lambda>p. return_op (Some p))
        else return_op None) s = (Inr parent, s)" by blast
  have inline: "is_inline e" "e \<in> set (entries (tables s))" if "?current = Some e" for e
    using assms(8) that entry_at_SomeD [OF that] by (simp_all add: fits_write_def)
  obtain mutation t where mutation: "inlineMutationPlan cfg plan ?current parent n None False s = (Inr mutation, t)" "usage_ok t"
    and t: "entries (tables t) = entries (tables s)" "chunks (tables t) = chunks (tables s)" "nextIno t = nextIno s"
    by (rule plan_runs [OF assms(1,2,8) refl])
  let ?finish = "\<lambda>x. (case x of
           None \<Rightarrow>
             bind_op (planInlineWrite cfg (p_written plan)
                 \<lparr>wg_ifMutationToken = p_guard plan, wg_mode = None\<rparr>
                 \<lparr>wo_createParents = p_createParents plan, wo_disposition = p_disposition plan,
                  wo_skipIfUnchanged = p_skipIfUnchanged plan\<rparr> None None) (\<lambda>_.
             fail_op EREVISION (p_path plan))
         | Some (entryId, revision, last') \<Rightarrow>
             bind_op (case (?current, last') of
                 (Some e, Some n) \<Rightarrow>
                   when_op (is_inline e \<and> n \<ge> length bodies)
                     (exec_op (\<lambda>t. t\<lparr>chunks := filter (\<lambda>c. \<not> (c_entry c = e_id e \<and> c_index c \<ge> length bodies))
                        (chunks t)\<rparr>))
               | _ \<Rightarrow> return_op ()) (\<lambda>_.
             finishInlineWrite cfg plan ?current mutation entryId revision bodies n now))"
  have rest: "returns (bind_op (writeInlineEntry plan ?current mutation n digest now) ?finish) t"
  proof (cases ?current)
    case None
    have "find_entry (p_path plan) (tables t) = None" using None t(1) by (simp add: find_entry_at)
    moreover have "\<forall>e \<in> set (entries (tables t)). e_id e < nextIno t" using assms(1) t by (auto simp: sound_def)
    ultimately obtain i revision u where
      u: "writeInlineEntry plan None mutation n digest now t = (Inr (Some (i, revision, None)), u)"
      "\<exists>r \<in> set (entries (tables u)). e_id r = i \<and> is_inline r" "usage_ok t \<Longrightarrow> usage_ok u"
      using creation_runs [OF _ _ up(1,2)] by metis
    have "returns (finishInlineWrite cfg plan None mutation i revision bodies n now) u"
      using u(2,3) mutation(2) up(1) by (intro returns_finish) auto
    with u(1) None show ?thesis by (simp add: returns_def bind_op_def return_op_def)
  next
    case (Some e)
    have ids: "distinct (map e_id (entries (tables t)))" "e \<in> set (entries (tables t))" "p_conditional plan \<in> {None, Some (e_version e)}"
      using assms(1,5,7) inline [OF Some] t(1) Some by (auto simp: sound_def tree_ok_def)
    obtain revision u where u: "writeInlineEntry plan (Some e) mutation n digest now t =
        (Inr (Some (e_id e, revision, last_chunk_index (e_id e) (tables t))), u)"
      "\<exists>r \<in> set (entries (tables u)). e_id r = e_id e \<and> is_inline r" "chunks (tables u) = chunks (tables t)" "usage_ok t \<Longrightarrow> usage_ok u"
      using rewrite_runs [OF ids(1,2) inline(1) [OF Some] ids(3)] by metis
    have first: "chunk_at (chunks (tables u)) (e_id e) 0 \<noteq> None" if "0 < e_size e"
      using first_chunk_there [OF _ inline(2,1) [OF Some] that] assms(1) t(2) u(3) by (simp add: sound_def)
    have finish: "returns (finishInlineWrite cfg plan (Some e) mutation (e_id e) revision bodies n now) w"
      if "entries (tables w) = entries (tables u)" "usage_ok w"
        "length bodies = 1 \<Longrightarrow> 0 < e_size e \<Longrightarrow> chunk_at (chunks (tables w)) (e_id e) 0 \<noteq> None" for w
      using that u(2) by (intro returns_finish) auto
    let ?cut = "u\<lparr>tables := (tables u)\<lparr>chunks := filter (\<lambda>c. \<not> (c_entry c = e_id e \<and> c_index c \<ge> length bodies)) (chunks (tables u))\<rparr>\<rparr>"
    have "chunk_at (chunks (tables ?cut)) (e_id e) 0 = chunk_at (chunks (tables u)) (e_id e) 0" if "length bodies = 1"
      using that drop_tail_at [of "e_id e" "length bodies" "chunks (tables u)" "e_id e" 0] by simp
    moreover have "usage_ok ?cut" using u(4) mutation(2) by (auto simp: usage_ok_def charge_def split: option.splits)
    ultimately have "returns (finishInlineWrite cfg plan (Some e) mutation (e_id e) revision bodies n now) ?cut"
      "returns (finishInlineWrite cfg plan (Some e) mutation (e_id e) revision bodies n now) u"
      using u(4) mutation(2) first by (intro finish; simp)+
    with u(1) Some show ?thesis
      by (cases "last_chunk_index (e_id e) (tables t)") (auto simp: returns_def bind_op_def return_op_def when_op_def exec_op_def modify_op_def)
  qed
  have kind: "\<not> (case ?current of None \<Rightarrow> False | Some e \<Rightarrow> is_directory e)"
    using inline by (auto simp: is_inline_def is_directory_def split: option.splits)
  show ?thesis
    unfolding commitInlineWrite_def
    apply (rule returns_run [where x = ?current and t = s], simp add: assms(5) return_op_def, simp only: kind if_False)
    apply (rule returns_run [where x = up and t = s], simp add: up(1) lift_op_def)
    apply (rule returns_run [where x = parent and t = s])
    subgoal using parent by simp
    apply (rule returns_run [where x = "()" and t = s], simp add: when_op_def return_op_def)
    apply (rule returns_run [where x = None and t = s], simp add: unchangedInlineWrite_def assms(6) return_op_def split: option.split)
    apply (simp only: option.case)
    by (rule returns_run, rule mutation(1), rule rest)
qed

section \<open>Texts\<close>

lemma last_join: "x \<noteq> [] \<Longrightarrow> join_with sep (xs @ [x]) \<noteq> [] \<and> last (join_with sep (xs @ [x])) = last x"
  by (induction xs rule: induct_list012) auto

lemma canonical_plain: "canonical p \<Longrightarrow> \<not> pathRequiresDirectory p"
proof (elim canonicalE)
  fix segs assume p: "p = path_of segs" "\<forall>seg \<in> set segs. valid_segment seg"
  show ?thesis
  proof (cases segs rule: rev_cases)
    case (snoc xs x)
    with p have "x \<noteq> []" "SLASH \<notin> set x" by (auto simp: valid_segment_def)
    then have "last x \<noteq> SLASH" by (metis last_in_set)
    with last_join [OF \<open>x \<noteq> []\<close>] p(1) snoc show ?thesis by (simp add: pathRequiresDirectory_def path_of_def ends_with_char_def)
  qed (simp add: p(1) path_of_def pathRequiresDirectory_def)
qed

lemma collect_runs:
  assumes "fits_write cfg s p (length (encodeUtf8 body))"
    "usedBytes (inFlight s) + int (length (encodeUtf8 body)) \<le> int (maximumBytes (inFlight s))"
  obtains lease t where "collectInlineSync cfg body 0 s = (Inr lease, t)" "but_budget s t" "l_size lease = length (encodeUtf8 body)"
  using assms that collectInlineSync_ok(1) [of cfg body 0 s]
  by (fastforce simp: collectInlineSync_def collecting_op_def collectInlineBytesSync_def fits_write_def acquire_def Let_def)

lemma plan_here:
  assumes "canonical p" "links (tables s) = 0" "wo_disposition options = Upsert"
    "case find_entry p (tables s) of None \<Rightarrow> True | Some e \<Rightarrow> is_inline e"
  obtains plan where "planInlineWrite cfg p \<lparr>wg_ifMutationToken = None, wg_mode = m\<rparr> options None None s = (Inr plan, s)" "p_path plan = p"
proof -
  have "\<not> pathRequiresDirectory p" "\<not> hasDotSegments p" "normalizePath p [SLASH] = Inr p"
    using assms(1) by (simp_all add: canonical_plain canonical_no_dots)
  with assms(2-4) have "\<exists>plan. planInlineWrite cfg p \<lparr>wg_ifMutationToken = None, wg_mode = m\<rparr> options None None s = (Inr plan, s) \<and> p_path plan = p"
    by (auto simp: planInlineWrite_def resolveAccess_def Let_def op_simps bind_op_def pathState_def
        assertWriteAccess_def assertTraverse_def assertPermission_def validateGuard_def is_inline_def is_directory_def
        split: option.splits)
  with that show ?thesis by blast
qed

lemma writeFile_text_runs:
  assumes "vfs_ok cfg s" "canonical p" "p \<noteq> [SLASH]" "links (tables s) = 0"
    "wo_disposition options = Upsert" "\<not> wo_skipIfUnchanged options"
    "fits_write cfg s p (length (encodeUtf8 body))"
    "usedBytes (inFlight s) + int (length (encodeUtf8 body)) \<le> int (maximumBytes (inFlight s))"
  obtains result t where "writeFile_text cfg p body \<lparr>wg_ifMutationToken = None, wg_mode = m\<rparr> options None s = (Inr result, t)"
    "wr_path result = p"
proof -
  let ?guard = "\<lparr>wg_ifMutationToken = None, wg_mode = m\<rparr>"
  have ok: "sound cfg (view s)" "usage_ok s" using assms(1) by (simp_all add: vfs_ok_def)
  have snapshot: "read_snapshot cfg p ?guard options None s = (Inr None, s)"
    by (simp add: read_snapshot_def op_simps bind_op_def split: option.split)
  have "case find_entry p (tables s) of None \<Rightarrow> True | Some e \<Rightarrow> is_inline e"
    using assms(7) by (auto simp: fits_write_def find_entry_at split: option.splits)
  from plan_here [OF assms(2,4,5) this, where m = m and cfg = cfg] obtain plan
    where plan: "planInlineWrite cfg p ?guard options None None s = (Inr plan, s)" "p_path plan = p" by metis
  have "vpost (planInlineWrite cfg p ?guard options None None) (view s) (\<lambda>plan w. plan_facts cfg p ?guard options None (view s) plan)"
    by (rule vpost_planInlineWrite)
  from vpostD [OF this refl ok(2) plan(1)] have facts: "plan_facts cfg p ?guard options None (view s) plan" by blast
  obtain lease t where lease: "collectInlineSync cfg body 0 s = (Inr lease, t)" "but_budget s t" "l_size lease = length (encodeUtf8 body)"
    by (rule collect_runs [OF assms(7,8)])
  let ?t = "t\<lparr>transactionDepth := transactionDepth t + 1\<rparr>"
  have t: "view t = view s" "usage_ok t" using but_budget_view [OF lease(2)] ok(2) by simp_all
  have v: "view ?t = view s" using t(1) by (simp add: view_def charge_def)
  have u: "usage_ok ?t" using t(2) by (cases "transactionUsage t") (simp_all add: usage_ok_def charge_def)
  have same: "entries (tables ?t) = entries (tables s)" "charge ?t = charge s" using v by (simp_all add: view_simps)
  have "returns (commitInlineWrite cfg plan (l_chunks lease) (l_size lease) None now None False False) ?t" for now
  proof (rule returns_commitInline)
    show "sound cfg (view ?t)" using ok(1) v by simp
    show "p_capturedEntry plan = entry_at (p_path plan) (entries (tables ?t))"
      using facts same(1) by (simp add: plan_facts_def)
    show "fits_write cfg ?t (p_path plan) (l_size lease)"
      using assms(7) fits_write_cong [OF same] by (simp add: plan(2) lease(3))
  qed (use facts assms(2,3,6) plan(2) u in \<open>simp_all add: plan_facts_def\<close>)
  then have body: "returns (bind_op (gets_op clock) (\<lambda>now.
      commitInlineWrite cfg plan (l_chunks lease) (l_size lease) None now None False False)) ?t"
    by (intro returns_bind returns_throw_free) (simp add: gets_op_def)
  have "returns (writeFile_commit cfg plan lease None None False) t"
    unfolding writeFile_commit_def split_beta
    by (rule returns_bind [OF returns_useBuffered [OF returns_transaction [OF body]]]) (intro total_returns total_intros)
  then obtain result u where u: "writeFile_commit cfg plan lease None None False t = (Inr result, u)"
    by (auto simp: returns_def)
  have "cur_ok (view t) plan (p_capturedEntry plan) \<and> \<not> p_skipIfUnchanged plan"
    using facts assms(6) entry_at_SomeD [of p "entries (tables s)"] t(1) plan(2)
    by (auto simp: plan_facts_def cur_ok_def split: option.splits intro: same_row_refl)
  from writeFile_commit_ok(1) [OF u _ t(2) _ collectInlineSync_ok(2) [OF lease(1)] _ _ this] ok(1) t(1) assms(2,6) facts plan(2)
  have "wr_path result = p" by (simp add: committed_def plan_facts_def)
  moreover have "writeFile_text cfg p body ?guard options None s = (Inr result, u)"
    using snapshot plan(1) lease(1) u by (simp add: writeFile_text_def bind_op_def)
  ultimately show ?thesis using that by blast
qed

section \<open>Reads\<close>

lemma read_access_runs:
  assumes "find_entry p (tables s) = Some e" "\<not> is_symlink e" "canonical p"
  obtains access body where "read_access cfg p range' None s = (Inr (access, body), s)" "a_path access = p"
    "a_row access = None \<or> a_row access = Some e" "body \<noteq> None \<Longrightarrow> range' = None \<and> body = first_body cfg e (tables s)"
proof -
  have p: "\<not> pathRequiresDirectory p" "\<not> hasDotSegments p" "normalizePath p [SLASH] = Inr p"
    using assms(3) by (simp_all add: canonical_plain canonical_no_dots)
  have "\<exists>access body. read_access cfg p range' None s = (Inr (access, body), s) \<and> a_path access = p \<and>
      (a_row access = None \<or> a_row access = Some e) \<and> (body \<noteq> None \<longrightarrow> range' = None \<and> body = first_body cfg e (tables s))"
    using p assms(1) resolve_here [OF assms(1,2) p(2)]
    by (auto simp: read_access_def directRead_def resolveAccess_def resolveEntry_op_def Let_def op_simps bind_op_def)
  with that show ?thesis by blast
qed

text \<open>A whole file is read when its bytes fit what is left of the budget.\<close>

lemma readFile_runs:
  assumes s: "vfs_ok cfg s" and e: "entry_at p (entries (tables s)) = Some e" "is_inline e"
    and budget: "usedBytes (inFlight s) + int (e_size e) \<le> int (maximumBytes (inFlight s))"
  obtains r t where "readFile cfg p None None s = (Inr r, t)" "concat (ir_chunks r) = body_of (e_id e) (chunks (tables s))"
proof -
  have ok: "sound cfg (view s)" "usage_ok s" using s by (simp_all add: vfs_ok_def)
  have at: "e \<in> set (entries (tables s))" "e_path e = p" using entry_at_SomeD [OF e(1)] by simp_all
  have p: "canonical p" using ok(1) at by (auto simp: sound_def tree_ok_def parent_ok_def)
  have link: "\<not> is_symlink e" "\<not> is_directory e" using e(2) by (auto simp: is_symlink_def is_inline_def is_directory_def)
  have found: "find_entry p (tables s) = Some e" using e(1) by (simp add: find_entry_at)
  obtain access body where a: "read_access cfg p None None s = (Inr (access, body), s)" "a_path access = p"
    "a_row access = None \<or> a_row access = Some e" "body \<noteq> None \<Longrightarrow> body = first_body cfg e (tables s)"
    by (rule read_access_runs [OF found link(1) p, of cfg None]) (rule that, assumption+, blast)
  have "oneResolved p True s = (Inr (Some e), s)" by (rule oneResolved_here [OF found link(1) canonical_no_dots [OF p]])
  then have row: "or_require (a_row access) (requireEntry p True) s = (Inr e, s)"
    using a(3) found by (auto simp: or_require_def requireEntry_def oneEntry_def op_simps bind_op_def)
  let ?data = "body_of (e_id e) (chunks (tables s))"
  have size: "e_size e = length ?data" using stored_body [OF ok(1) at(1) e(2)] by metis
  have bounds: "byteRangeBounds None (e_size e) (Some p) = Inr (0, e_size e)"
    by (simp add: byteRangeBounds_def validateByteRange_def Let_def bindr_def)
  have like: "like s s" by (simp add: like_def)
  have "body \<noteq> None \<Longrightarrow> (None :: ByteRange option) = None \<and> body = first_body cfg e (tables s)" using a(4) by blast
  from read_rows [OF ok(1) at(1) e(2) like bounds this] size obtain rows selected where
    rows: "read_materialized cfg e body None p s = (Inr (rows, selected), s)" "concat selected = ?data" by auto
  then have "selected = rows" by (auto simp: read_materialized_def)
  with rows(2) size have "sum_list (map length rows) = e_size e" by (metis length_concat)
  with budget have "acquire_op cfg (sum_list (map length rows)) s =
      (Inr (), s\<lparr>inFlight := (inFlight s)\<lparr>usedBytes := usedBytes (inFlight s) + int (e_size e)\<rparr>\<rparr>)"
    by (simp add: acquire_op_def acquire_def)
  then have "\<exists>r t. readFile cfg p None None s = (Inr r, t) \<and> ir_chunks r = selected"
    using a(1,2) row rows(1) e(2) link(2)
    by (simp add: readFile_def Let_def bind_op_def return_op_def when_op_def modify_op_def assertTraverse_def assertPermission_def)
  with rows(2) that show ?thesis by metis
qed

end
