(* ===== verification/Vfs_Contents.thy ===== *)
theory Vfs_Contents
  imports Vfs_Promises Vfs_Liveness
begin

text \<open>
  Reading, removing and making names, over the contents of a filesystem, and what is bound to
  succeed. The theorem on appends shows the one place where a name that changes its meaning
  leads a write into another file.
\<close>

lemma entry_contents:
  assumes "sound cfg (view s)" "e \<in> set (entries (tables s))" "is_inline e"
  shows "fs (view s) (e_path e) = Some (Data (body_of (e_id e) (chunks (tables s))))"
    "length (body_of (e_id e) (chunks (tables s))) = e_size e"
proof -
  have "entry_at (e_path e) (entries (tables s)) = Some e"
    using tree_entry [of "entries (tables s)"] assms(1,2) by (simp add: sound_def)
  then show "fs (view s) (e_path e) = Some (Data (body_of (e_id e) (chunks (tables s))))"
    using assms(3) by (simp add: fs_def node_of_def is_inline_def)
  show "length (body_of (e_id e) (chunks (tables s))) = e_size e" using stored_body [OF assms] by metis
qed


lemma example_dirnames: "dirname file_a = Inr [SLASH]" "dirname file_b = Inr [SLASH]"
proof -
  have root: "path_of [] = [SLASH]" by (simp add: path_of_def)
  show "dirname file_a = Inr [SLASH]" "dirname file_b = Inr [SLASH]"
    using dirname_path_of(1) [of "[]" "js ''a''"] dirname_path_of(1) [of "[]" "js ''b''"] example_paths(5)
      file_a_facts(1) file_b_facts(1) by (simp_all add: file_a_def file_b_def root)
qed

text \<open>The new filesystem of the examples has room for a short text.\<close>

lemma new_vfs_room:
  "vfs_ok small_config new_vfs" "fits_write small_config new_vfs file_a (length (encodeUtf8 (js ''hi'')))"
  "usedBytes (inFlight new_vfs) + int (length (encodeUtf8 (js ''hi''))) \<le> int (maximumBytes (inFlight new_vfs))"
proof -
  have n: "length (encodeUtf8 (js ''hi'')) = 2" using utf8ByteLength_eq [of "js ''hi''"] by (simp add: js_def ascii_length)
  show "vfs_ok small_config new_vfs" by (simp add: new_vfs_def new_vfs_ok)
  have "charge new_vfs = (0, 1)" by (simp add: new_vfs_def opened_def charge_def new_tables_def)
  moreover have "entry_at file_a (entries new_tables) = None" using new_vfs_facts(3) by (simp add: find_entry_at)
  moreover have "entries new_tables = [root_row]" "is_directory root_row" "e_path root_row = [SLASH]"
    by (simp_all add: new_tables_def root_row_def is_directory_def)
  moreover note example_dirnames(1)
  ultimately have "fits_write small_config new_vfs file_a k" if "k = 2" for k
    using that by (simp add: fits_write_def new_vfs_facts(1) roomy_def small_config_def MAX_SAFE_INTEGER_def)
  from this [OF n] show "fits_write small_config new_vfs file_a (length (encodeUtf8 (js ''hi'')))" .
  show "usedBytes (inFlight new_vfs) + int (length (encodeUtf8 (js ''hi''))) \<le> int (maximumBytes (inFlight new_vfs))"
    unfolding n by (simp add: new_vfs_facts(5))
qed

lemma example_rows:
  "e_path root_row = [SLASH]" "e_parent root_row = [SLASH]" "e_id root_row = 1" "is_directory root_row" "\<not> is_inline root_row"
  "e_path (empty_file i p n) = p" "e_parent (empty_file i p n) = [SLASH]" "e_id (empty_file i p n) = i"
  "is_inline (empty_file i p n)" "\<not> is_directory (empty_file i p n)" "e_size (empty_file i p n) = 0"
  "e_path link_a = file_a" "e_parent link_a = [SLASH]" "e_id link_a = 4" "\<not> is_inline link_a" "\<not> is_directory link_a"
  "solitary root_row" "solitary (empty_file i p n)" "solitary link_a"
  "object_ok obs root_row" "object_ok obs (empty_file i p n)" "object_ok obs link_a"
  "digest_ok cfg cs root_row" "digest_ok cfg cs (empty_file i p n)" "digest_ok cfg cs link_a" "stored (empty_file i p n) []"
  by (auto simp: root_row_def empty_file_def link_a_def is_directory_def is_inline_def solitary_def object_ok_def digest_ok_def
      stored_def layout_def slabs_of_def chunk_at_def intro!: exI [of _ "1 :: nat"] exI [of _ "[] :: byte list list"])

lemma opened_ok:
  assumes "tree_ok es" "bodies_ok es []" "inline_total es = 0"
    "\<forall>e \<in> set es. e_id e < n \<and> solitary e \<and> object_ok [] e \<and> digest_ok cfg [] e"
  shows "vfs_ok cfg (opened now maxInFlight (new_tables\<lparr>entries := es, usage_entries := int (length es), next_ino := n\<rparr>))"
proof -
  let ?t = "new_tables\<lparr>entries := es, usage_entries := int (length es), next_ino := n\<rparr>"
  let ?s = "opened now maxInFlight ?t"
  have fields: "chunks new_tables = []" "tombstones new_tables = []" "usage_bytes new_tables = 0" "objects new_tables = []"
    by (simp_all add: new_tables_def)
  have s: "tables ?s = ?t" "nextIno ?s = n" "transactionDepth ?s = 0" "transactionUsage ?s = None" "deferredUsage ?s = None"
    "lastInlineRead ?s = None" by (simp_all add: opened_def)
  then have "charge ?s = (0, int (length es))" by (simp add: charge_def fields)
  with assms have "sound cfg (view ?s)" by (simp add: sound_def s fields)
  then show ?thesis by (simp add: vfs_ok_def usage_ok_def read_ok_def s)
qed

lemma two_files_ok: "vfs_ok small_config two_files" and two_files_plain: "utf8_paths (entries (tables two_files))"
proof -
  let ?es = "[root_row, empty_file 2 file_a ''a'', empty_file 3 file_b ''b'']"
  have "vfs_ok small_config (opened 5 100 (new_tables\<lparr>entries := ?es, usage_entries := int (length ?es), next_ino := 4\<rparr>))"
    by (rule opened_ok)
       (use example_dirnames file_a_facts file_b_facts in \<open>auto simp: tree_ok_def parent_ok_def bodies_ok_def distinct_chunks_def inline_total_def example_rows\<close>)
  then show "vfs_ok small_config two_files" by (simp add: two_files_def)
  show "utf8_paths (entries (tables two_files))"
    by (simp add: two_files_def opened_def utf8_paths_def example_rows) (simp add: file_a_def file_b_def well_formed_def path_of_def js_consts code_points_step code_point_front_def width_def SLASH_def)
qed

lemma linked_files_ok: "vfs_ok small_config linked_files"
proof -
  let ?es = "[root_row, empty_file 3 file_b ''b'', link_a]"
  have "vfs_ok small_config (opened 6 100 (new_tables\<lparr>entries := ?es, usage_entries := int (length ?es), next_ino := 5\<rparr>))"
    by (rule opened_ok)
       (use example_dirnames file_a_facts file_b_facts in \<open>auto simp: tree_ok_def parent_ok_def bodies_ok_def distinct_chunks_def inline_total_def example_rows\<close>)
  then show ?thesis by (simp add: linked_files_def)
qed

lemma lease_a_given: "suffix_given small_config [1, 2] lease_a"
  by (simp add: suffix_given_def small_config_def lease_a_def slabs_of_def)

lemma linked_b:
  "fst (requireEntry file_a True linked_files) = Inr (empty_file 3 file_b ''b'')"
  "empty_file 3 file_b ''b'' \<in> set (entries (tables linked_files))" "is_inline (empty_file 3 file_b ''b'')"
  "fits_append small_config linked_files (empty_file 3 file_b ''b'') (length [1 :: byte, 2])"
  "fs (view linked_files) file_b = Some (Data [])"
proof -
  have es: "entries (tables linked_files) = [root_row, empty_file 3 file_b ''b'', link_a]" by (simp add: linked_files_def opened_def)
  show "fst (requireEntry file_a True linked_files) = Inr (empty_file 3 file_b ''b'')" using linked_a_is_b [OF es] by simp
  show b: "empty_file 3 file_b ''b'' \<in> set (entries (tables linked_files))" "is_inline (empty_file 3 file_b ''b'')"
    by (simp_all add: es example_rows)
  show "fits_append small_config linked_files (empty_file 3 file_b ''b'') (length [1 :: byte, 2])"
    by (simp add: fits_append_def small_config_def roomy_def MAX_SAFE_INTEGER_def linked_files_def opened_def charge_def new_tables_def example_rows)
  have "chunks (tables linked_files) = []" by (simp add: linked_files_def opened_def new_tables_def)
  with entry_contents [of small_config linked_files "empty_file 3 file_b ''b''"] linked_files_ok b
  show "fs (view linked_files) file_b = Some (Data [])" by (simp add: vfs_ok_def example_rows)
qed

section \<open>Reading\<close>

text \<open>
  C8. Reading a range of a file gives exactly that range of its contents, however the body is
  cut into chunks and whichever statement fetches it, with the file's own metadata; what is
  fetched is counted until the stream ends. A read never changes the tables.
\<close>

theorem read_gives_range:
  assumes "vfs_ok cfg s"
  shows "case readFile cfg path range' posix s of
     (Inr r, t) \<Rightarrow>
       vfs_ok cfg t \<and> view t = view s \<and> usedBytes (inFlight t) = usedBytes (inFlight s) + int (ir_held r) \<and>
       (\<exists>access e data offset len. fst (resolveAccess path False True s) = Inr access \<and>
          fst (requireEntry (a_path access) True s) = Inr e \<and> ir_stat r = rowToStat cfg e \<and>
          fs (view s) (e_path e) = Some (Data data) \<and>
          byteRangeBounds range' (length data) (Some (a_path access)) = Inr (offset, len) \<and>
          concat (ir_chunks r) = take len (drop offset data))
   | (Inl e, t) \<Rightarrow> vfs_ok cfg t \<and> view t = view s \<and> inFlight t = inFlight s"
proof (cases "readFile cfg path range' posix s")
  case (Pair r t)
  have ok: "sound cfg (view s)" using assms by (simp add: vfs_ok_def)
  show ?thesis
  proof (cases r)
    case (Inl e)
    with readFile_failed [of cfg path range' posix s e t] like_advances [OF assms, of t] Pair show ?thesis
      by (simp add: advances_def)
  next
    case (Inr res)
    from readFile_ok [OF assms Pair [unfolded Inr]] obtain access e where
      e: "read_bytes cfg s path range' access e res" "after_read s e (ir_held res) t" by blast
    then have at: "e \<in> set (entries (tables s))" "is_inline e" by (simp_all add: read_bytes_def)
    from e(1) entry_contents [OF ok at] obtain offset len where
      "fst (resolveAccess path False True s) = Inr access" "fst (requireEntry (a_path access) True s) = Inr e"
      "ir_stat res = rowToStat cfg e" "fs (view s) (e_path e) = Some (Data (body_of (e_id e) (chunks (tables s))))"
      "byteRangeBounds range' (length (body_of (e_id e) (chunks (tables s)))) (Some (a_path access)) = Inr (offset, len)"
      "concat (ir_chunks res) = take len (drop offset (body_of (e_id e) (chunks (tables s))))"
      by (auto simp: read_bytes_def names_def)
    then show ?thesis
      using after_read_ok [OF assms e(2) at] e(2) by (simp add: Pair Inr after_read_def del: view_fields)
  qed
qed

theorem read_gives_range_witness:
  "case readFile small_config file_a None None new_vfs of
     (Inr r, t) \<Rightarrow> vfs_ok small_config t \<and> view t = view new_vfs
   | (Inl e, t) \<Rightarrow> vfs_ok small_config t \<and> view t = view new_vfs \<and> inFlight t = inFlight new_vfs"
proof -
  have "vfs_ok small_config new_vfs" by (simp add: new_vfs_def new_vfs_ok)
  from read_gives_range [OF this, of file_a None None] show ?thesis
    by (auto split: prod.splits sum.splits)
qed





section \<open>Removing and making names\<close>

text \<open>
  C9. Removing takes the entry that the path names and everything below it out of the contents,
  counts what it took, and touches nothing else; a removal that is refused changes no row. The
  tables stay sound, so no chunk, object or usage is left behind for what has gone.
\<close>

theorem remove_takes_subtree:
  assumes "vfs_ok cfg s" "utf8_paths (entries (tables s))"
  shows "case remove cfg path recursive posix s of
     (Inr r, t) \<Rightarrow>
       vfs_ok cfg t \<and> inFlight t = inFlight s \<and>
       (\<exists>access. fst (resolveAccess path False False s) = Inr access \<and> fs (view s) (a_path access) \<noteq> None \<and>
          fs (view t) = (\<lambda>q. if q = a_path access \<or> below (a_path access) q then None else fs (view s) q) \<and>
          rm_removed r = card {q. fs (view s) q \<noteq> None \<and> (q = a_path access \<or> below (a_path access) q)})
   | (Inl e, t) \<Rightarrow> vfs_ok cfg t \<and> inFlight t = inFlight s \<and> view t = (view s)\<lparr>v_nextIno := nextIno t\<rparr>"
proof (cases "remove cfg path recursive posix s")
  case (Pair r t)
  show ?thesis
  proof (cases r)
    case (Inl e)
    with remove_failed [OF assms(1)] unchanged_ok [OF assms(1)] Pair show ?thesis by (auto simp: unchanged_def)
  next
    case (Inr result)
    note r = remove_ok [OF assms Pair [unfolded Inr]]
    from r(1) obtain access where "fst (resolveAccess path False False s) = Inr access"
      "taken_out cfg (a_path access) (rm_removed result) (view s) (view t)" by blast
    with r(2,3) show ?thesis by (auto simp: Pair Inr taken_out_def abs_remove_def fun_eq_iff simp del: view_fields)
  qed
qed

theorem remove_takes_subtree_witness:
  "case remove small_config file_a True None two_files of
     (Inr r, t) \<Rightarrow> vfs_ok small_config t \<and> inFlight t = inFlight two_files
   | (Inl e, t) \<Rightarrow> vfs_ok small_config t \<and> inFlight t = inFlight two_files \<and> view t = (view two_files)\<lparr>v_nextIno := nextIno t\<rparr>"
  using remove_takes_subtree [OF two_files_ok two_files_plain, of file_a True None]
  by (auto split: prod.splits sum.splits simp del: view_fields)

text \<open>
  C15. Making a directory puts it at its path, with the directories above it where they are asked
  for, and changes nothing else; where a directory already is, nothing changes, and a failure
  changes no row.
\<close>

theorem mkdir_places_directories:
  assumes "vfs_ok cfg s"
  shows "case mkdir cfg path recursive mode' posix s of
     (Inr st, t) \<Rightarrow>
       vfs_ok cfg t \<and> inFlight t = inFlight s \<and> (\<exists>access. fst (resolveAccess path True False s) = Inr access \<and>
         (fs (view t) = (mkdirs (a_path access) (fs (view s)))(a_path access \<mapsto> Dir) \<or>
          recursive \<and> fs (view s) (a_path access) = Some Dir \<and> view t = view s))
   | (Inl e, t) \<Rightarrow> vfs_ok cfg t \<and> inFlight t = inFlight s \<and> view t = (view s)\<lparr>v_nextIno := nextIno t\<rparr>"
proof (cases "mkdir cfg path recursive mode' posix s")
  case (Pair r t)
  note c = calmD [OF calm_mkdir assms Pair]
  show ?thesis
  proof (cases r)
    case (Inl e)
    with c unchanged_ok [OF assms] Pair show ?thesis by (auto simp: unchanged_def)
  next
    case (Inr st)
    from mkdir_ok [OF assms Pair [unfolded Inr]] c Inr Pair show ?thesis
      by (auto simp: placed_def abs_place_def simp del: view_fields)
  qed
qed

theorem mkdir_places_directories_witness:
  "case mkdir small_config file_a False DIRECTORY_MODE None new_vfs of
     (Inr st, t) \<Rightarrow> vfs_ok small_config t \<and> inFlight t = inFlight new_vfs
   | (Inl e, t) \<Rightarrow> vfs_ok small_config t \<and> view t = (view new_vfs)\<lparr>v_nextIno := nextIno t\<rparr>"
  using mkdir_places_directories [OF new_vfs_room(1), of file_a False DIRECTORY_MODE None]
  by (auto split: prod.splits sum.splits simp del: view_fields)

text \<open>
  C16. A link is put at its path, with the directories above it where they are asked for, and
  nothing else changes. Where it takes the place of a file, its version is past the file's, so
  the file's token does not come back. A failure changes no row.
\<close>

theorem symlink_places_link:
  assumes "vfs_ok cfg s"
  shows "case symlink cfg path target options posix s of
     (Inr st, t) \<Rightarrow>
       vfs_ok cfg t \<and> inFlight t = inFlight s \<and> (\<exists>access. fst (resolveAccess path False False s) = Inr access \<and>
         fs (view t) = (mkdirs (a_path access) (fs (view s)))(a_path access \<mapsto> Link target) \<and>
         (fs (view s) (a_path access) \<noteq> Some (Link target) \<longrightarrow>
            path_version (view s) (a_path access) < path_version (view t) (a_path access)))
   | (Inl e, t) \<Rightarrow> vfs_ok cfg t \<and> inFlight t = inFlight s \<and> view t = (view s)\<lparr>v_nextIno := nextIno t\<rparr>"
proof (cases "symlink cfg path target options posix s")
  case (Pair r t)
  note c = calmD [OF calm_symlink assms Pair]
  show ?thesis
  proof (cases r)
    case (Inl e)
    with c unchanged_ok [OF assms] Pair show ?thesis by (auto simp: unchanged_def)
  next
    case (Inr st)
    from symlink_ok [OF assms Pair [unfolded Inr]] obtain access where
      a: "fst (resolveAccess path False False s) = Inr access" "placed cfg (a_path access) (Link target) (view s) (view t)" "vfs_ok cfg t"
      by blast
    then have "ages (view s) (view t)" "fs (view t) (a_path access) = Some (Link target)"
      by (simp_all add: placed_def evolves_def abs_place_def)
    then have "fs (view s) (a_path access) \<noteq> Some (Link target) \<longrightarrow>
        path_version (view s) (a_path access) < path_version (view t) (a_path access)" unfolding ages_def by metis
    with a c Inr Pair show ?thesis by (auto simp: placed_def abs_place_def simp del: view_fields)
  qed
qed

theorem symlink_places_link_witness:
  "case symlink small_config file_a file_b \<lparr>so_createParents = False, so_replace = True, so_ifMutationToken = None\<rparr> None two_files of
     (Inr st, t) \<Rightarrow> vfs_ok small_config t \<and> inFlight t = inFlight two_files
   | (Inl e, t) \<Rightarrow> vfs_ok small_config t \<and> view t = (view two_files)\<lparr>v_nextIno := nextIno t\<rparr>"
  using symlink_places_link [OF two_files_ok, of file_a file_b "\<lparr>so_createParents = False, so_replace = True, so_ifMutationToken = None\<rparr>" None]
  by (auto split: prod.splits sum.splits simp del: view_fields)

section \<open>Appends that return, and where they go\<close>

text \<open>
  C11. An append whose body has streamed is not refused within the limits. When it commits, the
  file is the one the path leads to then; if that file has the token that was captured, the
  append extends it by exactly the streamed bytes and changes nothing else.
\<close>

theorem streamed_append_commits:
  assumes "vfs_ok cfg s" "suffix_given cfg bytes lease" "fst (requireEntry (a_path access) True s) = Inr e"
    "e \<in> set (entries (tables s))" "is_inline e" "mutationToken cfg before = mutationToken cfg e"
    "fits_append cfg s e (length bytes)"
  shows "\<exists>result t old. appendFile_streamed cfg path access before lease None None s = (Inr result, t) \<and>
    fs (view s) (e_path e) = Some (Data old) \<and> fs (view t) = (fs (view s))(e_path e \<mapsto> Data (old @ bytes))"
proof -
  have e: "names s (a_path access) e" using assms(3) by (simp add: names_def)
  from streamed_append_returns [OF assms(1,2,4,5) e assms(6,7), where path = path] obtain result t
    where run: "appendFile_streamed cfg path access before lease None None s = (Inr result, t)" by (auto simp: returns_def)
  from appendFile_streamed_ok(2) [OF assms(1,2) run] obtain e' where
    e': "appended cfg bytes s result e' t" "wr_path result = a_path access" by blast
  then have "e' = e" using e names_unique by (auto simp: appended_def)
  with appended_contents [OF assms(1) e'(1)] run show ?thesis by blast
qed

theorem streamed_append_commits_witness:
  "\<exists>result t. appendFile_streamed small_config file_a \<lparr>a_path = file_a, a_row = None, a_followed = []\<rparr>
      (empty_file 3 file_b ''b'') lease_a None None linked_files = (Inr result, t) \<and>
    fs (view t) file_b = Some (Data [1, 2])"
  using streamed_append_commits [of small_config linked_files "[1, 2]" lease_a "\<lparr>a_path = file_a, a_row = None, a_followed = []\<rparr>"
      "empty_file 3 file_b ''b''" "empty_file 3 file_b ''b''" file_a] linked_files_ok lease_a_given linked_b example_rows(6)
  by (auto simp del: view_fields)


end
