(* ===== verification/Vfs_Authority.thy ===== *)
theory Vfs_Authority
  imports Vfs_Contents
begin

text \<open>
  Who may change what an entry says of itself. Modes, owners and groups as a map from paths, like
  the contents; a change of metadata is a point update of that map which its caller has the right
  to make, and it gives the path a new token.
\<close>

definition rights :: "View \<Rightarrow> jstring \<Rightarrow> (nat \<times> nat \<times> mode) option" where
  "rights v p = map_option (\<lambda>e. (e_uid e, e_gid e, e_mode e)) (entry_at p (v_entries v))"

lemma restated_effect:
  assumes "restated cfg f e v w" "amends f" "sound cfg v" "e \<in> set (v_entries v)"
  shows "rights w = (rights v)(e_path e \<mapsto> (e_uid (f e), e_gid (f e), e_mode (f e)))" "fs w = fs v"
    "path_version v (e_path e) < path_version w (e_path e)"
proof -
  let ?R = "\<lambda>d d'. touched (if e_id d = e_id e then f d else d) d'"
  have tree: "tree_ok (v_entries v)" using assms(3) by (simp add: sound_def)
  have f: "e_path (f d) = e_path d" "e_version (f d) = e_version d + 1" for d
    using assms(2) by (simp_all add: amends_def alike_def)
  have path: "?R d d' \<Longrightarrow> e_path d' = e_path d" for d d' using f(1) by (auto simp: touched_def split: if_splits)
  have "list_all2 ?R (v_entries v) (v_entries w)" using assms(1) by (simp add: restated_def)
  then have at: "rel_option ?R (entry_at p (v_entries v)) (entry_at p (v_entries w))" for p
    by (induction rule: list_all2_induct) (use path in \<open>auto simp: entry_at_def split: if_splits\<close>)
  have here: "entry_at (e_path e) (v_entries v) = Some e" using tree_entry [OF tree] assms(4) by simp
  have other: "e_id d \<noteq> e_id e" if "entry_at p (v_entries v) = Some d" "p \<noteq> e_path e" for p d
    using that tree_entry [OF tree] tree_id [OF tree _ assms(4)] by metis
  have same: "touched d d' \<Longrightarrow> e_uid d' = e_uid d \<and> e_gid d' = e_gid d \<and> e_mode d' = e_mode d \<and> e_version d \<le> e_version d'"
    for d d' by (auto simp: touched_def)
  show "rights w = (rights v)(e_path e \<mapsto> (e_uid (f e), e_gid (f e), e_mode (f e)))"
  proof
    fix p show "rights w p = ((rights v)(e_path e \<mapsto> (e_uid (f e), e_gid (f e), e_mode (f e)))) p"
    proof (cases "p = e_path e")
      case True
      with at [of p] here same show ?thesis by (auto simp: rights_def option_rel_Some1)
    next
      case False
      with at [of p] other [of p] same show ?thesis
        by (cases "entry_at p (v_entries v)"; cases "entry_at p (v_entries w)") (auto simp: rights_def)
    qed
  qed
  show "fs w = fs v" using assms(1) by (simp add: restated_def)
  from at [of "e_path e"] here obtain e' where "entry_at (e_path e) (v_entries w) = Some e'" "touched (f e) e'"
    by (auto simp: option_rel_Some1)
  with here f(2) [of e] same show "path_version v (e_path e) < path_version w (e_path e)"
    by (fastforce simp: path_version_def)
qed

lemma refused_leaves:
  assumes "calm m" "vfs_ok cfg s" "m s = (Inl x, t)"
  shows "vfs_ok cfg t \<and> view t = (view s)\<lparr>v_nextIno := nextIno t\<rparr>"
  using calmD [OF assms] unchanged_ok [OF assms(2)] by (auto simp: unchanged_def)

text \<open>
  C17. Only root changes the owner of an entry; its owner may give it to a group of its own, and
  loses the set-user and set-group bits with it. No other entry changes its owner, group or mode,
  no contents change, and the entry's token does. A refusal changes no row.
\<close>

theorem ownership_is_guarded:
  assumes "vfs_ok cfg s"
  shows "case setOwnership cfg path options posix s of
     (Inr st, t) \<Rightarrow>
       vfs_ok cfg t \<and> fs (view t) = fs (view s) \<and>
       (\<exists>e. leads s path e \<and> token_at cfg (view t) (e_path e) \<noteq> token_at cfg (view s) (e_path e) \<and>
         rights (view t) = (rights (view s))(e_path e \<mapsto>
           (case ou_uid options of None \<Rightarrow> e_uid e | Some u \<Rightarrow> u, case ou_gid options of None \<Rightarrow> e_gid e | Some g \<Rightarrow> g,
            if posix = None \<or> cr_uid (the posix) = 0 then e_mode e else e_mode e AND NOT 0xc00)) \<and>
         (case posix of None \<Rightarrow> True
          | Some ctx \<Rightarrow> cr_uid ctx = 0 \<or>
              cr_uid ctx = e_uid e \<and> ou_uid options \<in> {None, Some (e_uid e)} \<and>
              (\<forall>g \<in> set_option (ou_gid options). g \<in> set (cr_groups ctx))))
   | (Inl x, t) \<Rightarrow> vfs_ok cfg t \<and> view t = (view s)\<lparr>v_nextIno := nextIno t\<rparr>"
proof (cases "setOwnership cfg path options posix s")
  case (Pair r t)
  show ?thesis
  proof (cases r)
    case (Inl x)
    from refused_leaves [OF calm_setOwnership assms Pair [unfolded Inl]] Pair Inl show ?thesis by simp
  next
    case (Inr st)
    from setOwnership_ok [OF assms Pair [unfolded Inr]] obtain e now where
      e: "leads s path e" "e \<in> set (entries (tables s))" "may_chown (ou_uid options) (ou_gid options) posix e"
        "restated cfg (ownership_row (ou_uid options) (ou_gid options) posix now) e (view s) (view t)" "vfs_ok cfg t"
        "ou_uid options \<noteq> None \<or> ou_gid options \<noteq> None" by blast
    have "sound cfg (view s)" using assms by (simp add: vfs_ok_def)
    note r = restated_effect [OF e(4) amends_rows(2) this]
    have "token_at cfg (view t) (e_path e) \<noteq> token_at cfg (view s) (e_path e)"
      using r(3) e(2) token_version [of cfg "view t" "e_path e" "view s"] by auto
    moreover have "rights (view t) = (rights (view s))(e_path e \<mapsto>
        (case ou_uid options of None \<Rightarrow> e_uid e | Some u \<Rightarrow> u, case ou_gid options of None \<Rightarrow> e_gid e | Some g \<Rightarrow> g,
         if posix = None \<or> cr_uid (the posix) = 0 then e_mode e else e_mode e AND NOT 0xc00))"
      using r(1) e(2,6) by (auto simp: ownership_row_def split: option.splits)
    moreover have "fs (view t) = fs (view s)" using r(2) e(2) by simp
    moreover have "case posix of None \<Rightarrow> True | Some ctx \<Rightarrow> cr_uid ctx = 0 \<or>
        cr_uid ctx = e_uid e \<and> ou_uid options \<in> {None, Some (e_uid e)} \<and>
        (\<forall>g \<in> set_option (ou_gid options). g \<in> set (cr_groups ctx))"
      using e(3) by (auto simp: may_chown_def split: option.splits)
    ultimately show ?thesis using e(1,5) unfolding Pair Inr by auto
  qed
qed

theorem ownership_is_guarded_witness:
  "case setOwnership small_config file_a \<lparr>ou_ifMutationToken = None, ou_uid = None, ou_gid = Some 7\<rparr> None new_vfs of
     (Inr st, t) \<Rightarrow> vfs_ok small_config t \<and> fs (view t) = fs (view new_vfs)
   | (Inl x, t) \<Rightarrow> vfs_ok small_config t \<and> view t = (view new_vfs)\<lparr>v_nextIno := nextIno t\<rparr>"
  using ownership_is_guarded [OF new_vfs_room(1), of file_a "\<lparr>ou_ifMutationToken = None, ou_uid = None, ou_gid = Some 7\<rparr>" None]
  by (auto split: prod.splits sum.splits simp del: view_fields)

text \<open>
  C18. A mode is set by the owner or root, and times by whoever may write; nothing else of any entry
  changes that permissions depend on, no contents change, and the entry's token does. A refusal
  changes no row.
\<close>

theorem modes_are_guarded:
  assumes "vfs_ok cfg s"
  shows "case setMetadata cfg path options posix followed written s of
     (Inr st, t) \<Rightarrow>
       vfs_ok cfg t \<and> fs (view t) = fs (view s) \<and>
       (\<exists>e. leads s path e \<and> token_at cfg (view t) (e_path e) \<noteq> token_at cfg (view s) (e_path e) \<and>
         rights (view t) = (rights (view s))(e_path e \<mapsto> (e_uid e, e_gid e,
           case mu_mode options of None \<Rightarrow> e_mode e | Some m \<Rightarrow> m)) \<and>
         (case posix of None \<Rightarrow> True
          | Some ctx \<Rightarrow> cr_uid ctx = 0 \<or> cr_uid ctx = e_uid e \<or>
              mu_mode options = None \<and> permitted e ctx WRITE_PERMISSION))
   | (Inl x, t) \<Rightarrow> vfs_ok cfg t \<and> view t = (view s)\<lparr>v_nextIno := nextIno t\<rparr>"
proof (cases "setMetadata cfg path options posix followed written s")
  case (Pair r t)
  show ?thesis
  proof (cases r)
    case (Inl x)
    from refused_leaves [OF calm_setMetadata assms Pair [unfolded Inl]] Pair Inl show ?thesis by simp
  next
    case (Inr st)
    from setMetadata_ok [OF assms Pair [unfolded Inr]] obtain e now where
      e: "leads s path e" "e \<in> set (entries (tables s))" "may_amend (mu_mode options) posix e"
        "restated cfg (metadata_row options now) e (view s) (view t)" "vfs_ok cfg t" by blast
    have "sound cfg (view s)" using assms by (simp add: vfs_ok_def)
    note r = restated_effect [OF e(4) amends_rows(1) this]
    have "token_at cfg (view t) (e_path e) \<noteq> token_at cfg (view s) (e_path e)"
      using r(3) e(2) token_version [of cfg "view t" "e_path e" "view s"] by auto
    moreover have "rights (view t) = (rights (view s))(e_path e \<mapsto> (e_uid e, e_gid e,
        case mu_mode options of None \<Rightarrow> e_mode e | Some m \<Rightarrow> m))" "fs (view t) = fs (view s)"
      using r(1,2) e(2) by (simp_all add: metadata_row_def)
    moreover have "case posix of None \<Rightarrow> True | Some ctx \<Rightarrow> cr_uid ctx = 0 \<or> cr_uid ctx = e_uid e \<or>
        mu_mode options = None \<and> permitted e ctx WRITE_PERMISSION"
      using e(3) by (auto simp: may_amend_def may_restamp_def owns_def split: option.splits if_splits)
    ultimately show ?thesis using e(1,5) unfolding Pair Inr by auto
  qed
qed

theorem modes_are_guarded_witness:
  "case setMetadata small_config file_a \<lparr>mu_ifMutationToken = None, mu_mode = Some 0x8180, mu_modifiedAtMs = None\<rparr>
       None [] file_a new_vfs of
     (Inr st, t) \<Rightarrow> vfs_ok small_config t \<and> fs (view t) = fs (view new_vfs)
   | (Inl x, t) \<Rightarrow> vfs_ok small_config t \<and> view t = (view new_vfs)\<lparr>v_nextIno := nextIno t\<rparr>"
  using modes_are_guarded [OF new_vfs_room(1), of file_a
    "\<lparr>mu_ifMutationToken = None, mu_mode = Some 0x8180, mu_modifiedAtMs = None\<rparr>" None "[]" file_a]
  by (auto split: prod.splits sum.splits simp del: view_fields)

text \<open>
  C19. Touching a name that is not there creates an empty file, with the directories above it where
  they are asked for; touching one that is there changes no contents. A refusal changes no row.
\<close>

theorem touch_creates_or_keeps:
  assumes "vfs_ok cfg s"
  shows "case touch cfg path options posix s of
     (Inr st, t) \<Rightarrow>
       vfs_ok cfg t \<and> (\<exists>access. fst (resolveAccess path False True s) = Inr access \<and>
         fs (view t) = (if fs (view s) (a_path access) = None
           then (mkdirs (a_path access) (fs (view s)))(a_path access \<mapsto> Data []) else fs (view s)))
   | (Inl x, t) \<Rightarrow> vfs_ok cfg t \<and> view t = (view s)\<lparr>v_nextIno := nextIno t\<rparr>"
proof (cases "touch cfg path options posix s")
  case (Pair r t)
  show ?thesis
  proof (cases r)
    case (Inl x)
    from refused_leaves [OF calm_touch assms Pair [unfolded Inl]] Pair Inl show ?thesis by simp
  next
    case (Inr st)
    from touch_ok [OF assms Pair [unfolded Inr]] show ?thesis
      unfolding Pair Inr by (auto simp: placed_def abs_place_def restated_def split: if_splits simp del: view_fields)
  qed
qed

theorem touch_creates_or_keeps_witness:
  "case touch small_config file_a \<lparr>mu_ifMutationToken = None, mu_mode = None, mu_modifiedAtMs = None, to_create = True,
       to_createParents = False\<rparr> None new_vfs of
     (Inr st, t) \<Rightarrow> vfs_ok small_config t
   | (Inl x, t) \<Rightarrow> vfs_ok small_config t \<and> view t = (view new_vfs)\<lparr>v_nextIno := nextIno t\<rparr>"
  using touch_creates_or_keeps [OF new_vfs_room(1), of file_a "\<lparr>mu_ifMutationToken = None, mu_mode = None,
    mu_modifiedAtMs = None, to_create = True, to_createParents = False\<rparr>" None]
  by (auto split: prod.splits sum.splits simp del: view_fields)

end
