(* ===== verification/Vfs_Moving.thy ===== *)
theory Vfs_Moving
  imports Vfs_Placing
begin

text \<open>
  Moves (\<open>src/vfs/sql-move-base.ts\<close>): the checks on both ends, the statement that gives every
  row of the subtree its new path and version, and what it does to the contents.
\<close>

section \<open>The operation\<close>

record MoveResult =
  mv_from :: jstring
  mv_to :: jstring
  mv_moved :: nat
  mv_replaced :: bool

definition assertMoveKinds :: "EntryRow \<Rightarrow> EntryRow option \<Rightarrow> jstring \<Rightarrow> unit op" where
  "assertMoveKinds sourceEntry destination target =
     (case destination of
        None \<Rightarrow> return_op ()
      | Some d \<Rightarrow>
          if is_directory d \<noteq> is_directory sourceEntry
          then fail_op (if is_directory d then EISDIR else ENOTDIR) target
          else return_op ())"

definition inode_of :: "EntryRow \<Rightarrow> nat" where
  "inode_of e = (case e_linkIdentity e of Some i \<Rightarrow> i | None \<Rightarrow> e_id e)"

definition sameInode :: "EntryRow \<Rightarrow> EntryRow option \<Rightarrow> bool" where
  "sameInode source destination = (case destination of None \<Rightarrow> False | Some d \<Rightarrow> inode_of source = inode_of d)"

text \<open>\<open>substr(text, n)\<close> of SQLite: from the \<open>n\<close>th code point on.\<close>

definition substr_from :: "nat \<Rightarrow> jstring \<Rightarrow> jstring" where
  "substr_from n s = concat (drop (n - 1) (characters s))"

text \<open>What the \<open>UPDATE\<close> makes of a row; every expression reads the old row.\<close>

definition moved_row ::
  "jstring \<Rightarrow> jstring \<Rightarrow> jstring \<Rightarrow> jstring \<Rightarrow> nat \<Rightarrow> nat \<Rightarrow> (jstring \<times> nat) list \<Rightarrow> EntryRow \<Rightarrow> EntryRow" where
  "moved_row source target up name' now replacedRevision ts e =
     (let path = target @ substr_from (codePointLength source + 1) (e_path e); top = (e_path e = source) in
      e\<lparr>e_version := (case map_of ts path of Some v \<Rightarrow> v + 1 | None \<Rightarrow> 1),
        e_path := path,
        e_parent := (if top then up else target @ substr_from (codePointLength source + 1) (e_parent e)),
        e_name := (if top then name' else e_name e),
        e_changed := (if top then now else e_changed e),
        e_revision := (if top then max (e_revision e) replacedRevision + 1 else e_revision e + 1)\<rparr>)"

text \<open>The statement; the unique index on the path refuses two rows at one path.\<close>

definition moveRows :: "(EntryRow \<Rightarrow> bool) \<Rightarrow> ((jstring \<times> nat) list \<Rightarrow> EntryRow \<Rightarrow> EntryRow) \<Rightarrow> nat op" where
  "moveRows affected f s =
     (let t = tables s; es = map (\<lambda>e. if affected e then f (tombstones t) e else e) (entries t) in
      if distinct (map e_path es) then (Inr (length (filter affected (entries t))), s\<lparr>tables := t\<lparr>entries := es\<rparr>\<rparr>)
      else (Inl SqlError, s))"

definition replaceDestination :: "Config \<Rightarrow> jstring \<Rightarrow> nat \<Rightarrow> EntryRow option \<Rightarrow> bool op" where
  "replaceDestination cfg target now destination =
     (case destination of None \<Rightarrow> return_op False | Some d \<Rightarrow> removeExact cfg target now False (Some d))"

definition commitMove ::
  "Config \<Rightarrow> jstring \<Rightarrow> jstring \<Rightarrow> EntryRow option \<Rightarrow> jstring list \<Rightarrow> EntryRow option \<Rightarrow> jstring list \<Rightarrow> bool \<Rightarrow>
   PosixAccessContext option \<Rightarrow> (MoveResult \<times> bool) op" where
  "commitMove cfg source target sourceResolved sourceFollowed targetResolved targetFollowed replace posix =
     bind_op (or_require sourceResolved (requireEntry source False)) (\<lambda>sourceEntry.
     bind_op (if is_directory sourceEntry then lift_op (isDescendant source target) else return_op False) (\<lambda>inside.
     if inside then fail_op EINVAL target
     else
     bind_op (assertTraverse source sourceFollowed posix) (\<lambda>_.
     bind_op (assertTraverse target targetFollowed posix) (\<lambda>_.
     bind_op (lift_op (dirname target)) (\<lambda>up.
     bind_op (requireDirectory up None) (\<lambda>targetParent.
     bind_op (if posix = None then return_op ()
       else
         bind_op (lift_op (dirname source)) (\<lambda>sourceUp.
         bind_op (requireDirectory sourceUp None) (\<lambda>sourceParent.
         bind_op (assertPermission sourceParent posix (WRITE_PERMISSION OR EXECUTE_PERMISSION) source) (\<lambda>_.
         bind_op (assertPermission targetParent posix (WRITE_PERMISSION OR EXECUTE_PERMISSION) target) (\<lambda>_.
         assertStickyRemoval sourceParent sourceEntry posix source))))) (\<lambda>_.
     bind_op (case targetResolved of Some d \<Rightarrow> return_op (Some d) | None \<Rightarrow> oneEntry target) (\<lambda>destination.
     if sameInode sourceEntry destination
     then return_op (\<lparr>mv_from = source, mv_to = target, mv_moved = 1, mv_replaced = False\<rparr>, False)
     else
     bind_op (case destination of None \<Rightarrow> return_op () | Some d \<Rightarrow> assertStickyRemoval targetParent d posix target) (\<lambda>_.
     bind_op (assertDestinationReplaceable destination target replace) (\<lambda>_.
     bind_op (assertMoveKinds sourceEntry destination target) (\<lambda>_.
     bind_op (descendantRange_op source) (\<lambda>bounds.
     bind_op (linkedIdentities source bounds) (\<lambda>identities.
     bind_op (gets_op clock) (\<lambda>now.
     bind_op (replaceDestination cfg target now destination) (\<lambda>queued.
     bind_op (nextChangeSeq cfg) (\<lambda>sourceChangeSeq.
     bind_op (publishSubtreeRemoval cfg source (Some sourceChangeSeq) (\<not> is_directory sourceEntry)) (\<lambda>_.
     bind_op (lift_op (basename target)) (\<lambda>name'.
     bind_op (moveRows (\<lambda>e. e_path e = source \<or> is_directory sourceEntry \<and> in_range bounds (e_path e))
        (moved_row source target up name' now (case destination of None \<Rightarrow> 0 | Some d \<Rightarrow> e_revision d))) (\<lambda>moved'.
     bind_op (publishLinkedMetadata cfg identities) (\<lambda>_.
     bind_op (clearSubtreeTombstones target) (\<lambda>_.
     bind_op (nextChangeSeq cfg) (\<lambda>targetChangeSeq.
     bind_op (recordSubtreeChange cfg target True targetChangeSeq (\<not> is_directory sourceEntry)) (\<lambda>_.
     bind_op (noteDirectoryChange sourceEntry) (\<lambda>_.
     bind_op (recordMutation cfg \<lparr>m_op = MMove, m_path = source, m_token = None, m_subtree = Some (source, Some target)\<rparr>) (\<lambda>_.
     return_op (\<lparr>mv_from = source, mv_to = target, mv_moved = moved', mv_replaced = (destination \<noteq> None)\<rparr>, queued))))))))))))))))))))))))))"

text \<open>A move of a path onto itself only checks.\<close>

definition moveNowhere ::
  "jstring \<Rightarrow> EntryRow option \<Rightarrow> jstring list \<Rightarrow> PosixAccessContext option \<Rightarrow> (MoveResult \<times> bool) op" where
  "moveNowhere source sourceResolved sourceFollowed posix =
     bind_op (or_require sourceResolved (requireEntry source False)) (\<lambda>entry.
     bind_op (assertTraverse source sourceFollowed posix) (\<lambda>_.
     bind_op (if posix = None then return_op ()
       else
         bind_op (lift_op (dirname source)) (\<lambda>up.
         bind_op (requireDirectory up None) (\<lambda>parent.
         bind_op (assertPermission parent posix (WRITE_PERMISSION OR EXECUTE_PERMISSION) source) (\<lambda>_.
         assertStickyRemoval parent entry posix source)))) (\<lambda>_.
     return_op (\<lparr>mv_from = source, mv_to = source, mv_moved = 1, mv_replaced = False\<rparr>, False))))"

definition move :: "Config \<Rightarrow> jstring \<Rightarrow> jstring \<Rightarrow> bool \<Rightarrow> PosixAccessContext option \<Rightarrow> MoveResult op" where
  "move cfg from to replace posix =
     bind_op (resolveAccess from False False) (\<lambda>sourceAccess.
     let source = a_path sourceAccess; requiresDirectory = pathRequiresDirectory to in
     bind_op (if requiresDirectory
       then bind_op (or_require (a_row sourceAccess) (requireEntry source False)) (\<lambda>e. return_op (Some e))
       else return_op (a_row sourceAccess)) (\<lambda>sourceRow.
     let allowMissingDirectory = (\<not> requiresDirectory \<or> (case sourceRow of None \<Rightarrow> False | Some e \<Rightarrow> is_directory e)) in
     bind_op (resolveAccess to allowMissingDirectory False) (\<lambda>targetAccess.
     let target = a_path targetAccess in
     if source = [SLASH] then fail_op EINVAL source
     else
       bind_op (transaction cfg (if source = target then moveNowhere source sourceRow (a_followed sourceAccess) posix
         else commitMove cfg source target sourceRow (a_followed sourceAccess) (a_row targetAccess) (a_followed targetAccess)
           replace posix)) (\<lambda>(result, queued).
       bind_op (when_op queued (scheduleGarbageAlarm cfg)) (\<lambda>_.
       return_op result)))))"

end
