(* ===== verification/Vfs_Moved.thy ===== *)
theory Vfs_Moved
  imports Vfs_Moving
begin

text \<open>
  A move is a renaming of paths: what was at the source and below it is at the target and below it,
  under new versions, and everything else stays as it was.
\<close>

section \<open>Renamed paths\<close>

definition inside :: "jstring \<Rightarrow> jstring \<Rightarrow> bool" where
  "inside root q \<longleftrightarrow> q = root \<or> below root q"

definition rebase :: "jstring \<Rightarrow> jstring \<Rightarrow> jstring \<Rightarrow> jstring" where
  "rebase source target q = target @ drop (length source) q"

definition tail_of :: "jstring list \<Rightarrow> jstring" where
  "tail_of segs = concat (map ((#) SLASH) segs)"

lemma path_of_tail: "segs \<noteq> [] \<Longrightarrow> path_of segs = tail_of segs"
proof (induction segs rule: rev_induct)
  case (snoc x segs)
  then show ?case using path_of_snoc [of segs x] by (cases "segs = []") (simp_all add: tail_of_def)
qed simp

lemma tail_of_append: "tail_of (a @ b) = tail_of a @ tail_of b"
  by (simp add: tail_of_def)

lemma tail_of_front: "tail_of segs = [] \<or> hd (tail_of segs) = SLASH"
  by (cases segs) (simp_all add: tail_of_def)

lemma insideE:
  assumes "canonical root" "root \<noteq> [SLASH]" "canonical q" "inside root q"
  obtains extra where "segments_of q = segments_of root @ extra" "q = root @ tail_of extra"
proof -
  from assms(4) obtain extra where e: "segments_of q = segments_of root @ extra"
    by (auto simp: inside_def below_def strict_prefix_def prefix_def)
  have r: "root = path_of (segments_of root)" "q = path_of (segments_of q)" using canonical_segments assms(1,3) by blast+
  then have "segments_of root \<noteq> []" using assms(2) by (metis path_of_Nil)
  with r e have "q = root @ tail_of extra" by (metis append_is_Nil_conv path_of_tail tail_of_append)
  with e show ?thesis by (rule that)
qed

lemma inside_segments:
  "inside root q \<longleftrightarrow> q = root \<or> strict_prefix (segments_of root) (segments_of q)"
  by (simp add: inside_def below_def)

lemma inside_prefix: "canonical root \<Longrightarrow> canonical q \<Longrightarrow> inside root q \<longleftrightarrow> prefix (segments_of root) (segments_of q)"
proof -
  assume "canonical root" "canonical q"
  then have "segments_of q = segments_of root \<Longrightarrow> q = root" using canonical_segments by metis
  then show ?thesis by (auto simp: inside_segments strict_prefix_def)
qed

lemma inside_trans: "inside a b \<Longrightarrow> inside b c \<Longrightarrow> inside a c"
  by (auto simp: inside_def intro: below_trans)

lemma inside_refl [simp]: "inside a a"
  by (simp add: inside_def)

lemma rebase_tail: "q = source @ x \<Longrightarrow> rebase source target q = target @ x"
  by (simp add: rebase_def)

lemma rebase_source [simp]: "rebase source target source = target"
  by (simp add: rebase_def)

lemma rebase_segments:
  assumes "canonical source" "source \<noteq> [SLASH]" "canonical target" "target \<noteq> [SLASH]" "canonical q" "inside source q"
    "canonical (rebase source target q)" "segments_of q = segments_of source @ extra"
  shows "segments_of (rebase source target q) = segments_of target @ extra"
proof -
  obtain x where x: "segments_of q = segments_of source @ x" "q = source @ tail_of x"
    using insideE [OF assms(1,2,5,6)] by blast
  then have q: "rebase source target q = target @ tail_of extra" using assms(8) by (simp add: rebase_tail)
  have t: "target = path_of (segments_of target)" "\<forall>seg \<in> set (segments_of target). valid_segment seg"
    using canonical_segments [OF assms(3)] by blast+
  then have "segments_of target \<noteq> []" using assms(4) by (metis path_of_Nil)
  with t(1) q have "rebase source target q = path_of (segments_of target @ extra)"
    by (metis append_is_Nil_conv path_of_tail tail_of_append)
  moreover have "\<forall>seg \<in> set extra. valid_segment seg" using canonical_segments [OF assms(5)] assms(8) by auto
  ultimately have "\<forall>seg \<in> set (segments_of target @ extra). valid_segment seg" "rebase source target q = path_of (segments_of target @ extra)"
    using t(2) by auto
  then show ?thesis using segments_path_of by metis
qed

text \<open>SQLite cuts the text by code points; a path continues with a slash, so this is the same.\<close>

lemma characters_units: "characters s = map units_of (code_points s)"
  by (induction s rule: characters_induct) (simp_all add: characters_step code_points_step units_of_front)

lemma substr_after:
  assumes "x = [] \<or> hd x = SLASH"
  shows "substr_from (codePointLength source + 1) (source @ x) = x"
proof -
  have low: "x = [] \<or> \<not> is_low (hd x)" using assms by (auto simp: is_low_def SLASH_def)
  have "characters (source @ x) = characters source @ characters x"
    unfolding characters_units code_points_append [OF low] by simp
  moreover have "codePointLength source = length (characters source)" by (simp add: codePointLength_eq code_points_def)
  ultimately show ?thesis by (simp add: substr_from_def)
qed

section \<open>Rows that are moved\<close>

definition shifts :: "jstring \<Rightarrow> jstring \<Rightarrow> jstring \<Rightarrow> (EntryRow \<Rightarrow> EntryRow) \<Rightarrow> EntryRow \<Rightarrow> bool" where
  "shifts source target up f e \<longleftrightarrow> e_path (f e) = rebase source target (e_path e) \<and>
     e_parent (f e) = (if e_path e = source then up else rebase source target (e_parent e)) \<and>
     e_id (f e) = e_id e \<and> e_kind (f e) = e_kind e \<and> e_size (f e) = e_size e \<and>
     e_linkIdentity (f e) = e_linkIdentity e \<and> e_linkCount (f e) = e_linkCount e \<and> e_revision e < e_revision (f e) \<and>
     e_digest (f e) = e_digest e \<and> e_digest_revision (f e) = e_digest_revision e \<and> canonical (e_path (f e))"

definition way_clear :: "EntryRow list \<Rightarrow> jstring \<Rightarrow> jstring \<Rightarrow> jstring \<Rightarrow> bool" where
  "way_clear es source target up \<longleftrightarrow> canonical source \<and> source \<noteq> [SLASH] \<and> canonical target \<and> target \<noteq> [SLASH] \<and>
     (\<exists>e \<in> set es. e_path e = source) \<and> (\<forall>e \<in> set es. \<not> inside target (e_path e)) \<and> \<not> inside source target \<and>
     dirname target = Inr up \<and> (\<exists>d \<in> set es. e_path d = up \<and> is_directory d)"

definition shifted :: "jstring \<Rightarrow> (EntryRow \<Rightarrow> EntryRow) \<Rightarrow> EntryRow list \<Rightarrow> EntryRow list" where
  "shifted source f es = map (\<lambda>e. if inside source (e_path e) then f e else e) es"

lemma shifted_in: "e' \<in> set (shifted source f es) \<longleftrightarrow>
    (\<exists>e \<in> set es. e' = (if inside source (e_path e) then f e else e))"
  by (auto simp: shifted_def)

lemma moved_inside:
  assumes "way_clear es source target up" "shifts source target up f e" "canonical (e_path e)" "inside source (e_path e)"
  shows "inside target (e_path (f e))" "segments_of (e_path e) = segments_of source @ x \<Longrightarrow> segments_of (e_path (f e)) = segments_of target @ x"
proof -
  have c: "canonical source" "source \<noteq> [SLASH]" "canonical target" "target \<noteq> [SLASH]"
    using assms(1) by (simp_all add: way_clear_def)
  have f: "e_path (f e) = rebase source target (e_path e)" using assms(2) unfolding shifts_def by blast
  have r: "canonical (rebase source target (e_path e))" using assms(2) unfolding shifts_def f by blast
  note seg = rebase_segments [OF c assms(3,4) r]
  obtain extra where "segments_of (e_path e) = segments_of source @ extra" using insideE [OF c(1,2) assms(3,4)] .
  from seg [OF this] show "inside target (e_path (f e))" unfolding f inside_prefix [OF c(3) r] by simp
  show "segments_of (e_path e) = segments_of source @ x \<Longrightarrow> segments_of (e_path (f e)) = segments_of target @ x"
    unfolding f by (rule seg)
qed

lemma moved_path_inject:
  assumes "way_clear es source target up" "shifts source target up f e" "shifts source target up f e2"
    "canonical (e_path e)" "canonical (e_path e2)" "inside source (e_path e)" "inside source (e_path e2)"
    "e_path (f e) = e_path (f e2)"
  shows "e_path e = e_path e2"
proof -
  have c: "canonical source" "source \<noteq> [SLASH]" using assms(1) by (simp_all add: way_clear_def)
  obtain x where x: "segments_of (e_path e) = segments_of source @ x" "e_path e = source @ tail_of x"
    using insideE [OF c assms(4,6)] .
  obtain y where y: "segments_of (e_path e2) = segments_of source @ y" "e_path e2 = source @ tail_of y"
    using insideE [OF c assms(5,7)] .
  have "segments_of target @ x = segments_of target @ y"
    using moved_inside(2) [OF assms(1,2,4,6) x(1)] moved_inside(2) [OF assms(1,3,5,7) y(1)] assms(8) by simp
  with x(2) y(2) show ?thesis by simp
qed

lemma distinct_map_shift:
  assumes "distinct (map g es)" "\<And>a b. a \<in> set es \<Longrightarrow> b \<in> set es \<Longrightarrow> g (h a) = g (h b) \<Longrightarrow> g a = g b"
  shows "distinct (map g (map h es))"
proof -
  have "distinct es" "inj_on g (set es)" using assms(1) by (simp_all add: distinct_map)
  then have "inj_on (g \<circ> h) (set es)"
    using assms(2) unfolding inj_on_def o_def by blast
  with \<open>distinct es\<close> have "distinct (map (g \<circ> h) es)" by (simp only: distinct_map simp_thms)
  then show ?thesis by (simp only: list.map_comp)
qed

lemma shifted_paths:
  assumes "tree_ok es" "way_clear es source target up" "\<forall>e \<in> set es. inside source (e_path e) \<longrightarrow> shifts source target up f e"
  shows "distinct (map e_path (shifted source f es))" "distinct (map e_id (shifted source f es))"
proof -
  have canon: "canonical (e_path e)" if "e \<in> set es" for e using assms(1) that by (auto simp: tree_ok_def parent_ok_def)
  have shift: "shifts source target up f e" if "e \<in> set es" "inside source (e_path e)" for e using assms(3) that by blast
  have new: "inside target (e_path (f e))" if "e \<in> set es" "inside source (e_path e)" for e
    by (rule moved_inside(1) [OF assms(2) shift [OF that] canon [OF that(1)] that(2)])
  have old: "\<not> inside target (e_path e)" if "e \<in> set es" for e using assms(2) that by (simp add: way_clear_def)
  show "distinct (map e_path (shifted source f es))" unfolding shifted_def
  proof (rule distinct_map_shift)
    show "distinct (map e_path es)" using assms(1) by (simp add: tree_ok_def)
    fix a b assume ab: "a \<in> set es" "b \<in> set es"
      "e_path (if inside source (e_path a) then f a else a) = e_path (if inside source (e_path b) then f b else b)"
    show "e_path a = e_path b"
    proof (cases "inside source (e_path a)")
      case True
      then have to: "inside target (e_path (f a))" by (rule new [OF ab(1)])
      have eq: "e_path (f a) = e_path (if inside source (e_path b) then f b else b)" using ab(3) True by (simp only: if_True)
      have b: "inside source (e_path b)"
      proof (rule ccontr)
        assume "\<not> inside source (e_path b)"
        with eq have "e_path (f a) = e_path b" by (simp only: if_False)
        with to old [OF ab(2)] show False by (simp only:)
      qed
      then have "e_path (f a) = e_path (f b)" using eq by (simp only: if_True)
      then show ?thesis
        by (rule moved_path_inject [OF assms(2) shift [OF ab(1) True] shift [OF ab(2) b] canon [OF ab(1)] canon [OF ab(2)] True b])
    next
      case False
      then have eq: "e_path a = e_path (if inside source (e_path b) then f b else b)" using ab(3) by (simp only: if_False)
      have "\<not> inside source (e_path b)"
      proof
        assume b: "inside source (e_path b)"
        then have "e_path a = e_path (f b)" using eq by (simp only: if_True)
        with new [OF ab(2) b] old [OF ab(1)] show False by metis
      qed
      with eq show ?thesis by (simp only: if_False)
    qed
  qed
  have "map e_id (shifted source f es) = map e_id es" unfolding shifted_def using assms(3) by (auto simp: shifts_def)
  then show "distinct (map e_id (shifted source f es))" using assms(1) by (simp add: tree_ok_def)
qed


lemma child_segments:
  assumes "tree_ok es" "e \<in> set es" "e_path e \<noteq> [SLASH]"
  obtains x where "segments_of (e_path e) = segments_of (e_parent e) @ [x]" "canonical (e_parent e)"
proof -
  have e: "canonical (e_path e)" "dirname (e_path e) = Inr (e_parent e)"
    using assms by (simp_all add: tree_ok_def parent_ok_def)
  obtain segs where segs: "e_path e = path_of segs" "\<forall>seg \<in> set segs. valid_segment seg"
    using e(1) by (rule canonicalE)
  with assms(3) have "segs \<noteq> []" by auto
  then obtain up x where up: "segs = up @ [x]" by (metis rev_exhaust)
  have "dirname (e_path e) = Inr (path_of up)" using dirname_path_of [of up x] e(1) segs up by simp
  with e(2) have p: "e_parent e = path_of up" by simp
  show ?thesis
  proof (rule that [of x])
    show "segments_of (e_path e) = segments_of (e_parent e) @ [x]" using segs up by (simp add: segments_path_of p)
    show "canonical (e_parent e)" using canonical_append1 [of up x] e(1) segs up p by simp
  qed
qed

lemma dirname_segments:
  assumes "canonical p" "canonical q" "segments_of p = segments_of q @ [x]"
  shows "dirname p = Inr q"
proof -
  have p: "p = path_of (segments_of q @ [x])" "\<forall>seg \<in> set (segments_of q @ [x]). valid_segment seg"
    using canonical_segments [OF assms(1)] unfolding assms(3) by simp_all
  have "q = path_of (segments_of q)" using canonical_segments [OF assms(2)] by blast
  then show ?thesis using dirname_path_of(1) [of "segments_of q" x] assms(1) p by metis
qed

lemma shifted_tree:
  assumes "tree_ok es" "way_clear es source target up" "\<forall>e \<in> set es. inside source (e_path e) \<longrightarrow> shifts source target up f e"
  shows "tree_ok (shifted source f es)"
proof -
  have c: "canonical source" "source \<noteq> [SLASH]" "canonical target" "target \<noteq> [SLASH]" "\<not> inside source target" "dirname target = Inr up"
    using assms(2) by (simp_all add: way_clear_def)
  have canon: "canonical (e_path e)" if "e \<in> set es" for e using assms(1) that by (simp add: tree_ok_def parent_ok_def)
  have shift: "shifts source target up f e" if "e \<in> set es" "inside source (e_path e)" for e using assms(3) that by blast
  have stays: "d \<in> set (shifted source f es)" if "d \<in> set es" "\<not> inside source (e_path d)" for d
    using that by (auto simp: shifted_in)
  have comes: "f d \<in> set (shifted source f es)" if "d \<in> set es" "inside source (e_path d)" for d
    using that by (auto simp: shifted_in)
  have ok: "parent_ok es e" if "e \<in> set es" for e using assms(1) that by (simp add: tree_ok_def)
  have "parent_ok (shifted source f es) e'" if member: "e' \<in> set (shifted source f es)" for e'
  proof -
    obtain e where e: "e \<in> set es" "e' = (if inside source (e_path e) then f e else e)" using member unfolding shifted_in by blast
    show ?thesis
    proof (cases "inside source (e_path e)")
      case False
      with e(2) have e': "e' = e" by simp
      have "\<exists>d \<in> set (shifted source f es). e_path d = e_parent e \<and> is_directory d" if root: "e_path e \<noteq> [SLASH]"
      proof -
        obtain d where d: "d \<in> set es" "e_path d = e_parent e" "is_directory d" using ok [OF e(1)] root by (auto simp: parent_ok_def)
        have "\<not> inside source (e_path d)"
          using False parent_below [OF assms(1) e(1) root] inside_trans [of source "e_path d" "e_path e"] d(2) by (auto simp: inside_def)
        with stays [OF d(1)] d show ?thesis by blast
      qed
      with ok [OF e(1)] e' show ?thesis by (simp add: parent_ok_def)
    next
      case True
      with e(2) have e': "e' = f e" by simp
      note s = shift [OF e(1) True]
      have f: "canonical (e_path (f e))" using s unfolding shifts_def by blast
      have "dirname (e_path (f e)) = Inr (e_parent (f e)) \<and> (\<exists>d \<in> set (shifted source f es). e_path d = e_parent (f e) \<and> is_directory d)"
      proof (cases "e_path e = source")
        case top: True
        have p: "e_path (f e) = target" "e_parent (f e) = up" using s top unfolding shifts_def by auto
        obtain d where d: "d \<in> set es" "e_path d = up" "is_directory d" using assms(2) by (auto simp: way_clear_def)
        have "\<not> inside source up"
          using dirname_canonical [OF c(3,4)] c(5,6) inside_trans [of source up target] by (metis Inr_inject inside_def)
        with stays [OF d(1)] d have "\<exists>d \<in> set (shifted source f es). e_path d = up \<and> is_directory d" by blast
        with c(6) p show ?thesis by simp
      next
        case under: False
        have root: "e_path e \<noteq> [SLASH]" using True c(1,2) nothing_below_root by (metis inside_def)
        obtain d where d: "d \<in> set es" "e_path d = e_parent e" "is_directory d" using ok [OF e(1)] root by (auto simp: parent_ok_def)
        obtain x where x: "segments_of (e_path e) = segments_of (e_parent e) @ [x]" "canonical (e_parent e)"
          using child_segments [OF assms(1) e(1) root] .
        obtain extra where extra: "segments_of (e_path e) = segments_of source @ extra"
          using insideE [OF c(1,2) canon [OF e(1)] True] by blast
        have "extra \<noteq> []" using extra under canonical_segments [OF c(1)] canonical_segments [OF canon [OF e(1)]] by auto
        then obtain init where init: "extra = init @ [x]" "segments_of (e_parent e) = segments_of source @ init"
          using extra x(1) by (metis append_assoc append_butlast_last_id butlast_append butlast_snoc last_appendR last_snoc)
        have up': "inside source (e_path d)" unfolding d(2) inside_prefix [OF c(1) x(2)] init(2) by simp
        note sd = shift [OF d(1) up']
        have "segments_of (e_path (f e)) = segments_of target @ extra"
          by (rule moved_inside(2) [OF assms(2) s canon [OF e(1)] True extra])
        moreover have "segments_of (e_path (f d)) = segments_of target @ init"
          by (rule moved_inside(2) [OF assms(2) sd canon [OF d(1)] up']) (simp add: d(2) init(2))
        ultimately have "segments_of (e_path (f e)) = segments_of (e_path (f d)) @ [x]" using init(1) by simp
        moreover have "canonical (e_path (f d))" using sd unfolding shifts_def by blast
        ultimately have dn: "dirname (e_path (f e)) = Inr (e_path (f d))" using dirname_segments f by blast
        have "e_path (f d) = rebase source target (e_path d)" using sd unfolding shifts_def by blast
        moreover have "e_parent (f e) = rebase source target (e_parent e)" using s under unfolding shifts_def by auto
        moreover have "e_kind (f d) = e_kind d" using sd unfolding shifts_def by blast
        ultimately have "e_path (f d) = e_parent (f e)" "is_directory (f d)" using d(2,3) by (simp_all add: is_directory_def)
        with comes [OF d(1) up'] dn show ?thesis by auto
      qed
      with f e' show ?thesis by (simp add: parent_ok_def)
    qed
  qed
  moreover have "\<exists>d \<in> set (shifted source f es). e_path d = [SLASH] \<and> is_directory d"
  proof -
    obtain d where d: "d \<in> set es" "e_path d = [SLASH]" "is_directory d" using assms(1) by (auto simp: tree_ok_def)
    have "\<not> inside source [SLASH]" using c(1,2) nothing_below_root by (metis inside_def)
    with stays [OF d(1)] d show ?thesis by auto
  qed
  ultimately show ?thesis using shifted_paths [OF assms] by (simp add: tree_ok_def)
qed

section \<open>What a move does to the contents\<close>

definition abs_move :: "jstring \<Rightarrow> jstring \<Rightarrow> (jstring \<Rightarrow> node option) \<Rightarrow> jstring \<Rightarrow> node option" where
  "abs_move source target f q =
     (if canonical q \<and> inside target q then f (rebase target source q)
      else if inside source q then None else f q)"

lemma rebase_back:
  assumes "canonical source" "source \<noteq> [SLASH]" "canonical q" "inside source q"
  shows "rebase target source (rebase source target q) = q"
  using insideE [OF assms] by (metis rebase_tail)

text \<open>The row at a path after the move.\<close>

lemma shifted_at:
  assumes "tree_ok es" "way_clear es source target up" "\<forall>e \<in> set es. inside source (e_path e) \<longrightarrow> shifts source target up f e"
  shows "entry_at q (shifted source f es) =
    (if canonical q \<and> inside target q then map_option f (entry_at (rebase target source q) es)
     else if inside source q then None else entry_at q es)"
proof -
  note tree = shifted_tree [OF assms]
  have c: "canonical source" "source \<noteq> [SLASH]" "canonical target" "target \<noteq> [SLASH]"
    using assms(2) by (simp_all add: way_clear_def)
  have canon: "canonical (e_path e)" if "e \<in> set es" for e using assms(1) that by (simp add: tree_ok_def parent_ok_def)
  have old: "\<not> inside target (e_path e)" if "e \<in> set es" for e using assms(2) that by (simp add: way_clear_def)
  have shift: "shifts source target up f e" if "e \<in> set es" "inside source (e_path e)" for e using assms(3) that by blast
  have path: "e_path (f e) = rebase source target (e_path e)" "canonical (e_path (f e))" if "e \<in> set es" "inside source (e_path e)" for e
    using shift [OF that] unfolding shifts_def by blast+
  have new: "inside target (e_path (f e))" if "e \<in> set es" "inside source (e_path e)" for e
    by (rule moved_inside(1) [OF assms(2) shift [OF that] canon [OF that(1)] that(2)])
  have no: "entry_at q xs = None" if "\<And>e. e \<in> set xs \<Longrightarrow> e_path e \<noteq> q" for xs
    using that by (auto simp: entry_at_None)
  consider (new) "canonical q" "inside target q" | (gone) "\<not> (canonical q \<and> inside target q)" "inside source q"
    | (same) "\<not> (canonical q \<and> inside target q)" "\<not> inside source q" by blast
  then show ?thesis
  proof cases
    case new: new
    show ?thesis
    proof (cases "entry_at (rebase target source q) es")
      case (Some e)
      then have e: "e \<in> set es" "e_path e = rebase target source q" using entry_at_SomeD by blast+
      obtain extra where extra: "segments_of q = segments_of target @ extra" using insideE [OF c(3,4) new] by blast
      have "segments_of (e_path e) = segments_of source @ extra"
        unfolding e(2) by (rule rebase_segments [OF c(3,4,1,2) new _ extra]) (use canon [OF e(1)] e(2) in simp)
      then have inner: "inside source (e_path e)" unfolding inside_prefix [OF c(1) canon [OF e(1)]] by simp
      have "rebase source target (e_path e) = q" unfolding e(2) by (rule rebase_back [OF c(3,4) new])
      with path(1) [OF e(1) inner] have "e_path (f e) = q" by simp
      moreover have "f e \<in> set (shifted source f es)" using e(1) inner by (auto simp: shifted_in)
      ultimately show ?thesis using Some new tree_entry [OF tree] by simp
    next
      case None
      have "e_path e' \<noteq> q" if member: "e' \<in> set (shifted source f es)" for e'
      proof
        assume q: "e_path e' = q"
        obtain e where e: "e \<in> set es" "e' = (if inside source (e_path e) then f e else e)" using member unfolding shifted_in by blast
        show False
        proof (cases "inside source (e_path e)")
          case True
          with e q path [OF e(1)] have "q = rebase source target (e_path e)" by simp
          with rebase_back [OF c(1,2) canon [OF e(1)] True] have "rebase target source q = e_path e" by simp
          with None e(1) show False by (auto simp: entry_at_None)
        qed (use e q new old in auto)
      qed
      from no [OF this] None new show ?thesis by simp
    qed
  next
    case gone: gone
    have "e_path e' \<noteq> q" if member: "e' \<in> set (shifted source f es)" for e'
    proof
      assume q: "e_path e' = q"
      obtain e where e: "e \<in> set es" "e' = (if inside source (e_path e) then f e else e)" using member unfolding shifted_in by blast
      show False using e q gone path(2) [OF e(1)] new [OF e(1)] by (cases "inside source (e_path e)") auto
    qed
    from no [OF this] gone show ?thesis by (simp only: if_False if_True)
  next
    case same: same
    show ?thesis
    proof (cases "entry_at q es")
      case (Some e)
      then have "e \<in> set es" "e_path e = q" using entry_at_SomeD by blast+
      then have "e \<in> set (shifted source f es)" using same(2) by (auto simp: shifted_in)
      with \<open>e_path e = q\<close> tree_entry [OF tree] have "entry_at q (shifted source f es) = Some e" by blast
      with Some same show ?thesis by (simp only: if_False)
    next
      case None
      have "e_path e' \<noteq> q" if member: "e' \<in> set (shifted source f es)" for e'
      proof
        assume q: "e_path e' = q"
        obtain e where e: "e \<in> set es" "e' = (if inside source (e_path e) then f e else e)" using member unfolding shifted_in by blast
        show False using e q same None path(2) [OF e(1)] new [OF e(1)] by (cases "inside source (e_path e)") (auto simp: entry_at_None)
      qed
      from no [OF this] None same show ?thesis by (simp only: if_False)
    qed
  qed
qed

lemma shifts_fields:
  assumes "shifts source target up f e"
  shows "e_id (f e) = e_id e" "e_kind (f e) = e_kind e" "e_size (f e) = e_size e" "e_linkIdentity (f e) = e_linkIdentity e"
    "e_linkCount (f e) = e_linkCount e" "e_revision e < e_revision (f e)" "e_digest_revision (f e) = e_digest_revision e"
    "e_path (f e) = rebase source target (e_path e)"
  using assms unfolding shifts_def by blast+

definition relocated :: "jstring \<Rightarrow> (EntryRow \<Rightarrow> EntryRow) \<Rightarrow> (jstring \<times> nat) list \<Rightarrow> View \<Rightarrow> View" where
  "relocated source f ts v = v\<lparr>v_entries := shifted source f (v_entries v), v_tombstones := ts\<rparr>"

lemma relocated_fs:
  assumes "tree_ok (v_entries v)" "way_clear (v_entries v) source target up"
    "\<forall>e \<in> set (v_entries v). inside source (e_path e) \<longrightarrow> shifts source target up f e"
  shows "fs (relocated source f ts v) = abs_move source target (fs v)"
proof
  fix q
  note at = shifted_at [OF assms]
  show "fs (relocated source f ts v) q = abs_move source target (fs v) q"
  proof (cases "canonical q \<and> inside target q")
    case True
    have "map_option (node_of (v_chunks v)) (map_option f (entry_at (rebase target source q) (v_entries v))) =
        map_option (node_of (v_chunks v)) (entry_at (rebase target source q) (v_entries v))"
    proof (cases "entry_at (rebase target source q) (v_entries v)")
      case (Some e)
      then have e: "e \<in> set (v_entries v)" "e_path e = rebase target source q" using entry_at_SomeD by blast+
      have c: "canonical target" "target \<noteq> [SLASH]" "canonical source" "source \<noteq> [SLASH]" using assms(2) by (simp_all add: way_clear_def)
      have canon: "canonical (e_path e)" using assms(1) e(1) by (simp add: tree_ok_def parent_ok_def)
      obtain extra where "segments_of q = segments_of target @ extra" using insideE [OF c(1,2)] True by blast
      then have "segments_of (e_path e) = segments_of source @ extra"
        unfolding e(2) by (intro rebase_segments [OF c]) (use True canon e(2) in simp_all)
      then have "inside source (e_path e)" unfolding inside_prefix [OF c(3) canon] by simp
      then have "shifts source target up f e" using assms(3) e(1) by blast
      from shifts_fields [OF this] Some show ?thesis by (simp add: node_of_def split: entry_kind.split)
    qed simp
    then show ?thesis unfolding fs_def relocated_def abs_move_def using at [of q] True by simp
  next
    case False
    from at [of q, unfolded if_not_P [OF False]] show ?thesis
      unfolding fs_def relocated_def abs_move_def if_not_P [OF False] by simp
  qed
qed

lemma relocated_sound:
  assumes "sound cfg v" "way_clear (v_entries v) source target up"
    "\<forall>e \<in> set (v_entries v). inside source (e_path e) \<longrightarrow> shifts source target up f e"
    "distinct (map fst ts)" "\<forall>e \<in> set (shifted source f (v_entries v)). e_path e \<notin> fst ` set ts"
  shows "sound cfg (relocated source f ts v)"
proof -
  let ?es = "shifted source f (v_entries v)"
  have tree: "tree_ok (v_entries v)" and bodies: "bodies_ok (v_entries v) (v_chunks v)" using assms(1) by (simp_all add: sound_def)
  have tree': "tree_ok ?es" by (rule shifted_tree [OF tree assms(2,3)])
  have same: "\<exists>e \<in> set (v_entries v). e_id e' = e_id e \<and> e_kind e' = e_kind e \<and> e_size e' = e_size e \<and>
      e_linkIdentity e' = e_linkIdentity e \<and> e_linkCount e' = e_linkCount e \<and> (e' = e \<or> e_revision e < e_revision e' \<and>
      e_digest_revision e' = e_digest_revision e)" if member: "e' \<in> set ?es" for e'
  proof -
    obtain e where e: "e \<in> set (v_entries v)" "e' = (if inside source (e_path e) then f e else e)" using member unfolding shifted_in by blast
    show ?thesis
    proof (cases "inside source (e_path e)")
      case True
      with assms(3) e(1) have "shifts source target up f e" by blast
      from shifts_fields [OF this] e True show ?thesis by (intro bexI [OF _ e(1)]) simp
    qed (use e in auto)
  qed
  have each: "e_id e' < v_nextIno v \<and> solitary e' \<and> object_ok (v_objects v) e' \<and> digest_ok cfg (v_chunks v) e' \<and>
      (is_inline e' \<longrightarrow> stored e' (v_chunks v))" if member: "e' \<in> set ?es" for e'
  proof -
    obtain e where e: "e \<in> set (v_entries v)" "e_id e' = e_id e" "e_kind e' = e_kind e" "e_size e' = e_size e"
      "e_linkIdentity e' = e_linkIdentity e" "e_linkCount e' = e_linkCount e"
      "e' = e \<or> e_revision e < e_revision e' \<and> e_digest_revision e' = e_digest_revision e"
      using same [OF member] by blast
    have old: "e_id e < v_nextIno v" "solitary e" "object_ok (v_objects v) e" "digest_ok cfg (v_chunks v) e"
      "is_inline e \<longrightarrow> stored e (v_chunks v)"
      using assms(1) bodies e(1) by (simp_all add: sound_def bodies_ok_def)
    have kinds: "is_inline e' = is_inline e" "is_directory e' = is_directory e" using e(3) by (simp_all add: is_inline_def is_directory_def)
    have "digest_ok cfg (v_chunks v) e'" using old(4) e(7) kinds by (auto simp: digest_ok_def)
    with old e kinds show ?thesis by (simp add: solitary_def object_ok_def stored_def)
  qed
  have ids: "map e_id ?es = map e_id (v_entries v)" "map e_size ?es = map e_size (v_entries v)" "map is_inline ?es = map is_inline (v_entries v)"
    unfolding shifted_def using assms(3) shifts_fields by (auto simp: is_inline_def)
  have "c_entry ` set (v_chunks v) \<subseteq> e_id ` {e \<in> set ?es. is_inline e}"
  proof
    fix i assume "i \<in> c_entry ` set (v_chunks v)"
    with bodies obtain e where e: "e \<in> set (v_entries v)" "is_inline e" "e_id e = i" by (auto simp: bodies_ok_def)
    let ?e = "if inside source (e_path e) then f e else e"
    have "?e \<in> set ?es" using e(1) unfolding shifted_in by blast
    moreover have "e_id ?e = i \<and> is_inline ?e"
    proof (cases "inside source (e_path e)")
      case True
      with assms(3) e(1) have "shifts source target up f e" by blast
      from shifts_fields [OF this] e True show ?thesis by (simp add: is_inline_def)
    qed (use e in simp)
    ultimately show "i \<in> e_id ` {e \<in> set ?es. is_inline e}" by blast
  qed
  with each bodies have bodies': "bodies_ok ?es (v_chunks v)" by (simp add: bodies_ok_def)
  have "inline_total xs = (\<Sum>(n, b) \<leftarrow> zip (map e_size xs) (map is_inline xs). if b then int n else 0)" for xs
    by (induction xs) (auto simp: inline_total_def)
  then have "inline_total ?es = inline_total (v_entries v)" using ids by presburger
  moreover have "length ?es = length (v_entries v)" by (simp add: shifted_def)
  ultimately show ?thesis
    using assms(1,4,5) each tree' bodies' by (simp add: sound_def relocated_def)
qed

section \<open>Versions\<close>

text \<open>What leaves a path leaves a tombstone; what arrives takes a version past the path's.\<close>

definition leaving :: "jstring \<Rightarrow> View \<Rightarrow> (jstring \<times> nat) list" where
  "leaving source v = bury (filter (\<lambda>e. inside source (e_path e)) (v_entries v)) (v_tombstones v)"

definition versions_past :: "jstring \<Rightarrow> (EntryRow \<Rightarrow> EntryRow) \<Rightarrow> (jstring \<times> nat) list \<Rightarrow> View \<Rightarrow> bool" where
  "versions_past source f ts v \<longleftrightarrow> (\<forall>e \<in> set (v_entries v). inside source (e_path e) \<longrightarrow>
     e_version (f e) = (case map_of ts (e_path (f e)) of Some n \<Rightarrow> n + 1 | None \<Rightarrow> 1))"

lemma leaving_other: "entry_at p (v_entries v) = None \<Longrightarrow> map_of (leaving source v) p = map_of (v_tombstones v) p"
  unfolding leaving_def by (rule bury_other) (auto simp: entry_at_None)

lemma relocated_version:
  assumes "tree_ok (v_entries v)" "way_clear (v_entries v) source target up"
    "\<forall>e \<in> set (v_entries v). inside source (e_path e) \<longrightarrow> shifts source target up f e"
    "versions_past source f (leaving source v) v"
    "\<forall>p. entry_at p (shifted source f (v_entries v)) = None \<longrightarrow> map_of ts p = map_of (leaving source v) p"
  shows "path_version v p \<le> path_version (relocated source f ts v) p \<and>
    (fs v p \<noteq> fs (relocated source f ts v) p \<longrightarrow> path_version v p < path_version (relocated source f ts v) p)"
proof -
  let ?w = "relocated source f ts v"
  let ?es = "shifted source f (v_entries v)"
  have tree': "tree_ok ?es" by (rule shifted_tree [OF assms(1-3)])
  have w: "v_entries ?w = ?es" "v_tombstones ?w = ts" "v_chunks ?w = v_chunks v" by (simp_all add: relocated_def)
  have none: "path_version ?w p = (case map_of (leaving source v) p of Some n \<Rightarrow> n | None \<Rightarrow> 0)" if "entry_at p ?es = None"
    using that assms(5) by (simp add: path_version_def w)
  have none': "path_version v p = (case map_of (leaving source v) p of Some n \<Rightarrow> n | None \<Rightarrow> 0)" if "entry_at p (v_entries v) = None"
    using that by (simp add: path_version_def leaving_other)
  show ?thesis
  proof (cases "entry_at p (v_entries v)")
    case None
    show ?thesis
    proof (cases "entry_at p ?es")
      case e': (Some e')
      then have "e' \<in> set ?es" "e_path e' = p" using entry_at_SomeD by blast+
      then obtain e where e: "e \<in> set (v_entries v)" "e' = (if inside source (e_path e) then f e else e)" unfolding shifted_in by blast
      have inner: "inside source (e_path e)"
      proof (rule ccontr)
        assume "\<not> inside source (e_path e)"
        with e(2) have "e' = e" by (simp only: if_False)
        with None e(1) \<open>e_path e' = p\<close> show False by (auto simp: entry_at_None)
      qed
      then have "e' = f e" using e(2) by (simp only: if_True)
      with assms(4) e(1) inner \<open>e_path e' = p\<close>
      have "e_version e' = (case map_of (leaving source v) p of Some n \<Rightarrow> n + 1 | None \<Rightarrow> 1)"
        by (simp add: versions_past_def)
      with none' [OF None] e' show ?thesis by (auto simp: path_version_def w split: option.splits)
    qed (use none none' None in \<open>simp add: fs_def w\<close>)
  next
    case (Some e)
    then have e: "e \<in> set (v_entries v)" "e_path e = p" using entry_at_SomeD by blast+
    have out: "\<not> inside target p" using assms(2) e by (auto simp: way_clear_def)
    show ?thesis
    proof (cases "inside source p")
      case True
      then have gone: "entry_at p ?es = None" using shifted_at [OF assms(1-3), of p] out by simp
      from bury_at [of e "filter (\<lambda>e. inside source (e_path e)) (v_entries v)" "v_tombstones v"] e True
      obtain k where "map_of (leaving source v) p = Some k" "e_version e + 1 \<le> k" unfolding leaving_def by auto
      with none [OF gone] Some show ?thesis by (simp add: path_version_def)
    next
      case False
      then have "entry_at p ?es = Some e" using shifted_at [OF assms(1-3), of p] out Some by simp
      with Some show ?thesis by (simp add: path_version_def fs_def w)
    qed
  qed
qed

lemma target_version:
  assumes "tree_ok (v_entries v)" "way_clear (v_entries v) source target up"
    "\<forall>e \<in> set (v_entries v). inside source (e_path e) \<longrightarrow> shifts source target up f e"
    "versions_past source f (leaving source v) v"
    "\<forall>p. entry_at p (shifted source f (v_entries v)) = None \<longrightarrow> map_of ts p = map_of (leaving source v) p"
  shows "path_version v target < path_version (relocated source f ts v) target"
proof -
  obtain e where e: "e \<in> set (v_entries v)" "e_path e = source" using assms(2) by (auto simp: way_clear_def)
  have "entry_at source (v_entries v) = Some e" using tree_entry [OF assms(1)] e by blast
  moreover have "entry_at target (v_entries v) = None" using assms(2) by (auto simp: way_clear_def entry_at_None)
  moreover have "canonical target" using assms(2) by (simp add: way_clear_def)
  ultimately have "fs v target = None" "fs (relocated source f ts v) target \<noteq> None"
    by (simp_all add: relocated_fs [OF assms(1-3)] abs_move_def fs_def)
  with relocated_version [OF assms, of target] show ?thesis by simp
qed

end
