(* ===== verification/Vfs_Moves.thy ===== *)
theory Vfs_Moves
  imports Vfs_Moved Vfs_Metadata
begin

text \<open>
  The transaction of \<open>src/vfs/sql-move-base.ts\<close>: where its checks find the directory of the
  target, what is left when the target is vacated, and that a move that commits is the renaming of
  the subtree.
\<close>

section \<open>The directory of a resolved path\<close>

lemma shortest_none: "shortest_path es = None \<longleftrightarrow> es = []"
  by (cases es) (auto split: option.splits)

lemma ancestor_chain_mono:
  "ancestor_chain m p = Inr ys \<Longrightarrow> n \<le> m \<Longrightarrow> \<exists>xs. ancestor_chain n p = Inr xs \<and> set xs \<subseteq> set ys"
proof (induction n arbitrary: m p ys)
  case (Suc n)
  then obtain k where k: "m = Suc k" "n \<le> k" by (cases m) auto
  show ?case
  proof (cases "p = [SLASH]")
    case False
    with Suc.prems(1) k(1) obtain up rest where up: "dirname p = Inr up" "ancestor_chain k up = Inr rest" "ys = p # rest"
      by (auto simp: bindr_def split: sum.splits)
    from Suc.IH [OF up(2) k(2)] up False show ?thesis by (auto simp: bindr_def)
  qed simp
qed simp

lemma dirname_shorter:
  assumes "canonical p" "p \<noteq> [SLASH]" "dirname p = Inr up" "up \<noteq> [SLASH]"
  shows "length up < length p"
proof -
  from assms(1) obtain segs where segs: "p = path_of segs" "\<forall>seg \<in> set segs. valid_segment seg" by (rule canonicalE)
  with assms(2) obtain ups x where ups: "segs = ups @ [x]" by (metis path_of_Nil rev_exhaust)
  have "up = path_of ups" using dirname_path_of(1) [of ups x] assms(1,3) segs ups by simp
  with assms(4) segs(1) ups show ?thesis by (auto simp: path_of_snoc)
qed

text \<open>Where no ancestor of a missing path is a link, none of its directory's is, and it is none itself.\<close>

lemma no_links_above:
  assumes "missingAncestorLink t p = Inr None" "links t \<noteq> 0" "canonical p" "p \<noteq> [SLASH]" "dirname p = Inr up" "up \<noteq> [SLASH]"
  shows "\<And>e. find_entry up t = Some e \<Longrightarrow> \<not> is_symlink e" "missingAncestorLink t up = Inr None"
proof -
  have up: "canonical up" using dirname_canonical [OF assms(3,4)] assms(5) by (metis Inr_inject)
  obtain upup where upup: "dirname up = Inr upup" using dirname_canonical [OF up assms(6)] by metis
  obtain n where n: "length up = Suc n" using assms(6) up by (cases up) (auto simp: canonical_def path_of_def)
  from assms(1,2,5) obtain ys where ys: "ancestor_chain (length up) up = Inr ys"
    "ys = [] \<or> filter (\<lambda>e. is_symlink e \<and> e_path e \<in> set ys) (entries t) = []"
    by (auto simp: missingAncestorLink_def linkAncestor_def bindr_def shortest_none split: sum.splits if_splits)
  from ys(1) n upup assms(6) obtain zs where zs: "ancestor_chain n upup = Inr zs" "ys = up # zs"
    by (auto simp: bindr_def split: sum.splits)
  have plain: "\<not> is_symlink e" if "e \<in> set (entries t)" "e_path e \<in> set ys" for e
    using ys(2) zs(2) that by (auto simp: filter_empty_conv)
  show "\<not> is_symlink e" if "find_entry up t = Some e" for e
  proof -
    have "e \<in> set (entries t)" "e_path e = up" using that entry_at_SomeD by (auto simp: find_entry_at)
    with plain zs(2) show ?thesis by simp
  qed
  show "missingAncestorLink t up = Inr None"
  proof (cases "upup = [SLASH]")
    case True
    then have "ancestor_chain (length upup) upup = Inr []" by simp
    with upup assms(2) show ?thesis by (simp add: missingAncestorLink_def linkAncestor_def bindr_def)
  next
    case False
    have "length upup \<le> n" using dirname_shorter [OF up assms(6) upup False] n by simp
    from ancestor_chain_mono [OF zs(1) this] obtain xs where xs: "ancestor_chain (length upup) upup = Inr xs" "set xs \<subseteq> set zs" by blast
    have "filter (\<lambda>e. is_symlink e \<and> e_path e \<in> set xs) (entries t) = []"
      using plain xs(2) zs(2) by (auto simp: filter_empty_conv)
    with xs(1) upup assms(2) show ?thesis by (simp add: missingAncestorLink_def linkAncestor_def bindr_def)
  qed
qed

lemma resolved_here:
  assumes "resolveAccess path missing follow s = (Inr a, u)"
  shows "links (tables s) = 0 \<or> find_entry (a_path a) (tables s) \<noteq> None \<or>
    missingAncestorLink (tables s) (a_path a) = Inr None"
proof (rule ccontr)
  assume no: "\<not> ?thesis"
  then have "links (tables s) \<noteq> 0" by simp
  with assms obtain p r where r: "resolveEntry (tables s) p (follow \<or> pathRequiresDirectory path) = Inr r" "a_path a = r_path r"
    by (auto simp: resolveAccess_def Let_def resolveEntry_op_def oneEntry_def split: if_splits option.splits)
  from r(1) resolution_found [of resolve_fuel "tables s"] obtain links
    where found: "found_here (tables s) (r_path r) (follow \<or> pathRequiresDirectory path) links (r_hops r) r"
    by (auto simp: resolveEntry_def split: option.splits) blast
  with no r(2) show False by (auto simp: found_here_def split: option.splits)
qed

lemma target_parent:
  assumes "sound cfg (view s)" "fst (resolveAccess path missing follow s) = Inr a" "canonical (a_path a)" "a_path a \<noteq> [SLASH]"
    "dirname (a_path a) = Inr up" "fst (requireDirectory up None s) = Inr d"
  shows "\<exists>d \<in> set (entries (tables s)). e_path d = up \<and> is_directory d"
proof -
  let ?t = "tables s"
  have tree: "tree_ok (entries ?t)" using assms(1) by (simp add: sound_def)
  obtain u where a: "resolveAccess path missing follow s = (Inr a, u)" using assms(2) by (metis prod.collapse)
  have up: "canonical up" using dirname_canonical [OF assms(3,4)] assms(5) by (metis Inr_inject)
  from resolved_here [OF a] consider (root) "up = [SLASH]" | (there) "find_entry (a_path a) ?t \<noteq> None"
    | (plain) "links ?t = 0" | (clear) "missingAncestorLink ?t (a_path a) = Inr None" "links ?t \<noteq> 0" "up \<noteq> [SLASH]" by auto
  then show ?thesis
  proof cases
    case root
    with tree show ?thesis by (auto simp: tree_ok_def)
  next
    case there
    then obtain e where e: "e \<in> set (entries ?t)" "e_path e = a_path a" using entry_at_SomeD by (auto simp: find_entry_at)
    with tree have "parent_ok (entries ?t) e" by (simp add: tree_ok_def)
    with e(2) assms(4,5) show ?thesis by (auto simp: parent_ok_def)
  next
    case plain
    with assms(6) canonical_no_dots [OF up] have "find_entry up ?t = Some d" "is_directory d"
      by (auto simp: requireDirectory_def or_require_def requireEntry_def oneEntry_def op_simps bind_op_def
          split: option.splits if_splits)
    then show ?thesis using entry_at_SomeD by (auto simp: find_entry_at)
  next
    case clear
    note above = no_links_above [OF clear(1,2) assms(3-5) clear(3)]
    obtain n where n: "resolve_fuel = Suc n" using resolve_fuel_Suc by blast
    have "resolveEntry ?t up True = Inr \<lparr>r_path = up, r_row = find_entry up ?t, r_followed = [], r_hops = 0\<rparr>"
      using above canonical_no_dots [OF up] unfolding resolveEntry_def n
      by (cases "find_entry up ?t") (auto simp: MAX_SYMLINK_HOPS_def followsTerminalLink_def)
    with assms(6) clear(2) have "find_entry up ?t = Some d" "is_directory d"
      by (auto simp: requireDirectory_def or_require_def requireEntry_def oneResolved_def resolveEntry_op_def op_simps bind_op_def
          split: option.splits if_splits)
    then show ?thesis using entry_at_SomeD by (auto simp: find_entry_at)
  qed
qed

text \<open>The two lookups of a move, over the contents.\<close>

lemma vpost_source:
  assumes "sound cfg v" "\<And>s. view s = v \<Longrightarrow> fst (resolveAccess path missing follow s) = Inr a"
    "\<And>e. e \<in> set (v_entries v) \<Longrightarrow> e_path e = a_path a \<Longrightarrow> Q e v"
  shows "vpost (or_require (a_row a) (requireEntry (a_path a) False)) v Q"
proof (rule vpostI)
  fix s e t assume s: "view s = v" "usage_ok s" "or_require (a_row a) (requireEntry (a_path a) False) s = (Inr e, t)"
  obtain u where u: "resolveAccess path missing follow s = (Inr a, u)" using assms(2) [OF s(1)] by (metis prod.collapse)
  have "view u = view s" using silentD [OF silent_lookups(10) u] by (simp add: like_def)
  moreover have "determined (or_require (a_row a) (requireEntry (a_path a) False))"
    unfolding or_require_def requireEntry_def oneResolved_def by (intro determined_parts determined_bind)
  ultimately have "fst (or_require (a_row a) (requireEntry (a_path a) False) u) = Inr e"
    using s(3) unfolding determined_def by (metis fst_conv)
  then obtain u' where "or_require (a_row a) (requireEntry (a_path a) False) u = (Inr e, u')" by (metis prod.collapse)
  from access_entry(2,3) [OF _ s(2) u this] assms(1,3) s(1) have "Q e v" by auto
  moreover have "like s t" using silentD [OF silent_or_require [OF silent_lookups(7)] s(3)] .
  ultimately show "Q e (view t) \<and> moved s (view t) t" using s(1,2) by (simp add: like_def moved_def)
qed

lemma vpost_target_parent:
  assumes "sound cfg v" "\<And>s. view s = v \<Longrightarrow> \<exists>missing. fst (resolveAccess path missing follow s) = Inr a" "canonical (a_path a)"
    "a_path a \<noteq> [SLASH]" "dirname (a_path a) = Inr up"
    "\<And>x. \<exists>d \<in> set (v_entries v). e_path d = up \<and> is_directory d \<Longrightarrow> Q x v"
  shows "vpost (requireDirectory up None) v Q"
proof (rule vpostI)
  fix s d t assume s: "view s = v" "usage_ok s" "requireDirectory up None s = (Inr d, t)"
  obtain missing where "fst (resolveAccess path missing follow s) = Inr a" using assms(2) [OF s(1)] by blast
  from target_parent [OF _ this assms(3-5), of cfg d] assms(1) s(1,3)
  have "\<exists>d \<in> set (v_entries v). e_path d = up \<and> is_directory d" by auto
  then have "Q d v" by (rule assms(6))
  moreover have "like s t" using silentD [OF silent_lookups(8) s(3)] .
  ultimately show "Q d (view t) \<and> moved s (view t) t" using s(1,2) by (simp add: like_def moved_def)
qed

section \<open>The statements of a move\<close>

lemma vpost_moveRows:
  assumes "\<And>n. n = length (filter affected (v_entries v)) \<Longrightarrow>
    Q n (v\<lparr>v_entries := map (\<lambda>e. if affected e then f (v_tombstones v) e else e) (v_entries v)\<rparr>)"
  shows "vpost (moveRows affected f) v Q"
proof (rule vpostI)
  fix s n t assume s: "view s = v" "usage_ok s" "moveRows affected f s = (Inr n, t)"
  then have n: "n = length (filter affected (v_entries v))"
    and t: "t = s\<lparr>tables := (tables s)\<lparr>entries := map (\<lambda>e. if affected e then f (tombstones (tables s)) e else e) (entries (tables s))\<rparr>\<rparr>"
    by (auto simp: moveRows_def Let_def split: if_splits)
  have "view t = v\<lparr>v_entries := map (\<lambda>e. if affected e then f (v_tombstones v) e else e) (v_entries v)\<rparr>"
    unfolding t using s(1) by (auto simp: view_def charge_def)
  moreover have "moved s (view t) t" unfolding t using s(2) by (auto simp: moved_def ambient_def usage_ok_def charge_def split: option.splits)
  ultimately show "Q n (view t) \<and> moved s (view t) t" using assms [OF n] by simp
qed

lemma vpost_publishGone:
  assumes "\<And>bounds. descendantRange path = Inr bounds \<Longrightarrow>
    Q () (v\<lparr>v_tombstones := bury (filter (\<lambda>e. selected path bounds single (e_path e)) (v_entries v)) (v_tombstones v)\<rparr>)"
  shows "vpost (publishSubtreeRemoval cfg path (Some seq) single) v Q"
  unfolding publishSubtreeRemoval_def descendantRange_op_def bury_def [symmetric] option.case
  apply (rule vpost_bind, rule vpost_return, rule vpost_bind, rule vpost_lift, rule vpost_bind, rule vpost_exec)
  subgoal by simp
  apply (rule vpost_silent)
  subgoal by (intro silent_intros)
  using assms by simp

lemma vpost_clearTombstones:
  assumes "\<And>bounds. descendantRange path = Inr bounds \<Longrightarrow>
    Q () (v\<lparr>v_tombstones := filter (\<lambda>(p, _). \<not> (in_tree path bounds p \<and> entry_at p (v_entries v) \<noteq> None)) (v_tombstones v)\<rparr>)"
  shows "vpost (clearSubtreeTombstones path) v Q"
  unfolding clearSubtreeTombstones_def descendantRange_op_def
  apply (rule vpost_bind, rule vpost_lift, rule vpost_exec)
  subgoal by simp
  using assms by (simp add: find_entry_at)

section \<open>The target is free\<close>

lemma nothing_below:
  assumes "tree_ok es" "\<forall>e \<in> set es. e_parent e \<noteq> target" "canonical target" "f \<in> set es"
  shows "\<not> below target (e_path f)"
proof
  assume b: "below target (e_path f)"
  have f: "canonical (e_path f)" using assms(1,4) by (simp add: tree_ok_def parent_ok_def)
  show False using assms(4) b f
  proof (induction "length (segments_of (e_path f))" arbitrary: f rule: less_induct)
    case less
    have root: "e_path f \<noteq> [SLASH]" using less.prems(2) nothing_below_root [OF assms(3)] by metis
    obtain d where d: "d \<in> set es" "e_path d = e_parent f" using assms(1) less.prems(1) root by (auto simp: tree_ok_def parent_ok_def)
    obtain x where x: "segments_of (e_path f) = segments_of (e_parent f) @ [x]" "canonical (e_parent f)"
      using child_segments [OF assms(1) less.prems(1) root] .
    have "prefix (segments_of target) (segments_of (e_parent f))"
      using less.prems(2) x(1) by (auto simp: below_def strict_prefix_def)
    moreover have "segments_of target \<noteq> segments_of (e_parent f)"
      using assms(2) less.prems(1) canonical_segments [OF assms(3)] canonical_segments [OF x(2)] by metis
    ultimately have "below target (e_path d)" by (simp add: below_def strict_prefix_def d(2))
    with less.hyps [of d] d x show False by simp
  qed
qed

text \<open>What is left when the entry at the target, if there is one, has been taken out.\<close>

definition vacated :: "Config \<Rightarrow> jstring \<Rightarrow> View \<Rightarrow> View \<Rightarrow> bool" where
  "vacated cfg target v u \<longleftrightarrow> sound cfg u \<and> (within cfg v \<longrightarrow> within cfg u) \<and> v_nextIno u = v_nextIno v \<and>
     v_entries u = filter (\<lambda>e. e_path e \<noteq> target) (v_entries v) \<and> fs u = (fs v)(target := None) \<and>
     (\<forall>p. path_version v p \<le> path_version u p)"

lemma vacated_refl:
  assumes "sound cfg v" "entry_at target (v_entries v) = None"
  shows "vacated cfg target v v"
proof -
  have "filter (\<lambda>e. e_path e \<noteq> target) (v_entries v) = v_entries v" using assms(2) by (auto simp: filter_id_conv entry_at_None)
  moreover have "fs v target = None" using assms(2) by (simp add: fs_def)
  ultimately show ?thesis using assms(1) by (auto simp: vacated_def)
qed

lemma vacated_leaf:
  assumes "sound cfg v" "d \<in> set (v_entries v)" "e_path d = target" "target \<noteq> [SLASH]" "childless (v_entries v) d"
    "may_drop v ((=) target) obs"
  shows "vacated cfg target v (pruned ((=) target) obs (upsert_tombstone target (e_version d + 0) (v_tombstones v)) v)"
proof -
  let ?ts = "upsert_tombstone target (e_version d + 0) (v_tombstones v)"
  have tree: "tree_ok (v_entries v)" and t: "distinct (map fst (v_tombstones v))" using assms(1) by (simp_all add: sound_def)
  have prunable: "prunable ((=) target) (v_entries v)" using prunable_leaf [OF tree assms(2) _ assms(5)] assms(3,4) by simp
  have ok: "sound cfg (pruned ((=) target) obs ?ts v)" "fs (pruned ((=) target) obs ?ts v) = (\<lambda>q. if target = q then None else fs v q)"
    using pruned_ok [OF assms(1) prunable, where ts = ?ts and obs = obs] assms(6) t
    by (auto simp: upsert_tombstone_keys may_drop_def)
  have "entry_at target (v_entries v) = Some d" using tree_entry [OF tree] assms(2,3) by blast
  then have "remembered 0 ((=) target) v ?ts" by (auto simp: remembered_def map_of_upsert_tombstone split: option.splits)
  then have "path_version v p \<le> path_version (pruned ((=) target) obs ?ts v) p" for p using pruned_version [of 0 "(=) target" v ?ts p obs] by simp
  moreover have "within cfg v \<longrightarrow> within cfg (pruned ((=) target) obs ?ts v)"
    using inline_total_nonneg [of "filter (\<lambda>e. target = e_path e) (v_entries v)"] by (auto simp: within_def pruned_fields)
  ultimately show ?thesis using ok by (auto simp: vacated_def pruned_fields fun_eq_iff eq_commute [of target])
qed

lemma vpost_vacate:
  assumes "sound cfg v" "target \<noteq> [SLASH]" "canonical target" "destination = entry_at target (v_entries v)"
    "\<And>d. destination = Some d \<Longrightarrow> is_directory d \<Longrightarrow> \<forall>e \<in> set (v_entries v). e_parent e \<noteq> target"
    "\<And>x u. vacated cfg target v u \<Longrightarrow> Q x u"
  shows "vpost (replaceDestination cfg target now destination) v Q"
proof (cases destination)
  case None
  with assms(4,6) vacated_refl [OF assms(1)] show ?thesis by (simp add: replaceDestination_def vpost_return)
next
  case (Some d)
  have tree: "tree_ok (v_entries v)" using assms(1) by (simp add: sound_def)
  have d: "d \<in> set (v_entries v)" "e_path d = target" using Some assms(4) tree_entry [OF tree] by metis+
  have "childless (v_entries v) d"
  proof (cases "is_directory d")
    case True
    from nothing_below [OF tree assms(5) [OF Some True] assms(3)] d show ?thesis by (simp add: childless_def)
  qed (rule file_childless [OF tree d(1)])
  note leaf = vacated_leaf [OF assms(1) d assms(2) this]
  show ?thesis unfolding replaceDestination_def Some option.case
    by (rule vpost_removeExact [OF assms(1) d]) (use leaf assms(6) in auto)
qed

section \<open>The row of a move\<close>

text \<open>The new names are names: text that SQLite can hold, and not too long.\<close>

definition paths_fit :: "EntryRow list \<Rightarrow> jstring \<Rightarrow> jstring \<Rightarrow> bool" where
  "paths_fit es source target \<longleftrightarrow> well_formed target \<and>
     (\<forall>e \<in> set es. inside source (e_path e) \<longrightarrow> utf8ByteLength (rebase source target (e_path e)) \<le> MAX_PATH_BYTES)"

lemma well_formed_append: "x = [] \<or> hd x = SLASH \<Longrightarrow> well_formed (a @ x) \<longleftrightarrow> well_formed a \<and> well_formed x"
  using code_points_append [of x a] by (auto simp: well_formed_def is_low_def SLASH_def)

lemma rebased_name:
  assumes "canonical source" "source \<noteq> [SLASH]" "canonical target" "target \<noteq> [SLASH]" "canonical q" "inside source q"
    "utf8ByteLength (rebase source target q) \<le> MAX_PATH_BYTES"
  shows "canonical (rebase source target q)" "well_formed target \<Longrightarrow> well_formed q \<Longrightarrow> well_formed (rebase source target q)"
    "target @ substr_from (codePointLength source + 1) q = rebase source target q"
proof -
  obtain extra where x: "segments_of q = segments_of source @ extra" "q = source @ tail_of extra"
    using insideE [OF assms(1,2,5,6)] .
  have r: "rebase source target q = target @ tail_of extra" using x(2) by (simp add: rebase_tail)
  have t: "target = path_of (segments_of target)" "\<forall>seg \<in> set (segments_of target). valid_segment seg"
    using canonical_segments [OF assms(3)] by blast+
  then have "segments_of target \<noteq> []" using assms(4) by (metis path_of_Nil)
  with t(1) r have "rebase source target q = path_of (segments_of target @ extra)"
    by (metis append_is_Nil_conv path_of_tail tail_of_append)
  moreover have "\<forall>seg \<in> set (segments_of target @ extra). valid_segment seg"
    using t(2) canonical_segments [OF assms(5)] x(1) by auto
  moreover have "NUL \<notin> set (rebase source target q)"
    using assms(3,5) unfolding r by (auto simp: canonical_def x(2))
  ultimately show "canonical (rebase source target q)" using assms(7) unfolding canonical_def by blast
  show "well_formed target \<Longrightarrow> well_formed q \<Longrightarrow> well_formed (rebase source target q)"
    unfolding r unfolding x(2) well_formed_append [OF tail_of_front] by blast
  show "target @ substr_from (codePointLength source + 1) q = rebase source target q"
    unfolding r unfolding x(2) using substr_after [OF tail_of_front] by simp
qed

lemma moved_row_shifts:
  assumes "tree_ok es" "way_clear es source target up" "paths_fit es source target" "e \<in> set es" "inside source (e_path e)"
  shows "shifts source target up (moved_row source target up name' now replaced ts) e"
    "e_path (moved_row source target up name' now replaced ts e) = rebase source target (e_path e)"
    "e_version (moved_row source target up name' now replaced ts e) =
       (case map_of ts (rebase source target (e_path e)) of Some n \<Rightarrow> n + 1 | None \<Rightarrow> 1)"
proof -
  have c: "canonical source" "source \<noteq> [SLASH]" "canonical target" "target \<noteq> [SLASH]"
    using assms(2) by (simp_all add: way_clear_def)
  have canon: "canonical (e_path f)" if "f \<in> set es" for f using assms(1) that by (simp add: tree_ok_def parent_ok_def)
  have fit: "utf8ByteLength (rebase source target (e_path f)) \<le> MAX_PATH_BYTES" if "f \<in> set es" "inside source (e_path f)" for f
    using assms(3) that by (simp add: paths_fit_def)
  note name = rebased_name [OF c canon [OF assms(4)] assms(5) fit [OF assms(4,5)]]
  let ?f = "moved_row source target up name' now replaced ts"
  show p: "e_path (?f e) = rebase source target (e_path e)" unfolding moved_row_def Let_def name(3) by simp
  show "e_version (?f e) = (case map_of ts (rebase source target (e_path e)) of Some n \<Rightarrow> n + 1 | None \<Rightarrow> 1)"
    unfolding moved_row_def Let_def name(3) by simp
  have parent: "e_parent (?f e) = (if e_path e = source then up else rebase source target (e_parent e))"
  proof (cases "e_path e = source")
    case False
    have root: "e_path e \<noteq> [SLASH]" using assms(5) c(1,2) nothing_below_root by (metis inside_def)
    obtain x where x: "segments_of (e_path e) = segments_of (e_parent e) @ [x]" "canonical (e_parent e)"
      using child_segments [OF assms(1,4) root] .
    obtain d where d: "d \<in> set es" "e_path d = e_parent e" using assms(1,4) root by (auto simp: tree_ok_def parent_ok_def)
    obtain extra where extra: "segments_of (e_path e) = segments_of source @ extra"
      using insideE [OF c(1,2) canon [OF assms(4)] assms(5)] by blast
    have "extra \<noteq> []" using extra False canonical_segments [OF c(1)] canonical_segments [OF canon [OF assms(4)]] by auto
    then obtain init where "segments_of (e_parent e) = segments_of source @ init"
      using extra x(1) by (metis append_assoc append_butlast_last_id butlast_append butlast_snoc)
    then have d_in: "inside source (e_path d)" unfolding d(2) inside_prefix [OF c(1) x(2)] by simp
    have "target @ substr_from (codePointLength source + 1) (e_parent e) = rebase source target (e_parent e)"
      using rebased_name(3) [OF c canon [OF d(1)] d_in fit [OF d(1) d_in]] unfolding d(2) .
    with False
    show ?thesis unfolding moved_row_def Let_def by simp
  qed (simp add: moved_row_def Let_def)
  have fields: "e_id (?f e) = e_id e" "e_kind (?f e) = e_kind e" "e_size (?f e) = e_size e"
    "e_linkIdentity (?f e) = e_linkIdentity e" "e_linkCount (?f e) = e_linkCount e" "e_revision e < e_revision (?f e)"
    "e_digest (?f e) = e_digest e" "e_digest_revision (?f e) = e_digest_revision e"
    by (simp_all add: moved_row_def Let_def less_Suc_eq_le)
  show "shifts source target up ?f e" unfolding shifts_def p using fields parent name(1) by blast
qed

text \<open>Once the target is vacated, the way is clear.\<close>

lemma way_cleared:
  assumes "sound cfg v" "vacated cfg target v u" "canonical source" "source \<noteq> [SLASH]" "canonical target" "target \<noteq> [SLASH]"
    "source \<noteq> target" "e \<in> set (v_entries v)" "e_path e = source" "is_directory e \<Longrightarrow> \<not> below source target"
    "dirname target = Inr up" "\<exists>d \<in> set (v_entries v). e_path d = up \<and> is_directory d"
    "\<forall>f \<in> set (v_entries v). \<not> below target (e_path f)"
  shows "way_clear (v_entries u) source target up"
proof -
  have tree: "tree_ok (v_entries v)" using assms(1) by (simp add: sound_def)
  have es: "set (v_entries u) = {e \<in> set (v_entries v). e_path e \<noteq> target}" using assms(2) by (auto simp: vacated_def)
  obtain d where d: "d \<in> set (v_entries v)" "e_path d = up" "is_directory d" using assms(12) by blast
  have up: "below up target" "canonical up" "\<And>r. canonical r \<Longrightarrow> below r target \<Longrightarrow> r = up \<or> below r up"
    using dirname_canonical [OF assms(5,6)] assms(11) by (metis Inr_inject)+
  have "\<not> below source target"
  proof
    assume b: "below source target"
    from up(3) [OF assms(3) b] have "\<exists>a \<in> set (v_entries v). e_path a = source \<and> is_directory a"
    proof
      assume "below source up"
      with tree_above [OF tree d(1) assms(3)] d(2) show ?thesis by blast
    qed (use d in blast)
    with tree_path [OF tree assms(8)] assms(9) have "is_directory e" by metis
    with assms(10) b show False by blast
  qed
  then have "\<not> inside source target" using assms(7) by (simp add: inside_def)
  moreover have "\<forall>f \<in> set (v_entries u). \<not> inside target (e_path f)" using es assms(13) by (auto simp: inside_def)
  moreover have "e \<in> set (v_entries u)" using es assms(7-9) by simp
  moreover have "up \<noteq> target" using up(1) by (auto simp: below_def)
  then have "d \<in> set (v_entries u)" using es d by simp
  ultimately show ?thesis unfolding way_clear_def using assms(3-6,9,11) d(2,3) by blast
qed

section \<open>A move that commits\<close>

definition renamed :: "Config \<Rightarrow> jstring \<Rightarrow> jstring \<Rightarrow> nat \<Rightarrow> View \<Rightarrow> View \<Rightarrow> bool" where
  "renamed cfg source target n v w \<longleftrightarrow> sound cfg w \<and> ages v w \<and> v_nextIno v \<le> v_nextIno w \<and>
     fs w = abs_move source target (fs v) \<and> fs v source \<noteq> None \<and>
     n = card {q. fs v q \<noteq> None \<and> inside source q} \<and> (within cfg v \<longrightarrow> within cfg w)"

lemma map_of_filter_keys: "map_of (filter (\<lambda>(p, _). P p) ts) p = (if P p then map_of ts p else None)"
  by (induction ts) auto

lemma in_tree_inside:
  assumes "canonical root" "canonical q" "well_formed root" "well_formed q" "descendantRange root = Inr bounds"
  shows "in_tree root bounds q \<longleftrightarrow> inside root q"
  using descendantRange_below [OF assms(1-4), of "fst bounds" "snd bounds"] assms(5)
  by (simp add: in_tree_def in_range_def inside_def)

lemma vacated_move:
  assumes "vacated cfg target v u" "canonical source" "source \<noteq> [SLASH]" "canonical target" "target \<noteq> [SLASH]" "\<not> inside source target"
  shows "abs_move source target (fs u) = abs_move source target (fs v)"
proof
  fix q
  have u: "fs u = (fs v)(target := None)" using assms(1) by (simp add: vacated_def)
  show "abs_move source target (fs u) q = abs_move source target (fs v) q"
  proof (cases "canonical q \<and> inside target q")
    case True
    have "rebase target source q \<noteq> target"
    proof
      assume eq: "rebase target source q = target"
      obtain extra where "segments_of q = segments_of target @ extra" using insideE [OF assms(4,5)] True by blast
      then have "segments_of (rebase target source q) = segments_of source @ extra"
        by (intro rebase_segments [OF assms(4,5,2,3)]) (use True eq assms(4) in simp_all)
      with assms(6) show False unfolding eq inside_prefix [OF assms(2,4)] by simp
    qed
    then show ?thesis by (simp add: abs_move_def True u)
  next
    case False
    then have "q \<noteq> target" using assms(4) by auto
    then show ?thesis unfolding abs_move_def if_not_P [OF False] u by simp
  qed
qed

lemma committed_move:
  fixes name' :: jstring and now replaced :: nat
  assumes v: "sound cfg v" "utf8_paths (v_entries v)" "paths_fit (v_entries v) source target"
    and u: "vacated cfg target v u" "way_clear (v_entries u) source target up"
    and e: "e \<in> set (v_entries u)" "e_path e = source"
    and bounds: "descendantRange source = Inr bounds" "descendantRange target = Inr tbounds"
  defines "affected \<equiv> \<lambda>f. e_path f = source \<or> is_directory e \<and> in_range bounds (e_path f)"
    and "ts \<equiv> bury (filter (\<lambda>f. selected source bounds (\<not> is_directory e) (e_path f)) (v_entries u)) (v_tombstones u)"
  defines "es \<equiv> map (\<lambda>f. if affected f then moved_row source target up name' now replaced ts f else f) (v_entries u)"
  shows "renamed cfg source target (length (filter affected (v_entries u))) v (u\<lparr>v_entries := es,
    v_tombstones := filter (\<lambda>(p, _). \<not> (in_tree target tbounds p \<and> entry_at p es \<noteq> None)) ts\<rparr>)"
proof -
  let ?f = "moved_row source target up name' now replaced ts"
  let ?ts = "filter (\<lambda>(p, _). \<not> (in_tree target tbounds p \<and> entry_at p es \<noteq> None)) ts"
  have c: "canonical source" "source \<noteq> [SLASH]" "canonical target" "target \<noteq> [SLASH]" "\<not> inside source target"
    using u(2) by (simp_all add: way_clear_def)
  have sub: "v_entries u = filter (\<lambda>e. e_path e \<noteq> target) (v_entries v)" and su: "sound cfg u" using u(1) by (simp_all add: vacated_def)
  then have tree: "tree_ok (v_entries u)" and utf: "utf8_paths (v_entries u)" and fit: "paths_fit (v_entries u) source target"
    using v(2,3) by (auto simp: sound_def utf8_paths_def paths_fit_def)
  have canon: "canonical (e_path f)" "well_formed (e_path f)" if "f \<in> set (v_entries u)" for f
    using tree utf that by (auto simp: tree_ok_def parent_ok_def utf8_paths_def)
  have wf: "well_formed source" "well_formed target" using canon(2) [OF e(1)] e(2) fit by (simp_all add: paths_fit_def)
  have tr: "in_tree source bounds (e_path f) \<longleftrightarrow> inside source (e_path f)" if "f \<in> set (v_entries u)" for f
    using in_tree_inside [OF c(1) canon(1) wf(1) canon(2) bounds(1)] that by blast
  have sel: "affected f \<longleftrightarrow> inside source (e_path f)" "selected source bounds (\<not> is_directory e) (e_path f) \<longleftrightarrow> inside source (e_path f)"
    if f: "f \<in> set (v_entries u)" for f
  proof -
    have one: "inside source (e_path f) \<longleftrightarrow> e_path f = source" if "\<not> is_directory e"
      using file_childless [OF tree e(1) that] f e(2) by (auto simp: inside_def childless_def)
    show "affected f \<longleftrightarrow> inside source (e_path f)"
    proof (cases "is_directory e")
      case True
      with tr [OF f] show ?thesis by (simp add: affected_def in_tree_def)
    qed (simp add: affected_def one)
    show "selected source bounds (\<not> is_directory e) (e_path f) \<longleftrightarrow> inside source (e_path f)"
    proof (cases "is_directory e")
      case True
      with tr [OF f] show ?thesis by (simp add: selected_def)
    qed (simp add: selected_def one)
  qed
  have ts: "ts = leaving source u" unfolding ts_def leaving_def using sel(2) by (metis (no_types, lifting) filter_cong)
  have es: "es = shifted source ?f (v_entries u)" unfolding es_def shifted_def using sel(1) by (intro map_cong) auto
  have shifts: "\<forall>f \<in> set (v_entries u). inside source (e_path f) \<longrightarrow> shifts source target up ?f f"
    using moved_row_shifts(1) [OF tree u(2) fit] by blast
  have past: "versions_past source ?f (leaving source u) u"
    unfolding versions_past_def ts [symmetric] using moved_row_shifts(2,3) [OF tree u(2) fit] by simp
  have dist: "distinct (map fst ts)" using su bury_keys(2) by (simp add: ts_def sound_def)
  have map_ts: "\<forall>p. entry_at p (shifted source ?f (v_entries u)) = None \<longrightarrow> map_of ?ts p = map_of (leaving source u) p"
    unfolding es [symmetric] ts [symmetric] map_of_filter_keys by simp
  have keys: "e_path e' \<notin> fst ` set ?ts" if member: "e' \<in> set (shifted source ?f (v_entries u))" for e'
  proof -
    have there: "entry_at (e_path e') es \<noteq> None" using member unfolding es entry_at_None by blast
    obtain f where f: "f \<in> set (v_entries u)" "e' = (if inside source (e_path f) then ?f f else f)"
      using member unfolding shifted_in by blast
    show ?thesis
    proof (cases "inside source (e_path f)")
      case True
      have sh: "shifts source target up ?f f" using shifts f(1) True by blast
      have fb: "utf8ByteLength (rebase source target (e_path f)) \<le> MAX_PATH_BYTES" using fit f(1) True by (simp add: paths_fit_def)
      have p: "e_path e' = rebase source target (e_path f)" using f(2) True shifts_fields(8) [OF sh] by simp
      have "in_tree target tbounds (e_path e')"
        using in_tree_inside [OF c(3) _ wf(2) _ bounds(2), of "e_path e'"] rebased_name [OF c(1-4) canon(1) [OF f(1)] True fb]
          moved_inside(1) [OF u(2) sh canon(1) [OF f(1)] True] wf(2) canon(2) [OF f(1)] shifts_fields(8) [OF sh] p by simp
      with there show ?thesis by auto
    next
      case False
      then have "e' = f" using f(2) by simp
      moreover have "e_path f \<notin> fst ` set (v_tombstones u)" using su f(1) by (simp add: sound_def)
      moreover have "e_path f \<notin> e_path ` set (filter (\<lambda>g. inside source (e_path g)) (v_entries u))" using False by auto
      ultimately have "e_path e' \<notin> fst ` set ts" unfolding ts leaving_def bury_keys(1) by blast
      then show ?thesis by auto
    qed
  qed
  let ?w = "relocated source ?f ?ts u"
  have w: "u\<lparr>v_entries := es, v_tombstones := ?ts\<rparr> = ?w" by (simp add: relocated_def es)
  have "distinct (map fst ?ts)" using dist by (rule distinct_map_filter)
  then have "sound cfg ?w" using relocated_sound [OF su u(2) shifts] keys by blast
  moreover have fsw: "fs ?w = abs_move source target (fs u)" by (rule relocated_fs [OF tree u(2) shifts])
  moreover have "fs ?w = abs_move source target (fs v)" using fsw vacated_move [OF u(1) c] by simp
  moreover have "ages v ?w"
    unfolding ages_def
  proof
    fix p
    have vu: "path_version v p \<le> path_version u p" "p \<noteq> target \<Longrightarrow> fs u p = fs v p" using u(1) by (simp_all add: vacated_def)
    note r = relocated_version [OF tree u(2) shifts past map_ts, of p]
    show "path_version v p \<le> path_version ?w p \<and> (fs v p \<noteq> fs ?w p \<longrightarrow> path_version v p < path_version ?w p)"
      using target_version [OF tree u(2) shifts past map_ts] vu r by (cases "p = target") auto
  qed
  moreover have "v_nextIno ?w = v_nextIno v" "within cfg v \<longrightarrow> within cfg ?w"
    using u(1) by (simp_all add: vacated_def relocated_def within_def)
  moreover have "fs v source \<noteq> None"
    using e by (auto simp: sub fs_def entry_at_None)
  moreover have "length (filter affected (v_entries u)) = card {q. fs v q \<noteq> None \<and> inside source q}"
  proof -
    have "filter affected (v_entries u) = filter (\<lambda>f. inside source (e_path f)) (v_entries u)"
      by (rule filter_cong) (use sel(1) in auto)
    also have "\<dots> = filter (\<lambda>f. inside source (e_path f)) (v_entries v)"
      unfolding sub filter_filter by (rule filter_cong) (use c(5) in auto)
    finally show ?thesis using removed_count [of v "inside source"] v(1) by (simp add: sound_def)
  qed
  ultimately show ?thesis unfolding w renamed_def by simp
qed

lemma silent_move [silent_intros]: "silent (assertMoveKinds e destination target)"
  unfolding assertMoveKinds_def by (intro silent_intros)

lemma vpost_replaceable:
  assumes "(\<And>d. destination = Some d \<Longrightarrow> is_directory d \<Longrightarrow> \<forall>e \<in> set (v_entries v). e_parent e \<noteq> target) \<Longrightarrow> Q () v"
  shows "vpost (assertDestinationReplaceable destination target replace) v Q"
  unfolding assertDestinationReplaceable_def
  by (intro vpost_option vpost_if vpost_throw vpost_return vpost_bind vpost_gets vpost_require; rule assms; auto)

lemma vpost_commitMove:
  assumes ok: "sound cfg v" "utf8_paths (v_entries v)" "paths_fit (v_entries v) source target"
    and paths: "canonical source" "source \<noteq> [SLASH]" "canonical target" "source \<noteq> target"
    and found: "\<And>Q. (\<And>e. e \<in> set (v_entries v) \<Longrightarrow> e_path e = source \<Longrightarrow> Q e v) \<Longrightarrow>
      vpost (or_require sourceResolved (requireEntry source False)) v Q"
    and up: "\<And>up Q. target \<noteq> [SLASH] \<Longrightarrow> dirname target = Inr up \<Longrightarrow>
      (\<And>x. \<exists>d \<in> set (v_entries v). e_path d = up \<and> is_directory d \<Longrightarrow> Q x v) \<Longrightarrow> vpost (requireDirectory up None) v Q"
    and dest: "targetResolved = None \<or> targetResolved = entry_at target (v_entries v)"
    and post: "\<And>r queued w. renamed cfg source target (mv_moved r) v w \<Longrightarrow> mv_from r = source \<Longrightarrow> mv_to r = target \<Longrightarrow>
      Q (r, queued) w"
  shows "vpost (commitMove cfg source target sourceResolved sourceFollowed targetResolved targetFollowed replace posix) v Q"
proof -
  have tree: "tree_ok (v_entries v)" and lone: "\<forall>e \<in> set (v_entries v). solitary e" using ok(1) by (simp_all add: sound_def)
  then have lone': "\<forall>e \<in> set (v_entries v). e_linkIdentity e = None" by (simp add: solitary_def)
  have other: "\<not> sameInode e (entry_at target (v_entries v))" if "e \<in> set (v_entries v)" "e_path e = source" for e
  proof (cases "entry_at target (v_entries v)")
    case (Some d)
    then have d: "d \<in> set (v_entries v)" "e_path d = target" using tree_entry [OF tree] by blast+
    then have "e_id e \<noteq> e_id d" using tree_id [OF tree that(1)] that(2) paths(4) by metis
    with Some that(1) d(1) lone' show ?thesis by (simp add: sameInode_def inode_of_def)
  qed (simp add: sameInode_def)
  have below_target: "target \<noteq> [SLASH] \<and> (\<forall>f \<in> set (v_entries v). \<not> below target (e_path f))"
    if e: "e \<in> set (v_entries v)" "e_path e = source"
      and free: "\<And>d. entry_at target (v_entries v) = Some d \<Longrightarrow> is_directory d \<Longrightarrow> \<forall>e \<in> set (v_entries v). e_parent e \<noteq> target" for e
  proof -
    have none: "\<not> below target (e_path f)" if f: "f \<in> set (v_entries v)" for f
    proof
      assume b: "below target (e_path f)"
      from tree_above [OF tree f paths(3) b] obtain d where d: "d \<in> set (v_entries v)" "e_path d = target" "is_directory d" by blast
      then have "entry_at target (v_entries v) = Some d" using tree_entry [OF tree] by blast
      with free d(3) have "\<forall>e \<in> set (v_entries v). e_parent e \<noteq> target" by blast
      from nothing_below [OF tree this paths(3) f] b show False by blast
    qed
    moreover have "target \<noteq> [SLASH]"
    proof
      assume "target = [SLASH]"
      moreover have "segments_of [SLASH] = []" using segments_path_of [of "[]"] by simp
      moreover have "segments_of source \<noteq> []" using canonical_segments [OF paths(1)] paths(2) by (metis path_of_Nil)
      ultimately have "below target (e_path e)" using e(2) by (simp add: below_def strict_prefix_def)
      with none [OF e(1)] show False by blast
    qed
    ultimately show ?thesis by blast
  qed
  have parent: "vpost (requireDirectory up None) v (\<lambda>_ w. w = v \<and>
      (target \<noteq> [SLASH] \<longrightarrow> (\<exists>d \<in> set (v_entries v). e_path d = up \<and> is_directory d)))" if "dirname target = Inr up" for up
  proof (cases "target = [SLASH]")
    case True
    then show ?thesis by (intro vpost_silent silent_lookups) simp
  next
    case False
    show ?thesis by (rule up [OF False that]) simp
  qed
  show ?thesis
    unfolding commitMove_def descendantRange_op_def
    apply (rule vpost_bind, rule found)
    subgoal premises e for e
      apply (rule vpost_bind, rule vpost_weaken [where Q' = "\<lambda>b w. w = v \<and> (is_directory e \<longrightarrow> b = below source target)"])
      subgoal by (intro vpost_if vpost_lift vpost_return) (simp_all add: isDescendant_below [OF paths(1,3)])
      apply (elim conjE, hypsubst, rule vpost_if, rule vpost_throw)
      apply (rule vpost_bind, rule vpost_silent, rule silent_traversal, rule vpost_bind, rule vpost_silent, rule silent_traversal)
      apply (rule vpost_bind, rule vpost_lift, rule vpost_bind, rule vpost_weaken [OF parent], assumption, elim conjE, hypsubst)
      apply (rule vpost_bind, rule vpost_silent)
      subgoal by (intro silent_intros)
      apply (rule vpost_bind, rule vpost_weaken [where Q' = "\<lambda>x w. x = entry_at target (v_entries v) \<and> w = v"])
      subgoal using dest by (auto intro!: vpost_return vpost_oneEntry split: option.split)
      apply (elim conjE, hypsubst, simp only: other [OF e] if_False)
      apply (rule vpost_bind, rule vpost_silent)
      subgoal by (intro silent_intros)
      apply (rule vpost_bind, rule vpost_replaceable, rule vpost_bind, rule vpost_silent, rule silent_move)
      apply (rule vpost_bind, rule vpost_lift, rule vpost_bind, rule vpost_linkedIdentities [OF lone'])
      apply (rule vpost_bind, rule vpost_silent, rule silent_simple)
      subgoal premises p for inner _ _ _ up _ _ _ _ _ _ _ bounds now
      proof -
        have free: "\<And>d. entry_at target (v_entries v) = Some d \<Longrightarrow> is_directory d \<Longrightarrow> \<forall>e \<in> set (v_entries v). e_parent e \<noteq> target"
          using p by blast
        have t: "target \<noteq> [SLASH] \<and> (\<forall>f \<in> set (v_entries v). \<not> below target (e_path f))"
          by (rule below_target [OF e], rule free)
        then have t': "target \<noteq> [SLASH]" by blast
        show ?thesis
          apply (rule vpost_bind, rule vpost_vacate [OF ok(1) t' paths(3) refl], erule (1) free)
          apply (rule vpost_bind, rule vpost_silent, rule silent_notes, rule vpost_bind, rule vpost_publishGone)
          apply (rule vpost_bind, rule vpost_lift, rule vpost_bind, rule vpost_moveRows)
          apply (rule vpost_bind, rule vpost_silent, rule silent_publish, rule vpost_bind, rule vpost_clearTombstones)
          apply (rule vpost_bind, rule vpost_silent, rule silent_notes, rule vpost_bind, rule vpost_silent, rule silent_publish)
          apply (rule vpost_bind, rule vpost_silent, rule silent_notes, rule vpost_bind, rule vpost_silent, rule silent_notes)
          apply (rule vpost_return, rule post)
          subgoal premises q for queued u seq bounds' name' n
          proof -
            have same: "bounds' = bounds" using p q by simp
            have u: "vacated cfg target v u" using q by blast
            have stands: "e \<in> set (v_entries u)" using u e paths(4) by (simp add: vacated_def)
            have way: "way_clear (v_entries u) source target up"
              by (rule way_cleared [OF ok(1) u paths(1-3) t' paths(4) e]) (use p t in blast)+
            show ?thesis
              using committed_move [OF ok u way stands e(2), of bounds _ name' now] p q unfolding same by (simp cong: if_cong)
          qed
          by simp_all
      qed
      done
    done
qed

end
