(* ===== verification/Vfs_Renaming.thy ===== *)
theory Vfs_Renaming
  imports Vfs_Moves Vfs_Contents
begin

text \<open>
  The operation \<open>move\<close> of \<open>src/vfs/sql-move-base.ts\<close> as a whole, and the write that follows a
  file to its new name.
\<close>

section \<open>The operation\<close>

lemma silent_alarm [silent_intros]: "silent (scheduleGarbageAlarm cfg)"
  unfolding scheduleGarbageAlarm_def
  by (rule silent_modify) (auto simp: silent_defs Let_def split: list.splits option.splits)

lemma silent_moveNowhere [silent_intros]: "silent (moveNowhere source resolved followed posix)"
  unfolding moveNowhere_def by (intro silent_intros)

definition names_fit :: "Vfs \<Rightarrow> jstring \<Rightarrow> jstring \<Rightarrow> bool" where
  "names_fit s from to \<longleftrightarrow> (\<forall>m a b. fst (resolveAccess from False False s) = Inr a \<longrightarrow>
     fst (resolveAccess to m False s) = Inr b \<longrightarrow> paths_fit (entries (tables s)) (a_path a) (a_path b))"

text \<open>A move onto itself leaves the contents; any other renames the subtree.\<close>

definition moved_to :: "Config \<Rightarrow> MoveResult \<Rightarrow> View \<Rightarrow> View \<Rightarrow> bool" where
  "moved_to cfg r v w \<longleftrightarrow> sound cfg w \<and> ages v w \<and> v_nextIno v \<le> v_nextIno w \<and> (within cfg v \<longrightarrow> within cfg w) \<and>
     fs w = abs_move (mv_from r) (mv_to r) (fs v) \<and>
     (mv_from r \<noteq> mv_to r \<longrightarrow> fs v (mv_from r) \<noteq> None \<and> mv_moved r = card {q. fs v q \<noteq> None \<and> inside (mv_from r) q})"

lemma moved_to_flushed:
  assumes "moved_to cfg r v w" "all_touched (v_entries w) es"
  shows "moved_to cfg r v (w\<lparr>v_entries := es\<rparr>)"
proof -
  have w: "sound cfg w" "ages v w" "v_nextIno v \<le> v_nextIno w" "fs (w\<lparr>v_entries := es\<rparr>) = fs w"
    using assms flushed_ok [OF assms(2)] by (simp_all add: moved_to_def)
  have "sound cfg (w\<lparr>v_entries := es\<rparr>)" "ages w (w\<lparr>v_entries := es\<rparr>)"
    using flushed_ok [OF assms(2)] w(1) by (simp_all add: evolves_def)
  with w assms(1) ages_trans show ?thesis by (auto simp: moved_to_def within_def)
qed

lemma abs_move_same:
  assumes "sound cfg v" "canonical p" "p \<noteq> [SLASH]"
  shows "abs_move p p (fs v) = fs v"
proof
  fix q
  have "canonical q" if "fs v q \<noteq> None"
    using that assms(1) by (cases "entry_at q (v_entries v)") (auto simp: fs_def sound_def tree_ok_def parent_ok_def dest: entry_at_SomeD)
  moreover have "rebase p p q = q" if "canonical q" "inside p q"
    using insideE [OF assms(2,3) that] by (metis rebase_tail)
  ultimately show "abs_move p p (fs v) q = fs v q" by (cases "fs v q") (auto simp: abs_move_def)
qed

lemma vpost_move:
  assumes ok: "sound cfg v" "utf8_paths (v_entries v)" "v = view s0" "names_fit s0 from to"
    and post: "\<And>r w a b m. moved_to cfg r v w \<Longrightarrow> (\<And>s. view s = v \<Longrightarrow> fst (resolveAccess from False False s) = Inr a) \<Longrightarrow>
      (\<And>s. view s = v \<Longrightarrow> fst (resolveAccess to m False s) = Inr b) \<Longrightarrow> mv_from r = a_path a \<Longrightarrow> mv_to r = a_path b \<Longrightarrow> Q r w"
  shows "vpost (move cfg from to replace posix) v Q"
  unfolding move_def Let_def
  apply (rule vpost_bind, rule vpost_resolve)
  subgoal premises a for a
    apply (rule vpost_bind, rule vpost_weaken [where Q' = "\<lambda>row w. w = v \<and>
        (row = a_row a \<or> (\<exists>e \<in> set (v_entries v). row = Some e \<and> e_path e = a_path a))"])
    subgoal by (intro vpost_if vpost_bind vpost_source [OF ok(1) a(3)] vpost_return) auto
    apply (elim conjE, hypsubst, rule vpost_bind, rule vpost_resolve)
    subgoal premises b for row _ b
    proof -
      let ?m = "\<not> pathRequiresDirectory to \<or> (case row of None \<Rightarrow> False | Some e \<Rightarrow> is_directory e)"
      have found: "vpost (or_require row (requireEntry (a_path a) False)) v Q"
        if "\<And>e. e \<in> set (v_entries v) \<Longrightarrow> e_path e = a_path a \<Longrightarrow> Q e v" for Q
      proof (cases "row = a_row a")
        case True
        show ?thesis unfolding True by (rule vpost_source [OF ok(1) a(3)]) (simp_all add: that)
      next
        case False
        with b(1) obtain e where "e \<in> set (v_entries v)" "row = Some e" "e_path e = a_path a" by blast
        with that show ?thesis by (simp add: or_require_def vpost_return)
      qed
      have up: "vpost (requireDirectory up None) v Q"
        if "a_path b \<noteq> [SLASH]" "dirname (a_path b) = Inr up" "\<And>x. \<exists>d \<in> set (v_entries v). e_path d = up \<and> is_directory d \<Longrightarrow> Q x v" for up Q
        by (rule vpost_target_parent [OF ok(1) _ b(2) that(1,2)]) (use b(4) that(3) in blast)+
      have fit: "paths_fit (v_entries v) (a_path a) (a_path b)"
        using ok(4) a(3) [of s0] b(4) [of s0] unfolding names_fit_def ok(3) by simp
      have finish: "\<forall>es. all_touched (v_entries w) es \<longrightarrow> vpost (case (r, queued) of (result, queued) \<Rightarrow>
          bind_op (when_op queued (scheduleGarbageAlarm cfg)) (\<lambda>_. return_op result)) (w\<lparr>v_entries := es\<rparr>) Q"
        if r: "moved_to cfg r v w" "mv_from r = a_path a" "mv_to r = a_path b" for r queued w
      proof (intro allI impI)
        fix es assume "all_touched (v_entries w) es"
        from moved_to_flushed [OF r(1) this] have "Q r (w\<lparr>v_entries := es\<rparr>)" by (rule post) (use a(3) b(4) r in auto)
        then show "vpost (case (r, queued) of (result, queued) \<Rightarrow>
          bind_op (when_op queued (scheduleGarbageAlarm cfg)) (\<lambda>_. return_op result)) (w\<lparr>v_entries := es\<rparr>) Q"
          unfolding prod.case by (intro vpost_bind vpost_silent silent_intros vpost_return)
      qed
      show ?thesis
        apply (rule vpost_if, rule vpost_throw, rule vpost_bind, rule vpost_transaction, rule vpost_if)
        subgoal premises same
          unfolding moveNowhere_def
          apply (rule vpost_bind, rule found)
          apply (rule vpost_bind, rule vpost_silent, rule silent_traversal, rule vpost_bind, rule vpost_silent)
          subgoal by (intro silent_intros)
          by (rule vpost_return, rule finish)
             (use same ok(1) abs_move_same [OF ok(1) a(1)] in \<open>simp_all add: moved_to_def\<close>)
        subgoal premises other
          by (rule vpost_commitMove [OF ok(1,2) fit a(1) other(1) b(2) other(2) found up b(3)], assumption+, rule finish)
             (use other(2) in \<open>simp_all add: moved_to_def renamed_def\<close>)
        done
    qed
    done
  done

lemma move_ok:
  assumes s: "vfs_ok cfg s" and fit: "utf8_paths (entries (tables s))" "names_fit s from to"
    and run: "move cfg from to replace posix s = (Inr r, t)"
  shows "moved_to cfg r (view s) (view t)" "usage_ok t" "transactionDepth t = 0" "inFlight t = inFlight s"
    "lastInlineRead s = None \<Longrightarrow> vfs_ok cfg t"
    "\<exists>a b m. fst (resolveAccess from False False s) = Inr a \<and> fst (resolveAccess to m False s) = Inr b \<and>
       mv_from r = a_path a \<and> mv_to r = a_path b"
proof -
  let ?Q = "\<lambda>r w. moved_to cfg r (view s) w \<and> (\<exists>a b m. fst (resolveAccess from False False s) = Inr a \<and>
    fst (resolveAccess to m False s) = Inr b \<and> mv_from r = a_path a \<and> mv_to r = a_path b)"
  have ok: "sound cfg (view s)" "usage_ok s" "transactionDepth s = 0" using s by (simp_all add: vfs_ok_def)
  have post: "vpost (move cfg from to replace posix) (view s) ?Q"
    by (rule vpost_move [OF ok(1) _ refl fit(2)]) (use fit(1) in auto)
  from vpostD [OF post refl ok(2) run] have q: "?Q r (view t)" "moved s (view t) t" by blast+
  show "moved_to cfg r (view s) (view t)" using q(1) by blast
  show "\<exists>a b m. fst (resolveAccess from False False s) = Inr a \<and> fst (resolveAccess to m False s) = Inr b \<and>
       mv_from r = a_path a \<and> mv_to r = a_path b" using q(1) by blast
  show t: "usage_ok t" "transactionDepth t = 0" "inFlight t = inFlight s"
    using q(2) ok by (simp_all add: moved_def ambient_def)
  assume "lastInlineRead s = None"
  then have "lastInlineRead t = None" using q(2) by (simp add: moved_def ambient_def)
  with q(1) t show "vfs_ok cfg t" by (simp add: vfs_ok_def read_ok_def moved_to_def)
qed

lemma stays_move [stays_intros]:
  "stays (moveRows affected f)" "stays (replaceDestination cfg target now destination)" "stays (clearSubtreeTombstones path)"
proof -
  show "stays (moveRows affected f)" by (auto simp: stays_def moveRows_def Let_def ambient_def)
  show "stays (replaceDestination cfg target now destination)" "stays (clearSubtreeTombstones path)"
    unfolding replaceDestination_def clearSubtreeTombstones_def by (intro stays_intros)+
qed

lemma stays_commitMove [stays_intros]:
  "stays (moveNowhere source resolved followed posix)"
  "stays (commitMove cfg source target resolved followed targetResolved targetFollowed replace posix)"
proof -
  show "stays (moveNowhere source resolved followed posix)" by (intro silent_stays silent_intros)
  have "stays (assertMoveKinds e destination target)" "stays (or_require resolved (requireEntry source False))"
    "stays (requireDirectory up None)" "stays (assertDestinationReplaceable destination target replace)" for e destination up
    by (intro silent_stays silent_intros)+
  then show "stays (commitMove cfg source target resolved followed targetResolved targetFollowed replace posix)"
    unfolding commitMove_def by (intro stays_intros)
qed

lemma calm_move: "calm (move cfg from to replace posix)"
proof -
  have finish: "unfailing ((\<lambda>(result, queued). bind_op (when_op queued (scheduleGarbageAlarm cfg)) (\<lambda>_. return_op result)) x)" for x
    by (cases x) (simp add: unfailing_alarm)
  show ?thesis
    unfolding move_def Let_def by (intro calm_intros calm_finish finish stays_intros silent_intros)
qed

section \<open>Properties\<close>

text \<open>
  C13. A move is a renaming. Everything at the source and below it is at the target and below it
  afterwards, what was at the target alone gives way, nothing else changes, and the result counts
  the entries that moved. The tables stay sound, and every path whose content has changed has a
  higher version than before. A move that is refused changes no row.
\<close>

theorem move_renames_subtree:
  assumes "vfs_ok cfg s" "utf8_paths (entries (tables s))" "names_fit s from to"
  shows "case move cfg from to replace posix s of
     (Inr r, t) \<Rightarrow>
       sound cfg (view t) \<and> usage_ok t \<and> transactionDepth t = 0 \<and> inFlight t = inFlight s \<and>
       (lastInlineRead s = None \<longrightarrow> vfs_ok cfg t) \<and>
       (\<exists>a b m. fst (resolveAccess from False False s) = Inr a \<and> fst (resolveAccess to m False s) = Inr b \<and>
          mv_from r = a_path a \<and> mv_to r = a_path b) \<and>
       fs (view t) = (\<lambda>q. if canonical q \<and> (q = mv_to r \<or> below (mv_to r) q)
          then fs (view s) (mv_from r @ drop (length (mv_to r)) q)
          else if q = mv_from r \<or> below (mv_from r) q then None else fs (view s) q) \<and>
       (mv_from r \<noteq> mv_to r \<longrightarrow> fs (view s) (mv_from r) \<noteq> None \<and>
          mv_moved r = card {q. fs (view s) q \<noteq> None \<and> (q = mv_from r \<or> below (mv_from r) q)}) \<and>
       (\<forall>p. path_version (view s) p \<le> path_version (view t) p \<and>
          (fs (view s) p \<noteq> fs (view t) p \<longrightarrow> path_version (view s) p < path_version (view t) p))
   | (Inl e, t) \<Rightarrow> vfs_ok cfg t \<and> inFlight t = inFlight s \<and> view t = (view s)\<lparr>v_nextIno := nextIno t\<rparr>"
proof (cases "move cfg from to replace posix s")
  case (Pair r t)
  note c = calmD [OF calm_move assms(1) Pair]
  show ?thesis
  proof (cases r)
    case (Inl e)
    with c unchanged_ok [OF assms(1)] Pair show ?thesis by (auto simp: unchanged_def)
  next
    case (Inr result)
    note m = move_ok [OF assms Pair [unfolded Inr]]
    have "fs (view t) = abs_move (mv_from result) (mv_to result) (fs (view s))" using m(1) by (simp add: moved_to_def)
    then have f: "fs (view t) = (\<lambda>q. if canonical q \<and> (q = mv_to result \<or> below (mv_to result) q)
        then fs (view s) (mv_from result @ drop (length (mv_to result)) q)
        else if q = mv_from result \<or> below (mv_from result) q then None else fs (view s) q)"
      unfolding abs_move_def [abs_def] inside_def rebase_def .
    from m(1) have n: "sound cfg (view t)" "mv_from result \<noteq> mv_to result \<longrightarrow> fs (view s) (mv_from result) \<noteq> None \<and>
        mv_moved result = card {q. fs (view s) q \<noteq> None \<and> (q = mv_from result \<or> below (mv_from result) q)}"
      and v: "\<forall>p. path_version (view s) p \<le> path_version (view t) p \<and>
        (fs (view s) p \<noteq> fs (view t) p \<longrightarrow> path_version (view s) p < path_version (view t) p)"
      by (simp_all add: moved_to_def ages_def inside_def)
    show ?thesis unfolding Pair Inr prod.case sum.case using m(2-6) n v f by blast
  qed
qed

lemma plain_access:
  assumes "links (tables s) = 0" "\<not> hasDotSegments p" "\<not> pathRequiresDirectory p" "canonical p"
  shows "resolveAccess p missing follow s = (Inr \<lparr>a_path = p, a_row = None, a_followed = []\<rparr>, s)"
  using assms by (simp add: resolveAccess_def Let_def op_simps bind_op_def)

lemma example_names_fit: "names_fit two_files file_b file_a"
proof -
  have "links (tables two_files) = 0"
    by (simp add: two_files_def opened_def links_def is_symlink_def) (simp add: root_row_def empty_file_def)
  note access = plain_access [OF this]
  have "well_formed file_a" using two_files_plain by (simp add: two_files_def opened_def utf8_paths_def example_rows)
  moreover have "utf8ByteLength (rebase file_b file_a file_b) \<le> MAX_PATH_BYTES" using file_a_facts(1) by (simp add: canonical_def)
  moreover have "\<not> inside file_b file_a" "\<not> inside file_b [SLASH]"
  proof -
    have "segments_of file_a = [js ''a'']" "segments_of file_b = [js ''b'']" "segments_of [SLASH] = []"
      using example_paths(5) segments_path_of [of "[js ''a'']"] segments_path_of [of "[js ''b'']"] segments_path_of [of "[]"]
      by (simp_all add: file_a_def file_b_def)
    then show "\<not> inside file_b file_a" "\<not> inside file_b [SLASH]"
      using file_b_facts by (simp_all add: inside_def below_def)
  qed
  ultimately have "paths_fit (entries (tables two_files)) file_b file_a"
    by (simp add: paths_fit_def two_files_def opened_def example_rows)
  then show ?thesis
    by (simp add: names_fit_def access file_a_facts file_b_facts)
qed

theorem move_renames_subtree_witness:
  "case move small_config file_b file_a True None two_files of
     (Inr r, t) \<Rightarrow> vfs_ok small_config t \<and> inFlight t = inFlight two_files
   | (Inl e, t) \<Rightarrow> vfs_ok small_config t \<and> view t = (view two_files)\<lparr>v_nextIno := nextIno t\<rparr>"
proof -
  have "lastInlineRead two_files = None" by (simp add: two_files_def opened_def)
  with move_renames_subtree [OF two_files_ok two_files_plain example_names_fit, of True None] show ?thesis
    by (auto split: prod.splits sum.splits simp del: view_fields)
qed

end
