(* ===== verification/Vfs_Follow.thy ===== *)
theory Vfs_Follow
  imports Vfs_Renaming
begin

text \<open>
  A read, a move and a write, one after the other, on a filesystem with one file: the write that
  \<open>src/vfs/sql-write-base.ts\<close> plans on the row of the last read goes to where the row is now.
  Every operation is run by rewriting, from one named state to the next.
\<close>

section \<open>The read\<close>

definition one_file :: Vfs where
  "one_file = opened 5 100 (new_tables\<lparr>entries := [root_row, empty_file 2 file_a ''a''], usage_entries := 2, next_ino := 3\<rparr>)"

definition read_once :: Vfs where
  "read_once = one_file\<lparr>lastInlineRead := Some (empty_file 2 file_a ''a'')\<rparr>"

lemma one_file_facts:
  "find_entry file_a (tables one_file) = Some (empty_file 2 file_a ''a'')" "links (tables one_file) = 0"
  "find_entry file_b (tables one_file) = None" "find_entry [SLASH] (tables one_file) = Some root_row"
  by (simp_all add: one_file_def opened_def find_entry_def links_def example_rows file_a_facts file_b_facts is_symlink_def)
     (simp_all add: root_row_def empty_file_def)

lemma read_once_made:
  "readFile small_config file_a None None one_file =
     (Inr \<lparr>ir_stat = rowToStat small_config (empty_file 2 file_a ''a''), ir_chunks = [], ir_held = 0\<rparr>, read_once)"
proof -
  have r: "byteRangeBounds None 0 (Some file_a) = Inr (0, 0)" by (simp add: byteRangeBounds_def validateByteRange_def bindr_def)
  have b: "acquire_op small_config 0 one_file = (Inr (), one_file)"
    by (simp add: acquire_op_def acquire_def one_file_def opened_def)
  show ?thesis
    by (simp add: readFile_def read_access_def directRead_def first_body_def file_a_facts one_file_facts op_simps bind_op_def
       example_rows assertTraverse_def or_require_def assertPermission_def read_materialized_def r b readInlineRows_def read_once_def)
qed

section \<open>The move\<close>

definition moved_b :: EntryRow where
  "moved_b = (empty_file 2 file_b ''b'')\<lparr>e_changed := 5, e_revision := 2\<rparr>"

lemma moved_b_is: "x = js ''b'' \<Longrightarrow> n = 2 \<Longrightarrow> moved_row file_a file_b [SLASH] x 5 0 [(file_a, n)] (empty_file 2 file_a ''a'') = moved_b"
  using substr_after [of "[]" file_a] file_b_facts(5,6)
  by (simp add: moved_row_def moved_b_def Let_def empty_file_def root_row_def)

lemma moved_b_facts:
  "e_path moved_b = file_b" "e_id moved_b = 2" "is_inline moved_b" "\<not> is_directory moved_b" "e_version moved_b = 1"
  "e_version (empty_file i p n) = 1" "\<not> is_symlink moved_b" "e_parent moved_b = [SLASH]"
  by (simp_all add: moved_b_def empty_file_def root_row_def is_inline_def is_directory_def is_symlink_def)

lemma example_basename: "basename file_b = Inr (js ''b'')"
  using dirname_path_of(2) [of "[]" "js ''b''"] example_paths(5) file_b_facts(1) by (simp add: file_b_def)

lemma example_range: "descendantRange file_a = Inr (file_a @ [SLASH], file_a @ [ZERO])" "descendantRange file_b = Inr (file_b @ [SLASH], file_b @ [ZERO])"
  using file_a_facts file_b_facts by (simp_all add: descendantRange_def)

lemma small_flags: "recordChanges small_config = False" "observed small_config = False"
  by (simp_all add: small_config_def)

lemma one_file_tables:
  "entries (tables one_file) = [root_row, empty_file 2 file_a ''a'']" "tombstones (tables one_file) = []" "chunks (tables one_file) = []"
  "objects (tables one_file) = []" "garbage (tables one_file) = []" "usage_bytes (tables one_file) = 0" "usage_entries (tables one_file) = 2"
  by (simp_all add: one_file_def opened_def new_tables_def)

lemma move_commits:
  assumes "tables s = tables one_file" "clock s = 5" "\<not> sharedInodes s" "pendingParents s = None"
  shows "commitMove small_config file_a file_b None [] None [] False None s =
    (Inr (\<lparr>mv_from = file_a, mv_to = file_b, mv_moved = 1, mv_replaced = False\<rparr>, False),
     s\<lparr>tables := (tables one_file)\<lparr>entries := [root_row, moved_b], tombstones := [(file_a, 2)]\<rparr>, pendingParents := Some [[SLASH]]\<rparr>)"
  using assms one_file_facts
  apply (simp add: commitMove_def op_simps bind_op_def or_require_def requireEntry_def oneEntry_def
    file_a_facts file_b_facts example_rows assertTraverse_def example_dirnames requireDirectory_def canonical_no_dots
    sameInode_def assertDestinationReplaceable_def assertMoveKinds_def linkedIdentities_def
    replaceDestination_def nextChangeSeq_def small_flags descendantRange_op_def example_range example_basename
    publishSubtreeRemoval_def selected_def one_file_tables recordSubtreeChange_def moveRows_def Let_def
    publishLinkedMetadata_def clearSubtreeTombstones_def recordPathChange_def noteDirectoryChange_def recordMutation_def set_add_def
    upsert_tombstone_def moved_b_is moved_b_facts find_entry_def [where t = "t\<lparr>tombstones := ts, entries := es\<rparr>" for t ts es])
  done

definition moved_once :: Vfs where
  "moved_once = read_once\<lparr>tables := (tables one_file)\<lparr>entries := [root_row\<lparr>e_modified := 5, e_changed := 5, e_revision := 2,
     e_version := 2\<rparr>, moved_b], tombstones := [(file_a, 2)]\<rparr>\<rparr>"

lemma moved_once_made:
  "move small_config file_a file_b False None read_once =
     (Inr \<lparr>mv_from = file_a, mv_to = file_b, mv_moved = 1, mv_replaced = False\<rparr>, moved_once)"
proof -
  have t: "tables read_once = tables one_file" "clock read_once = 5" "\<not> sharedInodes read_once" "pendingParents read_once = None"
    "transactionDepth read_once = 0" "directoryParentsChanged read_once = False" "directoryParentDeltas read_once = None"
    "pendingUsage read_once = None" "pendingMutations read_once = []" "transactionUsage read_once = None"
    by (simp_all add: read_once_def one_file_def opened_def) (simp_all add: root_row_def empty_file_def)
  have "links (tables read_once) = 0" using one_file_facts(2) t(1) by simp
  note access = plain_access [OF this]
  show ?thesis
    apply (simp add: move_def Let_def op_simps bind_op_def access file_a_facts file_b_facts transaction_def t move_commits
       flushParentTimes_def exec_op_def small_flags example_rows moved_b_facts emitCommittedMutations_def)
    apply (simp add: moved_once_def parentLinkCount_def read_once_def one_file_def opened_def)
    apply (simp add: root_row_def)
    done
qed

section \<open>The write after the move\<close>

definition guard_a :: WriteGuard where
  "guard_a = \<lparr>wg_ifMutationToken = Some (mutationToken small_config (empty_file 2 file_a ''a'')), wg_mode = None\<rparr>"

definition plan_moved :: InlineWritePlan where
  "plan_moved = \<lparr>p_written = file_a, p_path = file_a, p_followed = [], p_createParents = False, p_disposition = Upsert,
     p_skipIfUnchanged = False, p_mode = None, p_guard = wg_ifMutationToken guard_a,
     p_capturedToken = mutationToken small_config (empty_file 2 file_a ''a''),
     p_capturedEntry = Some (empty_file 2 file_a ''a''), p_conditional = Some 1\<rparr>"

lemma moved_once_facts:
  "lastInlineRead moved_once = Some (empty_file 2 file_a ''a'')" "links (tables moved_once) = 0"
  "entries (tables moved_once) = [root_row\<lparr>e_modified := 5, e_changed := 5, e_revision := 2, e_version := 2\<rparr>, moved_b]"
  "tombstones (tables moved_once) = [(file_a, 2)]" "chunks (tables moved_once) = []" "usage_bytes (tables moved_once) = 0"
  "usage_entries (tables moved_once) = 2" "transactionDepth moved_once = 0" "transactionUsage moved_once = None"
  "deferredUsage moved_once = None" "\<not> sharedInodes moved_once" "inFlight moved_once = \<lparr>usedBytes = 0, maximumBytes = 100\<rparr>"
  "clock moved_once = 5" "pendingUsage moved_once = None" "pendingMutations moved_once = []" "pendingParents moved_once = None"
  "objects (tables moved_once) = []" "garbage (tables moved_once) = []" "nextIno moved_once = 3"
  by (simp_all add: moved_once_def read_once_def one_file_def opened_def new_tables_def links_def moved_b_facts)
     (simp_all add: root_row_def empty_file_def is_symlink_def)

lemma resolution_path_a: "normalizeResolutionPath file_a cwd = Inr file_a"
  using file_a_facts(1,4) by (simp add: normalizeResolutionPath_def absolute_path_def) (simp add: file_a_def path_of_def)

lemma moved_plan:
  "read_snapshot small_config file_a guard_a plain_options None moved_once = (Inr (Some (empty_file 2 file_a ''a'')), moved_once)"
  "planInlineWrite small_config file_a guard_a plain_options None (Some (empty_file 2 file_a ''a'')) moved_once = (Inr plan_moved, moved_once)"
  by (simp_all add: read_snapshot_def planInlineWrite_def guard_a_def plain_options_def op_simps bind_op_def moved_once_facts file_a_facts
      example_rows assertWriteAccess_def assertTraverse_def assertPermission_def validateGuard_def guardToken_def tokenOf_def
      moved_b_facts plan_moved_def Let_def resolution_path_a)

definition writing_once :: Vfs where
  "writing_once = moved_once\<lparr>inFlight := \<lparr>usedBytes = 2, maximumBytes = 100\<rparr>\<rparr>"

lemma slices_short: "xs \<noteq> [] \<Longrightarrow> length xs \<le> n \<Longrightarrow> slices n xs = [xs]"
proof -
  assume xs: "xs \<noteq> []" "length xs \<le> n"
  then have "slices n xs = take n xs # slices n (drop n xs)" by (subst slices.simps) (cases n; simp)
  also have "\<dots> = [xs]" using xs(2) by (simp add: slices.simps [of n "[]"])
  finally show ?thesis .
qed

lemma moved_collected:
  assumes "length (encodeUtf8 body) = 2"
  shows "collectInlineSync small_config body 0 moved_once =
    (Inr \<lparr>l_chunks = [encodeUtf8 body], l_size = 2, l_accounted = 2\<rparr>, writing_once)"
proof -
  have "slices 4 (encodeUtf8 body) = [encodeUtf8 body]" using assms by (intro slices_short) auto
  then show ?thesis
    by (simp add: collectInlineSync_def collecting_op_def moved_once_facts collectInlineBytesSync_def small_config_def MAX_SAFE_INTEGER_def
        Let_def acquire_def assms writing_once_def)
qed

lemma small_limits: "databaseSize small_config t = 0" "minDatabaseHeadroomBytes small_config = 0" "maxDatabaseBytes small_config = 1000"
  "maxInlineLogicalBytes small_config = 100" "maxEntries small_config = 10" "chunkBytes small_config = 4"
  by (simp_all add: small_config_def)

lemma rewritten_facts:
  "e_id (rewritten n m now d v moved_b) = 2" "is_inline (rewritten n m now d v moved_b)" "e_path (rewritten n m now d v moved_b) = file_b"
  "e_kind (rewritten n m now d v moved_b) = Inline" "e_linkCount (empty_file i p x) = 1" "e_linkIdentity (empty_file i p x) = None"
  "e_kind (empty_file i p x) = Inline"
  by (simp_all add: rewritten_def moved_b_facts is_inline_def) (simp_all add: empty_file_def root_row_def)

lemma moved_written:
  "\<exists>result t. writeFile_commit small_config plan_moved \<lparr>l_chunks = [bytes], l_size = 2, l_accounted = 2\<rparr> None None False
     writing_once = (Inr result, t) \<and>
     wr_path result = file_a \<and> fs (view t) file_a = None \<and> fs (view t) file_b = Some (Data bytes)"
proof -
  have w: "tables writing_once = tables moved_once" "transactionDepth writing_once = 0" "transactionUsage writing_once = None"
    "deferredUsage writing_once = None" "\<not> sharedInodes writing_once" "clock writing_once = 5" "pendingUsage writing_once = None"
    "pendingMutations writing_once = []" "pendingParents writing_once = None" "inFlight writing_once = \<lparr>usedBytes = 2, maximumBytes = 100\<rparr>"
    by (simp_all add: writing_once_def moved_once_facts)
  show ?thesis
    apply (simp add: writeFile_commit_def useBuffered_def transaction_def op_simps bind_op_def w commitInlineWrite_def plan_moved_def
       example_rows example_dirnames unchangedInlineWrite_def inlineMutationPlan_def inlineWriteMode_def Let_def
       assertCapacity_def assertCapacityFrom_def assertDatabaseHeadroom_def usage_def moved_once_facts small_limits small_flags
       writeInlineEntry_def moved_b_facts last_chunk_index_def exec_op_def update_entry_def finishInlineWrite_def publishToken_def
       recordPathChange_def recordMutation_def plain_mutation_def publish_aliases_def writeChunks_def put_chunk_def updateUsage_def
       writeUsage_def flushParentTimes_def emitCommittedMutations_def rewritten_facts)
    apply (simp add: fs_def release_op_def entry_at_def rewritten_facts file_a_facts file_b_facts example_rows node_of_def body_of_def)
    done
qed

section \<open>The property\<close>

text \<open>
  C14. A guarded write can go to a file that has left its path. After \<open>/a\<close> was read and moved to
  \<open>/b\<close>, a write to \<open>/a\<close> under the token that was read is not refused, although nothing is at
  \<open>/a\<close> any more: it takes the row of the last read for the entry at the path, the update asks only
  for the row's number and version, and both are those of \<open>/b\<close>. The write reports \<open>/a\<close>,
  and overwrites \<open>/b\<close>.
\<close>

theorem guarded_write_follows_moved_file:
  "\<exists>r s m u result t.
     readFile small_config file_a None None one_file = (Inr r, s) \<and>
     move small_config file_a file_b False None s = (Inr m, u) \<and>
     fs (view u) file_a = None \<and> fs (view u) file_b = Some (Data []) \<and>
     writeFile_text small_config file_a (js ''hi'') \<lparr>wg_ifMutationToken = Some (st_mutationToken (ir_stat r)), wg_mode = None\<rparr>
       plain_options None u = (Inr result, t) \<and>
     wr_path result = file_a \<and> fs (view t) file_a = None \<and> fs (view t) file_b = Some (Data (encodeUtf8 (js ''hi'')))"
proof -
  have n: "length (encodeUtf8 (js ''hi'')) = 2" using utf8ByteLength_eq [of "js ''hi''"] by (simp add: js_def ascii_length)
  obtain result t where t: "writeFile_commit small_config plan_moved \<lparr>l_chunks = [encodeUtf8 (js ''hi'')], l_size = 2, l_accounted = 2\<rparr>
      None None False writing_once = (Inr result, t)" "wr_path result = file_a" "fs (view t) file_a = None"
      "fs (view t) file_b = Some (Data (encodeUtf8 (js ''hi'')))"
    using moved_written by blast
  have "writeFile_text small_config file_a (js ''hi'') guard_a plain_options None moved_once = (Inr result, t)"
    unfolding writeFile_text_def bind_op_def moved_plan moved_collected [OF n] prod.case sum.case by (rule t(1))
  moreover have "guard_a = \<lparr>wg_ifMutationToken = Some (st_mutationToken (rowToStat small_config (empty_file 2 file_a ''a''))), wg_mode = None\<rparr>"
    by (simp add: guard_a_def rowToStat_def)
  moreover have "fs (view moved_once) file_a = None" "fs (view moved_once) file_b = Some (Data [])"
    by (simp_all add: fs_def moved_once_facts entry_at_def example_rows moved_b_facts file_a_facts file_b_facts node_of_def body_of_def)
       (simp add: moved_b_def empty_file_def root_row_def body_of_def)
  ultimately show ?thesis using read_once_made moved_once_made t(2-4) by (metis InlineRead.select_convs(1))
qed

end
