(* ===== verification/Shell_Pattern.thy ===== *)
theory Shell_Pattern
  imports Unicode
begin

text \<open>
  Shell patterns (\<open>src/shell/pattern.ts\<close>) and bracket expressions (\<open>src/core/bracket.ts\<close>): the
  compiler of a pattern, the matcher with and without stars, and the removal and replacement of
  what matches. The work is paid for at a budget the caller gives, a parameter here: paying may
  throw. The matcher agrees with the definition of what a pattern matches, whatever the budget.
\<close>

section \<open>Computations that pay\<close>

type_synonym ('b, 'a) metered = "'b \<Rightarrow> 'a result \<times> 'b"

definition paid :: "'a \<Rightarrow> ('b, 'a) metered" where
  "paid x b = (Inr x, b)"

definition thrown :: "js_error \<Rightarrow> ('b, 'a) metered" where
  "thrown e b = (Inl e, b)"

definition pay_then :: "('b, 'a) metered \<Rightarrow> ('a \<Rightarrow> ('b, 'c) metered) \<Rightarrow> ('b, 'c) metered" where
  "pay_then m f b = (case m b of (Inl e, c) \<Rightarrow> (Inl e, c) | (Inr x, c) \<Rightarrow> f x c)"

text \<open>A budget: what paying does, and the most characters an expansion may have.\<close>

record 'b PatternBudget =
  expansionWork :: "nat \<Rightarrow> ('b, unit) metered"
  maxExpansionChars :: "nat option"

definition unboundedBudget :: "unit PatternBudget" where
  "unboundedBudget = \<lparr>expansionWork = (\<lambda>_. paid ()), maxExpansionChars = None\<rparr>"

definition exceeds :: "nat \<Rightarrow> nat option \<Rightarrow> bool" where
  "exceeds n limit = (case limit of None \<Rightarrow> False | Some m \<Rightarrow> n > m)"

section \<open>Bracket expressions\<close>

definition char_at :: "jstring list \<Rightarrow> nat \<Rightarrow> jstring option" where
  "char_at chars i = (if i < length chars then Some (chars ! i) else None)"

definition ESCAPE :: jstring where [js_consts]: "ESCAPE = [0x5c]"
definition CLOSE_BRACKET :: jstring where [js_consts]: "CLOSE_BRACKET = [0x5d]"
definition OPEN_BRACKET :: jstring where [js_consts]: "OPEN_BRACKET = [0x5b]"
definition HYPHEN :: jstring where [js_consts]: "HYPHEN = [0x2d]"
definition BANG :: jstring where [js_consts]: "BANG = [0x21]"
definition CARET :: jstring where [js_consts]: "CARET = [0x5e]"
definition ASTERISK :: jstring where [js_consts]: "ASTERISK = [0x2a]"
definition QUESTION :: jstring where [js_consts]: "QUESTION = [0x3f]"

record BracketElement =
  be_value :: jstring
  be_escaped :: bool

record BracketExpression =
  br_close :: nat
  br_negated :: bool
  br_ranges :: "(nat \<times> nat) list"

fun bracketRanges :: "BracketElement list \<Rightarrow> (nat \<times> nat) list" where
  "bracketRanges (start # separator # last' # rest) =
     (if be_value separator = HYPHEN \<and> \<not> be_escaped separator then
        (let left = firstCodePoint (be_value start); right = firstCodePoint (be_value last') in
         (if left \<le> right then [(left, right)] else []) @ bracketRanges rest)
      else (let point = firstCodePoint (be_value start) in (point, point) # bracketRanges (separator # last' # rest)))"
| "bracketRanges (start # rest) =
     (let point = firstCodePoint (be_value start) in (point, point) # bracketRanges rest)"
| "bracketRanges [] = []"

function bracket_elements ::
  "jstring list \<Rightarrow> nat \<Rightarrow> bool \<Rightarrow> BracketElement list \<Rightarrow> BracketExpression option" where
  "bracket_elements chars index negated elements =
     (if index < length chars then
        let value' = chars ! index in
        if value' = CLOSE_BRACKET then
          (if length elements = 0 then None
           else Some \<lparr>br_close = index, br_negated = negated, br_ranges = bracketRanges elements\<rparr>)
        else (case char_at chars (index + 1) of
          Some next \<Rightarrow>
            if value' = ESCAPE then
              bracket_elements chars (index + 2) negated (elements @ [\<lparr>be_value = next, be_escaped = True\<rparr>])
            else bracket_elements chars (index + 1) negated (elements @ [\<lparr>be_value = value', be_escaped = False\<rparr>])
        | None \<Rightarrow>
            bracket_elements chars (index + 1) negated (elements @ [\<lparr>be_value = value', be_escaped = False\<rparr>]))
      else None)"
  by pat_completeness auto
termination
  by (relation "measure (\<lambda>(cs, i, _, _). length cs - i)") auto

declare bracket_elements.simps [simp del]

definition parseBracketExpression :: "jstring list \<Rightarrow> nat \<Rightarrow> BracketExpression option" where
  "parseBracketExpression chars open' =
     (let negated = (char_at chars (open' + 1) \<in> {Some BANG, Some CARET});
          index = (if negated then open' + 2 else open' + 1) in
      if char_at chars index = Some CLOSE_BRACKET
      then bracket_elements chars (index + 1) negated [\<lparr>be_value = CLOSE_BRACKET, be_escaped = False\<rparr>]
      else bracket_elements chars index negated [])"

section \<open>Compiling\<close>

datatype PatternToken =
    Literal jstring
  | AnyChar
  | Star
  | Class bool "(nat \<times> nat) list"

record CompiledPattern =
  cp_tokens :: "PatternToken list"
  cp_hasStar :: bool
  cp_minimumCharacters :: nat

definition patternToken :: "jstring list \<Rightarrow> nat \<Rightarrow> PatternToken \<times> nat" where
  "patternToken chars index =
     (let character = (case char_at chars index of None \<Rightarrow> [] | Some c \<Rightarrow> c) in
      case (if character = ESCAPE then char_at chars (index + 1) else None) of
        Some next \<Rightarrow> (Literal next, 2)
      | None \<Rightarrow>
          if character = ASTERISK then (Star, 1)
          else if character = QUESTION then (AnyChar, 1)
          else if character \<noteq> OPEN_BRACKET then (Literal character, 1)
          else (case parseBracketExpression chars index of
              None \<Rightarrow> (Literal character, 1)
            | Some expression \<Rightarrow>
                (Class (br_negated expression) (br_ranges expression), br_close expression - index + 1)))"

function compile_tokens :: "jstring list \<Rightarrow> nat \<Rightarrow> PatternToken list \<Rightarrow> PatternToken list" where
  "compile_tokens chars index tokens =
     (if index < length chars then
        let (token, consumed) = patternToken chars index in
        compile_tokens chars (index + consumed)
          (if token \<noteq> Star \<or> tokens = [] \<or> last tokens \<noteq> Star then tokens @ [token] else tokens)
      else tokens)"
  by pat_completeness auto

lemma patternToken_consumes: "0 < snd (patternToken chars index)"
  by (auto simp: patternToken_def Let_def split: option.splits)

termination compile_tokens
  by (relation "measure (\<lambda>(cs, i, _). length cs - i)") (use patternToken_consumes in \<open>auto, metis diff_less_mono2 less_add_same_cancel1 snd_conv\<close>)

declare compile_tokens.simps [simp del]

definition compilePattern :: "jstring \<Rightarrow> 'b PatternBudget \<Rightarrow> ('b, CompiledPattern) metered" where
  "compilePattern pattern budget =
     (let chars = characters pattern in
      pay_then (expansionWork budget (length chars)) (\<lambda>_.
      let tokens = compile_tokens chars 0 [] in
      paid \<lparr>cp_tokens = tokens, cp_hasStar = Star \<in> set tokens,
        cp_minimumCharacters = length (filter (\<lambda>token. token \<noteq> Star) tokens)\<rparr>))"

definition boundedCharacters :: "jstring \<Rightarrow> 'b PatternBudget \<Rightarrow> ('b, jstring list) metered" where
  "boundedCharacters value' budget =
     pay_then (expansionWork budget (length value')) (\<lambda>_.
     if exceeds (codePointLength value') (maxExpansionChars budget) then thrown (VfsError E2BIG None)
     else paid (characters value'))"

section \<open>Matching\<close>

fun in_ranges :: "'b PatternBudget \<Rightarrow> nat \<Rightarrow> (nat \<times> nat) list \<Rightarrow> ('b, bool) metered" where
  "in_ranges budget point [] = paid False"
| "in_ranges budget point ((start, last') # rest) =
     pay_then (expansionWork budget 1) (\<lambda>_.
     if point \<ge> start \<and> point \<le> last' then paid True else in_ranges budget point rest)"

definition tokenMatches :: "PatternToken \<Rightarrow> jstring \<Rightarrow> 'b PatternBudget \<Rightarrow> ('b, bool) metered" where
  "tokenMatches token value' budget =
     (case token of
        Literal v \<Rightarrow> paid (v = value')
      | Class negated ranges \<Rightarrow>
          pay_then (in_ranges budget (firstCodePoint value') ranges) (\<lambda>included.
          paid (if negated then \<not> included else included))
      | _ \<Rightarrow> paid True)"

definition char_or_empty :: "jstring list \<Rightarrow> nat \<Rightarrow> jstring" where
  "char_or_empty chars i = (case char_at chars i of None \<Rightarrow> [] | Some c \<Rightarrow> c)"

fun match_each :: "jstring list \<Rightarrow> nat \<Rightarrow> PatternToken list \<Rightarrow> 'b PatternBudget \<Rightarrow> ('b, bool) metered" where
  "match_each chars at' [] budget = paid True"
| "match_each chars at' (token # tokens) budget =
     (if token = Star then paid False
      else pay_then (tokenMatches token (char_or_empty chars at') budget) (\<lambda>ok.
        if \<not> ok then paid False else match_each chars (at' + 1) tokens budget))"

definition matchesWithoutStar ::
  "jstring list \<Rightarrow> nat \<Rightarrow> CompiledPattern \<Rightarrow> 'b PatternBudget \<Rightarrow> ('b, bool) metered" where
  "matchesWithoutStar chars start pattern budget =
     pay_then (expansionWork budget (length (cp_tokens pattern))) (\<lambda>_.
     match_each chars start (cp_tokens pattern) budget)"

text \<open>One column of the table: entry \<open>i\<close> tells whether the tokens so far match the first \<open>i\<close> characters.\<close>

fun advance_cells :: "PatternToken \<Rightarrow> bool list \<Rightarrow> jstring list \<Rightarrow> nat \<Rightarrow> 'b PatternBudget \<Rightarrow> ('b, bool list) metered" where
  "advance_cells token (cell # cells) chars at' budget =
     (if cells = [] then paid []
      else pay_then (if cell then tokenMatches token (char_or_empty chars at') budget else paid False) (\<lambda>ok.
        pay_then (advance_cells token cells chars (at' + 1) budget) (\<lambda>rest. paid (ok # rest))))"
| "advance_cells token [] chars at' budget = paid []"

fun star_cells :: "bool \<Rightarrow> bool list \<Rightarrow> bool list" where
  "star_cells reached [] = []"
| "star_cells reached (cell # cells) = (cell \<or> reached) # star_cells (cell \<or> reached) cells"

definition advanceStar :: "bool list \<Rightarrow> bool list" where
  "advanceStar previous = star_cells False previous"

definition advanceMatches ::
  "bool list \<Rightarrow> PatternToken \<Rightarrow> jstring list \<Rightarrow> nat \<Rightarrow> 'b PatternBudget \<Rightarrow> ('b, bool list) metered" where
  "advanceMatches previous token chars start budget =
     (if token = Star then paid (advanceStar previous)
      else pay_then (advance_cells token previous chars start budget) (\<lambda>cells. paid (False # cells)))"

datatype selection = Exact | Shortest | Longest | LongestNonempty

definition selectedMatchEnd :: "bool list \<Rightarrow> nat \<Rightarrow> selection \<Rightarrow> nat option" where
  "selectedMatchEnd matches start selection =
     (let remaining = length matches - 1;
          minimum = (if selection = LongestNonempty then 1 else 0) in
      if selection = Exact then (if matches ! remaining then Some (start + remaining) else None)
      else if selection = Shortest then map_option (\<lambda>offset. start + offset) (find (\<lambda>i. matches ! i) [minimum..<remaining + 1])
      else map_option (\<lambda>offset. start + offset) (find (\<lambda>i. matches ! i) (rev [minimum..<remaining + 1])))"

fun advance_all ::
  "PatternToken list \<Rightarrow> bool list \<Rightarrow> jstring list \<Rightarrow> nat \<Rightarrow> nat \<Rightarrow> 'b PatternBudget \<Rightarrow> ('b, bool list) metered" where
  "advance_all [] previous chars start remaining budget = paid previous"
| "advance_all (token # tokens) previous chars start remaining budget =
     pay_then (expansionWork budget (remaining + 1)) (\<lambda>_.
     pay_then (advanceMatches previous token chars start budget) (\<lambda>next.
     advance_all tokens next chars start remaining budget))"

definition matchingEnd ::
  "jstring list \<Rightarrow> nat \<Rightarrow> CompiledPattern \<Rightarrow> 'b PatternBudget \<Rightarrow> selection \<Rightarrow> ('b, nat option) metered" where
  "matchingEnd chars start pattern budget selection =
     (let remaining = length chars - start in
      if \<not> cp_hasStar pattern then
        let last' = start + cp_minimumCharacters pattern in
        if last' > length chars then paid None
        else pay_then (matchesWithoutStar chars start pattern budget) (\<lambda>ok.
          if \<not> ok then paid None
          else if selection = Exact \<and> last' \<noteq> length chars then paid None
          else paid (if selection = LongestNonempty \<and> last' = start then None else Some last'))
      else
        pay_then (expansionWork budget (remaining + 1)) (\<lambda>_.
        pay_then (advance_all (cp_tokens pattern) (True # replicate remaining False) chars start remaining budget)
          (\<lambda>matches. paid (selectedMatchEnd matches start selection))))"

section \<open>The operations\<close>

definition matchesShellPattern :: "jstring \<Rightarrow> jstring \<Rightarrow> 'b PatternBudget \<Rightarrow> ('b, bool) metered" where
  "matchesShellPattern value' pattern budget =
     pay_then (boundedCharacters value' budget) (\<lambda>chars.
     pay_then (compilePattern pattern budget) (\<lambda>compiled.
     pay_then (matchingEnd chars 0 compiled budget Exact) (\<lambda>found. paid (found \<noteq> None))))"

datatype side = Prefix | Suffix

definition removeShellPattern ::
  "jstring \<Rightarrow> jstring \<Rightarrow> side \<Rightarrow> bool \<Rightarrow> 'b PatternBudget \<Rightarrow> ('b, jstring) metered" where
  "removeShellPattern value' pattern side' longest budget =
     pay_then (boundedCharacters value' budget) (\<lambda>chars.
     pay_then (compilePattern pattern budget) (\<lambda>compiled.
     let input = (if side' = Prefix then chars else rev chars);
         effective = (if side' = Prefix then compiled else compiled\<lparr>cp_tokens := rev (cp_tokens compiled)\<rparr>) in
     pay_then (matchingEnd input 0 effective budget (if longest then Longest else Shortest)) (\<lambda>found.
     paid (case found of
        None \<Rightarrow> value'
      | Some n \<Rightarrow>
          if side' = Prefix then concat (drop n chars)
          else concat (take (length chars - n) chars)))))"

fun find_replacement ::
  "jstring list \<Rightarrow> CompiledPattern \<Rightarrow> nat list \<Rightarrow> 'b PatternBudget \<Rightarrow> ('b, (nat \<times> nat) option) metered" where
  "find_replacement chars pattern [] budget = paid None"
| "find_replacement chars pattern (start # starts) budget =
     (if \<not> cp_hasStar pattern then
        let last' = start + cp_minimumCharacters pattern in
        pay_then (if last' \<le> length chars then matchesWithoutStar chars start pattern budget else paid False)
          (\<lambda>ok. if ok then paid (Some (start, last')) else find_replacement chars pattern starts budget)
      else
        pay_then (matchingEnd chars start pattern budget LongestNonempty) (\<lambda>found.
        case found of
          Some last' \<Rightarrow> paid (Some (start, last'))
        | None \<Rightarrow> find_replacement chars pattern starts budget))"

definition findReplacementMatch ::
  "jstring list \<Rightarrow> CompiledPattern \<Rightarrow> nat \<Rightarrow> 'b PatternBudget \<Rightarrow> ('b, (nat \<times> nat) option) metered" where
  "findReplacementMatch chars pattern startAt budget =
     (if length (cp_tokens pattern) = 0 then paid None
      else find_replacement chars pattern [startAt..<length chars] budget)"

text \<open>The loop of \<open>replaceShellPattern\<close>; every round moves the cursor on.\<close>

fun replace_rounds ::
  "nat \<Rightarrow> jstring list \<Rightarrow> CompiledPattern \<Rightarrow> jstring \<Rightarrow> nat \<Rightarrow> bool \<Rightarrow> 'b PatternBudget \<Rightarrow> nat \<Rightarrow> nat \<Rightarrow> jstring \<Rightarrow>
   ('b, nat \<times> nat \<times> jstring) metered" where
  "replace_rounds 0 chars compiled replacement width' all' budget cursor count output = thrown RangeError"
| "replace_rounds (Suc n) chars compiled replacement width' all' budget cursor count output =
     (if cursor \<ge> length chars then paid (cursor, count, output)
      else
        pay_then (findReplacementMatch chars compiled cursor budget) (\<lambda>found.
        case found of
          None \<Rightarrow> paid (cursor, count, output)
        | Some (start, last') \<Rightarrow>
            let count = count + (start - cursor + width');
                output = output @ concat (take (start - cursor) (drop cursor chars)) @ replacement in
            if exceeds count (maxExpansionChars budget) then thrown (VfsError E2BIG None)
            else if \<not> all' then paid (last', count, output)
            else replace_rounds n chars compiled replacement width' all' budget last' count output))"

definition replaceShellPattern ::
  "jstring \<Rightarrow> jstring \<Rightarrow> jstring \<Rightarrow> bool \<Rightarrow> 'b PatternBudget \<Rightarrow> ('b, jstring) metered" where
  "replaceShellPattern value' pattern replacement all' budget =
     pay_then (boundedCharacters value' budget) (\<lambda>chars.
     pay_then (compilePattern pattern budget) (\<lambda>compiled.
     pay_then (replace_rounds (length chars + 1) chars compiled replacement (codePointLength replacement)
       all' budget 0 0 []) (\<lambda>(cursor, count, output).
     if exceeds (count + (length chars - cursor)) (maxExpansionChars budget) then thrown (VfsError E2BIG None)
     else paid (output @ concat (drop cursor chars)))))"

section \<open>What a pattern matches\<close>

text \<open>The tokens as they are written, and the definition of what they match.\<close>

function pattern_tokens :: "jstring list \<Rightarrow> nat \<Rightarrow> PatternToken list" where
  "pattern_tokens chars index =
     (if index < length chars then
        fst (patternToken chars index) # pattern_tokens chars (index + snd (patternToken chars index))
      else [])"
  by pat_completeness auto
termination
  by (relation "measure (\<lambda>(cs, i). length cs - i)") (use patternToken_consumes in \<open>auto simp: diff_less_mono2\<close>)

declare pattern_tokens.simps [simp del]

definition token_ok :: "PatternToken \<Rightarrow> jstring \<Rightarrow> bool" where
  "token_ok token value' = (case token of
     Literal v \<Rightarrow> v = value'
   | Class negated ranges \<Rightarrow>
       list_ex (\<lambda>(start, last'). start \<le> firstCodePoint value' \<and> firstCodePoint value' \<le> last') ranges \<noteq> negated
   | _ \<Rightarrow> True)"

primrec glob :: "PatternToken list \<Rightarrow> jstring list \<Rightarrow> bool" where
  "glob [] cs \<longleftrightarrow> cs = []"
| "glob (t # ts) cs \<longleftrightarrow> (if t = Star then list_ex (glob ts) (suffixes cs)
     else case cs of [] \<Rightarrow> False | c # cs' \<Rightarrow> token_ok t c \<and> glob ts cs')"

lemma glob_Star: "glob (Star # ts) cs \<longleftrightarrow> (\<exists>ys zs. cs = ys @ zs \<and> glob ts zs)"
  by (auto simp: list_ex_iff suffix_def) blast

lemma glob_token: "t \<noteq> Star \<Longrightarrow> glob (t # ts) cs \<longleftrightarrow> (\<exists>c zs. cs = c # zs \<and> token_ok t c \<and> glob ts zs)"
  by (auto split: list.splits)

lemma glob_append: "glob (ts @ us) cs \<longleftrightarrow> (\<exists>ys zs. cs = ys @ zs \<and> glob ts ys \<and> glob us zs)"
proof (induction ts arbitrary: cs)
  case (Cons t ts)
  show ?case
  proof (cases "t = Star")
    case True
    then show ?thesis by (simp add: glob_Star Cons del: glob.simps) (metis append.assoc)
  next
    case False
    then show ?thesis by (simp add: glob_token Cons del: glob.simps) (metis Cons_eq_appendI append_Cons)
  qed
qed simp

lemma glob_one: "glob [Star] cs" "t \<noteq> Star \<Longrightarrow> glob [t] cs \<longleftrightarrow> (\<exists>c. cs = [c] \<and> token_ok t c)"
  by (auto simp: list_ex_iff suffix_def split: list.splits)

lemma glob_rev: "glob (rev ts) (rev cs) \<longleftrightarrow> glob ts cs"
proof (induction ts arbitrary: cs)
  case (Cons t ts)
  have one: "glob [t] (rev zs) \<longleftrightarrow> glob [t] zs" for zs
    by (cases "t = Star") (auto simp: glob_one rev_singleton_conv simp del: glob.simps)
  have "glob (rev (t # ts)) (rev cs) \<longleftrightarrow> (\<exists>ys zs. rev cs = ys @ zs \<and> glob (rev ts) ys \<and> glob [t] zs)"
    by (simp only: rev.simps glob_append)
  also have "\<dots> \<longleftrightarrow> (\<exists>ys zs. cs = ys @ zs \<and> glob [t] ys \<and> glob ts zs)"
    using Cons one by (metis rev_append rev_rev_ident)
  also have "\<dots> \<longleftrightarrow> glob (t # ts) cs" using glob_append [of "[t]" ts cs] by simp
  finally show ?case .
qed simp

lemma glob_star_star: "glob (ts @ Star # Star # us) cs \<longleftrightarrow> glob (ts @ Star # us) cs"
proof -
  have "glob (Star # Star # us) zs \<longleftrightarrow> glob (Star # us) zs" for zs
    unfolding glob_Star by (metis append.assoc append_Nil)
  then show ?thesis by (simp only: glob_append)
qed

lemma glob_compiled: "glob (compile_tokens chars i acc) cs \<longleftrightarrow> glob (acc @ pattern_tokens chars i) cs"
proof (induction chars i acc rule: compile_tokens.induct)
  case (1 chars i acc)
  show ?case
  proof (cases "i < length chars")
    case True
    obtain t n where t: "patternToken chars i = (t, n)" by force
    have "pattern_tokens chars i = t # pattern_tokens chars (i + n)" using True t by (simp add: pattern_tokens.simps)
    moreover have "acc = butlast acc @ [Star]" if "acc \<noteq> []" "last acc = Star" using that by (metis append_butlast_last_id)
    ultimately show ?thesis
      using 1 [OF True t [symmetric] refl] True t glob_star_star [of "butlast acc" "pattern_tokens chars (i + n)"]
      by (subst compile_tokens.simps) (auto simp: Let_def split: if_splits, (metis append.assoc append_Cons append_Nil)+)
  next
    case False
    then show ?thesis by (simp add: compile_tokens.simps pattern_tokens.simps)
  qed
qed

section \<open>What a matcher is bound to find\<close>

text \<open>
  A computation settles a value when no outcome of paying changes it: it yields the value or the
  error of a payment.
\<close>

definition settles :: "'b PatternBudget \<Rightarrow> ('b, 'a) metered \<Rightarrow> 'a \<Rightarrow> bool" where
  "settles budget m x \<longleftrightarrow> (\<forall>b. case m b of (Inr y, _) \<Rightarrow> y = x
     | (Inl e, _) \<Rightarrow> \<exists>n c d. expansionWork budget n c = (Inl e, d))"

named_theorems settle_intros

lemma settles_paid [settle_intros]: "x = y \<Longrightarrow> settles budget (paid x) y"
  by (simp add: settles_def paid_def)

lemma settles_work [settle_intros]: "settles budget (expansionWork budget n) ()"
  by (auto simp: settles_def split: prod.splits sum.splits)

lemma settles_then: "settles budget m x \<Longrightarrow> settles budget (f x) y \<Longrightarrow> settles budget (pay_then m f) y"
  unfolding settles_def
proof (intro allI)
  fix b
  assume m: "\<forall>b. case m b of (Inr y, _) \<Rightarrow> y = x | (Inl e, _) \<Rightarrow> \<exists>n c d. expansionWork budget n c = (Inl e, d)"
    and f: "\<forall>b. case f x b of (Inr z, _) \<Rightarrow> z = y | (Inl e, _) \<Rightarrow> \<exists>n c d. expansionWork budget n c = (Inl e, d)"
  obtain r c where r: "m b = (r, c)" by force
  from m [rule_format, of b] f [rule_format, of c]
  show "case pay_then m f b of (Inr z, _) \<Rightarrow> z = y | (Inl e, _) \<Rightarrow> \<exists>n c d. expansionWork budget n c = (Inl e, d)"
    by (cases r) (simp_all add: pay_then_def r)
qed

lemma settles_after_work [settle_intros]:
  "settles budget (f ()) y \<Longrightarrow> settles budget (pay_then (expansionWork budget n) f) y"
  by (rule settles_then [OF settles_work])

lemma settles_in_ranges:
  "settles budget (in_ranges budget point ranges) (list_ex (\<lambda>(start, last'). start \<le> point \<and> point \<le> last') ranges)"
  by (induction ranges) (auto intro!: settle_intros)

lemma settles_tokenMatches: "t \<noteq> Star \<Longrightarrow> settles budget (tokenMatches t c budget) (token_ok t c)"
  unfolding tokenMatches_def token_ok_def
  by (cases t) (auto intro!: settle_intros settles_then [OF settles_in_ranges])

subsection \<open>Without a star\<close>

lemma glob_no_star: "Star \<notin> set ts \<Longrightarrow> glob ts cs \<longleftrightarrow> list_all2 token_ok ts cs"
  by (induction ts arbitrary: cs) (auto simp: list_all2_Cons1 split: list.splits)

lemma settles_match_each:
  "Star \<notin> set ts \<Longrightarrow> i + length ts \<le> length chars \<Longrightarrow>
   settles budget (match_each chars i ts budget) (list_all2 token_ok ts (take (length ts) (drop i chars)))"
proof (induction ts arbitrary: i)
  case (Cons t ts)
  then have i: "i < length chars" by simp
  then have front: "take (Suc (length ts)) (drop i chars) = chars ! i # take (length ts) (drop (Suc i) chars)"
    by (metis Cons_nth_drop_Suc take_Suc_Cons)
  have c: "char_or_empty chars i = chars ! i" using i by (simp add: char_or_empty_def char_at_def)
  from Cons.prems Cons.IH [of "i + 1"] show ?case
    by (auto simp: front c intro!: settle_intros settles_then [OF settles_tokenMatches])
qed (simp add: settle_intros)

subsection \<open>The table\<close>

definition column :: "PatternToken list \<Rightarrow> jstring list \<Rightarrow> bool list" where
  "column ts cs = map (\<lambda>i. glob ts (take i cs)) [0..<length cs + 1]"

lemma length_column [simp]: "length (column ts cs) = length cs + 1"
  by (simp add: column_def)

lemma nth_column [simp]: "i \<le> length cs \<Longrightarrow> column ts cs ! i = glob ts (take i cs)"
  by (simp add: column_def del: upt_Suc)

lemma column_eqI:
  "length xs = length cs + 1 \<Longrightarrow> (\<And>i. i \<le> length cs \<Longrightarrow> xs ! i = glob ts (take i cs)) \<Longrightarrow> xs = column ts cs"
  by (rule nth_equalityI) auto

lemma column_Nil: "True # replicate (length cs) False = column [] cs"
  by (rule column_eqI) (auto simp: nth_Cons split: nat.splits)

lemma star_cells_nth:
  "i < length cells \<Longrightarrow> star_cells reached cells ! i \<longleftrightarrow> reached \<or> (\<exists>j < Suc i. cells ! j)"
proof (induction cells arbitrary: reached i)
  case (Cons cell cells)
  then show ?case by (cases i) (auto simp: Ex_less_Suc2)
qed simp

lemma length_star_cells [simp]: "length (star_cells reached cells) = length cells"
  by (induction cells arbitrary: reached) auto

lemma advanceStar_column: "advanceStar (column ts cs) = column (ts @ [Star]) cs"
proof (rule column_eqI)
  fix i assume i: "i \<le> length cs"
  have "(\<exists>ys zs. take i cs = ys @ zs \<and> glob ts ys) \<longleftrightarrow> (\<exists>j \<le> i. glob ts (take j cs))"
  proof
    assume "\<exists>ys zs. take i cs = ys @ zs \<and> glob ts ys"
    then obtain ys zs where "take i cs = ys @ zs" "glob ts ys" by blast
    moreover from this(1) have n: "length ys \<le> i" using i by (metis le_add1 length_append length_take min.absorb2)
    moreover have "ys = take (length ys) (take i cs)" by (simp add: \<open>take i cs = ys @ zs\<close>)
    then have "ys = take (length ys) cs" using n by (simp add: min_def)
    ultimately show "\<exists>j \<le> i. glob ts (take j cs)" by metis
  next
    assume "\<exists>j \<le> i. glob ts (take j cs)"
    then show "\<exists>ys zs. take i cs = ys @ zs \<and> glob ts ys" by (metis append_take_drop_id min.absorb1 take_take)
  qed
  then show "advanceStar (column ts cs) ! i = glob (ts @ [Star]) (take i cs)"
    using i by (auto simp: advanceStar_def star_cells_nth glob_append glob_one less_Suc_eq_le simp del: glob.simps)
qed (simp add: advanceStar_def)

lemma settles_advance_cells:
  "t \<noteq> Star \<Longrightarrow> settles budget (advance_cells t cells chars at' budget)
     (map (\<lambda>i. cells ! i \<and> token_ok t (char_or_empty chars (at' + i))) [0..<length cells - 1])"
proof (induction cells arbitrary: at')
  case (Cons cell cells)
  show ?case
  proof (cases "cells = []")
    case False
    then have n: "[0..<length (cell # cells) - 1] = 0 # map Suc [0..<length cells - 1]"
      by (metis Suc_pred' diff_Suc_1 length_Cons length_greater_0_conv map_Suc_upt upt_conv_Cons)
    have "settles budget (if cell then tokenMatches t (char_or_empty chars at') budget else paid False)
        (cell \<and> token_ok t (char_or_empty chars at'))"
      using settles_tokenMatches [OF Cons.prems] by (auto intro!: settle_intros)
    with False Cons.IH [OF Cons.prems, of "at' + 1"] show ?thesis
      unfolding n by (auto intro!: settle_intros elim!: settles_then simp: comp_def)
  qed (simp add: settle_intros)
qed (simp add: settle_intros)

lemma settles_advanceMatches:
  assumes "start \<le> length chars" "cs = drop start chars"
  shows "settles budget (advanceMatches (column ts cs) t chars start budget) (column (ts @ [t]) cs)"
proof (cases "t = Star")
  case True
  then show ?thesis by (simp add: advanceMatches_def advanceStar_column settle_intros)
next
  case False
  have "False # map (\<lambda>i. column ts cs ! i \<and> token_ok t (char_or_empty chars (start + i))) [0..<length (column ts cs) - 1] =
      column (ts @ [t]) cs" (is "False # ?cells = _")
  proof (rule column_eqI)
    fix i assume i: "i \<le> length cs"
    have snoc: "glob (ts @ [t]) xs \<longleftrightarrow> (\<exists>ys c. xs = ys @ [c] \<and> glob ts ys \<and> token_ok t c)" for xs
      using False by (auto simp: glob_append glob_one simp del: glob.simps)
    show "(False # ?cells) ! i = glob (ts @ [t]) (take i cs)"
    proof (cases i)
      case (Suc j)
      then have j: "j < length cs" using i by simp
      then have "char_or_empty chars (start + j) = cs ! j" using assms by (auto simp: char_or_empty_def char_at_def)
      with Suc j show ?thesis by (simp add: snoc take_Suc_conv_app_nth)
    qed (simp add: snoc)
  qed simp
  then show ?thesis
    unfolding advanceMatches_def if_not_P [OF False]
    by (intro settles_then [OF settles_advance_cells [OF False]] settles_paid)
qed

lemma settles_advance_all:
  assumes "start \<le> length chars" "cs = drop start chars"
  shows "settles budget (advance_all us (column ts cs) chars start remaining budget) (column (ts @ us) cs)"
proof (induction us arbitrary: ts)
  case (Cons u us)
  show ?case
    unfolding advance_all.simps
    by (rule settles_after_work, rule settles_then [OF settles_advanceMatches [OF assms]])
       (use Cons [of "ts @ [u]"] in simp)
qed (simp add: settle_intros)

subsection \<open>The end of a match\<close>

definition compiled_from :: "CompiledPattern \<Rightarrow> PatternToken list \<Rightarrow> bool" where
  "compiled_from pattern ts \<longleftrightarrow> cp_tokens pattern = ts \<and> cp_hasStar pattern = (Star \<in> set ts) \<and>
     cp_minimumCharacters pattern = length (filter (\<lambda>token. token \<noteq> Star) ts)"

lemma find_upt_Some:
  "find P [a..<b] = Some i \<longleftrightarrow> a \<le> i \<and> i < b \<and> P i \<and> (\<forall>j. a \<le> j \<longrightarrow> j < i \<longrightarrow> \<not> P j)"
proof (induction "b - a" arbitrary: a)
  case (Suc n)
  then have a: "a < b" by simp
  have "n = b - Suc a" using Suc.hyps(2) by simp
  note IH = Suc.hyps(1) [OF this]
  show ?case
  proof (cases "P a")
    case True
    then show ?thesis unfolding upt_conv_Cons [OF a] using a by auto
  next
    case False
    have "(a \<le> i \<and> P i) = (Suc a \<le> i \<and> P i)" using False by (metis Suc_leI Suc_leD le_neq_implies_less)
    moreover have "(\<forall>j. a \<le> j \<longrightarrow> j < i \<longrightarrow> \<not> P j) = (\<forall>j. Suc a \<le> j \<longrightarrow> j < i \<longrightarrow> \<not> P j)"
      using False by (metis Suc_leI Suc_leD le_neq_implies_less)
    ultimately show ?thesis unfolding upt_conv_Cons [OF a] using False IH by simp blast
  qed
qed auto

lemma find_rev_upt_Some:
  "find P (rev [a..<b]) = Some i \<longleftrightarrow> a \<le> i \<and> i < b \<and> P i \<and> (\<forall>j. i < j \<longrightarrow> j < b \<longrightarrow> \<not> P j)"
proof (induction b)
  case (Suc b)
  then show ?case by (auto simp: less_Suc_eq)
qed simp

lemma find_upt_None: "find P [a..<b] = None \<longleftrightarrow> (\<forall>j. a \<le> j \<longrightarrow> j < b \<longrightarrow> \<not> P j)"
  "find P (rev [a..<b]) = None \<longleftrightarrow> (\<forall>j. a \<le> j \<longrightarrow> j < b \<longrightarrow> \<not> P j)"
  by (auto simp: find_None_iff)

text \<open>The length that a selection chooses among the prefixes that match.\<close>

definition chosen :: "PatternToken list \<Rightarrow> jstring list \<Rightarrow> selection \<Rightarrow> nat option \<Rightarrow> bool" where
  "chosen ts cs selection found \<longleftrightarrow> (case selection of
     Exact \<Rightarrow> found = (if glob ts cs then Some (length cs) else None)
   | Shortest \<Rightarrow> (case found of None \<Rightarrow> \<forall>i \<le> length cs. \<not> glob ts (take i cs)
       | Some i \<Rightarrow> i \<le> length cs \<and> glob ts (take i cs) \<and> (\<forall>j < i. \<not> glob ts (take j cs)))
   | Longest \<Rightarrow> (case found of None \<Rightarrow> \<forall>i \<le> length cs. \<not> glob ts (take i cs)
       | Some i \<Rightarrow> i \<le> length cs \<and> glob ts (take i cs) \<and> (\<forall>j. i < j \<longrightarrow> j \<le> length cs \<longrightarrow> \<not> glob ts (take j cs)))
   | LongestNonempty \<Rightarrow> (case found of None \<Rightarrow> \<forall>i. 0 < i \<longrightarrow> i \<le> length cs \<longrightarrow> \<not> glob ts (take i cs)
       | Some i \<Rightarrow> 0 < i \<and> i \<le> length cs \<and> glob ts (take i cs) \<and>
           (\<forall>j. i < j \<longrightarrow> j \<le> length cs \<longrightarrow> \<not> glob ts (take j cs))))"

lemma chosen_column:
  "\<exists>found. selectedMatchEnd (column ts cs) start selection = map_option ((+) start) found \<and> chosen ts cs selection found"
proof -
  let ?P = "\<lambda>i. column ts cs ! i"
  have rem: "length (column ts cs) - 1 = length cs" by simp
  show ?thesis
  proof (cases selection)
    case Exact
    then show ?thesis
      by (intro exI [of _ "if glob ts cs then Some (length cs) else None"])
         (simp add: selectedMatchEnd_def chosen_def rem del: upt_Suc glob.simps)
  next
    case Shortest
    then show ?thesis
      by (intro exI [of _ "find ?P [0..<length cs + 1]"])
         (auto simp: selectedMatchEnd_def chosen_def rem find_upt_Some find_upt_None simp del: upt_Suc glob.simps split: option.split)
  next
    case Longest
    then show ?thesis
      by (intro exI [of _ "find ?P (rev [0..<length cs + 1])"])
         (auto simp: selectedMatchEnd_def chosen_def rem find_rev_upt_Some find_upt_None simp del: upt_Suc glob.simps split: option.split)
  next
    case LongestNonempty
    then show ?thesis
      by (intro exI [of _ "find ?P (rev [1..<length cs + 1])"])
         (auto simp: selectedMatchEnd_def chosen_def rem find_rev_upt_Some find_upt_None simp del: upt_Suc glob.simps split: option.split)
  qed
qed

lemma no_star_take:
  assumes "Star \<notin> set ts" "i \<le> length cs"
  shows "glob ts (take i cs) \<longleftrightarrow> i = length ts \<and> list_all2 token_ok ts (take (length ts) cs)"
proof -
  have "list_all2 token_ok ts (take i cs) \<longleftrightarrow> i = length ts \<and> list_all2 token_ok ts (take (length ts) cs)"
    using list_all2_lengthD [of token_ok ts "take i cs"] assms(2) by (auto simp: min_def)
  then show ?thesis by (simp add: glob_no_star [OF assms(1)])
qed

lemma settles_matchingEnd:
  assumes "compiled_from pattern ts" "start \<le> length chars"
  obtains found where "settles budget (matchingEnd chars start pattern budget selection) (map_option ((+) start) found)"
    "chosen ts (drop start chars) selection found"
proof (cases "Star \<in> set ts")
  case True
  obtain found where found: "selectedMatchEnd (column ts (drop start chars)) start selection = map_option ((+) start) found"
    "chosen ts (drop start chars) selection found" using chosen_column by blast
  have "settles budget (matchingEnd chars start pattern budget selection) (map_option ((+) start) found)"
    unfolding matchingEnd_def Let_def
    using assms True found(1) settles_advance_all [OF assms(2) refl, of budget ts "[]" "length chars - start"]
      column_Nil [of "drop start chars"]
    by (auto simp: compiled_from_def intro!: settle_intros elim!: settles_then)
  with found(2) that show ?thesis by blast
next
  case False
  let ?cs = "drop start chars"
  let ?found = "if length ts \<le> length ?cs \<and> list_all2 token_ok ts (take (length ts) ?cs) \<and>
    (selection = Exact \<longrightarrow> length ts = length ?cs) \<and> (selection = LongestNonempty \<longrightarrow> 0 < length ts) then Some (length ts) else None"
  have min': "cp_minimumCharacters pattern = length ts" "\<not> cp_hasStar pattern" "cp_tokens pattern = ts"
  proof -
    have "filter (\<lambda>token. token \<noteq> Star) ts = ts" using False by (intro filter_True) auto
    then show "cp_minimumCharacters pattern = length ts" "\<not> cp_hasStar pattern" "cp_tokens pattern = ts"
      using assms(1) False by (simp_all add: compiled_from_def)
  qed
  have "settles budget (matchingEnd chars start pattern budget selection) (map_option ((+) start) ?found)"
  proof (cases "start + length ts \<le> length chars")
    case True
    let ?ok = "list_all2 token_ok ts (take (length ts) ?cs)"
    have "settles budget (matchesWithoutStar chars start pattern budget) ?ok"
      unfolding matchesWithoutStar_def min' by (rule settles_after_work, rule settles_match_each [OF False True])
    note matched = settles_then [OF this]
    have m: "matchingEnd chars start pattern budget selection = pay_then (matchesWithoutStar chars start pattern budget) (\<lambda>ok.
        if \<not> ok then paid None else if selection = Exact \<and> start + length ts \<noteq> length chars then paid None
        else paid (if selection = LongestNonempty \<and> start + length ts = start then None else Some (start + length ts)))"
      using True by (simp add: matchingEnd_def Let_def min')
    show ?thesis
      unfolding m by (rule matched) (use True assms(2) in \<open>auto intro!: settles_paid\<close>)
  next
    case False
    then show ?thesis using assms(2) by (auto simp: matchingEnd_def Let_def min' intro!: settle_intros)
  qed
  moreover have "chosen ts ?cs selection ?found"
  proof -
    define l where "l = length ts"
    define ok where "ok \<longleftrightarrow> list_all2 token_ok ts (take l ?cs)"
    define n where "n = length ?cs"
    have g: "glob ts (take i ?cs) \<longleftrightarrow> i = l \<and> ok" if "i \<le> n" for i
      using no_star_take [OF False, of i ?cs] that by (simp add: ok_def n_def l_def)
    have e: "glob ts ?cs \<longleftrightarrow> n = l \<and> ok" using g [of n] by (simp add: n_def)
    show ?thesis
      unfolding chosen_def l_def [symmetric] ok_def [symmetric] n_def [symmetric] e
      by (cases selection; cases ok; cases "l \<le> n") (simp_all add: g)
  qed
  ultimately show ?thesis using that by blast
qed

section \<open>What the operations do\<close>

text \<open>A computation whose only errors are those of paying and of the limit on characters.\<close>

definition refuses :: "'b PatternBudget \<Rightarrow> js_error \<Rightarrow> bool" where
  "refuses budget e \<longleftrightarrow> (\<exists>n b c. expansionWork budget n b = (Inl e, c)) \<or>
     e = VfsError E2BIG None \<and> maxExpansionChars budget \<noteq> None"

definition yields :: "'b PatternBudget \<Rightarrow> ('b, 'a) metered \<Rightarrow> ('a \<Rightarrow> bool) \<Rightarrow> bool" where
  "yields budget m Q \<longleftrightarrow> (\<forall>b. case m b of (Inr y, _) \<Rightarrow> Q y | (Inl e, _) \<Rightarrow> refuses budget e)"

lemma yields_settled:
  assumes "settles budget m x" "Q x"
  shows "yields budget m Q"
  unfolding yields_def
proof
  fix b
  obtain r c where r: "m b = (r, c)" by force
  with assms(1) have "case r of Inr y \<Rightarrow> y = x | Inl e \<Rightarrow> \<exists>n c d. expansionWork budget n c = (Inl e, d)"
    by (auto simp: settles_def dest: spec [of _ b])
  with assms(2) show "case m b of (Inr y, _) \<Rightarrow> Q y | (Inl e, _) \<Rightarrow> refuses budget e"
    by (cases r) (auto simp: r refuses_def)
qed

lemma yields_then:
  assumes "yields budget m P" "\<And>x. P x \<Longrightarrow> yields budget (f x) Q"
  shows "yields budget (pay_then m f) Q"
  unfolding yields_def
proof
  fix b
  obtain r c where r: "m b = (r, c)" by force
  with assms(1) have "case r of Inr y \<Rightarrow> P y | Inl e \<Rightarrow> refuses budget e" by (auto simp: yields_def dest: spec [of _ b])
  with assms(2) show "case pay_then m f b of (Inr y, _) \<Rightarrow> Q y | (Inl e, _) \<Rightarrow> refuses budget e"
    by (cases r) (auto simp: pay_then_def r yields_def)
qed

lemma yields_mono:
  assumes "yields budget m P" "\<And>x. P x \<Longrightarrow> Q x"
  shows "yields budget m Q"
  unfolding yields_def
proof
  fix b
  obtain r c where r: "m b = (r, c)" by force
  with assms(1) have "case r of Inr y \<Rightarrow> P y | Inl e \<Rightarrow> refuses budget e" by (auto simp: yields_def dest: spec [of _ b])
  with assms(2) show "case m b of (Inr y, _) \<Rightarrow> Q y | (Inl e, _) \<Rightarrow> refuses budget e" by (cases r) (auto simp: r)
qed

lemma yields_work: "(yields budget (f ()) Q) \<Longrightarrow> yields budget (pay_then (expansionWork budget n) f) Q"
  by (rule yields_then [OF yields_settled [OF settles_work, where Q = "\<lambda>_. True"]]) simp_all

lemma yields_paid: "Q x \<Longrightarrow> yields budget (paid x) Q"
  by (simp add: yields_def paid_def)

lemma yields_limit: "(\<not> b \<Longrightarrow> yields budget m Q) \<Longrightarrow> (b \<Longrightarrow> maxExpansionChars budget \<noteq> None) \<Longrightarrow>
    yields budget (if b then thrown (VfsError E2BIG None) else m) Q"
  by (simp add: yields_def thrown_def refuses_def)

lemma exceeds_limit: "exceeds n limit \<Longrightarrow> limit \<noteq> None"
  by (cases limit) (simp_all add: exceeds_def)

lemma yields_bounded: "Q (characters value') \<Longrightarrow> yields budget (boundedCharacters value' budget) Q"
  unfolding boundedCharacters_def by (intro yields_work yields_limit yields_paid) (auto dest: exceeds_limit)

definition tokens_of :: "jstring \<Rightarrow> PatternToken list" where
  "tokens_of pattern = compile_tokens (characters pattern) 0 []"

lemma glob_tokens: "glob (tokens_of pattern) cs \<longleftrightarrow> glob (pattern_tokens (characters pattern) 0) cs"
  by (simp only: tokens_of_def glob_compiled append_Nil)

lemma yields_compiled:
  "(\<And>compiled. compiled_from compiled (tokens_of pattern) \<Longrightarrow> Q compiled) \<Longrightarrow> yields budget (compilePattern pattern budget) Q"
  unfolding compilePattern_def Let_def by (intro yields_work yields_paid) (simp add: compiled_from_def tokens_of_def)

lemma yields_matchingEnd:
  assumes "compiled_from pattern ts" "start \<le> length chars"
  shows "yields budget (matchingEnd chars start pattern budget selection)
    (\<lambda>end'. \<exists>found. end' = map_option ((+) start) found \<and> chosen ts (drop start chars) selection found)"
proof -
  obtain found where "settles budget (matchingEnd chars start pattern budget selection) (map_option ((+) start) found)"
    "chosen ts (drop start chars) selection found" by (rule settles_matchingEnd [OF assms])
  then show ?thesis by (intro yields_settled) auto
qed

text \<open>
  C24. The matcher decides what the pattern matches: a star stands for any characters, a question mark
  for one, a class for one of its ranges (or of none, negated), anything else for itself; two stars in
  a row are one, and neither the table nor the scan without stars changes the answer. Only the budget
  and the limit on characters refuse.
\<close>

theorem pattern_match_is_glob:
  "case matchesShellPattern value' pattern budget b of
     (Inr r, c) \<Rightarrow> r = glob (pattern_tokens (characters pattern) 0) (characters value')
   | (Inl e, c) \<Rightarrow> (\<exists>n b c. expansionWork budget n b = (Inl e, c)) \<or>
       e = VfsError E2BIG None \<and> maxExpansionChars budget \<noteq> None"
proof -
  have "yields budget (matchesShellPattern value' pattern budget)
      (\<lambda>r. r = glob (pattern_tokens (characters pattern) 0) (characters value'))"
    unfolding matchesShellPattern_def
    apply (rule yields_then [where P = "\<lambda>chars. chars = characters value'"], rule yields_bounded, rule refl)
    apply (hypsubst, rule yields_then [where P = "\<lambda>compiled. compiled_from compiled (tokens_of pattern)"])
    apply (rule yields_compiled, assumption, rule yields_then, rule yields_matchingEnd, assumption, simp)
    apply (elim exE conjE, rule yields_paid)
    by (simp add: chosen_def glob_tokens del: glob.simps)
  then show ?thesis unfolding yields_def refuses_def by (rule spec)
qed

section \<open>Removing\<close>

text \<open>The characters at one side, and what is left without them.\<close>

definition at_side :: "side \<Rightarrow> nat \<Rightarrow> jstring list \<Rightarrow> jstring list" where
  "at_side side' n cs = (if side' = Prefix then take n cs else drop (length cs - n) cs)"

definition off_side :: "side \<Rightarrow> nat \<Rightarrow> jstring list \<Rightarrow> jstring list" where
  "off_side side' n cs = (if side' = Prefix then drop n cs else take (length cs - n) cs)"

definition removable :: "PatternToken list \<Rightarrow> side \<Rightarrow> jstring list \<Rightarrow> nat set" where
  "removable ts side' cs = {n \<in> {..length cs}. glob ts (at_side side' n cs)}"

lemma chosen_extremal:
  assumes "chosen ts cs (if longest then Longest else Shortest) found" "lengths = {n \<in> {..length cs}. glob ts (take n cs)}"
  shows "found = (if lengths = {} then None else Some (if longest then Max lengths else Min lengths))"
proof (cases found)
  case None
  with assms show ?thesis by (auto simp: chosen_def split: if_splits)
next
  case (Some n)
  with assms(1) have n: "n \<le> length cs" "glob ts (take n cs)"
    "if longest then \<forall>j. n < j \<longrightarrow> j \<le> length cs \<longrightarrow> \<not> glob ts (take j cs) else \<forall>j < n. \<not> glob ts (take j cs)"
    by (simp_all add: chosen_def split: if_splits)
  then have "n \<in> lengths" "finite lengths" by (simp_all add: assms(2))
  moreover have "if longest then Max lengths = n else Min lengths = n"
    using n assms(2) calculation by (auto intro!: Max_eqI Min_eqI) (metis not_le_imp_less)+
  ultimately show ?thesis using Some by auto
qed

lemma compiled_rev: "compiled_from compiled ts \<Longrightarrow> compiled_from (compiled\<lparr>cp_tokens := rev (cp_tokens compiled)\<rparr>) (rev ts)"
  by (simp add: compiled_from_def rev_filter [symmetric])

text \<open>
  C25. Removing a pattern takes the longest, or the shortest, of the parts at that side that it
  matches, and nothing where it matches none.
\<close>

theorem pattern_removal_is_extremal:
  "case removeShellPattern value' pattern side' longest budget b of
     (Inr r, c) \<Rightarrow>
       (let cs = characters value'; lengths = removable (pattern_tokens (characters pattern) 0) side' cs in
        r = (if lengths = {} then value'
             else concat (off_side side' (if longest then Max lengths else Min lengths) cs)))
   | (Inl e, c) \<Rightarrow> (\<exists>n b c. expansionWork budget n b = (Inl e, c)) \<or>
       e = VfsError E2BIG None \<and> maxExpansionChars budget \<noteq> None"
proof -
  let ?cs = "characters value'" and ?ts = "tokens_of pattern"
  let ?lengths = "removable ?ts side' ?cs"
  have input: "{n \<in> {..length (if side' = Prefix then ?cs else rev ?cs)}. glob (if side' = Prefix then ?ts else rev ?ts) (take n (if side' = Prefix then ?cs else rev ?cs))} = ?lengths"
    by (auto simp: removable_def at_side_def take_rev glob_rev)
  have "yields budget (removeShellPattern value' pattern side' longest budget)
      (\<lambda>r. r = (if ?lengths = {} then value' else concat (off_side side' (if longest then Max ?lengths else Min ?lengths) ?cs)))"
    unfolding removeShellPattern_def Let_def
    apply (rule yields_then [where P = "\<lambda>chars. chars = ?cs"], rule yields_bounded, rule refl)
    apply (hypsubst, rule yields_then [where P = "\<lambda>compiled. compiled_from compiled ?ts"], rule yields_compiled, assumption)
    apply (rule yields_then, rule yields_matchingEnd [where ts = "if side' = Prefix then ?ts else rev ?ts"])
    subgoal by (simp add: compiled_rev)
    subgoal by simp
    apply (elim exE conjE, rule yields_paid)
    subgoal premises p for compiled end' found
      using chosen_extremal [OF p(3) [unfolded drop_0] refl, unfolded input] p(2) by (simp add: off_side_def)
    done
  then show ?thesis unfolding yields_def refuses_def removable_def glob_tokens Let_def by (rule spec)
qed

section \<open>Replacing\<close>

definition no_match_from :: "PatternToken list \<Rightarrow> jstring list \<Rightarrow> nat \<Rightarrow> nat \<Rightarrow> bool" where
  "no_match_from ts cs low high \<longleftrightarrow>
     (\<forall>s n. low \<le> s \<longrightarrow> s < high \<longrightarrow> 0 < n \<longrightarrow> s + n \<le> length cs \<longrightarrow> \<not> glob ts (take n (drop s cs)))"

text \<open>The leftmost match that is not empty, and the longest there.\<close>

definition first_match :: "PatternToken list \<Rightarrow> jstring list \<Rightarrow> nat \<Rightarrow> nat \<Rightarrow> nat \<Rightarrow> bool" where
  "first_match ts cs low s n \<longleftrightarrow> low \<le> s \<and> 0 < n \<and> s + n \<le> length cs \<and> glob ts (take n (drop s cs)) \<and>
     no_match_from ts cs low s \<and> (\<forall>m > n. s + m \<le> length cs \<longrightarrow> \<not> glob ts (take m (drop s cs)))"

inductive replaces :: "PatternToken list \<Rightarrow> jstring \<Rightarrow> bool \<Rightarrow> jstring list \<Rightarrow> jstring \<Rightarrow> bool"
  for ts replacement all' where
  nowhere: "no_match_from ts cs 0 (length cs) \<Longrightarrow> replaces ts replacement all' cs (concat cs)"
| once: "first_match ts cs 0 s n \<Longrightarrow> \<not> all' \<Longrightarrow>
    replaces ts replacement all' cs (concat (take s cs) @ replacement @ concat (drop (s + n) cs))"
| again: "first_match ts cs 0 s n \<Longrightarrow> all' \<Longrightarrow> replaces ts replacement all' (drop (s + n) cs) r \<Longrightarrow>
    replaces ts replacement all' cs (concat (take s cs) @ replacement @ r)"

lemma no_match_drop: "no_match_from ts (drop k cs) 0 (h - k) \<longleftrightarrow> no_match_from ts cs k h" if "k \<le> length cs"
proof -
  have "(\<forall>s n. s < h - k \<longrightarrow> 0 < n \<longrightarrow> s + n \<le> length cs - k \<longrightarrow> \<not> glob ts (take n (drop (s + k) cs))) \<longleftrightarrow>
      (\<forall>s n. k \<le> s \<longrightarrow> s < h \<longrightarrow> 0 < n \<longrightarrow> s + n \<le> length cs \<longrightarrow> \<not> glob ts (take n (drop s cs)))" (is "?L \<longleftrightarrow> ?R")
  proof
    assume L: ?L
    show ?R
    proof (intro allI impI)
      fix s n assume s: "k \<le> s" "s < h" "0 < n" "s + n \<le> length cs"
      with L [rule_format, of "s - k" n] show "\<not> glob ts (take n (drop s cs))" by simp
    qed
  next
    assume R: ?R
    show ?L
    proof (intro allI impI)
      fix s n assume s: "s < h - k" "0 < n" "s + n \<le> length cs - k"
      with that R [rule_format, of "s + k" n] show "\<not> glob ts (take n (drop (s + k) cs))" by simp
    qed
  qed
  then show ?thesis by (simp add: no_match_from_def)
qed

lemma first_match_drop:
  "k \<le> length cs \<Longrightarrow> first_match ts cs k s n \<Longrightarrow> first_match ts (drop k cs) 0 (s - k) n"
  using no_match_drop [of k cs ts s] by (auto simp: first_match_def)

definition replacement_found :: "PatternToken list \<Rightarrow> jstring list \<Rightarrow> nat \<Rightarrow> (nat \<times> nat) option \<Rightarrow> bool" where
  "replacement_found ts cs low found \<longleftrightarrow> (case found of
     None \<Rightarrow> no_match_from ts cs low (length cs)
   | Some (s, e) \<Rightarrow> \<exists>n. e = s + n \<and> first_match ts cs low s n)"

lemma no_match_Suc:
  "no_match_from ts cs low (Suc high) \<longleftrightarrow> no_match_from ts cs low high \<and>
     (low \<le> high \<longrightarrow> (\<forall>n > 0. high + n \<le> length cs \<longrightarrow> \<not> glob ts (take n (drop high cs))))"
  by (auto simp: no_match_from_def less_Suc_eq)

lemma replacement_later:
  assumes "\<forall>n > 0. low + n \<le> length cs \<longrightarrow> \<not> glob ts (take n (drop low cs))" "replacement_found ts cs (Suc low) found"
  shows "replacement_found ts cs low found"
proof -
  have "no_match_from ts cs (Suc low) high \<Longrightarrow> no_match_from ts cs low high" for high
    using assms(1) unfolding no_match_from_def by (metis Suc_leI le_neq_implies_less)
  with assms(2) show ?thesis by (auto simp: replacement_found_def first_match_def split: option.splits)
qed

text \<open>What a search at one place decides.\<close>

definition here :: "PatternToken list \<Rightarrow> jstring list \<Rightarrow> nat \<Rightarrow> nat option \<Rightarrow> bool" where
  "here ts cs s found \<longleftrightarrow> (case found of
     None \<Rightarrow> \<forall>n > 0. s + n \<le> length cs \<longrightarrow> \<not> glob ts (take n (drop s cs))
   | Some n \<Rightarrow> first_match ts cs s s n)"

lemma here_found:
  "here ts cs s (Some n) \<Longrightarrow> replacement_found ts cs s (Some (s, s + n))"
  "here ts cs s None \<Longrightarrow> replacement_found ts cs (Suc s) found \<Longrightarrow> replacement_found ts cs s found"
proof -
  show "here ts cs s (Some n) \<Longrightarrow> replacement_found ts cs s (Some (s, s + n))"
    by (simp add: here_def replacement_found_def)
  show "here ts cs s None \<Longrightarrow> replacement_found ts cs (Suc s) found \<Longrightarrow> replacement_found ts cs s found"
    by (rule replacement_later) (simp_all add: here_def)
qed

lemma chosen_here: "s \<le> length cs \<Longrightarrow> chosen ts (drop s cs) LongestNonempty found \<Longrightarrow> here ts cs s found"
  by (auto simp: chosen_def here_def first_match_def no_match_from_def split: option.splits)

lemma scan_here:
  assumes "Star \<notin> set ts" "ts \<noteq> []" "s + length ts \<le> length cs"
  shows "here ts cs s (if list_all2 token_ok ts (take (length ts) (drop s cs)) then Some (length ts) else None)"
proof -
  have "glob ts (take n (drop s cs)) \<longleftrightarrow> n = length ts \<and> list_all2 token_ok ts (take (length ts) (drop s cs))"
    if "s + n \<le> length cs" for n using no_star_take [OF assms(1), of n "drop s cs"] that by simp
  with assms(2,3) show ?thesis by (auto simp: here_def first_match_def no_match_from_def)
qed

lemma scan_short:
  assumes "Star \<notin> set ts" "length cs < s + length ts"
  shows "here ts cs s None"
proof -
  have "glob ts (take n (drop s cs)) \<longleftrightarrow> n = length ts \<and> list_all2 token_ok ts (take (length ts) (drop s cs))"
    if "s + n \<le> length cs" for n using no_star_take [OF assms(1), of n "drop s cs"] that by simp
  with assms(2) show ?thesis by (auto simp: here_def)
qed

lemma yields_find:
  assumes "compiled_from pattern ts" "ts \<noteq> []"
  shows "low \<le> length cs \<Longrightarrow>
    yields budget (find_replacement cs pattern [low..<length cs] budget) (replacement_found ts cs low)"
proof (induction "length cs - low" arbitrary: low)
  case 0
  then show ?case by (auto intro!: yields_paid simp: replacement_found_def no_match_from_def)
next
  case (Suc k)
  then have low: "low < length cs" by simp
  have next': "yields budget (find_replacement cs pattern [Suc low..<length cs] budget) (replacement_found ts cs (Suc low))"
    using Suc by simp
  have later: "yields budget (find_replacement cs pattern [Suc low..<length cs] budget) (replacement_found ts cs low)"
    if "here ts cs low None"
    by (rule yields_mono [OF next']) (rule here_found(2) [OF that])
  show ?case
  proof (cases "Star \<in> set ts")
    case True
    then show ?thesis
      unfolding upt_conv_Cons [OF low]
      using assms(1) low
      apply (simp add: compiled_from_def)
      apply (rule yields_then, rule yields_matchingEnd [OF assms(1)], simp)
      apply (elim exE conjE, drule chosen_here [rotated], simp)
      subgoal for end' found using here_found(1) later by (cases found) (auto intro!: yields_paid)
      done
  next
    case False
    have m: "cp_minimumCharacters pattern = length ts" "\<not> cp_hasStar pattern" "cp_tokens pattern = ts"
    proof -
      have "filter (\<lambda>token. token \<noteq> Star) ts = ts" using False by (intro filter_True) auto
      then show "cp_minimumCharacters pattern = length ts" "\<not> cp_hasStar pattern" "cp_tokens pattern = ts"
        using assms(1) False by (simp_all add: compiled_from_def)
    qed
    have "yields budget (if low + length ts \<le> length cs then matchesWithoutStar cs low pattern budget else paid False)
        (\<lambda>ok. here ts cs low (if ok then Some (length ts) else None))"
    proof (cases "low + length ts \<le> length cs")
      case True
      then show ?thesis
        unfolding matchesWithoutStar_def m if_P [OF True]
        by (intro yields_work yields_settled [OF settles_match_each [OF False True]] scan_here [OF False assms(2) True])
    qed (auto intro!: yields_paid scan_short [OF False])
    then show ?thesis
      unfolding upt_conv_Cons [OF low] find_replacement.simps Let_def if_P [OF m(2)] m(1)
      by (rule yields_then) (use here_found(1) later in \<open>auto intro!: yields_paid\<close>)
  qed
qed

lemma yields_replacement:
  assumes "compiled_from pattern ts" "low \<le> length cs"
  shows "yields budget (findReplacementMatch cs pattern low budget) (replacement_found ts cs low)"
proof (cases "ts = []")
  case True
  with assms(1) show ?thesis
    by (auto simp: findReplacementMatch_def compiled_from_def replacement_found_def no_match_from_def intro!: yields_paid)
next
  case False
  with yields_find [OF assms(1) False assms(2)] assms(1) show ?thesis by (simp add: findReplacementMatch_def compiled_from_def)
qed

lemma replaces_here:
  assumes "cursor \<le> length cs" "first_match ts cs cursor s n"
  shows "first_match ts (drop cursor cs) 0 (s - cursor) n" "drop (s - cursor + n) (drop cursor cs) = drop (s + n) cs"
  using first_match_drop [OF assms] assms(2) by (auto simp: first_match_def add.commute)

lemma yields_rounds:
  assumes "compiled_from compiled ts"
  shows "cursor \<le> length cs \<Longrightarrow> length cs - cursor < fuel \<Longrightarrow>
    yields budget (replace_rounds fuel cs compiled replacement width' all' budget cursor count out)
      (\<lambda>(cursor', count', out'). \<exists>r. out' = out @ r \<and>
         replaces ts replacement all' (drop cursor cs) (r @ concat (drop cursor' cs)))"
proof (induction fuel arbitrary: cursor count out)
  case (Suc fuel)
  show ?case
  proof (cases "length cs \<le> cursor")
    case True
    then have "replaces ts replacement all' (drop cursor cs) (concat (drop cursor cs))"
      by (intro replaces.nowhere) (simp add: no_match_from_def)
    with True show ?thesis by (auto intro!: yields_paid)
  next
    case False
    show ?thesis
      unfolding replace_rounds.simps if_not_P [OF False]
    proof (rule yields_then, rule yields_replacement [OF assms Suc.prems(1)])
      fix found assume found: "replacement_found ts cs cursor found"
      show "yields budget (case found of None \<Rightarrow> paid (cursor, count, out)
        | Some (start, last') \<Rightarrow>
            let count = count + (start - cursor + width');
                out = out @ concat (take (start - cursor) (drop cursor cs)) @ replacement in
            if exceeds count (maxExpansionChars budget) then thrown (VfsError E2BIG None)
            else if \<not> all' then paid (last', count, out)
            else replace_rounds fuel cs compiled replacement width' all' budget last' count out)
          (\<lambda>(cursor', count', out'). \<exists>r. out' = out @ r \<and>
             replaces ts replacement all' (drop cursor cs) (r @ concat (drop cursor' cs)))"
      proof (cases found)
        case None
        with found no_match_drop [OF Suc.prems(1), of ts "length cs"] have "no_match_from ts (drop cursor cs) 0 (length (drop cursor cs))"
          by (simp add: replacement_found_def)
        from replaces.nowhere [OF this] None show ?thesis by (auto intro!: yields_paid)
      next
        case (Some se)
        with found obtain s n where s: "found = Some (s, s + n)" "first_match ts cs cursor s n"
          by (cases se) (auto simp: replacement_found_def)
        note m = replaces_here [OF Suc.prems(1) s(2)]
        have n: "cursor < s + n" "s + n \<le> length cs" using s(2) by (auto simp: first_match_def)
        show ?thesis
          unfolding s(1) option.case prod.case Let_def
        proof (rule yields_limit)
          show "yields budget (if \<not> all' then paid (s + n, count + (s - cursor + width'), out @ concat (take (s - cursor) (drop cursor cs)) @ replacement)
              else replace_rounds fuel cs compiled replacement width' all' budget (s + n) (count + (s - cursor + width'))
                (out @ concat (take (s - cursor) (drop cursor cs)) @ replacement))
            (\<lambda>(cursor', count', out'). \<exists>r. out' = out @ r \<and>
               replaces ts replacement all' (drop cursor cs) (r @ concat (drop cursor' cs)))"
          proof (cases all')
            case False
            with replaces.once [OF m(1), of all' replacement] m(2) show ?thesis by (auto intro!: yields_paid)
          next
            case True
            have "yields budget (replace_rounds fuel cs compiled replacement width' all' budget (s + n) c o')
                (\<lambda>(cursor', count', out'). \<exists>r. out' = o' @ r \<and>
                   replaces ts replacement all' (drop (s + n) cs) (r @ concat (drop cursor' cs)))" for c o'
              using Suc.IH [OF n(2)] n Suc.prems(2) by simp
            note rounds = yields_mono [OF this]
            have "yields budget (replace_rounds fuel cs compiled replacement width' all' budget (s + n) (count + (s - cursor + width'))
                (out @ concat (take (s - cursor) (drop cursor cs)) @ replacement))
              (\<lambda>(cursor', count', out'). \<exists>r. out' = out @ r \<and>
                 replaces ts replacement all' (drop cursor cs) (r @ concat (drop cursor' cs)))"
              by (rule rounds) (use replaces.again [OF m(1) True, of replacement] m(2) in auto)
            with True show ?thesis by simp
          qed
        qed (rule exceeds_limit)
      qed
    qed
  qed
qed simp

text \<open>
  C26. Replacing a pattern replaces its leftmost match that is not empty, and there the longest, and
  goes on behind it when all are asked for; what does not match stays as it is.
\<close>

theorem pattern_replacement_is_leftmost_longest:
  "case replaceShellPattern value' pattern replacement all' budget b of
     (Inr r, c) \<Rightarrow> replaces (pattern_tokens (characters pattern) 0) replacement all' (characters value') r
   | (Inl e, c) \<Rightarrow> (\<exists>n b c. expansionWork budget n b = (Inl e, c)) \<or>
       e = VfsError E2BIG None \<and> maxExpansionChars budget \<noteq> None"
proof -
  have same: "replaces (tokens_of pattern) replacement all' cs r \<Longrightarrow>
      replaces (pattern_tokens (characters pattern) 0) replacement all' cs r" for cs r
    by (induction rule: replaces.induct)
       (auto simp: first_match_def no_match_from_def glob_tokens intro: replaces.intros)
  have "yields budget (replaceShellPattern value' pattern replacement all' budget)
      (replaces (pattern_tokens (characters pattern) 0) replacement all' (characters value'))"
    unfolding replaceShellPattern_def
    apply (rule yields_then [where P = "\<lambda>chars. chars = characters value'"], rule yields_bounded, rule refl)
    apply (hypsubst, rule yields_then [where P = "\<lambda>compiled. compiled_from compiled (tokens_of pattern)"], rule yields_compiled, assumption)
    apply (rule yields_then, rule yields_rounds, assumption, simp, simp)
    apply (clarsimp split del: if_split)
    apply (rule yields_limit, rule yields_paid)
    by (auto intro: same dest: exceeds_limit)
  then show ?thesis unfolding yields_def refuses_def by (rule spec)
qed

end
