(* ===== verification/Shell_Arithmetic.thy ===== *)
theory Shell_Arithmetic
  imports Unicode "HOL-Library.Signed_Division"
begin

text \<open>
  Shell arithmetic: the tokens of \<open>src/shell/arithmetic-lexer.ts\<close>, the recursive descent parser
  and the evaluator of \<open>src/shell/arithmetic.ts\<close>. Values are \<open>bigint\<close>s kept to 64 bits. A syntax
  error carries its byte offset. The methods of the parser call each other through a parameter, and
  \<open>parse_rule\<close> ties the knot with fuel for the depth of the calls; running out is the engine's
  \<open>RangeError\<close>.
\<close>

section \<open>Errors\<close>

datatype arithmetic_error =
    ArithmeticSyntaxError nat
  | ArithmeticFailure js_error
  | ShellNounsetError jstring

type_synonym 'a arithmetic = "arithmetic_error + 'a"

definition andthen :: "'a arithmetic \<Rightarrow> ('a \<Rightarrow> 'b arithmetic) \<Rightarrow> 'b arithmetic" where
  "andthen m f = (case m of Inl e \<Rightarrow> Inl e | Inr x \<Rightarrow> f x)"

definition fails_with :: "vfs_error_code \<Rightarrow> 'a arithmetic" where
  "fails_with code = Inl (ArithmeticFailure (VfsError code None))"

definition arithmeticSyntax :: "jstring \<Rightarrow> nat \<Rightarrow> 'a arithmetic" where
  "arithmeticSyntax source offset = Inl (ArithmeticSyntaxError (utf8ByteLength (take offset source)))"

lemma andthen_simps [simp]: "andthen (Inl e) f = Inl e" "andthen (Inr x) f = f x"
  by (simp_all add: andthen_def)

lemma andthen_Inr: "andthen m f = Inr y \<longleftrightarrow> (\<exists>x. m = Inr x \<and> f x = Inr y)"
  by (cases m) auto

lemma andthen_Inl: "andthen m f = Inl e \<longleftrightarrow> m = Inl e \<or> (\<exists>x. m = Inr x \<and> f x = Inl e)"
  by (cases m) auto

section \<open>Tokens\<close>

datatype ArithmeticOperator =
    ShlAssign | ShrAssign | Increment | Decrement | Power | OrOr | AndAnd | EqualTo | NotEqual
  | AtMost | AtLeast | ShiftLeft | ShiftRight | AddAssign | SubAssign | MulAssign | DivAssign
  | ModAssign | AndAssign | XorAssign | OrAssign | Assign | Question | Colon | Comma | OpenParen
  | CloseParen | Plus | Minus | Times | Divide | Modulo | Bang | Tilde | Less | Greater | BitAnd
  | BitXor | BitOr

definition OPERATORS :: "(string \<times> ArithmeticOperator) list" where
  "OPERATORS =
     [(''<<='', ShlAssign), (''>>='', ShrAssign), (''++'', Increment), (''--'', Decrement), (''**'', Power),
      (''||'', OrOr), (''&&'', AndAnd), (''=='', EqualTo), (''!='', NotEqual), (''<='', AtMost), (''>='', AtLeast),
      (''<<'', ShiftLeft), (''>>'', ShiftRight), (''+='', AddAssign), (''-='', SubAssign), (''*='', MulAssign),
      (''/='', DivAssign), (''%='', ModAssign), (''&='', AndAssign), (''^='', XorAssign), (''|='', OrAssign),
      (''='', Assign), (''?'', Question), ('':'', Colon), ('','', Comma), (''('', OpenParen), ('')'', CloseParen),
      (''+'', Plus), (''-'', Minus), (''*'', Times), (''/'', Divide), (''%'', Modulo), (''!'', Bang), (''~'', Tilde),
      (''<'', Less), (''>'', Greater), (''&'', BitAnd), (''^'', BitXor), (''|'', BitOr)]"

datatype ArithmeticToken =
    IntegerToken int nat
  | IdentifierToken jstring nat
  | OperatorToken ArithmeticOperator nat
  | EndToken nat

fun token_offset :: "ArithmeticToken \<Rightarrow> nat" where
  "token_offset (IntegerToken _ offset) = offset"
| "token_offset (IdentifierToken _ offset) = offset"
| "token_offset (OperatorToken _ offset) = offset"
| "token_offset (EndToken offset) = offset"

text \<open>The classes of the regular expressions; \<open>\\s\<close> is JavaScript's.\<close>

definition is_space :: "jchar \<Rightarrow> bool" where
  "is_space c \<longleftrightarrow> 9 \<le> c \<and> c \<le> 13 \<or> c \<in> {32, 0xa0, 0x1680, 0x2028, 0x2029, 0x202f, 0x205f, 0x3000, 0xfeff} \<or>
     0x2000 \<le> c \<and> c \<le> 0x200a"

definition is_name_start :: "jchar \<Rightarrow> bool" where
  "is_name_start c \<longleftrightarrow> 65 \<le> c \<and> c \<le> 90 \<or> 97 \<le> c \<and> c \<le> 122 \<or> c = 95"

definition is_name :: "jchar \<Rightarrow> bool" where
  "is_name c \<longleftrightarrow> is_name_start c \<or> is_digit c"

definition is_hex :: "jchar \<Rightarrow> bool" where
  "is_hex c \<longleftrightarrow> is_digit c \<or> 97 \<le> c \<and> c \<le> 102 \<or> 65 \<le> c \<and> c \<le> 70"

definition is_octal :: "jchar \<Rightarrow> bool" where
  "is_octal c \<longleftrightarrow> 48 \<le> c \<and> c \<le> 55"

definition hex_digit :: "jchar \<Rightarrow> nat" where
  "hex_digit c = (if is_digit c then unat c - 48 else if 97 \<le> c then unat c - 87 else unat c - 55)"

definition value_in_base :: "nat \<Rightarrow> jstring \<Rightarrow> int" where
  "value_in_base base ds = foldl (\<lambda>acc c. int base * acc + int (hex_digit c)) 0 ds"

definition decimalOrOctalInteger :: "jstring \<Rightarrow> int option" where
  "decimalOrOctalInteger digits =
     (if length digits > 1 \<and> starts_with (js ''0'') digits then
        (if list_all is_octal digits then Some (value_in_base 8 digits) else None)
      else Some (value_in_base 10 digits))"

definition hex_prefix :: "jstring \<Rightarrow> bool" where
  "hex_prefix s \<longleftrightarrow> starts_with (js ''0x'') s \<or> starts_with (js ''0X'') s"

definition integerToken :: "jstring \<Rightarrow> nat \<Rightarrow> (ArithmeticToken \<times> nat) arithmetic" where
  "integerToken source start =
     (if hex_prefix (drop start source) then
        let digits = takeWhile is_hex (drop (start + 2) source) in
        if length digits = 0 then arithmeticSyntax source start
        else Inr (IntegerToken (value_in_base 16 digits) start, start + length digits + 2)
      else
        let digits = takeWhile is_digit (drop start source) in
        case decimalOrOctalInteger digits of
          None \<Rightarrow> arithmeticSyntax source start
        | Some value' \<Rightarrow> Inr (IntegerToken value' start, start + length digits))"

text \<open>\<open>/^[A-Za-z_][A-Za-z0-9_]*/\<close> at the front of a string: what it matches, empty when it does not.\<close>

definition name_front :: "jstring \<Rightarrow> jstring" where
  "name_front s = (case s of [] \<Rightarrow> [] | c # _ \<Rightarrow> if is_name_start c then takeWhile is_name s else [])"

definition variableToken :: "jstring \<Rightarrow> nat \<Rightarrow> (ArithmeticToken \<times> nat) arithmetic" where
  "variableToken source start =
     (if \<not> starts_with (js ''$'') (drop start source) then
        let value' = name_front (drop start source) in
        Inr (IdentifierToken value' start, start + length value')
      else if \<not> starts_with (js ''{'') (drop (start + 1) source) then
        let value' = name_front (drop (start + 1) source) in
        if value' = [] then arithmeticSyntax source start
        else Inr (IdentifierToken value' start, start + length value' + 1)
      else
        let value' = takeWhile (\<lambda>c. c \<noteq> 0x7d) (drop (start + 2) source); close = start + 2 + length value' in
        if close \<ge> length source then arithmeticSyntax source start
        else if value' = [] \<or> name_front value' \<noteq> value' then arithmeticSyntax source start
        else Inr (IdentifierToken value' start, close + 1))"

fun tokenize_from :: "nat \<Rightarrow> jstring \<Rightarrow> nat \<Rightarrow> ArithmeticToken list \<Rightarrow> ArithmeticToken list arithmetic" where
  "tokenize_from 0 source offset tokens = Inl (ArithmeticFailure RangeError)"
| "tokenize_from (Suc n) source offset tokens =
     (if offset \<ge> length source then Inr (tokens @ [EndToken (length source)])
      else
        let character = source ! offset in
        if is_space character then tokenize_from n source (offset + 1) tokens
        else if is_digit character then
          andthen (integerToken source offset) (\<lambda>(token, next). tokenize_from n source next (tokens @ [token]))
        else if is_name_start character \<or> character = 36 then
          andthen (variableToken source offset) (\<lambda>(token, next). tokenize_from n source next (tokens @ [token]))
        else case find (\<lambda>(candidate, _). starts_with (js candidate) (drop offset source)) OPERATORS of
            None \<Rightarrow> arithmeticSyntax source offset
          | Some (candidate, operator) \<Rightarrow>
              tokenize_from n source (offset + length candidate) (tokens @ [OperatorToken operator offset]))"

definition tokenizeArithmetic :: "jstring \<Rightarrow> ArithmeticToken list arithmetic" where
  "tokenizeArithmetic source = tokenize_from (length source + 1) source 0 []"

section \<open>Trees\<close>

fun BINARY_PRECEDENCE :: "ArithmeticOperator \<Rightarrow> nat option" where
  "BINARY_PRECEDENCE OrOr = Some 1"
| "BINARY_PRECEDENCE AndAnd = Some 2"
| "BINARY_PRECEDENCE BitOr = Some 3"
| "BINARY_PRECEDENCE BitXor = Some 4"
| "BINARY_PRECEDENCE BitAnd = Some 5"
| "BINARY_PRECEDENCE EqualTo = Some 6"
| "BINARY_PRECEDENCE NotEqual = Some 6"
| "BINARY_PRECEDENCE Less = Some 7"
| "BINARY_PRECEDENCE AtMost = Some 7"
| "BINARY_PRECEDENCE Greater = Some 7"
| "BINARY_PRECEDENCE AtLeast = Some 7"
| "BINARY_PRECEDENCE ShiftLeft = Some 8"
| "BINARY_PRECEDENCE ShiftRight = Some 8"
| "BINARY_PRECEDENCE Plus = Some 9"
| "BINARY_PRECEDENCE Minus = Some 9"
| "BINARY_PRECEDENCE Times = Some 10"
| "BINARY_PRECEDENCE Divide = Some 10"
| "BINARY_PRECEDENCE Modulo = Some 10"
| "BINARY_PRECEDENCE Power = Some 11"
| "BINARY_PRECEDENCE _ = None"

text \<open>The operation that an assignment applies first; \<open>None\<close> within is plain assignment.\<close>

fun ASSIGNMENT_BINARY :: "ArithmeticOperator \<Rightarrow> ArithmeticOperator option option" where
  "ASSIGNMENT_BINARY Assign = Some None"
| "ASSIGNMENT_BINARY AddAssign = Some (Some Plus)"
| "ASSIGNMENT_BINARY SubAssign = Some (Some Minus)"
| "ASSIGNMENT_BINARY MulAssign = Some (Some Times)"
| "ASSIGNMENT_BINARY DivAssign = Some (Some Divide)"
| "ASSIGNMENT_BINARY ModAssign = Some (Some Modulo)"
| "ASSIGNMENT_BINARY ShlAssign = Some (Some ShiftLeft)"
| "ASSIGNMENT_BINARY ShrAssign = Some (Some ShiftRight)"
| "ASSIGNMENT_BINARY AndAssign = Some (Some BitAnd)"
| "ASSIGNMENT_BINARY XorAssign = Some (Some BitXor)"
| "ASSIGNMENT_BINARY OrAssign = Some (Some BitOr)"
| "ASSIGNMENT_BINARY _ = None"

datatype ArithmeticNode =
    IntegerNode int
  | VariableNode jstring
  | UnaryNode ArithmeticOperator ArithmeticNode
  | UpdateNode ArithmeticOperator jstring bool
  | BinaryNode ArithmeticOperator ArithmeticNode ArithmeticNode
  | ConditionalNode ArithmeticNode ArithmeticNode ArithmeticNode
  | AssignmentNode ArithmeticOperator jstring ArithmeticNode
  | CommaNode "ArithmeticNode list"

section \<open>The parser\<close>

record ArithmeticParser =
  ap_source :: jstring
  ap_tokens :: "ArithmeticToken list"
  ap_maximumNodes :: nat
  ap_maximumDepth :: nat

text \<open>What changes while it parses: the index of the next token and the nodes so far.\<close>

type_synonym parse_state = "nat \<times> nat"

type_synonym 'a parsing = "parse_state \<Rightarrow> ('a \<times> parse_state) arithmetic"

definition parsed :: "'a \<Rightarrow> 'a parsing" where
  "parsed x st = Inr (x, st)"

definition parse_then :: "'a parsing \<Rightarrow> ('a \<Rightarrow> 'b parsing) \<Rightarrow> 'b parsing" where
  "parse_then m f st = andthen (m st) (\<lambda>(x, st'). f x st')"

definition peek_token :: "ArithmeticParser \<Rightarrow> parse_state \<Rightarrow> ArithmeticToken" where
  "peek_token p st = (if fst st < length (ap_tokens p) then ap_tokens p ! fst st else EndToken 0)"

definition peek :: "ArithmeticParser \<Rightarrow> ArithmeticToken parsing" where
  "peek p st = Inr (peek_token p st, st)"

definition take_token :: "ArithmeticParser \<Rightarrow> ArithmeticToken parsing" where
  "take_token p st = Inr (peek_token p st, (fst st + 1, snd st))"

definition takeOperator :: "ArithmeticParser \<Rightarrow> ArithmeticOperator \<Rightarrow> bool parsing" where
  "takeOperator p value' st =
     (case peek_token p st of
        OperatorToken operator _ \<Rightarrow> if operator = value' then Inr (True, (fst st + 1, snd st)) else Inr (False, st)
      | _ \<Rightarrow> Inr (False, st))"

definition add_node :: "ArithmeticParser \<Rightarrow> ArithmeticNode \<Rightarrow> ArithmeticNode parsing" where
  "add_node p node st =
     (if snd st + 1 > ap_maximumNodes p then fails_with E2BIG else Inr (node, (fst st, snd st + 1)))"

definition parse_syntax :: "ArithmeticParser \<Rightarrow> nat \<Rightarrow> 'a parsing" where
  "parse_syntax p offset st = arithmeticSyntax (ap_source p) offset"

text \<open>The methods that call each other, with the loops of \<open>comma\<close> and \<open>binary\<close> as their own rules.\<close>

datatype parse_rule_name =
    CommaRule
  | CommaRest "ArithmeticNode list"
  | AssignmentRule
  | ConditionalRule
  | BinaryRule nat
  | BinaryRest nat ArithmeticNode
  | UnaryRule
  | PostfixRule
  | PrimaryRule

type_synonym parse_self = "nat \<Rightarrow> parse_rule_name \<Rightarrow> ArithmeticNode parsing"

text \<open>\<open>nested\<close>: the callee runs one level deeper.\<close>

definition nested :: "ArithmeticParser \<Rightarrow> parse_self \<Rightarrow> nat \<Rightarrow> parse_rule_name \<Rightarrow> ArithmeticNode parsing" where
  "nested p self depth rule' st =
     (if depth + 1 > ap_maximumDepth p then fails_with E2BIG else self (depth + 1) rule' st)"

definition parse_comma_rest ::
  "ArithmeticParser \<Rightarrow> parse_self \<Rightarrow> nat \<Rightarrow> ArithmeticNode list \<Rightarrow> ArithmeticNode parsing" where
  "parse_comma_rest p self depth expressions =
     parse_then (takeOperator p Comma) (\<lambda>more.
     if more then
       parse_then (self depth AssignmentRule) (\<lambda>node. self depth (CommaRest (expressions @ [node])))
     else if length expressions = 1 then parsed (hd expressions)
     else add_node p (CommaNode expressions))"

definition parse_comma :: "ArithmeticParser \<Rightarrow> parse_self \<Rightarrow> nat \<Rightarrow> ArithmeticNode parsing" where
  "parse_comma p self depth =
     parse_then (self depth AssignmentRule) (\<lambda>node. self depth (CommaRest [node]))"

definition parse_assignment :: "ArithmeticParser \<Rightarrow> parse_self \<Rightarrow> nat \<Rightarrow> ArithmeticNode parsing" where
  "parse_assignment p self depth =
     parse_then (self depth ConditionalRule) (\<lambda>left.
     parse_then (peek p) (\<lambda>token.
     case token of
       OperatorToken operator offset \<Rightarrow>
         if ASSIGNMENT_BINARY operator = None then parsed left
         else (case left of
           VariableNode name' \<Rightarrow>
             parse_then (take_token p) (\<lambda>_.
             parse_then (nested p self depth AssignmentRule) (\<lambda>value'.
             add_node p (AssignmentNode operator name' value')))
         | _ \<Rightarrow> parse_syntax p offset)
     | _ \<Rightarrow> parsed left))"

definition parse_conditional :: "ArithmeticParser \<Rightarrow> parse_self \<Rightarrow> nat \<Rightarrow> ArithmeticNode parsing" where
  "parse_conditional p self depth =
     parse_then (self depth (BinaryRule 1)) (\<lambda>condition.
     parse_then (takeOperator p Question) (\<lambda>asked.
     if \<not> asked then parsed condition
     else
       parse_then (nested p self depth CommaRule) (\<lambda>consequent.
       parse_then (peek p) (\<lambda>token.
       parse_then (takeOperator p Colon) (\<lambda>ok.
       if \<not> ok then parse_syntax p (token_offset token)
       else
         parse_then (nested p self depth AssignmentRule) (\<lambda>alternate.
         add_node p (ConditionalNode condition consequent alternate)))))))"

definition parse_binary_rest ::
  "ArithmeticParser \<Rightarrow> parse_self \<Rightarrow> nat \<Rightarrow> nat \<Rightarrow> ArithmeticNode \<Rightarrow> ArithmeticNode parsing" where
  "parse_binary_rest p self depth minimum left =
     parse_then (peek p) (\<lambda>token.
     case token of
       OperatorToken operator _ \<Rightarrow>
         (case BINARY_PRECEDENCE operator of
           None \<Rightarrow> parsed left
         | Some precedence \<Rightarrow>
             if precedence < minimum then parsed left
             else
               parse_then (take_token p) (\<lambda>_.
               parse_then (nested p self depth (BinaryRule (if operator = Power then precedence else precedence + 1)))
                 (\<lambda>right.
               parse_then (add_node p (BinaryNode operator left right)) (\<lambda>node.
               self depth (BinaryRest minimum node)))))
     | _ \<Rightarrow> parsed left)"

definition parse_binary :: "ArithmeticParser \<Rightarrow> parse_self \<Rightarrow> nat \<Rightarrow> nat \<Rightarrow> ArithmeticNode parsing" where
  "parse_binary p self depth minimum =
     parse_then (self depth UnaryRule) (\<lambda>left. self depth (BinaryRest minimum left))"

definition parse_unary :: "ArithmeticParser \<Rightarrow> parse_self \<Rightarrow> nat \<Rightarrow> ArithmeticNode parsing" where
  "parse_unary p self depth =
     parse_then (peek p) (\<lambda>token.
     case token of
       OperatorToken operator _ \<Rightarrow>
         if operator = Increment \<or> operator = Decrement then
           parse_then (take_token p) (\<lambda>_.
           parse_then (peek p) (\<lambda>operand.
           case operand of
             IdentifierToken name' _ \<Rightarrow>
               parse_then (take_token p) (\<lambda>_. add_node p (UpdateNode operator name' True))
           | _ \<Rightarrow> parse_syntax p (token_offset operand)))
         else if operator \<in> {Plus, Minus, Bang, Tilde} then
           parse_then (take_token p) (\<lambda>_.
           parse_then (nested p self depth UnaryRule) (\<lambda>operand. add_node p (UnaryNode operator operand)))
         else self depth PostfixRule
     | _ \<Rightarrow> self depth PostfixRule)"

definition parse_postfix :: "ArithmeticParser \<Rightarrow> parse_self \<Rightarrow> nat \<Rightarrow> ArithmeticNode parsing" where
  "parse_postfix p self depth =
     parse_then (self depth PrimaryRule) (\<lambda>primary.
     parse_then (peek p) (\<lambda>token.
     case token of
       OperatorToken operator offset \<Rightarrow>
         if operator \<noteq> Increment \<and> operator \<noteq> Decrement then parsed primary
         else (case primary of
           VariableNode name' \<Rightarrow>
             parse_then (take_token p) (\<lambda>_. add_node p (UpdateNode operator name' False))
         | _ \<Rightarrow> parse_syntax p offset)
     | _ \<Rightarrow> parsed primary))"

definition parse_primary :: "ArithmeticParser \<Rightarrow> parse_self \<Rightarrow> nat \<Rightarrow> ArithmeticNode parsing" where
  "parse_primary p self depth =
     parse_then (take_token p) (\<lambda>token.
     case token of
       IntegerToken value' _ \<Rightarrow> add_node p (IntegerNode value')
     | IdentifierToken name' _ \<Rightarrow> add_node p (VariableNode name')
     | OperatorToken operator offset \<Rightarrow>
         if operator = OpenParen then
           parse_then (nested p self depth CommaRule) (\<lambda>expression.
           parse_then (peek p) (\<lambda>close.
           parse_then (takeOperator p CloseParen) (\<lambda>ok.
           if \<not> ok then parse_syntax p (token_offset close) else parsed expression)))
         else parse_syntax p offset
     | EndToken offset \<Rightarrow> parse_syntax p offset)"

fun parse_rule :: "ArithmeticParser \<Rightarrow> nat \<Rightarrow> parse_self" where
  "parse_rule p 0 depth rule' st = Inl (ArithmeticFailure RangeError)"
| "parse_rule p (Suc n) depth rule' st =
     (case rule' of
        CommaRule \<Rightarrow> parse_comma p (parse_rule p n) depth st
      | CommaRest expressions \<Rightarrow> parse_comma_rest p (parse_rule p n) depth expressions st
      | AssignmentRule \<Rightarrow> parse_assignment p (parse_rule p n) depth st
      | ConditionalRule \<Rightarrow> parse_conditional p (parse_rule p n) depth st
      | BinaryRule minimum \<Rightarrow> parse_binary p (parse_rule p n) depth minimum st
      | BinaryRest minimum left \<Rightarrow> parse_binary_rest p (parse_rule p n) depth minimum left st
      | UnaryRule \<Rightarrow> parse_unary p (parse_rule p n) depth st
      | PostfixRule \<Rightarrow> parse_postfix p (parse_rule p n) depth st
      | PrimaryRule \<Rightarrow> parse_primary p (parse_rule p n) depth st)"

definition children :: "ArithmeticNode \<Rightarrow> ArithmeticNode list" where
  "children node = (case node of
     UnaryNode _ operand \<Rightarrow> [operand]
   | BinaryNode _ left right \<Rightarrow> [left, right]
   | ConditionalNode condition consequent alternate \<Rightarrow> [condition, consequent, alternate]
   | AssignmentNode _ _ value' \<Rightarrow> [value']
   | CommaNode expressions \<Rightarrow> expressions
   | _ \<Rightarrow> [])"

fun node_size :: "ArithmeticNode \<Rightarrow> nat" where
  "node_size (UnaryNode _ operand) = node_size operand + 1"
| "node_size (BinaryNode _ left right) = node_size left + node_size right + 1"
| "node_size (ConditionalNode condition consequent alternate) =
     node_size condition + node_size consequent + node_size alternate + 1"
| "node_size (AssignmentNode _ _ value') = node_size value' + 1"
| "node_size (CommaNode expressions) = sum_list (map node_size expressions) + 1"
| "node_size _ = 1"

lemma node_size_children: "node_size node = sum_list (map node_size (children node)) + 1"
  by (cases node) (simp_all add: children_def)

text \<open>The stack of nodes that are still to be visited; the last one pushed comes off first.\<close>

function validate_from :: "nat \<Rightarrow> (ArithmeticNode \<times> nat) list \<Rightarrow> unit arithmetic" where
  "validate_from maximumDepth [] = Inr ()"
| "validate_from maximumDepth ((node, depth) # pending) =
     (if depth > maximumDepth then fails_with E2BIG
      else validate_from maximumDepth (rev (map (\<lambda>child. (child, depth + 1)) (children node)) @ pending))"
  by pat_completeness auto

termination
proof (relation "measure (\<lambda>(_, pending). sum_list (map (node_size \<circ> fst) pending))", goal_cases)
  case (2 maximumDepth node depth pending)
  have "sum_list (map (node_size \<circ> fst) (rev (map (\<lambda>child. (child, depth + 1)) (children node)))) < node_size node"
    by (simp add: rev_map [symmetric] sum_list_rev comp_def node_size_children [of node])
  then show ?case by simp
qed simp

definition validateArithmeticDepth :: "ArithmeticNode \<Rightarrow> nat \<Rightarrow> unit arithmetic" where
  "validateArithmeticDepth root maximumDepth = validate_from maximumDepth [(root, 1)]"

record ParsedArithmetic =
  pa_node :: ArithmeticNode
  pa_nodeCount :: nat

text \<open>Enough fuel for any parse of these tokens.\<close>

definition parse_fuel :: "ArithmeticToken list \<Rightarrow> nat" where
  "parse_fuel tokens = 8 * length tokens + 8"

definition parse :: "ArithmeticParser \<Rightarrow> ParsedArithmetic arithmetic" where
  "parse p =
     (if ap_maximumDepth p < 1 then fails_with E2BIG
      else
        andthen (parse_rule p (parse_fuel (ap_tokens p)) 1 CommaRule (0, 0)) (\<lambda>(node, st).
        case peek_token p st of
          EndToken _ \<Rightarrow>
            andthen (validateArithmeticDepth node (ap_maximumDepth p)) (\<lambda>_.
            Inr \<lparr>pa_node = node, pa_nodeCount = snd st\<rparr>)
        | token \<Rightarrow> arithmeticSyntax (ap_source p) (token_offset token)))"

definition parseArithmetic :: "jstring \<Rightarrow> nat \<Rightarrow> nat \<Rightarrow> ParsedArithmetic arithmetic" where
  "parseArithmetic source maximumNodes maximumDepth =
     (if list_all is_space source then arithmeticSyntax source 0
      else
        andthen (tokenizeArithmetic source) (\<lambda>tokens.
        parse \<lparr>ap_source = source, ap_tokens = tokens, ap_maximumNodes = maximumNodes, ap_maximumDepth = maximumDepth\<rparr>))"

section \<open>Values\<close>

text \<open>\<open>BigInt.asIntN(64, value)\<close>, and the bits of a shift.\<close>

definition int64 :: "int \<Rightarrow> int" where
  "int64 value' = signed_take_bit 63 value'"

definition truth :: "int \<Rightarrow> int" where
  "truth value' = (if value' = 0 then 0 else 1)"

definition js_int :: "int \<Rightarrow> jstring" where
  "js_int v = (if v < 0 then 0x2d # js_nat (nat (- v)) else js_nat (nat v))"

type_synonym shell_env = "jstring \<rightharpoonup> jstring"

definition is_sign :: "jchar \<Rightarrow> bool" where
  "is_sign c \<longleftrightarrow> c = 0x2b \<or> c = 0x2d"

definition unsigned_part :: "jstring \<Rightarrow> jstring" where
  "unsigned_part s = (case s of [] \<Rightarrow> [] | c # rest \<Rightarrow> if is_sign c then rest else s)"

definition is_integer_text :: "jstring \<Rightarrow> bool" where
  "is_integer_text s \<longleftrightarrow> (let u = unsigned_part s in
     u \<noteq> [] \<and> list_all is_digit u \<or> hex_prefix u \<and> length u > 2 \<and> list_all is_hex (drop 2 u))"

definition readVariable :: "jstring \<Rightarrow> shell_env \<Rightarrow> bool \<Rightarrow> int arithmetic" where
  "readVariable name' env nounset =
     (if env name' = None \<and> nounset then Inl (ShellNounsetError name')
      else
        let normalized = (case env name' of None \<Rightarrow> [] | Some v \<Rightarrow> v) in
        if \<not> is_integer_text normalized then Inr 0
        else
          let negative = starts_with (js ''-'') normalized; unsigned' = unsigned_part normalized in
          case (if hex_prefix unsigned' then Some (value_in_base 16 (drop 2 unsigned')) else decimalOrOctalInteger unsigned') of
            None \<Rightarrow> Inr 0
          | Some v \<Rightarrow> Inr (int64 (if negative then - v else v)))"

text \<open>Division of \<open>bigint\<close>s rounds towards zero, and the remainder has the sign of the dividend.\<close>

definition divide :: "int \<Rightarrow> int \<Rightarrow> bool \<Rightarrow> int arithmetic" where
  "divide left right remainder =
     (if right = 0 then fails_with EINVAL
      else let quotient = sgn left * sgn right * (\<bar>left\<bar> div \<bar>right\<bar>) in
        Inr (if remainder then left - right * quotient else quotient))"

definition power_of :: "int \<Rightarrow> int \<Rightarrow> int arithmetic" where
  "power_of left right =
     (if right < 0 then fails_with EINVAL
      else if right > 63 then fails_with E2BIG
      else Inr (int64 (left ^ nat right)))"

unbundle bit_operations_syntax

fun binary_operation :: "ArithmeticOperator \<Rightarrow> int \<Rightarrow> int \<Rightarrow> int arithmetic" where
  "binary_operation Plus left right = Inr (int64 (left + right))"
| "binary_operation Minus left right = Inr (int64 (left - right))"
| "binary_operation Times left right = Inr (int64 (left * right))"
| "binary_operation Divide left right = andthen (divide left right False) (\<lambda>v. Inr (int64 v))"
| "binary_operation Modulo left right = andthen (divide left right True) (\<lambda>v. Inr (int64 v))"
| "binary_operation ShiftLeft left right = Inr (int64 (push_bit (nat (take_bit 6 right)) left))"
| "binary_operation ShiftRight left right = Inr (int64 (drop_bit (nat (take_bit 6 right)) left))"
| "binary_operation Less left right = Inr (if left < right then 1 else 0)"
| "binary_operation AtMost left right = Inr (if left \<le> right then 1 else 0)"
| "binary_operation Greater left right = Inr (if left > right then 1 else 0)"
| "binary_operation AtLeast left right = Inr (if left \<ge> right then 1 else 0)"
| "binary_operation EqualTo left right = Inr (if left = right then 1 else 0)"
| "binary_operation NotEqual left right = Inr (if left \<noteq> right then 1 else 0)"
| "binary_operation BitAnd left right = Inr (int64 (left AND right))"
| "binary_operation BitXor left right = Inr (int64 (left XOR right))"
| "binary_operation BitOr left right = Inr (int64 (left OR right))"
| "binary_operation AndAnd left right = Inr (truth left AND truth right)"
| "binary_operation OrOr left right = Inr (truth left OR truth right)"
| "binary_operation Power left right = power_of left right"
| "binary_operation _ left right = Inl (ArithmeticFailure TypeError)"

definition unaryValue :: "ArithmeticOperator \<Rightarrow> int \<Rightarrow> int" where
  "unaryValue operator value' =
     (if operator = Plus then value'
      else if operator = Minus then int64 (- value')
      else if operator = Bang then (if value' = 0 then 1 else 0)
      else int64 (NOT value'))"

section \<open>Evaluation\<close>

text \<open>The environment is changed in place, so it is what an error leaves behind, too.\<close>

type_synonym evaluation = "shell_env \<Rightarrow> int arithmetic \<times> shell_env"

definition evaluated :: "int \<Rightarrow> evaluation" where
  "evaluated v env = (Inr v, env)"

definition eval_then :: "evaluation \<Rightarrow> (int \<Rightarrow> evaluation) \<Rightarrow> evaluation" where
  "eval_then m f env = (case m env of (Inl e, env') \<Rightarrow> (Inl e, env') | (Inr v, env') \<Rightarrow> f v env')"

definition read_value :: "jstring \<Rightarrow> bool \<Rightarrow> evaluation" where
  "read_value name' nounset env = (readVariable name' env nounset, env)"

definition computed :: "int arithmetic \<Rightarrow> evaluation" where
  "computed r env = (r, env)"

definition set_value :: "jstring \<Rightarrow> int \<Rightarrow> int \<Rightarrow> evaluation" where
  "set_value name' v result' env = (Inr result', env(name' \<mapsto> js_int v))"

definition updateValue :: "ArithmeticOperator \<Rightarrow> jstring \<Rightarrow> bool \<Rightarrow> bool \<Rightarrow> evaluation" where
  "updateValue operator name' prefix' nounset =
     eval_then (read_value name' nounset) (\<lambda>previous.
     let v = int64 (previous + (if operator = Increment then 1 else - 1)) in
     set_value name' v (if prefix' then v else previous))"

fun evaluateArithmetic :: "ArithmeticNode \<Rightarrow> bool \<Rightarrow> evaluation"
and commaValue :: "ArithmeticNode list \<Rightarrow> int \<Rightarrow> bool \<Rightarrow> evaluation" where
  "evaluateArithmetic (IntegerNode v) nounset = evaluated (int64 v)"
| "evaluateArithmetic (VariableNode name') nounset = read_value name' nounset"
| "evaluateArithmetic (UnaryNode operator operand) nounset =
     eval_then (evaluateArithmetic operand nounset) (\<lambda>v. evaluated (unaryValue operator v))"
| "evaluateArithmetic (UpdateNode operator name' prefix') nounset = updateValue operator name' prefix' nounset"
| "evaluateArithmetic (BinaryNode operator left right) nounset =
     eval_then (evaluateArithmetic left nounset) (\<lambda>l.
     if operator = AndAnd \<and> l = 0 then evaluated 0
     else if operator = OrOr \<and> l \<noteq> 0 then evaluated 1
     else eval_then (evaluateArithmetic right nounset) (\<lambda>r. computed (binary_operation operator l r)))"
| "evaluateArithmetic (ConditionalNode condition consequent alternate) nounset =
     eval_then (evaluateArithmetic condition nounset) (\<lambda>c.
     if c = 0 then evaluateArithmetic alternate nounset else evaluateArithmetic consequent nounset)"
| "evaluateArithmetic (AssignmentNode operator name' value') nounset =
     (case ASSIGNMENT_BINARY operator of
        Some (Some operation) \<Rightarrow>
          eval_then (read_value name' nounset) (\<lambda>left.
          eval_then (evaluateArithmetic value' nounset) (\<lambda>right.
          eval_then (computed (binary_operation operation left right)) (\<lambda>v. set_value name' v v)))
      | _ \<Rightarrow> eval_then (evaluateArithmetic value' nounset) (\<lambda>v. set_value name' v v))"
| "evaluateArithmetic (CommaNode expressions) nounset = commaValue expressions 0 nounset"
| "commaValue [] v nounset = evaluated v"
| "commaValue (expression # expressions) v nounset =
     eval_then (evaluateArithmetic expression nounset) (\<lambda>v. commaValue expressions v nounset)"

section \<open>Sixty-four bits\<close>

definition in64 :: "int \<Rightarrow> bool" where
  "in64 v \<longleftrightarrow> - (2 ^ 63) \<le> v \<and> v < 2 ^ 63"

lemma in64_int64 [simp]: "in64 (int64 v)"
  using signed_take_bit_int_greater_eq_minus_exp [of 63 v] signed_take_bit_int_less_exp [of 63 v]
  by (simp add: in64_def int64_def)

lemma int64_id: "in64 v \<Longrightarrow> int64 v = v"
  unfolding in64_def int64_def by (rule signed_take_bit_int_eq_self) simp_all

lemma in64_small [simp]: "in64 0" "in64 1"
  by (simp_all add: in64_def)

lemma int64_word: "int64 v = sint (word_of_int v :: 64 word)"
  by (simp only: int64_def sint_sbintrunc') simp

text \<open>Texts of integers.\<close>

lemma js_nat_first: "js_nat n = c # rest \<Longrightarrow> rest = [] \<or> c \<noteq> 48"
proof (induction n arbitrary: c rest rule: js_nat.induct)
  case (1 n)
  show ?case
  proof (cases "n < 10")
    case True
    with 1(2) show ?thesis by (subst (asm) js_nat.simps) auto
  next
    case False
    obtain d ds where d: "js_nat (n div 10) = d # ds" using js_nat_nonempty by (metis neq_Nil_conv)
    have "c = d" using 1(2) False d by (subst (asm) js_nat.simps) auto
    show ?thesis
    proof (cases "n div 10 < 10")
      case True
      have "c = digit_char (n div 10)" using d True \<open>c = d\<close> by (subst (asm) js_nat.simps) auto
      moreover have "unat (digit_char (n div 10)) \<noteq> unat (48 :: jchar)" using unat_digit_char [OF True] False by simp
      then have "digit_char (n div 10) \<noteq> 48" by metis
      ultimately show ?thesis by simp
    next
      case False': False
      with 1(1) [OF False d] have "ds = [] \<or> d \<noteq> 48" by blast
      moreover have "ds \<noteq> []" using d False' by (subst (asm) js_nat.simps) (auto simp: append_eq_Cons_conv js_nat_nonempty)
      ultimately show ?thesis using \<open>c = d\<close> by simp
    qed
  qed
qed

lemma sint_in64 [simp]: "in64 (sint (w :: 64 word))"
  using sint_ge [of w] sint_lt [of w] by (simp add: in64_def)

lemma int64_sint [simp]: "int64 (sint (w :: 64 word)) = sint w"
  by (rule int64_id) simp

lemma sint_eq_iff: "sint (a :: 64 word) = sint b \<longleftrightarrow> a = b"
  by (metis signed_word_eqI)

lemma int64_push: "int64 (push_bit n (sint (a :: 64 word))) = sint (push_bit n a)"
  by (simp add: int64_word push_bit_eq_mult sint_word_mult of_int_power)

lemma shift_count: "nat (take_bit 6 (sint (b :: 64 word))) = unat (take_bit 6 b)"
proof -
  have "take_bit 6 (sint b) = take_bit 6 (take_bit 64 (sint b))" by (simp add: take_bit_take_bit)
  also have "\<dots> = take_bit 6 (uint b)" by (simp add: uint_sint)
  also have "\<dots> = uint (take_bit 6 b)" by (simp add: unsigned_take_bit_eq)
  finally show ?thesis by simp
qed

lemma in64_word: "in64 v \<Longrightarrow> \<exists>w :: 64 word. v = sint w"
  using int64_id [of v] int64_word [of v] by metis

lemma sint_remainder: "a - b * (sgn a * sgn b * (\<bar>a\<bar> div \<bar>b\<bar>)) = a smod (b :: int)"
  using mult_sdiv_smod_eq [of b a] by (simp add: signed_divide_int_def algebra_simps)

lemma quotient_in64:
  assumes "in64 a" "in64 b" "\<not> (a = - (2 ^ 63) \<and> b = -1)"
  shows "in64 (a sdiv b)"
proof (cases "a = - (2 ^ 63)")
  case False
  then have "\<bar>a\<bar> < 2 ^ 63" using assms(1) by (auto simp: in64_def)
  then show ?thesis using sdiv_int_range [of a b] by (simp add: in64_def)
next
  case True
  consider "b = 0" | "b > 0" | "b \<le> -2" using assms(3) True by linarith
  then show ?thesis
  proof cases
    case 1
    then show ?thesis by (simp add: sdiv_int_div_0)
  next
    case 2
    then have "a sdiv b \<le> 0" using True by (simp add: signed_divide_int_def pos_imp_zdiv_nonneg_iff)
    then show ?thesis using sdiv_int_range [of a b] True by (simp add: in64_def)
  next
    case 3
    then have "2 ^ 63 div (- b) \<le> (2 ^ 63 :: int) div 2" by (intro zdiv_mono2) simp_all
    moreover have "a sdiv b = 2 ^ 63 div (- b)" using 3 True by (simp add: signed_divide_int_def)
    moreover have "0 \<le> 2 ^ 63 div (- b)" using 3 by (simp add: pos_imp_zdiv_nonneg_iff)
    ultimately show ?thesis by (simp add: in64_def)
  qed
qed

lemma remainder_in64:
  assumes "in64 a" "in64 b" "b \<noteq> 0"
  shows "in64 (a smod b)"
proof -
  have "\<bar>a smod b\<bar> < \<bar>b\<bar>" using assms(3) by (cases "a = 0") (simp_all add: signed_modulo_int_def abs_mult)
  then show ?thesis using assms(2) by (auto simp: in64_def)
qed

lemma binary_operation_in64: "binary_operation operator l r = Inr v \<Longrightarrow> in64 v"
  by (cases operator) (auto simp: power_of_def fails_with_def andthen_Inr truth_def split: if_splits)

lemma unaryValue_in64: "in64 v \<Longrightarrow> in64 (unaryValue operator v)"
  by (simp add: unaryValue_def)

lemma readVariable_in64: "readVariable x env nounset = Inr v \<Longrightarrow> in64 v"
  by (auto simp: readVariable_def Let_def split: if_splits option.splits)

lemma readVariable_Inl: "readVariable x env nounset = Inl e \<Longrightarrow> e = ShellNounsetError x \<and> nounset \<and> env x = None"
  by (auto simp: readVariable_def Let_def split: if_splits option.splits)

section \<open>Variables hold decimal texts\<close>

lemma value_in_ten: "list_all is_digit ds \<Longrightarrow> value_in_base 10 ds = int (digits_value ds)"
proof (induction ds rule: rev_induct)
  case (snoc c ds)
  then show ?case by (simp add: value_in_base_def digits_value_def hex_digit_def)
qed (simp add: value_in_base_def digits_value_def)

lemma js_nat_decimal: "decimalOrOctalInteger (js_nat n) = Some (int n)"
proof -
  obtain c rest where c: "js_nat n = c # rest" using js_nat_nonempty by (metis neq_Nil_conv)
  have "\<not> (length (js_nat n) > 1 \<and> starts_with (js ''0'') (js_nat n))"
    using js_nat_first [OF c] c by (auto simp: starts_with_def js_def)
  moreover have "value_in_base 10 (js_nat n) = int n"
    using value_in_ten [of "js_nat n"] js_nat_digits [of n] by (simp add: list_all_iff)
  ultimately show ?thesis by (simp only: decimalOrOctalInteger_def if_False)
qed

lemma digit_class: "is_digit c \<Longrightarrow> \<not> is_sign c \<and> c \<noteq> 0x78 \<and> c \<noteq> 0x58 \<and> c \<noteq> 0x2d"
  by (auto simp: is_digit_def is_sign_def)

lemma js_nat_unsigned: "unsigned_part (js_nat n) = js_nat n"
  "\<not> hex_prefix (js_nat n)" "list_all is_digit (js_nat n)" "\<not> starts_with (js ''-'') (js_nat n)"
proof -
  have d: "list_all is_digit (js_nat n)" using js_nat_digits [of n] by (simp add: list_all_iff)
  then show "list_all is_digit (js_nat n)" .
  show "unsigned_part (js_nat n) = js_nat n" using d digit_class
    by (cases "js_nat n") (simp_all add: unsigned_part_def)
  show "\<not> starts_with (js ''-'') (js_nat n)" using d digit_class
    by (cases "js_nat n") (auto simp: starts_with_def js_def)
  show "\<not> hex_prefix (js_nat n)" using d digit_class
    by (cases "js_nat n"; cases "tl (js_nat n)") (auto simp: hex_prefix_def starts_with_def js_def)
qed

theorem js_int_reads: "in64 v \<Longrightarrow> env x = Some (js_int v) \<Longrightarrow> readVariable x env nounset = Inr v"
proof -
  assume v: "in64 v" and x: "env x = Some (js_int v)"
  show ?thesis
  proof (cases "v < 0")
    case True
    have "unsigned_part (js_int v) = js_nat (nat (- v))" using True by (simp add: js_int_def unsigned_part_def is_sign_def)
    moreover have "starts_with (js ''-'') (js_int v)" using True by (simp add: js_int_def starts_with_def js_def)
    ultimately show ?thesis using x True js_nat_unsigned [of "nat (- v)"] int64_id [OF v]
      by (simp add: readVariable_def is_integer_text_def Let_def js_nat_decimal)
  next
    case False
    then show ?thesis using x js_nat_unsigned [of "nat v"] int64_id [OF v]
      by (simp add: readVariable_def is_integer_text_def Let_def js_nat_decimal js_int_def)
  qed
qed

end
