(* ===== verification/Shell_Grammar.thy ===== *)
theory Shell_Grammar
  imports Shell_Arithmetic
begin

text \<open>
  What the parser of shell arithmetic accepts. Its successful parses are a big-step relation over the
  token index and the node count; on that relation the sizes, the progress and the derivation in a
  stratified grammar are proved by rule induction. The bound on the fuel and the errors are proved on
  the parser itself.
\<close>

section \<open>Successful parses\<close>

definition operator_at :: "ArithmeticParser \<Rightarrow> parse_state \<Rightarrow> ArithmeticOperator \<Rightarrow> bool" where
  "operator_at p st operator \<longleftrightarrow> (\<exists>offset. peek_token p st = OperatorToken operator offset)"

definition binds :: "ArithmeticParser \<Rightarrow> parse_state \<Rightarrow> nat \<Rightarrow> bool" where
  "binds p st minimum \<longleftrightarrow> (\<exists>operator q. operator_at p st operator \<and> BINARY_PRECEDENCE operator = Some q \<and> minimum \<le> q)"

definition right_minimum :: "ArithmeticOperator \<Rightarrow> nat \<Rightarrow> nat" where
  "right_minimum operator q = (if operator = Power then q else q + 1)"

inductive parses :: "ArithmeticParser \<Rightarrow> parse_rule_name \<Rightarrow> parse_state \<Rightarrow> ArithmeticNode \<Rightarrow> parse_state \<Rightarrow> bool"
  for p where
  run_comma: "parses p AssignmentRule st a st1 \<Longrightarrow> parses p (CommaRest [a]) st1 n st2 \<Longrightarrow> parses p CommaRule st n st2"
| run_more: "operator_at p (i, k) Comma \<Longrightarrow> parses p AssignmentRule (Suc i, k) a st1 \<Longrightarrow>
    parses p (CommaRest (es @ [a])) st1 n st2 \<Longrightarrow> parses p (CommaRest es) (i, k) n st2"
| run_alone: "parses p (CommaRest [a]) st a st"
| run_list: "length es \<noteq> 1 \<Longrightarrow> k < ap_maximumNodes p \<Longrightarrow> parses p (CommaRest es) (i, k) (CommaNode es) (i, Suc k)"
| run_value: "parses p ConditionalRule st n st1 \<Longrightarrow> parses p AssignmentRule st n st1"
| run_assign: "parses p ConditionalRule st (VariableNode x) (i, k) \<Longrightarrow> operator_at p (i, k) operator \<Longrightarrow>
    ASSIGNMENT_BINARY operator \<noteq> None \<Longrightarrow> parses p AssignmentRule (Suc i, k) n (j, m) \<Longrightarrow> m < ap_maximumNodes p \<Longrightarrow>
    parses p AssignmentRule st (AssignmentNode operator x n) (j, Suc m)"
| run_plain: "parses p (BinaryRule 1) st n st1 \<Longrightarrow> parses p ConditionalRule st n st1"
| run_choice: "parses p (BinaryRule 1) st c (i, k) \<Longrightarrow> operator_at p (i, k) Question \<Longrightarrow>
    parses p CommaRule (Suc i, k) a (j, m) \<Longrightarrow> operator_at p (j, m) Colon \<Longrightarrow>
    parses p AssignmentRule (Suc j, m) b (h, l) \<Longrightarrow> l < ap_maximumNodes p \<Longrightarrow>
    parses p ConditionalRule st (ConditionalNode c a b) (h, Suc l)"
| run_binary: "parses p UnaryRule st a st1 \<Longrightarrow> parses p (BinaryRest minimum a) st1 n st2 \<Longrightarrow>
    parses p (BinaryRule minimum) st n st2"
| run_stop: "\<not> binds p st minimum \<Longrightarrow> parses p (BinaryRest minimum a) st a st"
| run_operator: "operator_at p (i, k) operator \<Longrightarrow> BINARY_PRECEDENCE operator = Some q \<Longrightarrow> minimum \<le> q \<Longrightarrow>
    parses p (BinaryRule (right_minimum operator q)) (Suc i, k) b (j, m) \<Longrightarrow> m < ap_maximumNodes p \<Longrightarrow>
    parses p (BinaryRest minimum (BinaryNode operator a b)) (j, Suc m) n st2 \<Longrightarrow>
    parses p (BinaryRest minimum a) (i, k) n st2"
| run_update: "operator_at p (i, k) operator \<Longrightarrow> operator = Increment \<or> operator = Decrement \<Longrightarrow>
    peek_token p (Suc i, k) = IdentifierToken x offset \<Longrightarrow> k < ap_maximumNodes p \<Longrightarrow>
    parses p UnaryRule (i, k) (UpdateNode operator x True) (Suc (Suc i), Suc k)"
| run_unary: "operator_at p (i, k) operator \<Longrightarrow> operator \<in> {Plus, Minus, Bang, Tilde} \<Longrightarrow>
    parses p UnaryRule (Suc i, k) n (j, m) \<Longrightarrow> m < ap_maximumNodes p \<Longrightarrow>
    parses p UnaryRule (i, k) (UnaryNode operator n) (j, Suc m)"
| run_postfix: "parses p PostfixRule st n st1 \<Longrightarrow> parses p UnaryRule st n st1"
| run_primary: "parses p PrimaryRule st n st1 \<Longrightarrow> parses p PostfixRule st n st1"
| run_bump: "parses p PrimaryRule st (VariableNode x) (i, k) \<Longrightarrow> operator_at p (i, k) operator \<Longrightarrow>
    operator = Increment \<or> operator = Decrement \<Longrightarrow> k < ap_maximumNodes p \<Longrightarrow>
    parses p PostfixRule st (UpdateNode operator x False) (Suc i, Suc k)"
| run_integer: "peek_token p (i, k) = IntegerToken v offset \<Longrightarrow> k < ap_maximumNodes p \<Longrightarrow>
    parses p PrimaryRule (i, k) (IntegerNode v) (Suc i, Suc k)"
| run_name: "peek_token p (i, k) = IdentifierToken x offset \<Longrightarrow> k < ap_maximumNodes p \<Longrightarrow>
    parses p PrimaryRule (i, k) (VariableNode x) (Suc i, Suc k)"
| run_paren: "operator_at p (i, k) OpenParen \<Longrightarrow> parses p CommaRule (Suc i, k) n (j, m) \<Longrightarrow>
    operator_at p (j, m) CloseParen \<Longrightarrow> parses p PrimaryRule (i, k) n (Suc j, m)"

text \<open>The pieces of the parser when they succeed.\<close>

lemma parse_then_Inr:
  "parse_then m f st = Inr (x, st') \<longleftrightarrow> (\<exists>y i k. m st = Inr (y, (i, k)) \<and> f y (i, k) = Inr (x, st'))"
  by (auto simp: parse_then_def andthen_Inr split: prod.splits)

lemma take_Inr: "take_token p (i, k) = Inr (t, st') \<longleftrightarrow> t = peek_token p (i, k) \<and> st' = (Suc i, k)"
  by (auto simp: take_token_def)

lemma peek_Inr: "peek p st = Inr (t, st') \<longleftrightarrow> t = peek_token p st \<and> st' = st"
  by (auto simp: peek_def)

lemma takeOperator_Inr:
  "takeOperator p v (i, k) = Inr (ok, st') \<longleftrightarrow>
     ok = operator_at p (i, k) v \<and> st' = (if operator_at p (i, k) v then (Suc i, k) else (i, k))"
  by (auto simp: takeOperator_def operator_at_def split: ArithmeticToken.splits)

lemma parsed_Inr: "parsed x st = Inr (y, st') \<longleftrightarrow> y = x \<and> st' = st"
  by (auto simp: parsed_def)

lemma add_node_Inr: "add_node p n (i, k) = Inr (y, st') \<longleftrightarrow> y = n \<and> st' = (i, Suc k) \<and> k < ap_maximumNodes p"
  by (auto simp: add_node_def fails_with_def)

lemma syntax_Inr: "parse_syntax p offset st \<noteq> Inr r"
  by (simp add: parse_syntax_def arithmeticSyntax_def)

lemma nested_Inr: "nested p self depth rule' st = Inr r \<longleftrightarrow> depth < ap_maximumDepth p \<and> self (Suc depth) rule' st = Inr r"
  by (auto simp: nested_def fails_with_def)

lemmas succeeded = parse_then_Inr take_Inr peek_Inr takeOperator_Inr parsed_Inr add_node_Inr syntax_Inr nested_Inr

lemma token_operator: "peek_token p st = OperatorToken operator offset \<Longrightarrow> operator_at p st operator"
  by (auto simp: operator_at_def)

definition followed :: "ArithmeticParser \<Rightarrow> parse_self \<Rightarrow> bool" where
  "followed p self \<longleftrightarrow> (\<forall>depth rule' st n st'. self depth rule' st = Inr (n, st') \<longrightarrow> parses p rule' st n st')"

lemma followedD: "self depth rule' st = Inr (n, st') \<Longrightarrow> followed p self \<Longrightarrow> parses p rule' st n st'"
  unfolding followed_def by blast

lemma comma_runs: "followed p self \<Longrightarrow> parse_comma p self depth st = Inr (n, st') \<Longrightarrow> parses p CommaRule st n st'"
  by (auto simp: parse_comma_def succeeded intro: run_comma dest!: followedD)

lemma comma_rest_runs:
  "followed p self \<Longrightarrow> parse_comma_rest p self depth es (i, k) = Inr (n, st') \<Longrightarrow> parses p (CommaRest es) (i, k) n st'"
  by (auto simp: parse_comma_rest_def succeeded length_Suc_conv split: if_splits
    intro: run_more run_alone run_list dest!: followedD)

lemma assignment_runs:
  assumes "followed p self" "parse_assignment p self depth st = Inr (n, st')"
  shows "parses p AssignmentRule st n st'"
proof -
  obtain l i k where l: "parses p ConditionalRule st l (i, k)"
    and r: "(case peek_token p (i, k) of OperatorToken operator offset \<Rightarrow>
         if ASSIGNMENT_BINARY operator = None then parsed l
         else (case l of
           VariableNode name' \<Rightarrow>
             parse_then (take_token p) (\<lambda>_.
             parse_then (nested p self depth AssignmentRule) (\<lambda>value'.
             add_node p (AssignmentNode operator name' value')))
         | _ \<Rightarrow> parse_syntax p offset)
     | _ \<Rightarrow> parsed l) (i, k) = Inr (n, st')"
    using assms(2) followedD [OF _ assms(1)]
    by (simp add: parse_assignment_def parse_then_Inr peek_Inr) blast
  show ?thesis
  proof (cases "\<exists>operator offset. peek_token p (i, k) = OperatorToken operator offset \<and> ASSIGNMENT_BINARY operator \<noteq> None")
    case True
    then obtain operator offset where o: "peek_token p (i, k) = OperatorToken operator offset" "ASSIGNMENT_BINARY operator \<noteq> None"
      by blast
    with r obtain x v j m where "l = VariableNode x" "self (Suc depth) AssignmentRule (Suc i, k) = Inr (v, (j, m))"
      "m < ap_maximumNodes p" "n = AssignmentNode operator x v" "st' = (j, Suc m)"
      by (cases l) (auto simp: succeeded)
    with l o show ?thesis by (auto intro: run_assign token_operator dest!: followedD [OF _ assms(1)])
  next
    case False
    with r have "n = l" "st' = (i, k)" by (auto simp: parsed_Inr split: ArithmeticToken.splits)
    with l show ?thesis by (auto intro: run_value)
  qed
qed

lemma conditional_runs:
  "followed p self \<Longrightarrow> parse_conditional p self depth st = Inr (n, st') \<Longrightarrow> parses p ConditionalRule st n st'"
  by (auto simp: parse_conditional_def succeeded simp del: One_nat_def split: if_splits
    intro: run_plain run_choice dest!: followedD)

lemma binary_rest_runs:
  assumes "followed p self" "parse_binary_rest p self depth minimum a (i, k) = Inr (n, st')"
  shows "parses p (BinaryRest minimum a) (i, k) n st'"
proof (cases "binds p (i, k) minimum")
  case True
  then obtain operator offset q where o: "peek_token p (i, k) = OperatorToken operator offset"
    "BINARY_PRECEDENCE operator = Some q" "minimum \<le> q"
    by (auto simp: binds_def operator_at_def)
  with assms(2) obtain b j m where
    "self (Suc depth) (BinaryRule (right_minimum operator q)) (Suc i, k) = Inr (b, (j, m))" "m < ap_maximumNodes p"
    "self depth (BinaryRest minimum (BinaryNode operator a b)) (j, Suc m) = Inr (n, st')"
    by (auto simp: parse_binary_rest_def succeeded right_minimum_def split: if_splits)
  with o show ?thesis by (auto intro: run_operator token_operator dest!: followedD [OF _ assms(1)])
next
  case False
  with assms(2) have "n = a" "st' = (i, k)"
    by (auto simp: parse_binary_rest_def succeeded binds_def operator_at_def split: if_splits ArithmeticToken.splits option.splits)
  with False show ?thesis by (auto intro: run_stop)
qed

lemma binary_runs:
  "followed p self \<Longrightarrow> parse_binary p self depth minimum st = Inr (n, st') \<Longrightarrow> parses p (BinaryRule minimum) st n st'"
  by (auto simp: parse_binary_def succeeded intro: run_binary dest!: followedD)

lemma unary_runs:
  assumes "followed p self" "parse_unary p self depth (i, k) = Inr (n, st')"
  shows "parses p UnaryRule (i, k) n st'"
proof (cases "peek_token p (i, k)")
  case (OperatorToken operator offset)
  consider "operator = Increment \<or> operator = Decrement" | "operator \<in> {Plus, Minus, Bang, Tilde}"
    | "\<not> (operator = Increment \<or> operator = Decrement)" "operator \<notin> {Plus, Minus, Bang, Tilde}" by blast
  then show ?thesis
  proof cases
    case 1
    with assms(2) OperatorToken show ?thesis
      by (cases "peek_token p (Suc i, k)") (auto simp: parse_unary_def succeeded intro!: run_update token_operator)
  next
    case 2
    with assms OperatorToken show ?thesis
      by (auto simp: parse_unary_def succeeded intro!: run_unary token_operator dest!: followedD [OF _ assms(1)])
  next
    case 3
    with assms OperatorToken show ?thesis
      by (auto simp: parse_unary_def succeeded intro!: run_postfix dest!: followedD [OF _ assms(1)])
  qed
qed (use assms in \<open>auto simp: parse_unary_def succeeded intro!: run_postfix dest!: followedD [OF _ assms(1)]\<close>)

lemma postfix_runs:
  assumes "followed p self" "parse_postfix p self depth st = Inr (n, st')"
  shows "parses p PostfixRule st n st'"
proof -
  obtain l i k where l: "self depth PrimaryRule st = Inr (l, (i, k))"
    using assms(2) by (auto simp: parse_postfix_def parse_then_Inr)
  note run = followedD [OF l assms(1)]
  show ?thesis
  proof (cases "\<exists>operator offset. peek_token p (i, k) = OperatorToken operator offset \<and> (operator = Increment \<or> operator = Decrement)")
    case True
    with assms(2) l run show ?thesis
      by (cases l) (auto simp: parse_postfix_def succeeded intro!: run_bump token_operator)
  next
    case False
    with assms(2) l have "n = l" "st' = (i, k)"
      by (auto simp: parse_postfix_def succeeded split: ArithmeticToken.splits if_splits)
    with run show ?thesis by (auto intro: run_primary)
  qed
qed

lemma primary_runs:
  assumes "followed p self" "parse_primary p self depth (i, k) = Inr (n, st')"
  shows "parses p PrimaryRule (i, k) n st'"
  using assms by (cases "peek_token p (i, k)")
    (auto simp: parse_primary_def succeeded split: if_splits
      intro: run_integer run_name run_paren token_operator dest!: followedD)

lemma parse_rule_runs: "followed p (parse_rule p fuel)"
proof (induction fuel)
  case (Suc fuel)
  show ?case unfolding followed_def
  proof (intro allI impI)
    fix depth rule' st n st'
    assume r: "parse_rule p (Suc fuel) depth rule' st = Inr (n, st')"
    obtain i k where st: "st = (i, k)" by fastforce
    show "parses p rule' st n st'"
      using r unfolding st
      by (cases rule') (simp_all add: comma_runs [OF Suc] comma_rest_runs [OF Suc] assignment_runs [OF Suc]
        conditional_runs [OF Suc] binary_rest_runs [OF Suc] binary_runs [OF Suc] unary_runs [OF Suc]
        postfix_runs [OF Suc] primary_runs [OF Suc])
  qed
qed (simp add: followed_def)

section \<open>Progress and size\<close>

lemma operator_inside: "operator_at p (i, k) operator \<Longrightarrow> i < length (ap_tokens p)"
  by (auto simp: operator_at_def peek_token_def split: if_splits)

lemma token_inside: "peek_token p (i, k) = IntegerToken v offset \<Longrightarrow> i < length (ap_tokens p)"
  "peek_token p (i, k) = IdentifierToken x offset \<Longrightarrow> i < length (ap_tokens p)"
  by (auto simp: peek_token_def split: if_splits)

fun is_rest :: "parse_rule_name \<Rightarrow> bool" where
  "is_rest (CommaRest _) = True"
| "is_rest (BinaryRest _ _) = True"
| "is_rest _ = False"

fun carried :: "parse_rule_name \<Rightarrow> nat" where
  "carried (CommaRest es) = sum_list (map node_size es)"
| "carried (BinaryRest _ a) = node_size a"
| "carried _ = 0"

lemma runs_advance:
  "parses p rule' st n st' \<Longrightarrow> fst st \<le> fst st' \<and> (is_rest rule' \<or> fst st < fst st') \<and>
     (fst st \<le> length (ap_tokens p) \<longrightarrow> fst st' \<le> length (ap_tokens p))"
  by (induction rule: parses.induct) (auto dest: operator_inside token_inside)

lemma runs_size:
  "parses p rule' st n st' \<Longrightarrow> node_size n + snd st \<le> snd st' + carried rule' \<and>
     (snd st \<le> ap_maximumNodes p \<longrightarrow> snd st' \<le> ap_maximumNodes p)"
  by (induction rule: parses.induct) auto

section \<open>The grammar\<close>

datatype arithmetic_symbol = Expression | Assignment | Conditional | Level nat | Unary | Postfix | Primary

inductive derives :: "arithmetic_symbol \<Rightarrow> ArithmeticToken list \<Rightarrow> ArithmeticNode \<Rightarrow> bool"
and listed :: "ArithmeticToken list \<Rightarrow> ArithmeticNode list \<Rightarrow> bool" where
  one: "derives Assignment ts n \<Longrightarrow> derives Expression ts n"
| several: "listed ts es \<Longrightarrow> 2 \<le> length es \<Longrightarrow> derives Expression ts (CommaNode es)"
| listed_one: "derives Assignment ts n \<Longrightarrow> listed ts [n]"
| listed_more: "listed ts es \<Longrightarrow> derives Assignment us n \<Longrightarrow> listed (ts @ OperatorToken Comma offset # us) (es @ [n])"
| value_of: "derives Conditional ts n \<Longrightarrow> derives Assignment ts n"
| assign: "derives Conditional ts (VariableNode x) \<Longrightarrow> ASSIGNMENT_BINARY operator \<noteq> None \<Longrightarrow> derives Assignment us n \<Longrightarrow>
    derives Assignment (ts @ OperatorToken operator offset # us) (AssignmentNode operator x n)"
| plain: "derives (Level 1) ts n \<Longrightarrow> derives Conditional ts n"
| choice: "derives (Level 1) ts c \<Longrightarrow> derives Expression us a \<Longrightarrow> derives Assignment vs b \<Longrightarrow>
    derives Conditional (ts @ OperatorToken Question offset # us @ OperatorToken Colon offset' # vs) (ConditionalNode c a b)"
| climb: "derives (Level (Suc q)) ts n \<Longrightarrow> derives (Level q) ts n"
| operand: "derives Unary ts n \<Longrightarrow> derives (Level 12) ts n"
| to_the_left: "BINARY_PRECEDENCE operator = Some q \<Longrightarrow> operator \<noteq> Power \<Longrightarrow> derives (Level q) ts a \<Longrightarrow>
    derives (Level (Suc q)) us b \<Longrightarrow> derives (Level q) (ts @ OperatorToken operator offset # us) (BinaryNode operator a b)"
| to_the_right: "derives (Level 12) ts a \<Longrightarrow> derives (Level 11) us b \<Longrightarrow>
    derives (Level 11) (ts @ OperatorToken Power offset # us) (BinaryNode Power a b)"
| prefix_update: "operator = Increment \<or> operator = Decrement \<Longrightarrow>
    derives Unary [OperatorToken operator offset, IdentifierToken x offset'] (UpdateNode operator x True)"
| signed: "operator \<in> {Plus, Minus, Bang, Tilde} \<Longrightarrow> derives Unary ts n \<Longrightarrow>
    derives Unary (OperatorToken operator offset # ts) (UnaryNode operator n)"
| unsigned_one: "derives Postfix ts n \<Longrightarrow> derives Unary ts n"
| bare: "derives Primary ts n \<Longrightarrow> derives Postfix ts n"
| postfix_update: "derives Primary ts (VariableNode x) \<Longrightarrow> operator = Increment \<or> operator = Decrement \<Longrightarrow>
    derives Postfix (ts @ [OperatorToken operator offset]) (UpdateNode operator x False)"
| integer: "derives Primary [IntegerToken v offset] (IntegerNode v)"
| named: "derives Primary [IdentifierToken x offset] (VariableNode x)"
| enclosed: "derives Expression ts n \<Longrightarrow>
    derives Primary (OperatorToken OpenParen offset # ts @ [OperatorToken CloseParen offset']) n"

inductive_cases listed_single: "listed ts [n]"

lemma listed_nonempty: "listed ts es \<Longrightarrow> es \<noteq> []"
  by (erule listed.cases) simp_all

lemma listed_singleD: "listed ts [n] \<Longrightarrow> derives Assignment ts n"
  by (erule listed_single) (auto dest: listed_nonempty)

lemma climb_to: "derives (Level e) ts n \<Longrightarrow> q \<le> e \<Longrightarrow> derives (Level q) ts n"
proof (induction e)
  case (Suc e)
  then show ?case by (cases "q = Suc e") (simp_all add: climb)
qed simp

lemma precedence_range: "BINARY_PRECEDENCE operator = Some q \<Longrightarrow> 1 \<le> q \<and> q \<le> 11 \<and> (q = 11 \<longleftrightarrow> operator = Power)"
  by (cases operator) simp_all

definition segment :: "ArithmeticParser \<Rightarrow> nat \<Rightarrow> nat \<Rightarrow> ArithmeticToken list" where
  "segment p i j = take (j - i) (drop i (ap_tokens p))"

lemma segment_empty [simp]: "segment p i i = []"
  by (simp add: segment_def)

lemma segment_append: "i \<le> j \<Longrightarrow> j \<le> h \<Longrightarrow> segment p i j @ segment p j h = segment p i h"
  using take_add [of "j - i" "h - j" "drop i (ap_tokens p)"] by (simp add: segment_def add.commute)

lemma segment_Cons: "i < j \<Longrightarrow> i < length (ap_tokens p) \<Longrightarrow> segment p i j = ap_tokens p ! i # segment p (Suc i) j"
  by (simp add: segment_def Cons_nth_drop_Suc [symmetric] take_Cons' diff_Suc split: nat.split)

lemma segment_peek:
  "i < j \<Longrightarrow> i < length (ap_tokens p) \<Longrightarrow> segment p i j = peek_token p (i, k) # segment p (Suc i) j"
  by (subst segment_Cons) (simp_all add: peek_token_def)

lemma segment_operator:
  assumes "operator_at p (i, k) operator" "i < j"
  shows "\<exists>offset. segment p i j = OperatorToken operator offset # segment p (Suc i) j"
proof -
  obtain offset where "peek_token p (i, k) = OperatorToken operator offset"
    using assms(1) by (auto simp: operator_at_def)
  with segment_peek [OF assms(2) operator_inside [OF assms(1)], of k] show ?thesis by auto
qed

lemma segment_token:
  "peek_token p (i, k) = IntegerToken v offset \<Longrightarrow> segment p i (Suc i) = [IntegerToken v offset]"
  "peek_token p (i, k) = IdentifierToken x offset \<Longrightarrow> segment p i (Suc i) = [IdentifierToken x offset]"
  using segment_peek [of i "Suc i" p k, OF lessI] token_inside [of p i k] by fastforce+

text \<open>What each rule of the parser has read, as a derivation.\<close>

definition left_operand :: "ArithmeticParser \<Rightarrow> parse_state \<Rightarrow> nat \<Rightarrow> ArithmeticToken list \<Rightarrow> ArithmeticNode \<Rightarrow> bool" where
  "left_operand p st minimum ts a \<longleftrightarrow> (\<exists>e. minimum \<le> e \<and> e \<le> 12 \<and> derives (Level e) ts a \<and>
     \<not> binds p st (Suc e) \<and> (e = 11 \<longrightarrow> \<not> binds p st 11))"

fun described :: "ArithmeticParser \<Rightarrow> parse_rule_name \<Rightarrow> parse_state \<Rightarrow> ArithmeticNode \<Rightarrow> parse_state \<Rightarrow> bool" where
  "described p CommaRule st n st' = derives Expression (segment p (fst st) (fst st')) n"
| "described p (CommaRest es) st n st' = (\<forall>ts. listed ts es \<longrightarrow> derives Expression (ts @ segment p (fst st) (fst st')) n)"
| "described p AssignmentRule st n st' = derives Assignment (segment p (fst st) (fst st')) n"
| "described p ConditionalRule st n st' = derives Conditional (segment p (fst st) (fst st')) n"
| "described p (BinaryRule minimum) st n st' =
     (minimum \<le> 12 \<longrightarrow> derives (Level minimum) (segment p (fst st) (fst st')) n \<and> \<not> binds p st' minimum)"
| "described p (BinaryRest minimum a) st n st' =
     (\<forall>ts. left_operand p st minimum ts a \<longrightarrow>
       derives (Level minimum) (ts @ segment p (fst st) (fst st')) n \<and> \<not> binds p st' minimum)"
| "described p UnaryRule st n st' = derives Unary (segment p (fst st) (fst st')) n"
| "described p PostfixRule st n st' = derives Postfix (segment p (fst st) (fst st')) n"
| "described p PrimaryRule st n st' = derives Primary (segment p (fst st) (fst st')) n"

lemma binds_node: "binds p (i, k) q = binds p (i, m) q"
  by (simp add: binds_def operator_at_def peek_token_def)

lemma binds_less: "binds p st q \<Longrightarrow> e \<le> q \<Longrightarrow> binds p st e"
  unfolding binds_def by (meson order_trans)

lemma binds_beyond: "\<not> binds p st (Suc 12)"
  using precedence_range by (fastforce simp: binds_def)

lemma segment_runs:
  "parses p rule1 st a st1 \<Longrightarrow> parses p rule2 st1 b st2 \<Longrightarrow>
     segment p (fst st) (fst st2) = segment p (fst st) (fst st1) @ segment p (fst st1) (fst st2)"
  using segment_append [of "fst st" "fst st1" "fst st2" p] runs_advance by auto

lemma segment_after:
  assumes "operator_at p (i, k) operator" "parses p rule' (Suc i, k) a st1"
  obtains offset where "segment p i (fst st1) = OperatorToken operator offset # segment p (Suc i) (fst st1)"
  using segment_operator [OF assms(1), of "fst st1"] runs_advance [OF assms(2)] by auto

lemma segment_through:
  assumes "parses p rule1 st a (i, k)" "operator_at p (i, k) operator" "parses p rule2 (Suc i, k) b st2"
  obtains offset where
    "segment p (fst st) (fst st2) = segment p (fst st) i @ OperatorToken operator offset # segment p (Suc i) (fst st2)"
proof -
  obtain offset where o: "segment p i (fst st2) = OperatorToken operator offset # segment p (Suc i) (fst st2)"
    using segment_after [OF assms(2,3)] .
  have "fst st \<le> i" "i \<le> fst st2" using runs_advance [OF assms(1)] runs_advance [OF assms(3)] by auto
  from segment_append [OF this, of p] o show ?thesis by (intro that [of offset]) simp
qed

lemma segment_last:
  assumes "parses p rule1 st a (i, k)" "operator_at p (i, k) operator"
  obtains offset where "segment p (fst st) (Suc i) = segment p (fst st) i @ [OperatorToken operator offset]"
proof -
  have "fst st \<le> i" "i \<le> Suc i" using runs_advance [OF assms(1)] by auto
  moreover obtain offset where "segment p i (Suc i) = [OperatorToken operator offset]"
    using segment_operator [OF assms(2), of "Suc i"] by auto
  ultimately show ?thesis using segment_append [of "fst st" i "Suc i" p] by (intro that [of offset]) simp
qed

lemma extends_left:
  assumes "left_operand p (i, k) minimum ts a" "operator_at p (i, k) operator" "BINARY_PRECEDENCE operator = Some q"
    and b: "derives (Level (right_minimum operator q)) us b" "\<not> binds p (j, m) (right_minimum operator q)" and "minimum \<le> q"
  shows "left_operand p (j, h) minimum (ts @ OperatorToken operator offset # us) (BinaryNode operator a b)"
proof -
  obtain e where e: "minimum \<le> e" "e \<le> 12" "derives (Level e) ts a" "\<not> binds p (i, k) (Suc e)"
    "e = 11 \<longrightarrow> \<not> binds p (i, k) 11"
    using assms(1) by (auto simp: left_operand_def)
  have at: "binds p (i, k) q" using assms(2,3) by (auto simp: binds_def)
  have q: "q \<le> e" using e(4) at binds_less [of p "(i, k)" q "Suc e"] by (cases "q \<le> e") auto
  note range = precedence_range [OF assms(3)]
  show ?thesis
  proof (cases "operator = Power")
    case True
    then have "q = 11" using range by blast
    then have "e = 12" using e(2,5) q at by (cases "e = 11") auto
    with e(3) b True \<open>q = 11\<close> \<open>minimum \<le> q\<close> binds_node [of p j m 11 h] binds_less [of p "(j, h)" "Suc 11" 11] show ?thesis
      unfolding left_operand_def by (intro exI [of _ 11]) (auto simp: right_minimum_def intro: to_the_right)
  next
    case False
    then have "q < 11" using range by auto
    with climb_to [OF e(3) q] b False \<open>minimum \<le> q\<close> assms(3) binds_node [of p j m "Suc q" h] show ?thesis
      unfolding left_operand_def by (intro exI [of _ q]) (auto simp: right_minimum_def intro: to_the_left)
  qed
qed

theorem runs_described: "parses p rule' st n st' \<Longrightarrow> described p rule' st n st'"
proof (induction rule: parses.induct)
  case (run_comma st a st1 n st2)
  then show ?case by (simp add: segment_runs listed_one)
next
  case (run_more i k a st1 es n st2)
  obtain offset where o: "segment p i (fst st1) = OperatorToken Comma offset # segment p (Suc i) (fst st1)"
    using segment_after [OF run_more(1,2)] .
  have "segment p i (fst st2) = segment p i (fst st1) @ segment p (fst st1) (fst st2)"
    using runs_advance [OF run_more(2)] runs_advance [OF run_more(3)] by (simp add: segment_append)
  moreover have "listed ts es \<Longrightarrow> listed (ts @ segment p i (fst st1)) (es @ [a])" for ts
    using run_more(4) o by (simp add: listed_more)
  ultimately show ?case using run_more(5) by (metis append_assoc described.simps(2) fst_conv)
next
  case (run_list es k i)
  have "listed ts es \<Longrightarrow> 2 \<le> length es" for ts
    using listed_nonempty [of ts es] run_list(1) by (cases es; cases "tl es") auto
  then show ?case by (simp add: several)
next
  case (run_assign st x i k operator n j m)
  obtain offset where "segment p (fst st) (fst (j, m)) = segment p (fst st) i @ OperatorToken operator offset # segment p (Suc i) (fst (j, m))"
    using segment_through [OF run_assign(1,2,4)] .
  with run_assign show ?case by (simp add: assign)
next
  case (run_choice st c i k a j m b h l)
  obtain o1 where o1: "segment p (fst st) (fst (j, m)) = segment p (fst st) i @ OperatorToken Question o1 # segment p (Suc i) (fst (j, m))"
    using segment_through [OF run_choice(1,2,3)] .
  obtain o2 where o2: "segment p (fst (Suc i, k)) (fst (h, l)) = segment p (Suc i) j @ OperatorToken Colon o2 # segment p (Suc j) (fst (h, l))"
    using segment_through [OF run_choice(3,4,5)] by auto
  have "i < j" "j < h" "fst st \<le> i"
    using runs_advance [OF run_choice(1)] runs_advance [OF run_choice(3)] runs_advance [OF run_choice(5)] by auto
  then have "segment p (fst st) h = segment p (fst st) i @ OperatorToken Question o1 # segment p (Suc i) j @
    OperatorToken Colon o2 # segment p (Suc j) h"
    using segment_append [of "fst st" j h p] segment_append [of "Suc i" j h p] o1 o2 by simp
  with run_choice show ?case by (simp add: choice)
next
  case (run_binary st a st1 minimum n st2)
  have "left_operand p st1 minimum (segment p (fst st) (fst st1)) a" if "minimum \<le> 12"
    unfolding left_operand_def using run_binary that binds_beyond by (intro exI [of _ 12]) (auto intro: operand)
  with run_binary show ?case by (auto simp: segment_runs)
next
  case (run_stop st minimum a)
  then show ?case by (auto simp: left_operand_def intro: climb_to)
next
  case (run_operator i k operator q minimum b j m a n st2)
  obtain offset where o: "segment p i j = OperatorToken operator offset # segment p (Suc i) j"
    using segment_after [OF run_operator(1,4)] by auto
  have "i \<le> j" "j \<le> fst st2" using runs_advance [OF run_operator(4)] runs_advance [OF run_operator(6)] by auto
  then have s: "segment p i (fst st2) = OperatorToken operator offset # segment p (Suc i) j @ segment p j (fst st2)"
    using segment_append [of i j "fst st2" p] o by simp
  have "right_minimum operator q \<le> 12" using precedence_range [OF run_operator(2)] by (auto simp: right_minimum_def)
  with run_operator(7) have b: "derives (Level (right_minimum operator q)) (segment p (Suc i) j) b"
    "\<not> binds p (j, m) (right_minimum operator q)" by auto
  show ?case
  proof (simp add: s, intro allI impI)
    fix ts
    assume "left_operand p (i, k) minimum ts a"
    from run_operator(8) [unfolded described.simps, rule_format, OF extends_left [OF this run_operator(1,2) b run_operator(3)], of offset]
    have "derives (Level minimum) ((ts @ OperatorToken operator offset # segment p (Suc i) j) @ segment p j (fst st2)) n
      \<and> \<not> binds p st2 minimum" by (simp del: append_assoc)
    then show "derives (Level minimum) (ts @ OperatorToken operator offset # segment p (Suc i) j @ segment p j (fst st2)) n
      \<and> \<not> binds p st2 minimum" by simp
  qed
next
  case (run_update i k operator x offset)
  obtain o1 where "segment p i (Suc (Suc i)) = OperatorToken operator o1 # segment p (Suc i) (Suc (Suc i))"
    using segment_operator [OF run_update(1), of "Suc (Suc i)"] by auto
  with run_update segment_token(2) [OF run_update(3)] show ?case by (auto intro: prefix_update)
next
  case (run_unary i k operator n j m)
  obtain offset where "segment p i j = OperatorToken operator offset # segment p (Suc i) j"
    using segment_after [OF run_unary(1,3)] by auto
  with run_unary show ?case by (simp add: signed)
next
  case (run_bump st x i k operator)
  obtain offset where "segment p (fst st) (Suc i) = segment p (fst st) i @ [OperatorToken operator offset]"
    using segment_last [OF run_bump(1,2)] .
  with run_bump show ?case by (simp add: postfix_update)
next
  case (run_paren i k n j m)
  obtain o1 where o1: "segment p i j = OperatorToken OpenParen o1 # segment p (Suc i) j"
    using segment_after [OF run_paren(1,2)] by auto
  obtain o2 where o2: "segment p (Suc i) (Suc j) = segment p (Suc i) j @ [OperatorToken CloseParen o2]"
    using segment_last [OF run_paren(2,3)] by auto
  have "i < j" using runs_advance [OF run_paren(2)] by auto
  then have "segment p i (Suc j) = OperatorToken OpenParen o1 # segment p (Suc i) j @ [OperatorToken CloseParen o2]"
    using o1 o2 segment_append [of i j "Suc j" p] segment_append [of "Suc i" j "Suc j" p] by simp
  with run_paren show ?case by (simp add: enclosed)
next
  case (run_value st n st1)
  then show ?case by (simp add: value_of)
next
  case (run_plain st n st1)
  then show ?case by (simp add: plain)
next
  case (run_postfix st n st1)
  then show ?case by (simp add: unsigned_one)
next
  case (run_primary st n st1)
  then show ?case by (simp add: bare)
next
  case (run_integer i k v offset)
  then show ?case by (simp add: segment_token integer)
next
  case (run_name i k x offset)
  then show ?case by (simp add: segment_token named)
next
  case (run_alone a st)
  then show ?case by (simp add: one listed_singleD)
qed

section \<open>Depth\<close>

fun node_depth :: "ArithmeticNode \<Rightarrow> nat" where
  "node_depth (UnaryNode _ operand) = Suc (node_depth operand)"
| "node_depth (BinaryNode _ left right) = Suc (max (node_depth left) (node_depth right))"
| "node_depth (ConditionalNode condition consequent alternate) =
     Suc (max (node_depth condition) (max (node_depth consequent) (node_depth alternate)))"
| "node_depth (AssignmentNode _ _ value') = Suc (node_depth value')"
| "node_depth (CommaNode expressions) = Suc (foldr max (map node_depth expressions) 0)"
| "node_depth _ = 1"

lemma foldr_max_le: "foldr max xs 0 \<le> (d :: nat) \<longleftrightarrow> (\<forall>x \<in> set xs. x \<le> d)"
  by (induction xs) auto

lemma node_depth_le: "node_depth n \<le> Suc d \<longleftrightarrow> (\<forall>c \<in> set (children n). node_depth c \<le> d)"
  by (cases n) (auto simp: children_def foldr_max_le)

lemma node_depth_positive: "0 < node_depth n"
  by (cases n) simp_all

lemma validate_from_bound:
  "validate_from D pending =
     (if \<forall>(n, d) \<in> set pending. d + node_depth n \<le> Suc D then Inr () else fails_with E2BIG)"
proof (induction D pending rule: validate_from.induct)
  case (2 D n d pending)
  show ?case
  proof (cases "d > D")
    case True
    then show ?thesis using node_depth_positive [of n] by simp
  next
    case False
    have "(d + node_depth n \<le> Suc D) = (\<forall>c \<in> set (children n). Suc d + node_depth c \<le> Suc D)"
      using node_depth_le [of n "D - d"] False by (auto simp: Suc_diff_le le_diff_conv2)
    with False 2 show ?thesis by (simp add: ball_Un)
  qed
qed simp

lemma validateArithmeticDepth_bound:
  "validateArithmeticDepth n D = (if node_depth n \<le> D then Inr () else fails_with E2BIG)"
  by (simp add: validateArithmeticDepth_def validate_from_bound)

section \<open>Errors and fuel\<close>

definition parse_refusal :: "arithmetic_error \<Rightarrow> bool" where
  "parse_refusal e \<longleftrightarrow> (\<exists>offset. e = ArithmeticSyntaxError offset) \<or> e = ArithmeticFailure (VfsError E2BIG None)"

definition settled :: "'a arithmetic \<Rightarrow> bool" where
  "settled r \<longleftrightarrow> (\<forall>e. r = Inl e \<longrightarrow> parse_refusal e)"

lemma settled_basic [simp]:
  "settled (Inr x)" "settled (parsed y st)" "settled (peek p st)" "settled (take_token p st)" "settled (takeOperator p v st)"
  "settled (parse_syntax p offset st)" "settled (add_node p n st)" "settled (arithmeticSyntax source offset)"
  "settled (fails_with E2BIG)"
  by (simp_all add: settled_def parsed_def peek_def take_token_def takeOperator_def parse_syntax_def arithmeticSyntax_def
      add_node_def fails_with_def parse_refusal_def split: ArithmeticToken.splits)

lemma settled_andthen: "settled m \<Longrightarrow> (\<And>x. m = Inr x \<Longrightarrow> settled (f x)) \<Longrightarrow> settled (andthen m f)"
  by (cases m) (simp_all add: settled_def)

lemma settled_then:
  "settled (m st) \<Longrightarrow> (\<And>y i k. m st = Inr (y, (i, k)) \<Longrightarrow> settled (f y (i, k))) \<Longrightarrow> settled (parse_then m f st)"
  unfolding parse_then_def by (rule settled_andthen) auto

fun needs :: "parse_rule_name \<Rightarrow> nat \<Rightarrow> nat" where
  "needs CommaRule r = 8 * r + 7"
| "needs (CommaRest _) r = 8 * r + 1"
| "needs AssignmentRule r = 8 * r + 6"
| "needs ConditionalRule r = 8 * r + 5"
| "needs (BinaryRule _) r = 8 * r + 4"
| "needs (BinaryRest _ _) r = 8 * r + 1"
| "needs UnaryRule r = 8 * r + 3"
| "needs PostfixRule r = 8 * r + 2"
| "needs PrimaryRule r = 8 * r + 1"

definition enough :: "ArithmeticParser \<Rightarrow> nat \<Rightarrow> parse_self \<Rightarrow> bool" where
  "enough p fuel self \<longleftrightarrow> followed p self \<and>
     (\<forall>depth rule' i k. i \<le> length (ap_tokens p) \<longrightarrow> needs rule' (length (ap_tokens p) - i) \<le> fuel \<longrightarrow>
       settled (self depth rule' (i, k)))"

text \<open>The fuel left when the parser has come from token \<open>i\<close> to a later one.\<close>

definition later :: "ArithmeticParser \<Rightarrow> nat \<Rightarrow> nat \<Rightarrow> bool" where
  "later p i j \<longleftrightarrow> j \<le> length (ap_tokens p) \<and> 8 * (length (ap_tokens p) - j) + 8 \<le> 8 * (length (ap_tokens p) - i)"

lemma laterI: "i < j \<Longrightarrow> j \<le> length (ap_tokens p) \<Longrightarrow> later p i j"
  by (simp add: later_def)

lemma later_operator: "operator_at p (i, k) operator \<Longrightarrow> later p i (Suc i)"
  by (rule laterI) (simp_all add: Suc_leI operator_inside)

lemma later_trans: "later p i j \<Longrightarrow> later p j h \<Longrightarrow> later p i h"
  by (simp add: later_def)

lemma enough_settled:
  "enough p fuel self \<Longrightarrow> i \<le> length (ap_tokens p) \<Longrightarrow> needs rule' (length (ap_tokens p) - i) \<le> fuel \<Longrightarrow>
     settled (self depth rule' (i, k))"
  by (simp add: enough_def)

lemma needs_bound: "needs rule' r \<le> 8 * r + 7"
  by (cases rule') simp_all

lemma settled_later:
  assumes "enough p fuel self" "later p i j" "8 * (length (ap_tokens p) - i) \<le> fuel + 1"
  shows "settled (self depth rule' (j, k))" "settled (nested p self depth rule' (j, k))"
proof -
  have "j \<le> length (ap_tokens p)" "needs rule' (length (ap_tokens p) - j) \<le> fuel"
    using assms(2,3) needs_bound [of rule' "length (ap_tokens p) - j"] by (simp_all add: later_def)
  with assms(1) show "settled (self depth rule' (j, k))" "settled (nested p self depth rule' (j, k))"
    by (simp_all add: nested_def enough_def)
qed

lemma enough_later:
  assumes "self depth rule' (i, k) = Inr (n, (j, m))" "enough p fuel self" "\<not> is_rest rule'" "i \<le> length (ap_tokens p)"
  shows "later p i j"
proof -
  have "parses p rule' (i, k) n (j, m)" using assms(1,2) by (auto simp: enough_def followed_def)
  from runs_advance [OF this] assms(3,4) show ?thesis by (intro laterI) auto
qed

lemma nested_later:
  assumes "nested p self depth rule' (i, k) = Inr (n, (j, m))" "enough p fuel self" "\<not> is_rest rule'" "i \<le> length (ap_tokens p)"
  shows "later p i j"
  using assms enough_later by (auto simp: nested_Inr)

lemma later_inside: "later p i j \<Longrightarrow> j \<le> length (ap_tokens p)"
  by (simp add: later_def)

lemma comma_settled:
  assumes "enough p fuel self" "8 * (length (ap_tokens p) - i) + 7 \<le> Suc fuel" "i \<le> length (ap_tokens p)"
  shows "settled (parse_comma p self depth (i, k))"
  unfolding parse_comma_def
proof (intro settled_then, goal_cases)
  case 1
  show ?case using assms by (intro enough_settled) (simp_all, linarith)
next
  case (2 y j m)
  from enough_later [OF this assms(1) _ assms(3)] assms(2) show ?case by (intro settled_later [OF assms(1)]) (simp_all, linarith?)
qed

lemma comma_rest_settled:
  assumes "enough p fuel self" "8 * (length (ap_tokens p) - i) + 1 \<le> Suc fuel" "i \<le> length (ap_tokens p)"
  shows "settled (parse_comma_rest p self depth es (i, k))"
proof (cases "operator_at p (i, k) Comma")
  case True
  note l = later_operator [OF True]
  have "settled (self depth AssignmentRule (Suc i, k))" using assms(2) by (intro settled_later [OF assms(1) l]) linarith
  moreover have "settled (self depth (CommaRest es') (j, m))" if "self depth AssignmentRule (Suc i, k) = Inr (y, (j, m))" for y j m es'
    using later_trans [OF l enough_later [OF that assms(1) _ later_inside [OF l]]] assms(2)
    by (intro settled_later [OF assms(1)]) (simp_all, linarith?)
  ultimately show ?thesis unfolding parse_comma_rest_def
    by (intro settled_then) (auto simp: takeOperator_Inr True intro!: settled_then)
next
  case False
  then show ?thesis unfolding parse_comma_rest_def
    by (intro settled_then) (auto simp: takeOperator_Inr)
qed

lemma assignment_settled:
  assumes "enough p fuel self" "8 * (length (ap_tokens p) - i) + 6 \<le> Suc fuel" "i \<le> length (ap_tokens p)"
  shows "settled (parse_assignment p self depth (i, k))"
  unfolding parse_assignment_def
proof (intro settled_then, goal_cases)
  case 1
  show ?case using assms by (intro enough_settled) (simp_all, linarith)
next
  case (3 y j m token h l)
  note l = enough_later [OF 3(1) assms(1) _ assms(3)]
  show ?case
  proof (cases "\<exists>operator offset. token = OperatorToken operator offset")
    case True
    with 3(2) have "later p i (Suc j)"
      using later_trans [OF l later_operator] by (auto simp: peek_Inr operator_at_def)
    with 3(2) assms(2) True show ?thesis
      by (auto simp: peek_Inr take_Inr split: ArithmeticNode.split intro!: settled_then settled_later [OF assms(1)])
  qed (cases token; simp)
qed simp

lemma fuel_limit: "8 * (r :: nat) + d \<le> Suc fuel \<Longrightarrow> 8 * r \<le> fuel + 1"
  by simp

lemma conditional_settled:
  assumes "enough p fuel self" "8 * (length (ap_tokens p) - i) + 5 \<le> Suc fuel" "i \<le> length (ap_tokens p)"
  shows "settled (parse_conditional p self depth (i, k))"
  unfolding parse_conditional_def
proof (rule settled_then, goal_cases)
  case 1
  show ?case by (rule enough_settled [OF assms(1,3)]) (use assms(2) in \<open>simp_all; linarith?\<close>)
next
  case (2 c j m)
  note l = enough_later [OF 2 assms(1) _ assms(3)]
  show ?case
  proof (cases "operator_at p (j, m) Question")
    case True
    have q: "later p i (Suc j)" using later_trans [OF l later_operator [OF True]] by simp
    have colon: "later p i (Suc h)" if "nested p self depth CommaRule (Suc j, m) = Inr (y, (h, n))" "operator_at p (h, n) Colon" for y h n
      using later_trans [OF later_trans [OF q nested_later [OF that(1) assms(1)]] later_operator [OF that(2)]] later_inside [OF q] by simp
    note lim = fuel_limit [OF assms(2)]
    show ?thesis using q colon
      by (auto simp: takeOperator_Inr peek_Inr True split: if_splits intro!: settled_then settled_later [OF assms(1) _ lim])
  qed (auto simp: takeOperator_Inr intro!: settled_then)
qed

lemma binary_rest_settled:
  assumes "enough p fuel self" "8 * (length (ap_tokens p) - i) + 1 \<le> Suc fuel" "i \<le> length (ap_tokens p)"
  shows "settled (parse_binary_rest p self depth minimum a (i, k))"
proof (cases "\<exists>operator. operator_at p (i, k) operator")
  case True
  then have o: "later p i (Suc i)" using later_operator by blast
  have l: "later p i j" if "nested p self depth (BinaryRule q) (Suc i, k) = Inr (b, (j, m))" for q b j m
    using later_trans [OF o nested_later [OF that assms(1)]] later_inside [OF o] by simp
  note lim = fuel_limit [OF assms(2)]
  show ?thesis using o l unfolding parse_binary_rest_def
    by (auto simp: peek_Inr take_Inr add_node_Inr split: ArithmeticToken.split option.split
      intro!: settled_then settled_later [OF assms(1) _ lim])
next
  case False
  then show ?thesis unfolding parse_binary_rest_def
    by (auto simp: peek_Inr operator_at_def split: ArithmeticToken.split intro!: settled_then)
qed

lemma binary_settled:
  assumes "enough p fuel self" "8 * (length (ap_tokens p) - i) + 4 \<le> Suc fuel" "i \<le> length (ap_tokens p)"
  shows "settled (parse_binary p self depth minimum (i, k))"
  unfolding parse_binary_def
proof (rule settled_then, goal_cases)
  case 1
  show ?case by (rule enough_settled [OF assms(1,3)]) (use assms(2) in \<open>simp_all; linarith?\<close>)
next
  case (2 y j m)
  from enough_later [OF this assms(1) _ assms(3)] assms(2) show ?case by (intro settled_later [OF assms(1)]) (simp_all, linarith?)
qed

lemma unary_settled:
  assumes "enough p fuel self" "8 * (length (ap_tokens p) - i) + 3 \<le> Suc fuel" "i \<le> length (ap_tokens p)"
  shows "settled (parse_unary p self depth (i, k))"
proof -
  have postfix: "settled (self depth PostfixRule (i, k))"
    by (rule enough_settled [OF assms(1,3)]) (use assms(2) in \<open>simp_all; linarith?\<close>)
  have operand: "settled (nested p self depth UnaryRule (Suc i, k))" if "operator_at p (i, k) operator" for operator
    using assms(2) by (intro settled_later [OF assms(1) later_operator [OF that]]) linarith
  show ?thesis unfolding parse_unary_def
    by (rule settled_then) (auto simp: peek_Inr take_Inr postfix split: ArithmeticToken.split
      intro!: settled_then operand token_operator)
qed

lemma postfix_settled:
  assumes "enough p fuel self" "8 * (length (ap_tokens p) - i) + 2 \<le> Suc fuel" "i \<le> length (ap_tokens p)"
  shows "settled (parse_postfix p self depth (i, k))"
  unfolding parse_postfix_def
proof (rule settled_then, goal_cases)
  case 1
  show ?case by (rule enough_settled [OF assms(1,3)]) (use assms(2) in \<open>simp_all; linarith?\<close>)
next
  case (2 y j m)
  show ?case by (rule settled_then) (auto split: ArithmeticToken.split ArithmeticNode.split intro!: settled_then)
qed

lemma primary_settled:
  assumes "enough p fuel self" "8 * (length (ap_tokens p) - i) + 1 \<le> Suc fuel" "i \<le> length (ap_tokens p)"
  shows "settled (parse_primary p self depth (i, k))"
proof -
  have expression: "settled (nested p self depth CommaRule (Suc i, k))" if "peek_token p (i, k) = OperatorToken operator offset" for operator offset
    using assms(2) by (intro settled_later [OF assms(1) later_operator [OF token_operator [OF that]]]) linarith
  show ?thesis unfolding parse_primary_def
    by (rule settled_then) (auto simp: take_Inr split: ArithmeticToken.split intro!: settled_then expression)
qed

lemma parse_rule_enough: "enough p fuel (parse_rule p fuel)"
proof (induction fuel)
  case 0
  have "\<not> needs rule' r \<le> 0" for rule' r by (cases rule') simp_all
  then show ?case unfolding enough_def followed_def by (metis Inl_Inr_False parse_rule.simps(1))
next
  case (Suc fuel)
  have "settled (parse_rule p (Suc fuel) depth rule' (i, k))"
    if "i \<le> length (ap_tokens p)" "needs rule' (length (ap_tokens p) - i) \<le> Suc fuel" for depth rule' i k
    using that
    by (cases rule') (simp_all only: parse_rule.simps parse_rule_name.case needs.simps
      comma_settled [OF Suc] comma_rest_settled [OF Suc] assignment_settled [OF Suc] conditional_settled [OF Suc]
      binary_settled [OF Suc] binary_rest_settled [OF Suc] unary_settled [OF Suc] postfix_settled [OF Suc] primary_settled [OF Suc])
  then show ?case using parse_rule_runs by (simp add: enough_def del: parse_rule.simps)
qed

section \<open>Tokens\<close>

definition is_end :: "ArithmeticToken \<Rightarrow> bool" where
  "is_end token \<longleftrightarrow> (\<exists>offset. token = EndToken offset)"

lemma integerToken_open: "integerToken source start = Inr (token, next) \<Longrightarrow> \<not> is_end token"
  by (auto simp: integerToken_def Let_def arithmeticSyntax_def is_end_def split: if_splits option.splits)

lemma variableToken_open: "variableToken source start = Inr (token, next) \<Longrightarrow> \<not> is_end token"
  by (auto simp: variableToken_def Let_def arithmeticSyntax_def is_end_def split: if_splits)

lemma integerToken_settled: "settled (integerToken source start)"
  by (simp add: integerToken_def Let_def split: option.split)

lemma variableToken_settled: "settled (variableToken source start)"
  by (simp add: variableToken_def Let_def)

lemma operator_length: "find f OPERATORS = Some (candidate, operator) \<Longrightarrow> candidate \<noteq> []"
proof -
  assume "find f OPERATORS = Some (candidate, operator)"
  then have "(candidate, operator) \<in> set OPERATORS" by (auto simp: find_Some_iff)
  moreover have "\<forall>(candidate, operator) \<in> set OPERATORS. candidate \<noteq> []" by (simp add: OPERATORS_def)
  ultimately show ?thesis by auto
qed

lemma takeWhile_here: "offset < length source \<Longrightarrow> P (source ! offset) \<Longrightarrow> takeWhile P (drop offset source) \<noteq> []"
  by (simp add: Cons_nth_drop_Suc [symmetric])

lemma integerToken_advance:
  "offset < length source \<Longrightarrow> is_digit (source ! offset) \<Longrightarrow> integerToken source offset = Inr (token, next) \<Longrightarrow> offset < next"
  using takeWhile_here [of offset source is_digit]
  by (auto simp: integerToken_def Let_def arithmeticSyntax_def split: if_splits option.splits)

lemma variableToken_advance:
  assumes "offset < length source" "is_name_start (source ! offset) \<or> source ! offset = 36" "variableToken source offset = Inr (token, next)"
  shows "offset < next"
proof (cases "source ! offset = 36")
  case True
  then have "starts_with (js ''$'') (drop offset source)"
    using assms(1) by (simp add: Cons_nth_drop_Suc [symmetric] starts_with_def js_def)
  with assms(3) show ?thesis by (auto simp: variableToken_def Let_def arithmeticSyntax_def split: if_splits)
next
  case False
  then have "name_front (drop offset source) \<noteq> []" "\<not> starts_with (js ''$'') (drop offset source)"
    using assms(1,2) takeWhile_here [of offset source is_name]
    by (simp_all add: Cons_nth_drop_Suc [symmetric] starts_with_def js_def name_front_def is_name_def)
  with assms(3) show ?thesis by (auto simp: variableToken_def Let_def)
qed

lemma tokenize_from_ends:
  "tokenize_from n source offset tokens = Inr result \<Longrightarrow>
     \<exists>ts. result = tokens @ ts @ [EndToken (length source)] \<and> (\<forall>t \<in> set ts. \<not> is_end t)"
proof (induction n source offset tokens rule: tokenize_from.induct)
  case (2 n source offset tokens)
  have step: "\<exists>ts. result = tokens @ ts @ [EndToken (length source)] \<and> (\<forall>t \<in> set ts. \<not> is_end t)"
    if "\<exists>ts. result = (tokens @ [t]) @ ts @ [EndToken (length source)] \<and> (\<forall>t \<in> set ts. \<not> is_end t)" "\<not> is_end t" for t
    using that by (metis append.assoc append_Cons append_Nil set_ConsD)
  show ?case
  proof (cases "offset \<ge> length source \<or> is_space (source ! offset)")
    case True
    with 2 show ?thesis by (auto simp: Let_def split: if_splits)
  next
    case False
    note here = this
    consider "is_digit (source ! offset)" | "\<not> is_digit (source ! offset)" "is_name_start (source ! offset) \<or> source ! offset = 36"
      | "\<not> is_digit (source ! offset)" "\<not> (is_name_start (source ! offset) \<or> source ! offset = 36)" by blast
    then show ?thesis
    proof cases
      case 1
      with here 2(5) obtain t j where t: "integerToken source offset = Inr (t, j)" "tokenize_from n source j (tokens @ [t]) = Inr result"
        by (auto simp: Let_def andthen_Inr)
      with here 1 show ?thesis by (intro step [OF _ integerToken_open [OF t(1)]] 2(2)) auto
    next
      case 22: 2
      with here 2(5) obtain t j where t: "variableToken source offset = Inr (t, j)" "tokenize_from n source j (tokens @ [t]) = Inr result"
        by (auto simp: Let_def andthen_Inr)
      with here 22 show ?thesis by (intro step [OF _ variableToken_open [OF t(1)]] 2(3)) auto
    next
      case 3
      with here 2(5) obtain c operator where t: "find (\<lambda>(candidate, _). starts_with (js candidate) (drop offset source)) OPERATORS = Some (c, operator)"
        "tokenize_from n source (offset + length c) (tokens @ [OperatorToken operator offset]) = Inr result"
        by (auto simp: Let_def arithmeticSyntax_def split: option.splits)
      with here 3 show ?thesis by (intro step [of "OperatorToken operator offset"] 2(4)) (auto simp: is_end_def)
    qed
  qed
qed simp

lemma tokenize_from_settled: "length source < offset + n \<Longrightarrow> 0 < n \<Longrightarrow> settled (tokenize_from n source offset tokens)"
proof (induction n arbitrary: offset tokens)
  case (Suc n)
  have next': "settled (tokenize_from n source j ts)" if "offset < length source" "offset < j" for j ts
    using Suc that by (intro Suc.IH) simp_all
  have number: "settled (andthen (integerToken source offset) (\<lambda>(t, j). tokenize_from n source j (tokens @ [t])))"
    if "offset < length source" "is_digit (source ! offset)"
    by (rule settled_andthen [OF integerToken_settled]) (auto intro!: next' [OF that(1)] integerToken_advance [OF that])
  have name': "settled (andthen (variableToken source offset) (\<lambda>(t, j). tokenize_from n source j (tokens @ [t])))"
    if "offset < length source" "is_name_start (source ! offset) \<or> source ! offset = 36"
    by (rule settled_andthen [OF variableToken_settled]) (auto intro!: next' [OF that(1)] variableToken_advance [OF that])
  have sign: "settled (case find f OPERATORS of None \<Rightarrow> arithmeticSyntax source offset
      | Some (c, operator) \<Rightarrow> tokenize_from n source (offset + length c) (tokens @ [OperatorToken operator offset]))" if "offset < length source" for f
    by (auto split: option.split intro!: next' [OF that] dest: operator_length)
  show ?case using number name' sign next' [of "offset + 1" tokens] by (simp add: Let_def not_le)
qed simp

lemma tokenizeArithmetic_settled: "settled (tokenizeArithmetic source)"
  unfolding tokenizeArithmetic_def by (rule tokenize_from_settled) simp_all

lemma derives_open:
  "derives symbol ts n \<Longrightarrow> \<forall>t \<in> set ts. \<not> is_end t"
  "listed ts es \<Longrightarrow> \<forall>t \<in> set ts. \<not> is_end t"
  by (induction rule: derives_listed.inducts) (auto simp: is_end_def)

lemma tokenizeArithmetic_ends:
  "tokenizeArithmetic source = Inr tokens \<Longrightarrow> \<exists>ts. tokens = ts @ [EndToken (length source)] \<and> (\<forall>t \<in> set ts. \<not> is_end t)"
  using tokenize_from_ends [of "length source + 1" source 0 "[]" tokens] by (simp only: tokenizeArithmetic_def append_Nil)

section \<open>What parsing gives\<close>

lemma parse_Inr:
  assumes "parse p = Inr r"
  obtains j m where "parses p CommaRule (0, 0) (pa_node r) (j, m)" "is_end (peek_token p (j, m))" "pa_nodeCount r = m"
    "node_depth (pa_node r) \<le> ap_maximumDepth p"
proof -
  from assms obtain n j m where run: "parse_rule p (parse_fuel (ap_tokens p)) 1 CommaRule (0, 0) = Inr (n, (j, m))"
    and rest: "(case peek_token p (j, m) of
          EndToken _ \<Rightarrow>
            andthen (validateArithmeticDepth n (ap_maximumDepth p)) (\<lambda>_. Inr \<lparr>pa_node = n, pa_nodeCount = snd (j, m)\<rparr>)
        | token \<Rightarrow> arithmeticSyntax (ap_source p) (token_offset token)) = Inr r"
    by (auto simp: parse_def fails_with_def andthen_Inr simp del: One_nat_def split: if_splits)
  then have e: "is_end (peek_token p (j, m))" and d: "node_depth n \<le> ap_maximumDepth p" and r: "r = \<lparr>pa_node = n, pa_nodeCount = m\<rparr>"
    by (cases "peek_token p (j, m)";
      auto simp: andthen_Inr fails_with_def arithmeticSyntax_def validateArithmeticDepth_bound is_end_def split: if_splits)+
  have "parses p CommaRule (0, 0) n (j, m)" using parse_rule_runs run by (rule followedD [rotated])
  with e d r show ?thesis by (intro that) simp_all
qed

lemma parse_settled: "settled (parse p)"
proof -
  have "settled (parse_rule p (parse_fuel (ap_tokens p)) 1 CommaRule (0, 0))"
    by (rule enough_settled [OF parse_rule_enough]) (simp_all add: parse_fuel_def)
  then show ?thesis
    by (auto simp: parse_def validateArithmeticDepth_bound split: ArithmeticToken.split intro!: settled_andthen)
qed

lemma end_token_reached:
  assumes "ap_tokens p = ts @ [EndToken offset]" "\<forall>t \<in> set ts. \<not> is_end t"
    "parses p CommaRule (0, 0) n (j, m)" "is_end (peek_token p (j, m))"
  shows "derives Expression ts n"
proof -
  have d: "derives Expression (segment p 0 j) n" using runs_described [OF assms(3)] by simp
  have j: "j \<le> length (ap_tokens p)" using runs_advance [OF assms(3)] by simp
  have "\<not> j < length ts" using assms(1,2,4) by (auto simp: peek_token_def nth_append)
  moreover have "\<not> j > length ts"
  proof
    assume "j > length ts"
    then have "EndToken offset \<in> set (segment p 0 j)" using assms(1) j by (simp add: segment_def)
    with derives_open(1) [OF d] show False by (auto simp: is_end_def)
  qed
  ultimately have "j = length ts" by simp
  with d assms(1) show ?thesis by (simp add: segment_def)
qed

lemma parseArithmetic_Inr:
  assumes "parseArithmetic source N D = Inr r"
  shows "\<exists>ts. tokenizeArithmetic source = Inr (ts @ [EndToken (length source)]) \<and> derives Expression ts (pa_node r)"
    "node_size (pa_node r) \<le> pa_nodeCount r" "pa_nodeCount r \<le> N" "node_depth (pa_node r) \<le> D"
proof -
  obtain tokens where t: "tokenizeArithmetic source = Inr tokens" and
    p: "parse \<lparr>ap_source = source, ap_tokens = tokens, ap_maximumNodes = N, ap_maximumDepth = D\<rparr> = Inr r"
    using assms by (auto simp: parseArithmetic_def andthen_Inr arithmeticSyntax_def split: if_splits)
  obtain ts where ts: "tokens = ts @ [EndToken (length source)]" "\<forall>t \<in> set ts. \<not> is_end t"
    using tokenizeArithmetic_ends [OF t] by blast
  obtain j m where run: "parses \<lparr>ap_source = source, ap_tokens = tokens, ap_maximumNodes = N, ap_maximumDepth = D\<rparr> CommaRule (0, 0) (pa_node r) (j, m)"
    and e: "is_end (peek_token \<lparr>ap_source = source, ap_tokens = tokens, ap_maximumNodes = N, ap_maximumDepth = D\<rparr> (j, m))"
    and m: "pa_nodeCount r = m" and d: "node_depth (pa_node r) \<le> D"
    using parse_Inr [OF p] by auto
  have "derives Expression ts (pa_node r)" by (rule end_token_reached [OF _ ts(2) run e]) (simp add: ts(1))
  with t ts(1) show "\<exists>ts. tokenizeArithmetic source = Inr (ts @ [EndToken (length source)]) \<and> derives Expression ts (pa_node r)"
    by blast
  show "node_size (pa_node r) \<le> pa_nodeCount r" "pa_nodeCount r \<le> N" using runs_size [OF run] m by simp_all
  show "node_depth (pa_node r) \<le> D" by (rule d)
qed

lemma parseArithmetic_settled: "settled (parseArithmetic source N D)"
  by (auto simp: parseArithmetic_def parse_settled tokenizeArithmetic_settled intro!: settled_andthen)

section \<open>Properties\<close>

text \<open>
  C22. The parser of shell arithmetic follows its grammar. Whatever the source, either the parser
  reports a syntax error or an exceeded limit, or the tree it returns is derived, in the stratified
  grammar of the operators' precedences (\<open>**\<close> to the right, every other binary operator to the left),
  from all of the tokens before the final end token.
\<close>

theorem parsing_follows_the_grammar:
  "case parseArithmetic source maximumNodes maximumDepth of
     Inl e \<Rightarrow> (\<exists>offset. e = ArithmeticSyntaxError offset) \<or> e = ArithmeticFailure (VfsError E2BIG None)
   | Inr r \<Rightarrow> (\<exists>ts. tokenizeArithmetic source = Inr (ts @ [EndToken (length source)]) \<and> derives Expression ts (pa_node r))"
  using parseArithmetic_settled [of source maximumNodes maximumDepth] parseArithmetic_Inr(1) [of source maximumNodes maximumDepth]
  by (auto simp: settled_def parse_refusal_def split: sum.split)

text \<open>
  C23. Parsing stays within its limits. A tree that is returned is no deeper than the maximum depth,
  and its nodes are covered by the reported count, which is within the maximum; no source makes the
  recursion run out.
\<close>

theorem parsing_stays_within_limits:
  "case parseArithmetic source maximumNodes maximumDepth of
     Inl e \<Rightarrow> e \<noteq> ArithmeticFailure RangeError
   | Inr r \<Rightarrow> node_depth (pa_node r) \<le> maximumDepth \<and> node_size (pa_node r) \<le> pa_nodeCount r \<and>
       pa_nodeCount r \<le> maximumNodes"
  using parseArithmetic_settled [of source maximumNodes maximumDepth] parseArithmetic_Inr(2-4) [of source maximumNodes maximumDepth]
  by (auto simp: settled_def parse_refusal_def split: sum.split)

end
