(* ===== verification/Shell_Evaluation.thy ===== *)
theory Shell_Evaluation
  imports Shell_Grammar
begin

text \<open>
  What the evaluator of shell arithmetic computes: 64-bit values only, the errors it documents, texts
  that read back as the values stored, and altogether the evaluation of the same tree over machine
  words, which is stated here as its specification.
\<close>

section \<open>Trees the parser returns\<close>

fun operable :: "ArithmeticNode \<Rightarrow> bool" where
  "operable (IntegerNode _) = True"
| "operable (VariableNode _) = True"
| "operable (UnaryNode _ operand) = operable operand"
| "operable (UpdateNode _ _ _) = True"
| "operable (BinaryNode operator left right) = (BINARY_PRECEDENCE operator \<noteq> None \<and> operable left \<and> operable right)"
| "operable (ConditionalNode condition consequent alternate) = (operable condition \<and> operable consequent \<and> operable alternate)"
| "operable (AssignmentNode operator _ value') = (ASSIGNMENT_BINARY operator \<noteq> None \<and> operable value')"
| "operable (CommaNode expressions) = (\<forall>e \<in> set expressions. operable e)"

lemma derives_operable: "derives symbol ts n \<Longrightarrow> operable n" "listed ts es \<Longrightarrow> \<forall>e \<in> set es. operable e"
  by (induction rule: derives_listed.inducts) auto

section \<open>Outcomes\<close>

definition restored :: "shell_env \<Rightarrow> shell_env \<Rightarrow> bool" where
  "restored env env' \<longleftrightarrow> (\<forall>x. env' x = env x \<or> (\<exists>v. in64 v \<and> env' x = Some (js_int v)))"

definition trouble :: "bool \<Rightarrow> arithmetic_error \<Rightarrow> bool" where
  "trouble nounset e \<longleftrightarrow> e = ArithmeticFailure (VfsError EINVAL None) \<or> e = ArithmeticFailure (VfsError E2BIG None) \<or>
     nounset \<and> (\<exists>x. e = ShellNounsetError x)"

definition outcome :: "bool \<Rightarrow> shell_env \<Rightarrow> int arithmetic \<times> shell_env \<Rightarrow> bool" where
  "outcome nounset env r \<longleftrightarrow> (case fst r of Inl e \<Rightarrow> trouble nounset e | Inr v \<Rightarrow> in64 v) \<and> restored env (snd r)"

lemma restored_refl [simp]: "restored env env"
  by (simp add: restored_def)

lemma restored_trans: "restored env env' \<Longrightarrow> restored env' env'' \<Longrightarrow> restored env env''"
  unfolding restored_def by metis

lemma outcome_then:
  assumes "outcome nounset env (m env)" "\<And>v env'. in64 v \<Longrightarrow> outcome nounset env' (f v env')"
  shows "outcome nounset env (eval_then m f env)"
proof (cases "m env")
  case (Pair r env')
  show ?thesis
  proof (cases r)
    case (Inr v)
    with assms(1) Pair have "in64 v" "restored env env'" by (simp_all add: outcome_def)
    with assms(2) [of v env'] Pair Inr show ?thesis
      by (auto simp: eval_then_def outcome_def intro: restored_trans)
  qed (use assms(1) Pair in \<open>simp add: eval_then_def\<close>)
qed

lemma outcome_evaluated: "in64 v \<Longrightarrow> outcome nounset env (evaluated v env)"
  by (simp add: outcome_def evaluated_def)

lemma outcome_set: "in64 v \<Longrightarrow> in64 result' \<Longrightarrow> outcome nounset env (set_value x v result' env)"
  by (auto simp: outcome_def set_value_def restored_def)

lemma outcome_read: "outcome nounset env (read_value x nounset env)"
  using readVariable_in64 [of x env nounset] readVariable_Inl [of x env nounset]
  by (auto simp: outcome_def read_value_def trouble_def split: sum.split)

lemma binary_operation_trouble:
  "BINARY_PRECEDENCE operator \<noteq> None \<Longrightarrow> binary_operation operator l r = Inl e \<Longrightarrow> trouble nounset e"
  by (cases operator) (auto simp: trouble_def power_of_def divide_def fails_with_def Let_def split: if_splits)

lemma outcome_computed:
  "BINARY_PRECEDENCE operator \<noteq> None \<Longrightarrow> outcome nounset env (computed (binary_operation operator l r) env)"
  using binary_operation_in64 [of operator l r] binary_operation_trouble [of operator l r _ nounset]
  by (auto simp: outcome_def computed_def split: sum.split)

lemma assignment_operation: "ASSIGNMENT_BINARY operator = Some (Some operation) \<Longrightarrow> BINARY_PRECEDENCE operation \<noteq> None"
  by (cases operator) auto

lemma evaluate_outcome:
  "operable n \<Longrightarrow> outcome nounset env (evaluateArithmetic n nounset env)"
  "\<forall>e \<in> set es. operable e \<Longrightarrow> in64 v \<Longrightarrow> outcome nounset env (commaValue es v nounset env)"
proof (induction n nounset and es v nounset arbitrary: env and env rule: evaluateArithmetic_commaValue.induct)
  case (5 operator left right nounset)
  have right: "outcome nounset env (evaluateArithmetic right nounset env)" for env
    using 5(2) [of 0] 5(2) [of 1] 5(3) by (cases "operator = AndAnd"; cases "operator = OrOr") auto
  from 5 show ?case
    by (auto intro!: outcome_then outcome_evaluated outcome_computed right)
next
  case (7 operator x value' nounset)
  show ?case
  proof (cases "\<exists>operation. ASSIGNMENT_BINARY operator = Some (Some operation)")
    case True
    with 7 show ?thesis by (auto intro!: outcome_then outcome_read outcome_computed outcome_set assignment_operation)
  next
    case False
    with 7 show ?thesis by (auto split: option.split intro!: outcome_then outcome_set)
  qed
qed (auto simp: updateValue_def Let_def intro!: outcome_then outcome_evaluated outcome_read outcome_computed outcome_set unaryValue_in64)

section \<open>Machine words\<close>

type_synonym machine_word = "64 word"

definition machine_env :: "shell_env \<Rightarrow> jstring \<Rightarrow> machine_word option" where
  "machine_env env x = (case env x of None \<Rightarrow> None
     | Some _ \<Rightarrow> (case readVariable x env False of Inl _ \<Rightarrow> None | Inr v \<Rightarrow> Some (word_of_int v)))"

definition machine_bool :: "bool \<Rightarrow> machine_word" where
  "machine_bool b = (if b then 1 else 0)"

unbundle bit_operations_syntax

fun machine_operation :: "ArithmeticOperator \<Rightarrow> machine_word \<Rightarrow> machine_word \<Rightarrow> machine_word arithmetic" where
  "machine_operation Plus a b = Inr (a + b)"
| "machine_operation Minus a b = Inr (a - b)"
| "machine_operation Times a b = Inr (a * b)"
| "machine_operation Divide a b = (if b = 0 then fails_with EINVAL else Inr (word_of_int (sint a sdiv sint b)))"
| "machine_operation Modulo a b = (if b = 0 then fails_with EINVAL else Inr (word_of_int (sint a smod sint b)))"
| "machine_operation ShiftLeft a b = Inr (push_bit (unat (take_bit 6 b)) a)"
| "machine_operation ShiftRight a b = Inr (signed_drop_bit (unat (take_bit 6 b)) a)"
| "machine_operation Less a b = Inr (machine_bool (a <s b))"
| "machine_operation AtMost a b = Inr (machine_bool (a \<le>s b))"
| "machine_operation Greater a b = Inr (machine_bool (b <s a))"
| "machine_operation AtLeast a b = Inr (machine_bool (b \<le>s a))"
| "machine_operation EqualTo a b = Inr (machine_bool (a = b))"
| "machine_operation NotEqual a b = Inr (machine_bool (a \<noteq> b))"
| "machine_operation BitAnd a b = Inr (a AND b)"
| "machine_operation BitXor a b = Inr (a XOR b)"
| "machine_operation BitOr a b = Inr (a OR b)"
| "machine_operation AndAnd a b = Inr (machine_bool (a \<noteq> 0 \<and> b \<noteq> 0))"
| "machine_operation OrOr a b = Inr (machine_bool (a \<noteq> 0 \<or> b \<noteq> 0))"
| "machine_operation Power a b =
     (if b <s 0 then fails_with EINVAL else if 63 <s b then fails_with E2BIG else Inr (a ^ unat b))"
| "machine_operation _ a b = Inl (ArithmeticFailure TypeError)"

lemma sint_machine_bool [simp]: "sint (machine_bool b) = (if b then 1 else 0)"
  by (simp add: machine_bool_def)

lemma in64_sint_of_int: "in64 v \<Longrightarrow> sint (word_of_int v :: machine_word) = v"
  using int64_word [of v] int64_id [of v] by simp

lemma sint_zero_iff: "sint (b :: machine_word) = 0 \<longleftrightarrow> b = 0"
  using sint_eq_iff [of b 0] by simp

lemma int64_of_word: "int64 (sint (word_of_int v :: machine_word)) = int64 v"
  by (simp add: int64_word)

lemma minus_quotient: "a - b * (a sdiv b) = a smod (b :: int)"
  using mult_sdiv_smod_eq [of b a] by linarith

lemma divide_machine:
  "andthen (divide (sint a) (sint b) False) (\<lambda>v. Inr (int64 v)) = map_sum id sint (machine_operation Divide a b)"
  "andthen (divide (sint a) (sint b) True) (\<lambda>v. Inr (int64 v)) = map_sum id sint (machine_operation Modulo a b)"
  by (simp_all only: divide_def fails_with_def Let_def sint_zero_iff minus_quotient if_True if_False
    signed_divide_int_def [symmetric]) (simp_all add: fails_with_def int64_word)

lemma power_machine: "power_of (sint a) (sint b) = map_sum id sint (machine_operation Power a b)"
proof -
  have "int64 (sint a ^ nat (sint b)) = sint (a ^ unat b)" if "0 \<le> sint b"
  proof -
    have "uint b = sint b" using that sint_lt [of b] by (simp add: uint_sint take_bit_int_eq_self)
    from this [symmetric] have "nat (sint b) = unat b" by simp
    then show ?thesis by (simp add: int64_word of_int_power)
  qed
  then show ?thesis by (auto simp: power_of_def fails_with_def word_sless_alt)
qed

lemma truth_machine: "truth (sint (a :: machine_word)) AND truth (sint b) = sint (machine_bool (a \<noteq> 0 \<and> b \<noteq> (0 :: machine_word)))"
  "truth (sint a) OR truth (sint b) = sint (machine_bool (a \<noteq> 0 \<or> b \<noteq> 0))"
  using sint_zero_iff [of a] sint_zero_iff [of b] by (auto simp: truth_def machine_bool_def)

lemma int64_sint_ops:
  "int64 (sint a + sint b) = sint (a + b :: machine_word)" "int64 (sint a - sint b) = sint (a - b :: machine_word)"
  "int64 (sint a * sint b) = sint (a * b :: machine_word)" "int64 (- sint a) = sint (- a :: machine_word)"
  "int64 (sint a AND sint b) = sint (a AND b :: machine_word)" "int64 (sint a XOR sint b) = sint (a XOR b :: machine_word)"
  "int64 (sint a OR sint b) = sint (a OR b :: machine_word)" "int64 (NOT (sint a)) = sint (NOT a :: machine_word)"
  by (simp_all add: int64_word of_int_not_eq of_int_and_eq of_int_or_eq of_int_xor_eq)

lemma shift_right_machine: "int64 (drop_bit n (sint a)) = sint (signed_drop_bit n (a :: machine_word))"
  by (simp add: sint_signed_drop_bit_eq [symmetric])

lemma binary_operation_machine:
  "binary_operation operator (sint a) (sint b) = map_sum id sint (machine_operation operator a b)"
proof (cases "operator \<in> {Divide, Modulo, Power}")
  case True
  then show ?thesis using divide_machine power_machine by auto
next
  case False
  then show ?thesis
    by (cases operator) (simp_all add: int64_sint_ops int64_push shift_count shift_right_machine truth_machine
      word_sless_alt word_sle_eq sint_eq_iff)
qed

section \<open>Evaluation over machine words\<close>

type_synonym word_env = "jstring \<Rightarrow> machine_word option"
type_synonym machine_evaluation = "word_env \<Rightarrow> machine_word arithmetic \<times> word_env"

definition machine_then :: "machine_evaluation \<Rightarrow> (machine_word \<Rightarrow> machine_evaluation) \<Rightarrow> machine_evaluation" where
  "machine_then m f env = (case m env of (Inl e, env') \<Rightarrow> (Inl e, env') | (Inr w, env') \<Rightarrow> f w env')"

definition machine_return :: "machine_word arithmetic \<Rightarrow> machine_evaluation" where
  "machine_return r env = (r, env)"

definition machine_read :: "jstring \<Rightarrow> bool \<Rightarrow> machine_evaluation" where
  "machine_read x nounset env = (case env x of
     None \<Rightarrow> (if nounset then Inl (ShellNounsetError x) else Inr 0, env)
   | Some w \<Rightarrow> (Inr w, env))"

definition machine_set :: "jstring \<Rightarrow> machine_word \<Rightarrow> machine_word \<Rightarrow> machine_evaluation" where
  "machine_set x w result' env = (Inr result', env(x \<mapsto> w))"

definition machine_unary :: "ArithmeticOperator \<Rightarrow> machine_word \<Rightarrow> machine_word" where
  "machine_unary operator w =
     (if operator = Plus then w else if operator = Minus then - w
      else if operator = Bang then machine_bool (w = 0) else NOT w)"

fun machine_value :: "ArithmeticNode \<Rightarrow> bool \<Rightarrow> machine_evaluation"
and machine_last :: "ArithmeticNode list \<Rightarrow> machine_word \<Rightarrow> bool \<Rightarrow> machine_evaluation" where
  "machine_value (IntegerNode v) nounset = machine_return (Inr (word_of_int v))"
| "machine_value (VariableNode x) nounset = machine_read x nounset"
| "machine_value (UnaryNode operator operand) nounset =
     machine_then (machine_value operand nounset) (\<lambda>w. machine_return (Inr (machine_unary operator w)))"
| "machine_value (UpdateNode operator x prefix') nounset =
     machine_then (machine_read x nounset) (\<lambda>w.
     let w' = (if operator = Increment then w + 1 else w - 1) in machine_set x w' (if prefix' then w' else w))"
| "machine_value (BinaryNode operator left right) nounset =
     machine_then (machine_value left nounset) (\<lambda>a.
     if operator = AndAnd \<and> a = 0 then machine_return (Inr 0)
     else if operator = OrOr \<and> a \<noteq> 0 then machine_return (Inr 1)
     else machine_then (machine_value right nounset) (\<lambda>b. machine_return (machine_operation operator a b)))"
| "machine_value (ConditionalNode condition consequent alternate) nounset =
     machine_then (machine_value condition nounset) (\<lambda>c.
     if c = 0 then machine_value alternate nounset else machine_value consequent nounset)"
| "machine_value (AssignmentNode operator x value') nounset =
     (case ASSIGNMENT_BINARY operator of
        Some (Some operation) \<Rightarrow>
          machine_then (machine_read x nounset) (\<lambda>a.
          machine_then (machine_value value' nounset) (\<lambda>b.
          machine_then (machine_return (machine_operation operation a b)) (\<lambda>w. machine_set x w w)))
      | _ \<Rightarrow> machine_then (machine_value value' nounset) (\<lambda>w. machine_set x w w))"
| "machine_value (CommaNode expressions) nounset = machine_last expressions 0 nounset"
| "machine_last [] w nounset = machine_return (Inr w)"
| "machine_last (expression # expressions) w nounset =
     machine_then (machine_value expression nounset) (\<lambda>w. machine_last expressions w nounset)"

definition as_machine :: "int arithmetic \<times> shell_env \<Rightarrow> machine_word arithmetic \<times> word_env" where
  "as_machine r = (map_sum id word_of_int (fst r), machine_env (snd r))"

definition implements :: "bool \<Rightarrow> evaluation \<Rightarrow> machine_evaluation \<Rightarrow> bool" where
  "implements nounset m M \<longleftrightarrow> (\<forall>env. outcome nounset env (m env) \<and> M (machine_env env) = as_machine (m env))"

lemma implements_then:
  assumes "implements nounset m M" "\<And>v. in64 v \<Longrightarrow> implements nounset (f v) (F (word_of_int v))"
  shows "implements nounset (eval_then m f) (machine_then M F)"
  unfolding implements_def
proof (intro allI conjI)
  fix env
  show "outcome nounset env (eval_then m f env)"
    using assms by (intro outcome_then) (simp_all add: implements_def)
  obtain r env' where r: "m env = (r, env')" by fastforce
  show "machine_then M F (machine_env env) = as_machine (eval_then m f env)"
  proof (cases r)
    case (Inl e)
    with r assms(1) show ?thesis by (simp add: implements_def machine_then_def eval_then_def as_machine_def)
  next
    case (Inr v)
    then have "in64 v" using assms(1) r by (auto simp: implements_def outcome_def dest: spec [of _ env])
    with r Inr assms show ?thesis by (simp add: implements_def machine_then_def eval_then_def as_machine_def)
  qed
qed

lemma implements_evaluated: "in64 v \<Longrightarrow> w = word_of_int v \<Longrightarrow> implements nounset (evaluated v) (machine_return (Inr w))"
  by (simp add: implements_def outcome_evaluated) (simp add: evaluated_def machine_return_def as_machine_def)

lemma readVariable_some: "env x = Some s \<Longrightarrow> \<exists>v. \<forall>nounset. readVariable x env nounset = Inr v"
  by (auto simp: readVariable_def Let_def split: option.split)

lemma readVariable_none: "env x = None \<Longrightarrow> readVariable x env nounset = (if nounset then Inl (ShellNounsetError x) else Inr 0)"
  by (simp add: readVariable_def is_integer_text_def unsigned_part_def hex_prefix_def starts_with_def js_def)

lemma implements_read: "implements nounset (read_value x nounset) (machine_read x nounset)"
proof -
  have "machine_read x nounset (machine_env env) = as_machine (read_value x nounset env)" for env
  proof (cases "env x")
    case None
    then show ?thesis
      by (simp add: machine_read_def machine_env_def as_machine_def read_value_def readVariable_none)
  next
    case (Some s)
    then obtain v where "\<forall>nounset. readVariable x env nounset = Inr v" using readVariable_some by blast
    with Some show ?thesis by (simp add: machine_read_def machine_env_def as_machine_def read_value_def)
  qed
  then show ?thesis by (simp add: implements_def outcome_read)
qed

lemma readVariable_other: "y \<noteq> x \<Longrightarrow> readVariable y (env(x \<mapsto> s)) nounset = readVariable y env nounset"
  by (simp add: readVariable_def)

lemma machine_env_set: "in64 v \<Longrightarrow> machine_env (env(x \<mapsto> js_int v)) = (machine_env env)(x \<mapsto> word_of_int v)"
  by (rule ext) (auto simp: machine_env_def js_int_reads readVariable_other split: option.split)

lemma implements_set:
  "in64 v \<Longrightarrow> in64 u \<Longrightarrow> w = word_of_int v \<Longrightarrow> w' = word_of_int u \<Longrightarrow>
     implements nounset (set_value x v u) (machine_set x w w')"
  by (simp add: implements_def outcome_set) (simp add: set_value_def machine_set_def as_machine_def machine_env_set)

lemma implements_computed:
  assumes "BINARY_PRECEDENCE operator \<noteq> None" "in64 l" "in64 r"
  shows "implements nounset (computed (binary_operation operator l r)) (machine_return (machine_operation operator (word_of_int l) (word_of_int r)))"
proof -
  have "machine_operation operator (word_of_int l) (word_of_int r) = map_sum id word_of_int (binary_operation operator l r)"
    using binary_operation_machine [of operator "word_of_int l" "word_of_int r"] assms(2,3)
    by (cases "machine_operation operator (word_of_int l) (word_of_int r)") (simp_all add: in64_sint_of_int)
  then show ?thesis using assms(1) by (simp add: implements_def outcome_computed) (simp add: computed_def machine_return_def as_machine_def)
qed

lemma in64_zero_iff: "in64 v \<Longrightarrow> (word_of_int v :: machine_word) = 0 \<longleftrightarrow> v = 0"
  using in64_sint_of_int [of v] by auto

lemma unaryValue_machine: "in64 v \<Longrightarrow> machine_unary operator (word_of_int v) = word_of_int (unaryValue operator v)"
  by (auto simp: machine_unary_def unaryValue_def int64_word in64_zero_iff machine_bool_def of_int_not_eq)

lemma evaluation_implements:
  "operable n \<Longrightarrow> implements nounset (evaluateArithmetic n nounset) (machine_value n nounset)"
  "\<forall>e \<in> set es. operable e \<Longrightarrow> in64 v \<Longrightarrow> implements nounset (commaValue es v nounset) (machine_last es (word_of_int v) nounset)"
proof (induction n nounset and es v nounset rule: evaluateArithmetic_commaValue.induct)
  case (1 v nounset)
  then show ?case by (simp add: implements_evaluated int64_word)
next
  case (2 x nounset)
  then show ?case by (simp add: implements_read)
next
  case (3 operator operand nounset)
  then show ?case by (auto intro!: implements_then implements_evaluated unaryValue_in64 simp: unaryValue_machine)
next
  case (4 operator x prefix' nounset)
  have "word_of_int (int64 (v + (if operator = Increment then 1 else - 1))) =
    (if operator = Increment then word_of_int v + 1 else word_of_int v - 1 :: machine_word)" for v
    by (simp add: int64_word)
  then show ?case
    by (auto simp: updateValue_def Let_def intro!: implements_then implements_read implements_set)
next
  case (5 operator left right nounset)
  have right: "implements nounset (evaluateArithmetic right nounset) (machine_value right nounset)"
    using 5(2) [of 0] 5(2) [of 1] 5(3) by (cases "operator = AndAnd"; cases "operator = OrOr") auto
  from 5 show ?case
    by (auto simp: in64_zero_iff intro!: implements_then implements_evaluated implements_computed right)
next
  case (6 condition consequent alternate nounset)
  then have "implements nounset (if c = 0 then evaluateArithmetic alternate nounset else evaluateArithmetic consequent nounset)
    (if c = 0 then machine_value alternate nounset else machine_value consequent nounset)" for c :: int
    by auto
  with 6 show ?case by (auto simp: in64_zero_iff intro!: implements_then)
next
  case (7 operator x value' nounset)
  show ?case
  proof (cases "\<exists>operation. ASSIGNMENT_BINARY operator = Some (Some operation)")
    case True
    with 7 show ?thesis
      by (auto intro!: implements_then implements_read implements_computed implements_set assignment_operation)
  next
    case False
    with 7 show ?thesis by (auto split: option.split intro!: implements_then implements_set)
  qed
next
  case (8 expressions nounset)
  then show ?case by simp
next
  case (9 v nounset)
  then show ?case by (simp add: implements_evaluated)
next
  case (10 expression expressions v nounset)
  then show ?case by (auto intro!: implements_then)
qed

section \<open>Stored values\<close>

lemma eval_then_Inr: "eval_then m f env = (Inr v, env') \<longleftrightarrow> (\<exists>u env1. m env = (Inr u, env1) \<and> f u env1 = (Inr v, env'))"
  by (auto simp: eval_then_def split: prod.split sum.split)

lemma set_value_Inr: "set_value x u w env = (Inr v, env') \<longleftrightarrow> v = w \<and> env' = env(x \<mapsto> js_int u)"
  by (auto simp: set_value_def)

lemma evaluate_in64:
  "evaluateArithmetic n nounset env = (Inr v, env') \<Longrightarrow> in64 v"
  "in64 u \<Longrightarrow> commaValue es u nounset env = (Inr v, env') \<Longrightarrow> in64 v"
proof (induction n nounset and es u nounset arbitrary: env v env' and env v env' rule: evaluateArithmetic_commaValue.induct)
  case (7 operator x value' nounset)
  then show ?case
    by (auto simp: eval_then_Inr set_value_Inr computed_def split: option.splits dest: binary_operation_in64)
next
  case (10 expression expressions u nounset)
  from 10(4) obtain w env1 where "evaluateArithmetic expression nounset env = (Inr w, env1)"
    "commaValue expressions w nounset env1 = (Inr v, env')"
    by (auto simp: eval_then_Inr)
  with 10(1,2) show ?case by blast
qed (auto simp: eval_then_Inr set_value_Inr evaluated_def computed_def read_value_def updateValue_def Let_def
  split: if_splits dest: readVariable_in64 binary_operation_in64 unaryValue_in64)

lemma assignment_stores:
  "evaluateArithmetic (AssignmentNode operator x n) nounset env = (Inr v, env') \<Longrightarrow> in64 v \<and> env' x = Some (js_int v)"
  by (auto simp: eval_then_Inr set_value_Inr computed_def split: option.splits dest: binary_operation_in64 evaluate_in64)

section \<open>Properties\<close>

lemma parsed_operable: "parseArithmetic source maximumNodes maximumDepth = Inr r \<Longrightarrow> operable (pa_node r)"
  using parseArithmetic_Inr(1) derives_operable(1) by blast

text \<open>
  C21. Evaluation stays in 64 bits. Any expression that parses evaluates to a signed 64-bit value or
  reports a division by zero or a negative exponent (\<open>EINVAL\<close>), an exponent that is too large
  (\<open>E2BIG\<close>) or, only under \<open>nounset\<close>, a variable that is not set; and every variable still has its
  text or the decimal text of a 64-bit value.
\<close>

theorem evaluation_stays_in_64_bits:
  "case parseArithmetic source maximumNodes maximumDepth of
     Inl _ \<Rightarrow> True
   | Inr r \<Rightarrow>
       let (result, env') = evaluateArithmetic (pa_node r) nounset env in
       (case result of
          Inr v \<Rightarrow> - (2 ^ 63) \<le> v \<and> v < 2 ^ 63
        | Inl e \<Rightarrow> e = ArithmeticFailure (VfsError EINVAL None) \<or> e = ArithmeticFailure (VfsError E2BIG None) \<or>
            nounset \<and> (\<exists>x. e = ShellNounsetError x)) \<and>
       (\<forall>x. env' x = env x \<or> (\<exists>v. - (2 ^ 63) \<le> v \<and> v < 2 ^ 63 \<and> env' x = Some (js_int v)))"
proof (cases "parseArithmetic source maximumNodes maximumDepth")
  case (Inr r)
  from evaluate_outcome(1) [OF parsed_operable [OF this], of nounset env]
  have "outcome nounset env (evaluateArithmetic (pa_node r) nounset env)" .
  then show ?thesis unfolding Inr outcome_def in64_def trouble_def restored_def
    by (simp add: split_beta Let_def)
qed simp

text \<open>
  What is stored reads back. After an assignment that succeeds, the variable reads as the value
  of the expression, and after an increment or a decrement it reads as the 64-bit neighbour of what
  it read before, which the postfix form returns and the prefix form does not.
\<close>

theorem stored_values_read_back:
  "(case evaluateArithmetic (AssignmentNode operator x n) nounset env of
     (Inr v, env') \<Rightarrow> readVariable x env' nounset' = Inr v
   | (Inl _, _) \<Rightarrow> True) \<and>
   (case evaluateArithmetic (UpdateNode operator x prefix') nounset env of
     (Inr v, env') \<Rightarrow> \<exists>old.
       let new = int64 (if operator = Increment then old + 1 else old - 1) in
       readVariable x env nounset = Inr old \<and> env' = env(x \<mapsto> js_int new) \<and> readVariable x env' nounset' = Inr new \<and>
       v = (if prefix' then new else old)
   | (Inl e, env') \<Rightarrow> readVariable x env nounset = Inl e \<and> env' = env)"
proof -
  have "readVariable x env' nounset' = Inr v" if "evaluateArithmetic (AssignmentNode operator x n) nounset env = (Inr v, env')" for v env'
    using that assignment_stores js_int_reads by blast
  then show ?thesis
    by (auto simp: updateValue_def eval_then_def read_value_def set_value_def Let_def js_int_reads split: prod.split sum.split)
qed

text \<open>
  C20. The evaluator implements machine arithmetic. For any expression that parses, evaluating over
  decimal texts and unbounded integers cut to 64 bits gives what evaluating the same tree over 64-bit
  machine words gives, with the words that the environment's texts denote: wrapping sums, differences
  and products, arithmetic shifts by the low six bits of the count, signed comparisons and division
  that rounds towards zero.
\<close>

theorem evaluator_implements_machine_words:
  "case parseArithmetic source maximumNodes maximumDepth of
     Inl _ \<Rightarrow> True
   | Inr r \<Rightarrow> machine_value (pa_node r) nounset (machine_env env) =
       (let (result, env') = evaluateArithmetic (pa_node r) nounset env in
        (map_sum id word_of_int result, machine_env env'))"
proof (cases "parseArithmetic source maximumNodes maximumDepth")
  case (Inr r)
  from evaluation_implements(1) [OF parsed_operable [OF this], of nounset]
  show ?thesis unfolding Inr by (simp add: implements_def as_machine_def split_beta)
qed simp

end
