(* ===== verification/Spec2Isabelle.thy ===== *)
theory Spec2Isabelle
  imports Patch_Roundtrip Text_Edits Registry Byte_Streams Vfs_Resolution Vfs_Authority Vfs_Follow Shell_Pattern Shell_Evaluation
begin

text \<open>
  A verification library for cf-vfs, a filesystem in the SQLite database of a Durable Object with
  an in-memory shell above it. All paths below are under \<open>src/\<close> of the repository. The library
  follows the layers of the program from the pure ones up to sessions of concurrent writers.

  Conventions. A JavaScript string is the list of its UTF-16 code units (\<open>jstring\<close>), a byte array
  a list of \<open>8 word\<close>, a mode a \<open>32 word\<close>; sizes and versions are \<open>nat\<close>, which the code keeps
  below \<open>MAX_SAFE_INTEGER\<close>. A function that may throw returns \<open>js_error + 'a\<close>; messages are left
  out, the error code and the path are kept. An operation of the filesystem is a function of the
  whole state \<open>Vfs\<close> that returns a result and the next state (\<open>bind_op\<close>, \<open>return_op\<close>,
  \<open>throw_op\<close>), so a throw keeps the state it was thrown in and only \<open>transaction\<close> takes it back.
  Where an \<open>async\<close> function awaits, it is cut into the operations before and after.

  \<^bold>\<open>Strings and paths.\<close> \<open>Unicode\<close> models \<open>core/unicode.ts\<close>: code points, UTF-8 and the byte order
  of strings, with the scans and \<open>compareUtf8\<close> equal to their definition over decoded text.
  \<open>Paths\<close> models \<open>core/path.ts\<close> and \<open>vfs/traversal.ts\<close>: normalising gives canonical paths, and the
  three subtree tests agree, the database's range of keys included.

  \<^bold>\<open>Texts.\<close> \<open>Line_Diff\<close>, \<open>Unified_Patch\<close> and \<open>Patch_Roundtrip\<close> model \<open>core/lines.ts\<close>,
  \<open>core/line-diff.ts\<close> and \<open>core/unified-patch.ts\<close>: the table is the longest common subsequence, the
  script is shortest, and what is rendered applies. \<open>Text_Edits\<close> models \<open>collab/edits.ts\<close> and
  \<open>collab/merge.ts\<close> with the three-way merge as the splicing of both sides' edits; its locale
  \<open>edit_source\<close> states what the merge needs of an edit script. \<open>Registry\<close> models
  \<open>collab/registry.ts\<close> as a map to shared entries, its events as a step relation.

  \<^bold>\<open>Bodies.\<close> \<open>Byte_Streams\<close> models \<open>vfs/streams.ts\<close>, \<open>vfs/buffering.ts\<close> and \<open>vfs/range.ts\<close>: slabs of
  fixed width, the budget of bytes in flight, and collection under it; the locale
  \<open>budget_interface\<close> states what a collection needs of a budget.

  \<^bold>\<open>The filesystem.\<close> \<open>Vfs_State\<close> holds the rows, the tables and the instance
  (\<open>vfs/sql-model.ts\<close>, \<open>vfs/sql-schema.ts\<close>, \<open>vfs/config.ts\<close>, \<open>vfs/events.ts\<close>). \<open>Vfs_Base\<close> models
  permissions, tokens and transactions (\<open>vfs/sql-posix.ts\<close>, \<open>vfs/sql-base.ts\<close>), \<open>Vfs_Path\<close> the
  resolution of paths and the guards (\<open>vfs/sql-path-base.ts\<close>), \<open>Vfs_Mutation\<close> usage, capacity,
  parents and chunks (\<open>vfs/sql-mutation-base.ts\<close>, \<open>vfs/sql-content-base.ts\<close>), \<open>Vfs_Write\<close> writes
  and appends (\<open>vfs/sql-write-plan-base.ts\<close>, \<open>vfs/sql-write-base.ts\<close>), \<open>Vfs_Read\<close> reads
  (\<open>vfs/sql-read-base.ts\<close>), \<open>Vfs_Names\<close> directories, links and removal
  (\<open>vfs/sql-metadata-base.ts\<close>, \<open>vfs/sql-move-base.ts\<close>), \<open>Vfs_Metadata\<close> modes, times, owners and
  \<open>touch\<close> (\<open>vfs/sql-metadata-base.ts\<close>), \<open>Vfs_Moving\<close> moves (\<open>vfs/sql-move-base.ts\<close>).

  \<^bold>\<open>What is shown of it.\<close> \<open>Vfs_Resolution\<close>: resolution ends. Its two loops call each other, so
  the model has fuel; \<open>resolve_fuel\<close> is the number of components of a path of \<open>MAX_PATH_BYTES\<close>
  bytes, with room for the calls between, for each of \<open>MAX_SYMLINK_HOPS\<close> rounds, and a rank that
  drops with every call stays below it. The other fuels (\<open>fill_slab\<close>, \<open>missing_parents\<close>,
  \<open>add_parents\<close>, \<open>ancestor_chain\<close>) are lengths of what the loop consumes, and the lemmas next to
  them show that they are never used up. \<open>Vfs_Effects\<close>, \<open>Vfs_Chunks\<close>, \<open>Vfs_Tree\<close>, \<open>Vfs_Rows\<close>,
  \<open>Vfs_Rollback\<close> are the calculus: \<open>silent\<close> operations change no row, \<open>vpost\<close> says what an
  operation that returns has done to the tables (a \<open>View\<close>), \<open>stays\<close> what holds in either outcome.
  The tables are \<open>sound\<close> when the entries are a tree, each file's chunks are consecutive slabs of
  exactly its size, stored digests are those of the bodies, and usage counts every row; \<open>fs\<close> is
  what they mean, a map from paths to directories, bytes, links and objects; \<open>evolves\<close> says that
  contents change only with a higher version. \<open>Vfs_Commit\<close>, \<open>Vfs_Writes\<close>, \<open>Vfs_Appends\<close>,
  \<open>Vfs_Removal\<close>, \<open>Vfs_Removed\<close> and \<open>Vfs_Placing\<close> show that each operation is a simple function on
  \<open>fs\<close>; \<open>Vfs_Moved\<close>, \<open>Vfs_Moves\<close> and \<open>Vfs_Renaming\<close> that a move is a renaming of paths. A move keeps
  the identity of a row and may lower its version, so a path's version only grows (\<open>ages\<close>) while a
  row's need not (\<open>evolves\<close>); for this reason moves are no steps of \<open>Vfs_Session\<close>, and the row
  that the last read left behind can stand for another path after a move: \<open>Vfs_Follow\<close> runs a
  guarded write that overwrites the moved file. \<open>Vfs_Session\<close> is the step relation of a filesystem whose plans, bodies, appends and reads
  wait while others run; \<open>Vfs_Promises\<close>, \<open>Vfs_Contents\<close> and \<open>Vfs_Authority\<close> (who may
  change modes and owners) hold the properties, \<open>Vfs_Success\<close> and
  \<open>Vfs_Liveness\<close> that writes, appends and reads within the limits are not refused.

  \<^bold>\<open>The shell's small languages.\<close> \<open>Shell_Pattern\<close> models \<open>shell/pattern.ts\<close> and \<open>core/bracket.ts\<close>
  with the work each step charges to a budget: the table of matches is the recursive definition of
  globbing, a removal takes off the extremal match and a replacement the leftmost longest ones.
  \<open>Shell_Arithmetic\<close> models \<open>shell/arithmetic-lexer.ts\<close> and \<open>shell/arithmetic.ts\<close>; the methods of the
  parser call each other with fuel, eight for each token that is left and eight more
  (\<open>parse_fuel\<close>), since at most seven calls go by before one reads a token. \<open>Shell_Grammar\<close> shows
  that it is never used up and that a tree that is returned is derived from the tokens in a grammar
  of the operators' precedences; \<open>Shell_Evaluation\<close> that evaluation over texts and integers is
  evaluation over 64-bit machine words.

  \<^bold>\<open>What is a parameter.\<close> \<open>sha256Hex\<close> is any function; a write that is skipped because its digest
  is the stored one assumes that the two bodies do not collide (\<open>no_collision\<close>). \<open>databaseSize\<close> is
  SQLite's own figure. A removal and a move assume that paths have no lone surrogates
  (\<open>utf8_paths\<close>), as text in SQLite has none; a move also that the new paths are within
  \<open>MAX_PATH_BYTES\<close> (\<open>names_fit\<close>), which the code does not check for what is below the source.

  \<^bold>\<open>Not modelled.\<close> Hard links and inodes held open (\<open>fs/hard-links.ts\<close>): every row of a sound table
  is its own inode, and the triggers on shared ones are left out. Caches that only save statements
  (traversed directories, the count of links, the layout of chunks) and the migrations of older
  databases. The collection of a body is one operation, though the body may yield between its
  chunks. Copies, queries, opaque objects in R2 with their uploads and
  the collector, the digest cache's own writer, file handles, the node API, RPC, and of the shell its command
  parser, the other expansions, execution, the commands and jq: further parts that the library does
  not reach, or glue over services that cannot be read here. Limits of the engine itself (the call
  stack, the longest string, the largest \<open>bigint\<close>) are outside the model, except where the code
  counts for itself.
\<close>

end
